(* ===== verification/Double.thy ===== *)
theory Double
  imports Complex_Main
begin

text \<open>
  The arithmetic of JavaScript numbers where the code divides: a result is the exact one rounded to 53 bits,
  to the nearest, ties to even. \<open>fl\<close> rounds, so an operation \<open>a + b\<close> of the code is \<open>fl (a + b)\<close> here. The
  exponent is not bounded: \<open>fl\<close> is the rounding of binary64 between \<open>2 ^ -1022\<close> and \<open>2 ^ 1024\<close>, and what the limiter
  computes with - times, counters and their quotients - is far inside. An integer of at most 53 bits is its own double.
\<close>

subsection \<open>Rounding\<close>

function bits :: "int \<Rightarrow> nat" where
  "bits n = (if n \<le> 0 then 0 else Suc (bits (n div 2)))"
  by auto
termination by (relation "measure nat") auto

declare bits.simps [simp del]

text \<open>\<open>2 ^ expo x \<le> \<bar>x\<bar> < 2 ^ (expo x + 1)\<close>, from the lengths of numerator and denominator.\<close>

definition expo :: "rat \<Rightarrow> int" where
  "expo x = (let (a, b) = quotient_of \<bar>x\<bar>; k = int (bits a) - int (bits b) in if 2 powi k \<le> \<bar>x\<bar> then k else k - 1)"

text \<open>To the nearest integer, ties to even.\<close>

definition rne :: "rat \<Rightarrow> int" where
  "rne x = (let f = \<lfloor>x\<rfloor>; d = x - of_int f in if d < 1 / 2 \<or> d = 1 / 2 \<and> even f then f else f + 1)"

definition fl :: "rat \<Rightarrow> rat" where
  "fl x = (if x = 0 then 0 else let u = 2 powi (expo x - 52) in of_int (rne (x / u)) * u)"

subsection \<open>The exponent\<close>

lemma bits_bounds: "0 < n \<Longrightarrow> 0 < bits n \<and> 2 ^ (bits n - 1) \<le> n \<and> n < 2 ^ bits n"
proof (induction n rule: bits.induct)
  case (1 n)
  have b: "bits n = Suc (bits (n div 2))" using 1(2) by (simp add: bits.simps [of n])
  show ?case
  proof (cases "n div 2 = 0")
    case True
    then have "n = 1" using 1(2) by linarith
    moreover have "bits 1 = 1" by (simp add: bits.simps [of 1] bits.simps [of 0])
    ultimately show ?thesis by simp
  next
    case False
    then have "0 < n div 2" using 1(2) by linarith
    with 1 have ih: "0 < bits (n div 2)" "2 ^ (bits (n div 2) - 1) \<le> n div 2" "n div 2 < 2 ^ bits (n div 2)" by auto
    have "(2 :: int) ^ bits (n div 2) = 2 * 2 ^ (bits (n div 2) - 1)" using ih(1) by (simp flip: power_Suc)
    then have "2 ^ bits (n div 2) \<le> n" using ih(2) by linarith
    moreover have "n < 2 * 2 ^ bits (n div 2)" using ih(3) by linarith
    ultimately show ?thesis by (simp add: b)
  qed
qed

abbreviation two :: "int \<Rightarrow> rat" where
  "two k \<equiv> 2 powi k"

lemma two_pos [simp]: "0 < two k"
  by simp

lemma two_less [simp]: "two j < two k \<longleftrightarrow> j < k"
  by (metis linorder_not_less nle_le not_less_iff_gr_or_eq one_less_numeral_iff power_int_strict_increasing semiring_norm(76))

lemma two_le [simp]: "two j \<le> two k \<longleftrightarrow> j \<le> k"
  by (meson linorder_not_less two_less)

lemma two_add: "two (j + k) = two j * two k"
  by (simp add: power_int_add)

lemma two_nat: "two (int n) = 2 ^ n"
  by simp

lemma expo:
  assumes "x \<noteq> 0"
  shows "two (expo x) \<le> \<bar>x\<bar>" and "\<bar>x\<bar> < two (expo x + 1)"
proof -
  obtain a b where q: "quotient_of \<bar>x\<bar> = (a, b)" by force
  have b: "0 < b" using quotient_of_denom_pos [OF q] .
  have x: "\<bar>x\<bar> = of_int a / of_int b" using quotient_of_div [OF q] .
  then have a: "0 < a" using assms b by (metis of_int_0_less_iff zero_less_abs_iff zero_less_divide_iff order_less_asym)
  define i j where "i = bits a" and "j = bits b"
  have ij: "0 < i" "2 ^ (i - 1) \<le> a" "a < 2 ^ i" "0 < j" "2 ^ (j - 1) \<le> b" "b < 2 ^ j"
    using bits_bounds [OF a] bits_bounds [OF b] by (simp_all add: i_def j_def)
  have qa: "two (int i - 1) \<le> of_int a" "of_int a < two (int i)"
  proof -
    have "(of_int (2 ^ (i - 1)) :: rat) \<le> of_int a" "(of_int a :: rat) < of_int (2 ^ i)" using ij by (simp_all only: of_int_le_iff of_int_less_iff)
    then show "two (int i - 1) \<le> of_int a" "of_int a < two (int i)" using ij(1) two_nat [of "i - 1"] two_nat [of i] by (simp_all add: of_nat_diff)
  qed
  have qb: "two (int j - 1) \<le> of_int b" "of_int b < two (int j)"
  proof -
    have "(of_int (2 ^ (j - 1)) :: rat) \<le> of_int b" "(of_int b :: rat) < of_int (2 ^ j)" using ij by (simp_all only: of_int_le_iff of_int_less_iff)
    then show "two (int j - 1) \<le> of_int b" "of_int b < two (int j)" using ij(4) two_nat [of "j - 1"] two_nat [of j] by (simp_all add: of_nat_diff)
  qed
  define k where "k = int i - int j"
  have low: "two (k - 1) \<le> \<bar>x\<bar>"
  proof -
    have "two (k - 1) * of_int b \<le> two (k - 1) * two (int j)" using qb(2) by (intro mult_left_mono) simp_all
    also have "\<dots> = two (int i - 1)" by (subst two_add [symmetric]) (simp add: k_def)
    also have "\<dots> \<le> of_int a" by (rule qa(1))
    finally show ?thesis using b by (simp add: x pos_le_divide_eq)
  qed
  have high: "\<bar>x\<bar> < two (k + 1)"
  proof -
    have "of_int a < two (int i)" by (rule qa(2))
    also have "\<dots> = two (k + 1) * two (int j - 1)" by (subst two_add [symmetric]) (simp add: k_def)
    also have "\<dots> \<le> two (k + 1) * of_int b" using qb(1) by (intro mult_left_mono) simp_all
    finally show ?thesis using b by (simp add: x pos_divide_less_eq)
  qed
  have e: "expo x = (if two k \<le> \<bar>x\<bar> then k else k - 1)" by (simp add: expo_def q i_def j_def k_def)
  show "two (expo x) \<le> \<bar>x\<bar>" "\<bar>x\<bar> < two (expo x + 1)" using low high by (simp_all add: e)
qed

lemma expo_mono:
  assumes "x \<noteq> 0" and "\<bar>x\<bar> \<le> \<bar>y\<bar>"
  shows "expo x \<le> expo y"
proof -
  have "y \<noteq> 0" using assms by auto
  have "two (expo x) < two (expo y + 1)" using expo(1) [OF assms(1)] expo(2) [OF \<open>y \<noteq> 0\<close>] assms(2) by linarith
  then show ?thesis by simp
qed

lemma expo_unique:
  assumes "two k \<le> \<bar>x\<bar>" and "\<bar>x\<bar> < two (k + 1)"
  shows "expo x = k"
proof -
  have "x \<noteq> 0" using assms(1) two_pos [of k] by fastforce
  from expo [OF this] assms have "two k < two (expo x + 1)" "two (expo x) < two (k + 1)" by linarith+
  then show ?thesis by simp
qed

lemma expo_minus [simp]: "expo (- x) = expo x"
  by (simp add: expo_def)

subsection \<open>Nearest integers\<close>

lemma rne_cases: "rne x = \<lfloor>x\<rfloor> \<or> rne x = \<lfloor>x\<rfloor> + 1"
  by (simp add: rne_def Let_def)

lemma rne_error: "\<bar>of_int (rne x) - x\<bar> \<le> 1 / 2"
proof -
  define d where "d = x - of_int \<lfloor>x\<rfloor>"
  have "0 \<le> d" "d < 1" by (simp_all add: d_def) linarith
  then show ?thesis by (simp add: rne_def Let_def flip: d_def) (auto simp: d_def)
qed

lemma rne_int [simp]: "rne (of_int n) = n"
  by (simp add: rne_def)

lemma rne_mono:
  assumes "x \<le> y"
  shows "rne x \<le> rne y"
proof (cases "\<lfloor>x\<rfloor> = \<lfloor>y\<rfloor>")
  case True
  then show ?thesis using assms by (auto simp: rne_def Let_def)
next
  case False
  then have "\<lfloor>x\<rfloor> + 1 \<le> \<lfloor>y\<rfloor>" using floor_mono [OF assms] by linarith
  then show ?thesis using rne_cases [of x] rne_cases [of y] by linarith
qed

lemma rne_minus: "rne (- x) = - rne x"
proof (cases "x = of_int \<lfloor>x\<rfloor>")
  case True
  then show ?thesis by (metis of_int_minus rne_int)
next
  case False
  then have "\<lfloor>- x\<rfloor> = - \<lfloor>x\<rfloor> - 1" by (simp add: floor_eq_iff) linarith
  moreover have "- x - of_int (- \<lfloor>x\<rfloor> - 1) = 1 - (x - of_int \<lfloor>x\<rfloor>)" by simp
  ultimately show ?thesis by (auto simp: rne_def Let_def)
qed

subsection \<open>The laws of rounding\<close>

lemma fl_0 [simp]: "fl 0 = 0"
  by (simp add: fl_def)

lemma fl_minus: "fl (- x) = - fl x"
  by (simp add: fl_def Let_def rne_minus)

text \<open>A number of 53 bits is rounded to itself.\<close>

lemma fl_exact:
  assumes "x = of_int m * two (expo x - 52)"
  shows "fl x = x"
proof -
  have "x / two (expo x - 52) = of_int m" by (subst assms) simp
  then show ?thesis using assms by (simp add: fl_def Let_def)
qed

lemma fl_int:
  assumes "\<bar>n\<bar> \<le> 2 ^ 53"
  shows "fl (of_int n) = of_int n"
proof (cases "n = 0 \<or> expo (of_int n) \<le> 52")
  case True
  then show ?thesis
  proof (elim disjE)
    assume e: "expo (of_int n) \<le> 52"
    define j where "j = nat (52 - expo (of_int n))"
    have "two (52 - expo (of_int n)) = of_int (2 ^ j)" using e by (simp add: j_def power_int_def)
    then have "of_int (n * 2 ^ j) * two (expo (of_int n) - 52) = of_int n * (two (52 - expo (of_int n)) * two (expo (of_int n) - 52))"
      by simp
    also have "\<dots> = of_int n" by (simp flip: two_add)
    finally show ?thesis by (metis fl_exact)
  qed simp
next
  case False
  have n: "\<bar>of_int n :: rat\<bar> \<le> 2 ^ 53" using assms by (metis of_int_abs of_int_le_iff of_int_numeral of_int_power)
  have "two 53 \<le> two (expo (of_int n))" using False by (subst two_le) simp
  also have "\<dots> \<le> \<bar>of_int n\<bar>" using expo(1) [of "of_int n"] False by simp
  finally have "\<bar>of_int n :: rat\<bar> = 2 ^ 53" using n two_nat [of 53] by simp
  then have "\<bar>n\<bar> = 2 ^ 53" by (metis of_int_abs of_int_eq_iff of_int_numeral of_int_power)
  moreover have "fl (of_int (2 ^ 53)) = of_int (2 ^ 53)"
  proof -
    have "expo (of_int (2 ^ 53)) = 53" using two_nat [of 53] two_nat [of 54] by (intro expo_unique) simp_all
    then show ?thesis by (intro fl_exact [of _ "2 ^ 52"]) (simp add: power_int_def)
  qed
  ultimately show ?thesis
  proof (cases "0 \<le> n")
    case False
    then have "n = - (2 ^ 53)" using \<open>\<bar>n\<bar> = 2 ^ 53\<close> by simp
    then show ?thesis using \<open>fl (of_int (2 ^ 53)) = of_int (2 ^ 53)\<close> fl_minus [of "of_int (2 ^ 53)"] by (metis of_int_minus)
  qed simp
qed

text \<open>The relative error is at most half a unit of the last place.\<close>

lemma fl_error: "\<bar>fl x - x\<bar> \<le> \<bar>x\<bar> / 2 ^ 53"
proof (cases "x = 0")
  case False
  define u where "u = two (expo x - 52)"
  have u: "0 < u" by (simp add: u_def)
  have "fl x - x = (of_int (rne (x / u)) - x / u) * u" using False u by (simp add: fl_def u_def Let_def field_simps)
  then have "\<bar>fl x - x\<bar> = \<bar>of_int (rne (x / u)) - x / u\<bar> * u" using u by (simp add: abs_mult)
  also have "\<dots> \<le> 1 / 2 * u" using rne_error u by (intro mult_right_mono) simp_all
  also have "\<dots> = two (expo x) / 2 ^ 53" using two_add [of "expo x" "-52"] by (simp add: u_def power_int_minus)
  also have "\<dots> \<le> \<bar>x\<bar> / 2 ^ 53" using expo(1) [OF False] by (simp add: divide_right_mono)
  finally show ?thesis .
qed simp

lemma fl_nonneg:
  assumes "0 \<le> x"
  shows "0 \<le> fl x"
proof -
  have "0 \<le> rne y" if "0 \<le> y" for y using rne_mono [OF that] rne_int [of 0] by simp
  then show ?thesis using assms by (simp add: fl_def Let_def)
qed

lemma fl_between:
  assumes "0 < x"
  shows "two (expo x) \<le> fl x" and "fl x \<le> two (expo x + 1)"
proof -
  define u where "u = two (expo x - 52)"
  have u: "0 < u" "two (expo x) = 2 ^ 52 * u" "two (expo x + 1) = 2 ^ 53 * u"
    using two_add [of 52 "expo x - 52"] two_add [of 53 "expo x - 52"] two_nat [of 52] two_nat [of 53] by (simp_all add: u_def add.commute)
  have x: "2 ^ 52 \<le> x / u" "x / u \<le> 2 ^ 53" using expo [of x] assms u by (simp_all add: pos_le_divide_eq pos_divide_le_eq)
  have "rne (of_int (2 ^ 52)) \<le> rne (x / u)" "rne (x / u) \<le> rne (of_int (2 ^ 53))" using x by (auto intro!: rne_mono)
  then have "2 ^ 52 \<le> rne (x / u)" "rne (x / u) \<le> 2 ^ 53" by (simp_all only: rne_int)
  then have "(of_int (2 ^ 52) :: rat) \<le> of_int (rne (x / u))" "(of_int (rne (x / u)) :: rat) \<le> of_int (2 ^ 53)" by (simp_all only: of_int_le_iff)
  then show "two (expo x) \<le> fl x" "fl x \<le> two (expo x + 1)"
    using assms u by (simp_all add: fl_def Let_def flip: u_def)
qed

lemma fl_mono_pos:
  assumes "0 < x" and "x \<le> y"
  shows "fl x \<le> fl y"
proof (cases "expo x = expo y")
  case True
  have "x / two (expo y - 52) \<le> y / two (expo y - 52)" using assms(2) by (simp add: divide_right_mono)
  from rne_mono [OF this] show ?thesis using assms True by (simp add: fl_def Let_def mult_right_mono)
next
  case False
  then have "expo x + 1 \<le> expo y" using expo_mono [of x y] assms by simp
  then have "two (expo x + 1) \<le> two (expo y)" by simp
  then show ?thesis using fl_between(2) [of x] fl_between(1) [of y] assms by linarith
qed

lemma fl_mono:
  assumes "x \<le> y"
  shows "fl x \<le> fl y"
proof -
  consider "0 < x" | "x = 0" | "x < 0" "0 \<le> y" | "y < 0" using assms by linarith
  then show ?thesis
  proof cases
    case 3
    then show ?thesis using fl_nonneg [of y] fl_nonneg [of "- x"] by (simp add: fl_minus)
  next
    case 4
    then show ?thesis using fl_mono_pos [of "- y" "- x"] assms by (simp add: fl_minus)
  qed (use assms fl_mono_pos fl_nonneg in simp_all)
qed

lemma fl_le_int:
  assumes "x \<le> of_int n" and "\<bar>n\<bar> \<le> 2 ^ 53"
  shows "fl x \<le> of_int n"
  using fl_mono [OF assms(1)] fl_int [OF assms(2)] by simp

lemma fl_ge_int:
  assumes "of_int n \<le> x" and "\<bar>n\<bar> \<le> 2 ^ 53"
  shows "of_int n \<le> fl x"
  using fl_mono [OF assms(1)] fl_int [OF assms(2)] by simp

text \<open>The error in absolute terms, for an operand of known size.\<close>

lemma fl_close:
  assumes "\<bar>x\<bar> \<le> B"
  shows "x - B / 2 ^ 53 \<le> fl x" and "fl x \<le> x + B / 2 ^ 53"
proof -
  have "\<bar>fl x - x\<bar> \<le> B / 2 ^ 53" using fl_error [of x] assms by (meson divide_right_mono order_trans zero_le_numeral zero_le_power)
  then show "x - B / 2 ^ 53 \<le> fl x" "fl x \<le> x + B / 2 ^ 53" by linarith+
qed

subsection \<open>Where rounding does not show\<close>

text \<open>\<open>Math.floor(a / b)\<close> and \<open>Math.ceil(a / b)\<close> of integers are exact while \<open>a\<close> has 53 bits.\<close>

lemma floor_quotient:
  assumes "0 \<le> a" and "a < 2 ^ 53" and "0 < b"
  shows "\<lfloor>fl (of_int a / of_int b)\<rfloor> = a div b"
proof -
  let ?q = "of_int :: int \<Rightarrow> rat" and ?d = "a div b"
  have d: "0 \<le> ?d" "?d \<le> a" using assms int_div_le_self [of a b] by (cases "a = 0"; simp add: pos_imp_zdiv_nonneg_iff)+
  have b: "0 < ?q b" using assms(3) by simp
  have "b * ?d \<le> a" "a < b * (?d + 1)"
    using mult_div_mod_eq [of b a] pos_mod_sign [OF assms(3), of a] pos_mod_bound [OF assms(3), of a] by (simp_all only: distrib_left mult_1_right)
  then have "b * ?d \<le> a" "a + 1 \<le> b * (?d + 1)" by simp_all
  then have lo: "?q b * ?q ?d \<le> ?q a" and hi: "?q a + 1 \<le> ?q b * (?q ?d + 1)"
    by (metis of_int_le_iff of_int_mult, metis of_int_1 of_int_add of_int_le_iff of_int_mult)
  have "?q ?d \<le> fl (?q a / ?q b)"
    using lo b d assms(2) by (intro fl_ge_int) (simp_all add: pos_le_divide_eq mult.commute)
  moreover have "fl (?q a / ?q b) < ?q ?d + 1"
  proof -
    have "\<bar>fl (?q a / ?q b) - ?q a / ?q b\<bar> \<le> ?q a / ?q b / 2 ^ 53" using fl_error [of "?q a / ?q b"] assms b by simp
    moreover have "?q a / ?q b / 2 ^ 53 < 1 / ?q b"
    proof -
      have "?q a < 2 ^ 53" using assms(2) by (metis of_int_less_iff of_int_numeral of_int_power)
      then show ?thesis using b by (simp add: field_simps)
    qed
    moreover have "?q a / ?q b + 1 / ?q b \<le> ?q ?d + 1" using hi b by (simp add: pos_divide_le_eq algebra_simps flip: add_divide_distrib)
    ultimately show ?thesis by linarith
  qed
  ultimately show ?thesis by (simp add: floor_eq_iff)
qed

lemma ceiling_quotient:
  assumes "0 \<le> a" and "a < 2 ^ 53" and "0 < b"
  shows "\<lceil>fl (of_int a / of_int b)\<rceil> = \<lceil>of_int a / (of_int b :: rat)\<rceil>"
proof -
  let ?q = "of_int :: int \<Rightarrow> rat" and ?c = "\<lceil>of_int a / (of_int b :: rat)\<rceil>"
  have b: "0 < ?q b" using assms(3) by simp
  have hi: "?q a / ?q b \<le> ?q ?c" and lo: "?q ?c - 1 < ?q a / ?q b" by linarith+
  have "0 \<le> ?q a / ?q b" using assms(1) b by simp
  then have "?q (- 1) < ?q a / ?q b" by (metis less_le_trans of_int_0 of_int_less_iff neg_less_0_iff_less zero_less_one)
  then have "- 1 < ?c" by (simp only: less_ceiling_iff)
  then have c: "0 \<le> ?c" by linarith
  have "?c \<le> a"
  proof -
    have "?q a / ?q b \<le> ?q a" using assms b by (simp add: pos_divide_le_eq mult_le_cancel_left1)
    then show ?thesis by (simp add: ceiling_le_iff)
  qed
  then have "\<bar>?c\<bar> \<le> 2 ^ 53" using c assms(2) by linarith
  then have "fl (?q a / ?q b) \<le> ?q ?c" by (rule fl_le_int [OF hi])
  moreover have "?q ?c - 1 < fl (?q a / ?q b)"
  proof -
    have "(?q ?c - 1) * ?q b < ?q a" using lo b by (simp add: pos_less_divide_eq)
    then have "?q ((?c - 1) * b) < ?q a" by simp
    then have "(?c - 1) * b + 1 \<le> a" by (simp only: of_int_less_iff)
    then have "?q ((?c - 1) * b + 1) \<le> ?q a" by (simp only: of_int_le_iff)
    then have "((?q ?c - 1) * ?q b + 1) / ?q b \<le> ?q a / ?q b" using b by (intro divide_right_mono) simp_all
    moreover have "((?q ?c - 1) * ?q b + 1) / ?q b = ?q ?c - 1 + 1 / ?q b" using b by (simp add: add_divide_distrib)
    ultimately have "?q ?c - 1 + 1 / ?q b \<le> ?q a / ?q b" by (simp only:)
    moreover have "\<bar>fl (?q a / ?q b) - ?q a / ?q b\<bar> \<le> ?q a / ?q b / 2 ^ 53" using fl_error [of "?q a / ?q b"] assms b by simp
    moreover have "?q a / ?q b / 2 ^ 53 < 1 / ?q b"
    proof -
      have "?q a < 2 ^ 53" using assms(2) by (metis of_int_less_iff of_int_numeral of_int_power)
      then show ?thesis using b by (simp add: field_simps)
    qed
    ultimately show ?thesis by linarith
  qed
  ultimately show ?thesis by (simp add: ceiling_eq_iff)
qed

end
