(* ===== verification/Prelude.thy ===== *)
theory Prelude
  imports Main "HOL-Library.AList" "HOL-Library.List_Lexorder" "HOL-Library.Char_ord"
begin

text \<open>
  What every component shares: the JavaScript collections the sources use (a \<open>Set\<close> and a
  \<open>Map\<close>, both of which iterate in insertion order), the string operations \<open>indexOf\<close>,
  \<open>slice\<close> and the joining of colon-separated keys, and the lemmas that let the component
  proofs treat them as sets and finite maps. Identifiers are \<open>string\<close>s; every thrown
  \<open>Error\<close> is an \<open>Inl\<close> of the component's own error type.
\<close>

named_theorems js_simps \<open>what the JavaScript collections do, as sets and maps\<close>

subsection \<open>JavaScript's Set and Map\<close>

text \<open>A \<open>Set\<close> is the list of its members in insertion order, without repetition.\<close>

definition set_add :: "'a \<Rightarrow> 'a list \<Rightarrow> 'a list" where
  "set_add x xs = (if x \<in> set xs then xs else xs @ [x])"

definition set_of :: "'a list \<Rightarrow> 'a list" where
  "set_of xs = fold set_add xs []"

text \<open>
  A \<open>Map\<close> is an association list with distinct keys: \<open>set\<close> on a present key keeps its
  place and on a new one appends, which is what \<open>AList.update\<close> does.
\<close>

definition map_from :: "('k \<times> 'v) list \<Rightarrow> ('k \<times> 'v) list" where
  "map_from es = fold (\<lambda>(k, v). AList.update k v) es []"

lemma set_set_add [simp, js_simps]: "set (set_add x xs) = insert x (set xs)"
  by (auto simp: set_add_def)

lemma distinct_set_add [simp, js_simps]: "distinct xs \<Longrightarrow> distinct (set_add x xs)"
  by (auto simp: set_add_def)

lemma set_fold_set_add [simp, js_simps]: "set (fold set_add xs acc) = set xs \<union> set acc"
  by (induction xs arbitrary: acc) auto

lemma distinct_fold_set_add [simp, js_simps]: "distinct acc \<Longrightarrow> distinct (fold set_add xs acc)"
  by (induction xs arbitrary: acc) auto

lemma set_set_of [simp, js_simps]: "set (set_of xs) = set xs"
  by (simp add: set_of_def)

lemma set_of_Nil [simp]: "set_of xs = [] \<longleftrightarrow> xs = []"
  by (metis set_empty set_set_of)

lemma distinct_set_of [simp, js_simps]: "distinct (set_of xs)"
  by (simp add: set_of_def)

text \<open>A loop that adds the elements passing a test, or the elements of several lists.\<close>

lemma set_fold_guarded [js_simps]:
  "set (fold (\<lambda>x acc. if P x then set_add (f x) acc else acc) xs acc)
     = f ` {x \<in> set xs. P x} \<union> set acc"
  by (induction xs arbitrary: acc) auto

lemma distinct_fold_guarded [js_simps]:
  "distinct acc \<Longrightarrow> distinct (fold (\<lambda>x acc. if P x then set_add (f x) acc else acc) xs acc)"
  by (induction xs arbitrary: acc) auto

lemma set_fold_filtered [simp, js_simps]:
  "set (fold (\<lambda>x acc. if P x then set_add x acc else acc) xs acc) = {x \<in> set xs. P x} \<union> set acc"
  by (induction xs arbitrary: acc) auto

lemma set_fold_nested [js_simps]:
  assumes "\<And>x acc. set (step x acc) = F x \<union> set acc"
  shows "set (fold step xs acc) = (\<Union>x \<in> set xs. F x) \<union> set acc"
  by (induction xs arbitrary: acc) (auto simp: assms)

lemma distinct_fold_step [js_simps]:
  assumes "\<And>x acc. distinct acc \<Longrightarrow> distinct (step x acc)"
  shows "distinct acc \<Longrightarrow> distinct (fold step xs acc)"
  by (induction xs arbitrary: acc) (auto intro: assms)

lemma sorted_sort_set [js_simps]:
  "distinct xs \<Longrightarrow> sort xs = sorted_list_of_set (set xs)"
  by (simp add: sorted_list_of_set_sort_remdups distinct_remdups_id)

lemma map_of_fold_update:
  "map_of (fold (\<lambda>(k, v). AList.update k v) es m) = map_of m ++ map_of (rev es)"
proof (induction es arbitrary: m)
  case Nil
  then show ?case by simp
next
  case (Cons e es)
  obtain k v where e: "e = (k, v)" by force
  have "map_of (AList.update k v m) = (map_of m)(k \<mapsto> v)"
    by (rule update_conv')
  with Cons e show ?case by (simp only: fold.simps o_apply prod.case rev.simps map_of_append
      map_of.simps fst_conv snd_conv map_add_upd_left map_add_assoc map_add_empty) (auto simp: map_add_def split: option.splits)
qed

lemma map_of_map_from [js_simps]: "map_of (map_from es) = map_of (rev es)"
  by (simp add: map_from_def map_of_fold_update)

lemma distinct_keys_fold_update:
  "distinct (map fst m) \<Longrightarrow> distinct (map fst (fold (\<lambda>(k, v). AList.update k v) es m))"
  by (induction es arbitrary: m) (auto simp: distinct_update)

lemma distinct_map_from [simp, js_simps]: "distinct (map fst (map_from es))"
  by (simp add: map_from_def distinct_keys_fold_update)

lemma update_absent: "k \<notin> fst ` set m \<Longrightarrow> AList.update k v m = m @ [(k, v)]"
  by (induction m) auto

lemma map_from_distinct [simp]:
  assumes "distinct (map fst es)"
  shows "map_from es = es"
proof -
  have "fold (\<lambda>(k, v). AList.update k v) es m = m @ es"
    if "distinct (map fst es)" "fst ` set es \<inter> fst ` set m = {}" for m
    using that
  proof (induction es arbitrary: m)
    case (Cons e es)
    then have "AList.update (fst e) (snd e) m = m @ [e]" by (simp add: update_absent)
    moreover have "fst ` set es \<inter> fst ` set (m @ [e]) = {}" using Cons.prems by auto
    ultimately show ?case using Cons by (simp add: case_prod_beta)
  qed simp
  with assms show ?thesis by (simp add: map_from_def)
qed

text \<open>\<open>(m[k] ??= []).push(v)\<close>: values grouped under their key, in arrival order.\<close>

definition push :: "'k \<Rightarrow> 'v \<Rightarrow> ('k \<times> 'v list) list \<Rightarrow> ('k \<times> 'v list) list" where
  "push k v m = AList.update k ((case map_of m k of None \<Rightarrow> [] | Some vs \<Rightarrow> vs) @ [v]) m"

definition group_pairs :: "('k \<times> 'v) list \<Rightarrow> ('k \<times> 'v list) list" where
  "group_pairs es = fold (\<lambda>(k, v). push k v) es []"

definition values_at :: "'k \<Rightarrow> ('k \<times> 'v) list \<Rightarrow> 'v list" where
  "values_at k es = map snd (filter (\<lambda>e. fst e = k) es)"

lemma in_values_at [simp]: "v \<in> set (values_at k es) \<longleftrightarrow> (k, v) \<in> set es"
  by (force simp: values_at_def)

lemma map_of_push: "map_of (push k v m) = (map_of m)(k \<mapsto> (case map_of m k of None \<Rightarrow> [] | Some vs \<Rightarrow> vs) @ [v])"
  by (simp only: push_def update_conv')

lemma map_of_fold_push:
  "map_of (fold (\<lambda>(k, v). push k v) es m) k =
     (case map_of m k of
        None \<Rightarrow> if values_at k es = [] then None else Some (values_at k es)
      | Some vs \<Rightarrow> Some (vs @ values_at k es))"
proof (induction es arbitrary: m)
  case Nil
  then show ?case by (simp add: values_at_def split: option.splits)
next
  case (Cons e es)
  obtain j v where e: "e = (j, v)" by force
  show ?case
    by (cases "map_of m k"; cases "j = k") (simp_all add: e Cons.IH map_of_push values_at_def)
qed

lemma map_of_group_pairs [js_simps]:
  "map_of (group_pairs es) k = (if values_at k es = [] then None else Some (values_at k es))"
  by (simp add: group_pairs_def map_of_fold_push)

lemma distinct_keys_fold_push:
  "distinct (map fst m) \<Longrightarrow> distinct (map fst (fold (\<lambda>(k, v). push k v) es m))"
  by (induction es arbitrary: m) (auto simp: push_def distinct_update)

lemma distinct_group_pairs [simp]: "distinct (map fst (group_pairs es))"
  by (simp add: group_pairs_def distinct_keys_fold_push)

lemma in_group_pairs: "(k, vs) \<in> set (group_pairs es) \<Longrightarrow> vs = values_at k es"
proof -
  assume "(k, vs) \<in> set (group_pairs es)"
  then have "map_of (group_pairs es) k = Some vs" by (simp add: map_of_is_SomeI)
  then show ?thesis by (simp add: map_of_group_pairs split: if_splits)
qed

subsection \<open>Strings\<close>

text \<open>\<open>s.indexOf(c)\<close>: the first position, or \<open>None\<close> for the source's \<open>-1\<close>.\<close>

fun index_of :: "char \<Rightarrow> string \<Rightarrow> nat option" where
  "index_of c [] = None"
| "index_of c (x # xs) = (if x = c then Some 0 else map_option Suc (index_of c xs))"

lemma index_of_append:
  "c \<notin> set xs \<Longrightarrow> index_of c (xs @ c # ys) = Some (length xs)"
  by (induction xs) auto

lemma index_of_None: "c \<notin> set xs \<Longrightarrow> index_of c xs = None"
  by (induction xs) auto

text \<open>
  Keys are built by joining parts with a colon. A join is injective in a part that holds no
  colon, whatever follows it.
\<close>

lemma colon_join_inj:
  assumes "CHR '':'' \<notin> set a" and "CHR '':'' \<notin> set b"
    and "a @ '':'' @ xs = b @ '':'' @ ys"
  shows "a = b \<and> xs = ys"
proof -
  have "index_of (CHR '':'') (a @ '':'' @ xs) = Some (length a)"
    and "index_of (CHR '':'') (b @ '':'' @ ys) = Some (length b)"
    using index_of_append [OF assms(1), of xs] index_of_append [OF assms(2), of ys] by simp_all
  with assms(3) have "length a = length b" by simp
  with assms(3) show ?thesis by simp
qed

lemma colon_last_inj:
  assumes "CHR '':'' \<notin> set a" and "CHR '':'' \<notin> set b" and "xs @ '':'' @ a = ys @ '':'' @ b"
  shows "xs = ys \<and> a = b"
proof -
  have "rev a @ '':'' @ rev xs = rev b @ '':'' @ rev ys" using arg_cong [OF assms(3), of rev] by simp
  from colon_join_inj [OF _ _ this] assms(1,2) show ?thesis by simp
qed

subsection \<open>Decimal numerals\<close>

text \<open>\<open>String(n)\<close> and \<open>`${n}`\<close> for a non-negative integer.\<close>

definition digit_char :: "nat \<Rightarrow> char" where
  "digit_char d = char_of (48 + d)"

fun nat_str :: "nat \<Rightarrow> string" where
  "nat_str n = (if n < 10 then [digit_char n] else nat_str (n div 10) @ [digit_char (n mod 10)])"

declare nat_str.simps [simp del]

definition str_nat :: "string \<Rightarrow> nat" where
  "str_nat s = foldl (\<lambda>acc c. 10 * acc + (of_char c - 48)) 0 s"

lemma of_char_digit: "d < 10 \<Longrightarrow> (of_char (digit_char d) :: nat) = 48 + d"
  by (simp add: digit_char_def)

lemma str_nat_nat_str [simp]: "str_nat (nat_str n) = n"
proof (induction n rule: nat_str.induct)
  case (1 n)
  show ?case
  proof (cases "n < 10")
    case True
    then show ?thesis by (simp add: nat_str.simps [of n] str_nat_def of_char_digit)
  next
    case False
    with "1.IH" have "str_nat (nat_str (n div 10)) = n div 10" by simp
    with False show ?thesis
      by (simp add: nat_str.simps [of n] str_nat_def of_char_digit)
  qed
qed

lemma nat_str_inj [simp]: "nat_str m = nat_str n \<longleftrightarrow> m = n"
  by (metis str_nat_nat_str)

lemma nat_str_digits: "c \<in> set (nat_str n) \<Longrightarrow> 48 \<le> (of_char c :: nat) \<and> (of_char c :: nat) < 58"
proof (induction n rule: nat_str.induct)
  case (1 n)
  show ?case
  proof (cases "n < 10")
    case True
    with "1.prems" show ?thesis by (simp add: nat_str.simps [of n] of_char_digit)
  next
    case False
    with "1.prems" have "c \<in> set (nat_str (n div 10)) \<or> c = digit_char (n mod 10)"
      by (auto simp: nat_str.simps [of n])
    with "1.IH" [OF False] show ?thesis by (auto simp: of_char_digit)
  qed
qed

lemma nat_str_no_colon [simp]: "CHR '':'' \<notin> set (nat_str n)"
  using nat_str_digits [of "CHR '':''" n] by auto

subsection \<open>Identifiers\<close>

definition to_lower :: "char \<Rightarrow> char" where
  "to_lower c = (if 65 \<le> (of_char c :: nat) \<and> (of_char c :: nat) \<le> 90 then char_of ((of_char c :: nat) + 32) else c)"

definition hex_or_hyphen :: "char \<Rightarrow> bool" where
  "hex_or_hyphen c \<longleftrightarrow> to_lower c \<in> set ''0123456789abcdef-''"

text \<open>\<open>/^[0-9a-f-]{36}$/i\<close>.\<close>

definition uuid_shaped :: "string \<Rightarrow> bool" where
  "uuid_shaped i \<longleftrightarrow> length i = 36 \<and> list_all hex_or_hyphen i"

end
