(* ===== verification/Redis_Client.thy ===== *)
theory Redis_Client
  imports Prelude
begin

text \<open>
  \<open>packages/core/redis.ts\<close>: the RESP2 client the rate limiter, the idempotency cache and the principals
  cache share - the encoding of a command, the parser of replies, and the queue of waiting commands that
  a connection's bytes settle.

  A text is its UTF-8 bytes, a buffer the bytes from the position the code keeps. \<open>number\<close> is
  \<open>Number\<close> on a header line, none for \<open>NaN\<close>. A promise is named by a number, and \<open>cn_settled\<close> has the
  promises that were settled: the first settlement of one counts.
\<close>

subsection \<open>Replies and commands\<close>

datatype Reply = RStr string | RNum int | RNaN | RNull | RArr "Reply list"

definition CRLF :: string where "CRLF = [CHR 0x0D, CHR 0x0A]"

definition bulk :: "string \<Rightarrow> string" where
  "bulk p = ''$'' @ nat_str (length p) @ CRLF @ p @ CRLF"

definition encode :: "string list \<Rightarrow> string" where
  "encode parts = ''*'' @ nat_str (length parts) @ CRLF @ concat (map bulk parts)"

subsection \<open>parse\<close>

text \<open>
  \<open>Parsed v e rest\<close>: a whole value, its error if it is one, and the bytes after it. \<open>Garbled\<close> is a bulk
  length that is no length at all, which the protocol does not have; what the code then does with
  the buffer is not modelled.
\<close>

datatype Parse = Incomplete | Garbled | Parsed Reply "string option" string

datatype Items = Unfinished | Broken | Items "Reply list" string

fun index_crlf :: "string \<Rightarrow> nat option" where
  "index_crlf (a # b # s) = (if [a, b] = CRLF then Some 0 else map_option Suc (index_crlf (b # s)))"
| "index_crlf _ = None"

definition number_reply :: "int option \<Rightarrow> Reply" where
  "number_reply n = (case n of Some i \<Rightarrow> RNum i | None \<Rightarrow> RNaN)"

definition item_value :: "Reply \<Rightarrow> string option \<Rightarrow> Reply" where
  "item_value v e = (if e = None then v else RNull)"

lemma index_crlf_less: "index_crlf s = Some i \<Longrightarrow> i + 2 \<le> length s"
  by (induction s arbitrary: i rule: index_crlf.induct) (auto split: if_splits)

function (sequential) parse :: "(string \<Rightarrow> int option) \<Rightarrow> string \<Rightarrow> Parse"
  and parse_items :: "(string \<Rightarrow> int option) \<Rightarrow> nat \<Rightarrow> string \<Rightarrow> Items" where
  "parse number buffer =
     (case index_crlf buffer of
        None \<Rightarrow> Incomplete
      | Some i \<Rightarrow>
          (let kind = hd buffer; body = take (i - 1) (tl buffer); rest = drop (i + 2) buffer
           in if kind = CHR ''+'' then Parsed (RStr body) None rest
              else if kind = CHR ''-'' then Parsed RNull (Some body) rest
              else if kind = CHR '':'' then Parsed (number_reply (number body)) None rest
              else if kind = CHR ''$'' then
                (case number body of
                   None \<Rightarrow> Garbled
                 | Some n \<Rightarrow>
                     if n = -1 then Parsed RNull None rest
                     else if n < 0 then Garbled
                     else if length rest < nat n + 2 then Incomplete
                     else Parsed (RStr (take (nat n) rest)) None (drop (nat n + 2) rest))
              else if kind = CHR ''*'' then
                (if number body = Some (-1) then Parsed RNull None rest
                 else case parse_items number (case number body of None \<Rightarrow> 0 | Some n \<Rightarrow> nat n) rest of
                        Unfinished \<Rightarrow> Incomplete
                      | Broken \<Rightarrow> Garbled
                      | Items vs rest' \<Rightarrow> Parsed (RArr vs) None rest')
              else Parsed RNull (Some (''unrecognised reply type '' @ [kind])) rest))"
| "parse_items number 0 buffer = Items [] buffer"
| "parse_items number (Suc n) buffer =
     (case parse number buffer of
        Incomplete \<Rightarrow> Unfinished
      | Garbled \<Rightarrow> Broken
      | Parsed v e rest \<Rightarrow>
          (case parse_items number n rest of
             Items vs rest' \<Rightarrow> Items (item_value v e # vs) rest'
           | r \<Rightarrow> r))"
  by pat_completeness auto

lemma parse_shortens_dom:
  "parse_parse_items_dom (Inl (number, buffer)) \<Longrightarrow> parse number buffer = Parsed v e rest \<Longrightarrow> length rest < length buffer"
  "parse_parse_items_dom (Inr (number, n, buffer)) \<Longrightarrow> parse_items number n buffer = Items vs rest \<Longrightarrow> length rest \<le> length buffer"
proof (induction arbitrary: v e rest and vs rest rule: parse_parse_items.pinduct)
  case (1 number buffer)
  then show ?case
    using index_crlf_less [of buffer]
    by (fastforce simp: parse.psimps Let_def split: option.splits if_splits Items.splits)
next
  case (2 number buffer)
  then show ?case by (simp add: parse_items.psimps)
next
  case (3 number n buffer)
  then show ?case by (fastforce simp: parse_items.psimps split: Parse.splits Items.splits)
qed

lemma parse_total: "All parse_parse_items_dom"
proof (relation "measure (case_sum (\<lambda>(_, b). 2 * length b) (\<lambda>(_, _, b). 2 * length b + 1))", goal_cases)
  case (2 number buffer i)
  then show ?case using index_crlf_less [of buffer] by auto
next
  case (4 number n buffer v e rest)
  then show ?case using parse_shortens_dom(1) by fastforce
qed auto

termination parse
  by (rule parse_total)

declare parse.simps [simp del] parse_items.simps [simp del]

lemma parse_shortens: "parse number buffer = Parsed v e rest \<Longrightarrow> length rest < length buffer"
  using parse_shortens_dom(1) parse_total by blast

subsection \<open>The connection\<close>

record Conn =
  cn_out :: string
  cn_buffer :: string
  cn_pending :: "nat list"
  cn_settled :: "nat \<rightharpoonup> string + Reply"

definition fresh :: Conn where
  "fresh = \<lparr>cn_out = [], cn_buffer = [], cn_pending = [], cn_settled = Map.empty\<rparr>"

definition settle :: "nat \<Rightarrow> string + Reply \<Rightarrow> Conn \<Rightarrow> Conn" where
  "settle w r c = (if cn_settled c w = None then c\<lparr>cn_settled := (cn_settled c)(w \<mapsto> r)\<rparr> else c)"

definition outcome :: "Reply \<Rightarrow> string option \<Rightarrow> string + Reply" where
  "outcome v e = (case e of Some m \<Rightarrow> Inl m | None \<Rightarrow> Inr v)"

text \<open>One turn of the loop of \<open>#drain\<close>: the parsed value goes to the command that waits longest, or nowhere.\<close>

definition deliver :: "string + Reply \<Rightarrow> Conn \<Rightarrow> Conn" where
  "deliver r c = (case cn_pending c of [] \<Rightarrow> c | w # ws \<Rightarrow> settle w r (c\<lparr>cn_pending := ws\<rparr>))"

function drain :: "(string \<Rightarrow> int option) \<Rightarrow> Conn \<Rightarrow> Conn" where
  "drain number c =
     (case parse number (cn_buffer c) of
        Parsed v e rest \<Rightarrow> drain number (deliver (outcome v e) (c\<lparr>cn_buffer := rest\<rparr>))
      | _ \<Rightarrow> c)"
  by pat_completeness auto

lemma deliver_buffer [simp]: "cn_buffer (deliver r c) = cn_buffer c"
  by (simp add: deliver_def settle_def split: list.splits)

termination drain
  by (relation "measure (\<lambda>(_, c). length (cn_buffer c))") (auto dest: parse_shortens)

declare drain.simps [simp del]

text \<open>The handler of \<open>data\<close>.\<close>

definition on_data :: "(string \<Rightarrow> int option) \<Rightarrow> string \<Rightarrow> Conn \<Rightarrow> Conn" where
  "on_data number chunk c = drain number (c\<lparr>cn_buffer := cn_buffer c @ chunk\<rparr>)"

text \<open>The timer of a command rejects its promise and leaves the command in the queue.\<close>

definition timed_out :: "string \<Rightarrow> nat \<Rightarrow> Conn \<Rightarrow> Conn" where
  "timed_out message w c = settle w (Inl message) c"

definition send :: "nat \<Rightarrow> string list \<Rightarrow> Conn \<Rightarrow> Conn" where
  "send w parts c = c\<lparr>cn_pending := cn_pending c @ [w], cn_out := cn_out c @ encode parts\<rparr>"

definition pipeline :: "(nat \<times> string list) list \<Rightarrow> Conn \<Rightarrow> Conn" where
  "pipeline commands c =
     c\<lparr>cn_pending := cn_pending c @ map fst commands, cn_out := cn_out c @ concat (map (encode \<circ> snd) commands)\<rparr>"

text \<open>The connection ends: everything in flight is rejected.\<close>

definition fail_conn :: "Conn \<Rightarrow> Conn" where
  "fail_conn c = fold (\<lambda>w. settle w (Inl ''the redis connection closed'')) (cn_pending c) (c\<lparr>cn_pending := [], cn_buffer := []\<rparr>)"

subsection \<open>Commands over a server\<close>

text \<open>
  \<open>exec\<close> is the server: what a command answers and what it leaves. What becomes of one attempt: it is
  answered, its timer fires with the connection open, or the connection is lost; the flag is
  whether the server had run it.
\<close>

datatype Fate = Answered | Late bool | Lost bool

definition attempt :: "(string list \<Rightarrow> 's \<Rightarrow> (string + Reply) \<times> 's) \<Rightarrow> Fate \<Rightarrow> string list \<Rightarrow> 's \<Rightarrow> (string + Reply) \<times> 's" where
  "attempt exec fate parts s =
     (case fate of
        Answered \<Rightarrow> exec parts s
      | Late r \<Rightarrow> (Inl ''redis did not answer'', if r then snd (exec parts s) else s)
      | Lost r \<Rightarrow> (Inl ''the redis connection closed'', if r then snd (exec parts s) else s))"

text \<open>\<open>command\<close> sends once more when the connection went away.\<close>

definition command :: "(string list \<Rightarrow> 's \<Rightarrow> (string + Reply) \<times> 's) \<Rightarrow> Fate \<times> Fate \<Rightarrow> string list \<Rightarrow> 's \<Rightarrow> (string + Reply) \<times> 's" where
  "command exec fates parts s =
     (case fst fates of
        Lost r \<Rightarrow> attempt exec (snd fates) parts (snd (attempt exec (Lost r) parts s))
      | fate \<Rightarrow> attempt exec fate parts s)"

fun run_all :: "(string list \<Rightarrow> 's \<Rightarrow> (string + Reply) \<times> 's) \<Rightarrow> string list list \<Rightarrow> 's \<Rightarrow> (string + Reply) list \<times> 's" where
  "run_all exec [] s = ([], s)"
| "run_all exec (c # cs) s = (let (r, s1) = exec c s; (rs, s2) = run_all exec cs s1 in (r # rs, s2))"

text \<open>\<open>Promise.all\<close>: the first rejection, or every value.\<close>

fun promise_all :: "(string + Reply) list \<Rightarrow> string + Reply list" where
  "promise_all [] = Inr []"
| "promise_all (Inl e # rs) = Inl e"
| "promise_all (Inr r # rs) = map_sum id (\<lambda>vs. r # vs) (promise_all rs)"

text \<open>The commands of a pipeline are run in order; \<open>Some k\<close>: the replies did not all come, and the server ran \<open>k\<close> of them.\<close>

definition pipelined :: "(string list \<Rightarrow> 's \<Rightarrow> (string + Reply) \<times> 's) \<Rightarrow> nat option \<Rightarrow> string list list \<Rightarrow> 's \<Rightarrow> (string + Reply list) \<times> 's" where
  "pipelined exec fate commands s =
     (case fate of
        None \<Rightarrow> (let (rs, s') = run_all exec commands s in (promise_all rs, s'))
      | Some k \<Rightarrow> (Inl ''the redis connection closed'', snd (run_all exec (take k commands) s)))"

subsection \<open>A whole value stays what it is when more bytes follow\<close>

lemma index_crlf_more: "index_crlf s = Some i \<Longrightarrow> index_crlf (s @ t) = Some i"
  by (induction s arbitrary: i rule: index_crlf.induct) (auto split: if_splits)

lemma parse_more:
  "parse number b \<noteq> Incomplete \<Longrightarrow> parse number (b @ t) =
     (case parse number b of Parsed v e rest \<Rightarrow> Parsed v e (rest @ t) | r \<Rightarrow> r)"
  "parse_items number n b \<noteq> Unfinished \<Longrightarrow> parse_items number n (b @ t) =
     (case parse_items number n b of Items vs rest \<Rightarrow> Items vs (rest @ t) | r \<Rightarrow> r)"
proof (induction rule: parse_parse_items.induct)
  case (1 number b)
  then obtain i where i: "index_crlf b = Some i" by (cases "index_crlf b") (auto simp: parse.simps)
  note le = index_crlf_less [OF i]
  have b: "hd (b @ t) = hd b" "take (i - 1) (tl (b @ t)) = take (i - 1) (tl b)" "drop (i + 2) (b @ t) = drop (i + 2) b @ t"
    using le by (cases b; simp)+
  note unfold = parse.simps [of number "b @ t"] parse.simps [of number b] i index_crlf_more [OF i] b option.case Let_def
  let ?body = "take (i - 1) (tl b)" and ?rest = "drop (i + 2) b"
  consider (bulk) "hd b = CHR ''$''" | (arr) "hd b = CHR ''*''" "number ?body \<noteq> Some (-1)"
    | (nil) "hd b = CHR ''*''" "number ?body = Some (-1)" | (line) "hd b \<notin> {CHR ''$'', CHR ''*''}" by blast
  then show ?case
  proof cases
    case bulk
    then show ?thesis using "1.prems" unfolding unfold by (cases "number ?body") (auto split: if_splits)
  next
    case arr
    then show ?thesis
      using "1.prems" "1.IH" [OF i refl refl refl] unfolding unfold by (simp split: Items.splits)
  next
    case nil
    then show ?thesis unfolding unfold by simp
  next
    case line
    then show ?thesis unfolding unfold by simp
  qed
next
  case (3 number n b)
  then show ?case by (cases "parse number b") (auto simp: parse_items.simps split: Items.splits)
qed (simp add: parse_items.simps)

lemma drain_more: "drain number (c\<lparr>cn_buffer := cn_buffer c @ t\<rparr>) = on_data number t (drain number c)"
proof (induction number c rule: drain.induct)
  case (1 number c)
  show ?case
  proof (cases "parse number (cn_buffer c)")
    case (Parsed v e rest)
    have "deliver (outcome v e) (c\<lparr>cn_buffer := rest @ t\<rparr>)
        = (deliver (outcome v e) (c\<lparr>cn_buffer := rest\<rparr>))\<lparr>cn_buffer := rest @ t\<rparr>"
      by (simp add: deliver_def settle_def split: list.splits)
    with "1.IH" [OF Parsed] Parsed parse_more(1) [of number "cn_buffer c" t] show ?thesis
      by (simp add: drain.simps [of number c] drain.simps [of number "c\<lparr>cn_buffer := cn_buffer c @ t\<rparr>"])
  qed (simp_all add: on_data_def drain.simps [of number c])
qed

lemma on_data_append: "on_data number u (on_data number t c) = on_data number (t @ u) c"
  using drain_more [of number "c\<lparr>cn_buffer := cn_buffer c @ t\<rparr>" u] by (simp add: on_data_def)

subsection \<open>What a server writes\<close>

text \<open>The values of RESP2 and their bytes, as the protocol has them: a line's text has no carriage return.\<close>

datatype Wire = WSimple string | WError string | WInt int | WBulk string | WNil | WArr "Wire list" | WNilArr

definition int_str :: "int \<Rightarrow> string" where
  "int_str n = (if n < 0 then ''-'' @ nat_str (nat (- n)) else nat_str (nat n))"

fun wire :: "Wire \<Rightarrow> string" where
  "wire (WSimple s) = ''+'' @ s @ CRLF"
| "wire (WError s) = ''-'' @ s @ CRLF"
| "wire (WInt n) = '':'' @ int_str n @ CRLF"
| "wire (WBulk s) = bulk s"
| "wire WNil = ''$-1'' @ CRLF"
| "wire (WArr ws) = ''*'' @ nat_str (length ws) @ CRLF @ concat (map wire ws)"
| "wire WNilArr = ''*-1'' @ CRLF"

fun wire_ok :: "Wire \<Rightarrow> bool" where
  "wire_ok (WSimple s) \<longleftrightarrow> CHR 0x0D \<notin> set s"
| "wire_ok (WError s) \<longleftrightarrow> CHR 0x0D \<notin> set s"
| "wire_ok (WArr ws) \<longleftrightarrow> list_all wire_ok ws"
| "wire_ok _ \<longleftrightarrow> True"

text \<open>What a value is to the caller: an error at the top rejects, one inside an array is a null.\<close>

fun wire_error :: "Wire \<Rightarrow> string option" where
  "wire_error (WError s) = Some s"
| "wire_error _ = None"

fun wire_value :: "Wire \<Rightarrow> Reply" where
  "wire_value (WSimple s) = RStr s"
| "wire_value (WInt n) = RNum n"
| "wire_value (WBulk s) = RStr s"
| "wire_value (WArr ws) = RArr (map wire_value ws)"
| "wire_value _ = RNull"

text \<open>\<open>Number\<close> reads a decimal numeral as its value.\<close>

definition reads_ints :: "(string \<Rightarrow> int option) \<Rightarrow> bool" where
  "reads_ints number \<longleftrightarrow> (\<forall>n. number (int_str n) = Some n)"

lemma int_str_nat [simp]: "int_str (int n) = nat_str n"
  by (simp add: int_str_def)

lemma reads_intsD: "reads_ints number \<Longrightarrow> number (int_str n) = Some n" "reads_ints number \<Longrightarrow> number (nat_str k) = Some (int k)"
  "reads_ints number \<Longrightarrow> number ''-1'' = Some (-1)"
proof -
  assume r: "reads_ints number"
  then show "number (int_str n) = Some n" "number (nat_str k) = Some (int k)"
    by (auto simp: reads_ints_def simp flip: int_str_nat)
  have "int_str (-1) = ''-1''" by code_simp
  with r show "number ''-1'' = Some (-1)" by (metis reads_ints_def)
qed

lemma nat_str_no_cr [simp]: "CHR 0x0D \<notin> set (nat_str n)"
  using nat_str_digits [of "CHR 0x0D" n] by auto

lemma int_str_no_cr [simp]: "CHR 0x0D \<notin> set (int_str n)"
  by (simp add: int_str_def)

lemma index_crlf_line: "CHR 0x0D \<notin> set s \<Longrightarrow> index_crlf (s @ CRLF @ t) = Some (length s)"
proof (induction s)
  case (Cons a s)
  then show ?case by (cases s) (auto simp: CRLF_def)
qed (simp add: CRLF_def)

lemma parse_line:
  assumes "CHR 0x0D \<notin> set (k # s)"
  shows "index_crlf (k # s @ CRLF @ t) = Some (Suc (length s))" and "drop (Suc (length s) + 2) (k # s @ CRLF @ t) = t"
  using index_crlf_line [OF assms, of t] by (simp_all add: CRLF_def)

lemma parse_bulk:
  assumes "reads_ints number"
  shows "parse number (bulk s @ t) = Parsed (RStr s) None t"
  using parse_line [of "CHR ''$''" "nat_str (length s)" "s @ CRLF @ t"] reads_intsD [OF assms]
  by (subst parse.simps) (simp add: bulk_def Let_def CRLF_def)

lemma parse_array:
  assumes "reads_ints number" and "parse_items number (length vs) (b @ t) = Items vs t"
  shows "parse number ((''*'' @ nat_str (length vs) @ CRLF @ b) @ t) = Parsed (RArr vs) None t"
  using parse_line [of "CHR ''*''" "nat_str (length vs)" "b @ t"] reads_intsD [OF assms(1)] assms(2)
  by (subst parse.simps) (simp add: Let_def)

lemma parse_items_concat:
  assumes "\<And>x t. x \<in> set xs \<Longrightarrow> \<exists>e v. parse number (f x @ t) = Parsed v e t \<and> item_value v e = g x"
  shows "parse_items number (length xs) (concat (map f xs) @ t) = Items (map g xs) t"
  using assms
proof (induction xs)
  case (Cons x xs)
  obtain v e where "parse number (f x @ concat (map f xs) @ t) = Parsed v e (concat (map f xs) @ t)" "item_value v e = g x"
    using Cons.prems [of x] by force
  with Cons show ?case by (simp add: parse_items.simps)
qed (simp add: parse_items.simps)

lemma parse_wire:
  assumes "reads_ints number" and "wire_ok w"
  shows "parse number (wire w @ t) = Parsed (wire_value w) (wire_error w) t"
  using assms(2)
proof (induction w arbitrary: t rule: wire.induct)
  case (1 s)
  then show ?case using parse_line [of "CHR ''+''" s t] by (subst parse.simps) (simp add: Let_def)
next
  case (2 s)
  then show ?case using parse_line [of "CHR ''-''" s t] by (subst parse.simps) (simp add: Let_def)
next
  case (3 n)
  then show ?case
    using parse_line [of "CHR '':''" "int_str n" t] reads_intsD [OF assms(1)]
    by (subst parse.simps) (simp add: Let_def number_reply_def)
next
  case (4 s)
  then show ?case by (simp add: parse_bulk [OF assms(1)])
next
  case 5
  then show ?case
    using parse_line [of "CHR ''$''" "''-1''" t] reads_intsD [OF assms(1)] by (subst parse.simps) (simp add: Let_def)
next
  case (6 ws)
  have "parse_items number (length ws) (concat (map wire ws) @ t) = Items (map wire_value ws) t"
  proof (rule parse_items_concat)
    fix x t assume "x \<in> set ws"
    then have "parse number (wire x @ t) = Parsed (wire_value x) (wire_error x) t" using 6 by (simp add: list_all_iff)
    moreover have "item_value (wire_value x) (wire_error x) = wire_value x" by (cases x) (simp_all add: item_value_def)
    ultimately show "\<exists>e v. parse number (wire x @ t) = Parsed v e t \<and> item_value v e = wire_value x" by blast
  qed
  then show ?case
    using parse_array [of number "map wire_value ws" "concat (map wire ws)" t] assms(1) by simp
next
  case 7
  then show ?case
    using parse_line [of "CHR ''*''" "''-1''" t] reads_intsD [OF assms(1)] by (subst parse.simps) (simp add: Let_def)
qed

subsection \<open>Replies and timeouts, in any order\<close>

datatype Event = Data string | Timeout nat

fun conn_step :: "(string \<Rightarrow> int option) \<Rightarrow> string \<Rightarrow> Event \<Rightarrow> Conn \<Rightarrow> Conn" where
  "conn_step number message (Data chunk) c = on_data number chunk c"
| "conn_step number message (Timeout w) c = timed_out message w c"

fun bytes_of :: "Event \<Rightarrow> string" where
  "bytes_of (Data chunk) = chunk"
| "bytes_of (Timeout w) = []"

abbreviation answer :: "Wire \<Rightarrow> string + Reply" where
  "answer w \<equiv> outcome (wire_value w) (wire_error w)"

lemma parse_empty [simp]: "parse number [] = Incomplete"
  by (simp add: parse.simps)

lemma drain_wires:
  assumes "reads_ints number" and "list_all wire_ok ws"
  shows "drain number (c\<lparr>cn_buffer := concat (map wire ws)\<rparr>) = fold (\<lambda>w. deliver (answer w)) ws (c\<lparr>cn_buffer := []\<rparr>)"
  using assms(2)
proof (induction ws arbitrary: c)
  case Nil
  then show ?case by (subst drain.simps) simp
next
  case (Cons w ws)
  have "deliver (answer w) (c\<lparr>cn_buffer := b\<rparr>) = (deliver (answer w) c)\<lparr>cn_buffer := b\<rparr>" for b
    by (simp add: deliver_def settle_def split: list.splits)
  with Cons parse_wire [OF assms(1), of w "concat (map wire ws)"] show ?case
    by (subst drain.simps) simp
qed

text \<open>A run with timeouts beside the run of the data alone: they differ at most in promises that timed out.\<close>

definition beside :: "string \<Rightarrow> nat set \<Rightarrow> Conn \<Rightarrow> Conn \<Rightarrow> bool" where
  "beside message T c d \<longleftrightarrow> cn_pending c = cn_pending d \<and> cn_buffer c = cn_buffer d \<and>
     (\<forall>w. cn_settled c w = cn_settled d w \<or> w \<in> T \<and> cn_settled c w = Some (Inl message))"

lemma beside_settle:
  "cn_settled c w = cn_settled d w \<or> w \<in> T \<and> cn_settled c w = Some (Inl message) \<Longrightarrow>
   cn_settled (settle v r c) w = cn_settled (settle v r d) w \<or> w \<in> T \<and> cn_settled (settle v r c) w = Some (Inl message)"
  by (auto simp: settle_def)

lemma beside_deliver: "beside message T c d \<Longrightarrow> beside message T (deliver r c) (deliver r d)"
proof -
  assume b: "beside message T c d"
  show ?thesis
  proof (cases "cn_pending d")
    case (Cons v ws)
    have "cn_pending (settle v r e) = cn_pending e \<and> cn_buffer (settle v r e) = cn_buffer e" for e
      by (simp add: settle_def)
    with b Cons show ?thesis
      using beside_settle [of "c\<lparr>cn_pending := ws\<rparr>" _ "d\<lparr>cn_pending := ws\<rparr>" T message v r]
      by (auto simp: beside_def deliver_def)
  qed (use b in \<open>simp add: beside_def deliver_def\<close>)
qed

lemma beside_drain: "beside message T c d \<Longrightarrow> beside message T (drain number c) (drain number d)"
proof (induction number c arbitrary: d rule: drain.induct)
  case (1 number c)
  have b: "cn_buffer d = cn_buffer c" using "1.prems" by (simp add: beside_def)
  show ?case
  proof (cases "parse number (cn_buffer c)")
    case (Parsed v e rest)
    have "beside message T (c\<lparr>cn_buffer := rest\<rparr>) (d\<lparr>cn_buffer := rest\<rparr>)" using "1.prems" by (simp add: beside_def)
    from "1.IH" [OF Parsed beside_deliver [OF this]] Parsed show ?thesis
      by (simp add: drain.simps [of number c] drain.simps [of number d] b)
  qed (use "1.prems" in \<open>simp_all add: drain.simps [of number c] drain.simps [of number d] b\<close>)
qed

lemma beside_step:
  assumes "beside message T c d" and "{w. ev = Timeout w} \<subseteq> T" and "on_data number [] d = d"
  shows "beside message T (conn_step number message ev c) (on_data number (bytes_of ev) d)"
proof (cases ev)
  case (Data chunk)
  have "beside message T (c\<lparr>cn_buffer := cn_buffer c @ chunk\<rparr>) (d\<lparr>cn_buffer := cn_buffer d @ chunk\<rparr>)"
    using assms(1) by (simp add: beside_def)
  from beside_drain [OF this] show ?thesis by (simp add: Data on_data_def)
next
  case (Timeout v)
  then have "cn_settled (timed_out message v c) w = cn_settled d w \<or> w \<in> T \<and> cn_settled (timed_out message v c) w = Some (Inl message)" for w
    using assms(1,2) by (auto simp: beside_def timed_out_def settle_def)
  then show ?thesis using assms(1,3) by (simp add: Timeout beside_def timed_out_def settle_def)
qed

lemma beside_run:
  assumes "on_data number [] d = d" and "beside message T c d" and "{w. Timeout w \<in> set evs} \<subseteq> T"
  shows "beside message T (fold (conn_step number message) evs c) (on_data number (concat (map bytes_of evs)) d)"
  using assms
proof (induction evs arbitrary: c d)
  case (Cons ev evs)
  let ?d = "on_data number (bytes_of ev) d"
  have "beside message T (conn_step number message ev c) ?d"
    using Cons.prems by (intro beside_step) auto
  moreover have "on_data number [] ?d = ?d" by (simp add: on_data_append)
  ultimately show ?case
    using Cons.IH [of ?d "conn_step number message ev c"] Cons.prems by (simp add: on_data_append subset_iff)
qed simp

lemma fold_deliver:
  assumes "distinct (cn_pending c)" and "\<forall>w \<in> set (cn_pending c). cn_settled c w = None" and "length rs \<le> length (cn_pending c)"
  shows "cn_pending (fold deliver rs c) = drop (length rs) (cn_pending c)
    \<and> (\<forall>i < length rs. cn_settled (fold deliver rs c) (cn_pending c ! i) = Some (rs ! i))
    \<and> (\<forall>w. w \<notin> set (take (length rs) (cn_pending c)) \<longrightarrow> cn_settled (fold deliver rs c) w = cn_settled c w)
    \<and> cn_buffer (fold deliver rs c) = cn_buffer c"
  using assms
proof (induction rs arbitrary: c)
  case (Cons r rs)
  obtain v ws where p: "cn_pending c = v # ws" using Cons.prems by (cases "cn_pending c") auto
  define d where "d = deliver r c"
  have d: "cn_pending d = ws" "cn_settled d = (cn_settled c)(v \<mapsto> r)" "cn_buffer d = cn_buffer c"
    using Cons.prems p by (simp_all add: d_def deliver_def settle_def)
  have ih: "cn_pending (fold deliver rs d) = drop (length rs) ws
    \<and> (\<forall>i < length rs. cn_settled (fold deliver rs d) (ws ! i) = Some (rs ! i))
    \<and> (\<forall>w. w \<notin> set (take (length rs) ws) \<longrightarrow> cn_settled (fold deliver rs d) w = cn_settled d w)
    \<and> cn_buffer (fold deliver rs d) = cn_buffer d"
  proof -
    have "\<forall>w \<in> set ws. cn_settled d w = None" using Cons.prems p d by auto
    then show ?thesis using Cons.IH [of d] Cons.prems d(1) p by simp
  qed
  have "v \<notin> set (take (length rs) ws)" using Cons.prems(1) p by (auto dest: in_set_takeD)
  with ih d show ?case by (auto simp: p d_def [symmetric] nth_Cons split: nat.splits)
qed simp

definition str_int :: "string \<Rightarrow> int option" where
  "str_int s = (case s of c # cs \<Rightarrow> if c = CHR ''-'' then Some (- int (str_nat cs)) else Some (int (str_nat s)) | [] \<Rightarrow> None)"

lemma str_int_reads: "reads_ints str_int"
  unfolding reads_ints_def
proof
  fix n
  have "nat_str k \<noteq> [] \<and> hd (nat_str k) \<noteq> CHR ''-''" for k
  proof -
    have "nat_str k \<noteq> []" by (subst nat_str.simps) simp
    moreover from this have "hd (nat_str k) \<in> set (nat_str k)" by simp
    ultimately show ?thesis using nat_str_digits [of "hd (nat_str k)" k] by auto
  qed
  then obtain a cs where cs: "nat_str (nat n) = a # cs" "a \<noteq> CHR ''-''" by (metis list.exhaust_sel)
  then have "str_nat (a # cs) = nat n" using str_nat_nat_str by metis
  with cs show "str_int (int_str n) = Some n" by (simp add: str_int_def int_str_def)
qed

subsection \<open>The documented commands\<close>

text \<open>
  What the callers rely on of a server, over the texts it holds: \<open>view s k\<close> is the text under a key. A
  key that expires between commands simply has no text at the next.
\<close>

definition redis_server :: "(string list \<Rightarrow> 's \<Rightarrow> (string + Reply) \<times> 's) \<Rightarrow> ('s \<Rightarrow> string \<rightharpoonup> string) \<Rightarrow> bool" where
  "redis_server exec view \<longleftrightarrow>
     (\<forall>s k. fst (exec [''GET'', k] s) = Inr (case view s k of None \<Rightarrow> RNull | Some v \<Rightarrow> RStr v)
        \<and> view (snd (exec [''GET'', k] s)) = view s)
   \<and> (\<forall>s k n. view s k = Some (int_str n) \<or> view s k = None \<and> n = 0 \<longrightarrow>
        fst (exec [''INCR'', k] s) = Inr (RNum (n + 1)) \<and> view (snd (exec [''INCR'', k] s)) = (view s)(k \<mapsto> int_str (n + 1))
        \<and> fst (exec [''DECR'', k] s) = Inr (RNum (n - 1)) \<and> view (snd (exec [''DECR'', k] s)) = (view s)(k \<mapsto> int_str (n - 1)))
   \<and> (\<forall>s k t. (\<exists>r. fst (exec [''PEXPIRE'', k, t] s) = Inr r) \<and> view (snd (exec [''PEXPIRE'', k, t] s)) = view s)
   \<and> (\<forall>s k v u t. u \<in> {''EX'', ''PX''} \<longrightarrow>
        fst (exec [''SET'', k, v, ''NX'', u, t] s) = Inr (if view s k = None then RStr ''OK'' else RNull)
        \<and> view (snd (exec [''SET'', k, v, ''NX'', u, t] s)) = (if view s k = None then (view s)(k \<mapsto> v) else view s))
   \<and> (\<forall>s k v t. fst (exec [''SET'', k, v, ''EX'', t] s) = Inr (RStr ''OK'')
        \<and> view (snd (exec [''SET'', k, v, ''EX'', t] s)) = (view s)(k \<mapsto> v))
   \<and> (\<forall>s k. (\<exists>r. fst (exec [''DEL'', k] s) = Inr r) \<and> view (snd (exec [''DEL'', k] s)) = (view s)(k := None))"

lemma serverD:
  assumes "redis_server exec view"
  shows "fst (exec [''GET'', k] s) = Inr (case view s k of None \<Rightarrow> RNull | Some v \<Rightarrow> RStr v)" "view (snd (exec [''GET'', k] s)) = view s"
    and "view s k = Some (int_str n) \<or> view s k = None \<and> n = 0 \<Longrightarrow> fst (exec [''INCR'', k] s) = Inr (RNum (n + 1))"
    and "view s k = Some (int_str n) \<or> view s k = None \<and> n = 0 \<Longrightarrow> view (snd (exec [''INCR'', k] s)) = (view s)(k \<mapsto> int_str (n + 1))"
    and "view s k = Some (int_str n) \<or> view s k = None \<and> n = 0 \<Longrightarrow> fst (exec [''DECR'', k] s) = Inr (RNum (n - 1))"
    and "view s k = Some (int_str n) \<or> view s k = None \<and> n = 0 \<Longrightarrow> view (snd (exec [''DECR'', k] s)) = (view s)(k \<mapsto> int_str (n - 1))"
    and "\<exists>r. fst (exec [''PEXPIRE'', k, t] s) = Inr r" "view (snd (exec [''PEXPIRE'', k, t] s)) = view s"
    and "u \<in> {''EX'', ''PX''} \<Longrightarrow> fst (exec [''SET'', k, v, ''NX'', u, t] s) = Inr (if view s k = None then RStr ''OK'' else RNull)"
    and "u \<in> {''EX'', ''PX''} \<Longrightarrow> view (snd (exec [''SET'', k, v, ''NX'', u, t] s)) = (if view s k = None then (view s)(k \<mapsto> v) else view s)"
    and "fst (exec [''SET'', k, v, ''EX'', t] s) = Inr (RStr ''OK'')" "view (snd (exec [''SET'', k, v, ''EX'', t] s)) = (view s)(k \<mapsto> v)"
    and "\<exists>r. fst (exec [''DEL'', k] s) = Inr r" "view (snd (exec [''DEL'', k] s)) = (view s)(k := None)"
proof -
  note laws = assms [unfolded redis_server_def]
  note get = laws [THEN conjunct1]
    and expire = laws [THEN conjunct2, THEN conjunct2, THEN conjunct1]
    and set_nx = laws [THEN conjunct2, THEN conjunct2, THEN conjunct2, THEN conjunct1]
    and rest = laws [THEN conjunct2, THEN conjunct2, THEN conjunct2, THEN conjunct2]
  show "fst (exec [''GET'', k] s) = Inr (case view s k of None \<Rightarrow> RNull | Some v \<Rightarrow> RStr v)" "view (snd (exec [''GET'', k] s)) = view s"
    using get by auto
  show "\<exists>r. fst (exec [''PEXPIRE'', k, t] s) = Inr r" "view (snd (exec [''PEXPIRE'', k, t] s)) = view s"
    using expire by auto
  show "fst (exec [''SET'', k, v, ''EX'', t] s) = Inr (RStr ''OK'')" "view (snd (exec [''SET'', k, v, ''EX'', t] s)) = (view s)(k \<mapsto> v)"
    "\<exists>r. fst (exec [''DEL'', k] s) = Inr r" "view (snd (exec [''DEL'', k] s)) = (view s)(k := None)"
    using rest by auto
  assume u: "u \<in> {''EX'', ''PX''}"
  show "fst (exec [''SET'', k, v, ''NX'', u, t] s) = Inr (if view s k = None then RStr ''OK'' else RNull)"
    "view (snd (exec [''SET'', k, v, ''NX'', u, t] s)) = (if view s k = None then (view s)(k \<mapsto> v) else view s)"
    using set_nx [rule_format, OF u] by auto
next
  note counts = assms [unfolded redis_server_def, THEN conjunct2, THEN conjunct1, rule_format]
  assume n: "view s k = Some (int_str n) \<or> view s k = None \<and> n = 0"
  show "fst (exec [''INCR'', k] s) = Inr (RNum (n + 1))" "view (snd (exec [''INCR'', k] s)) = (view s)(k \<mapsto> int_str (n + 1))"
    "fst (exec [''DECR'', k] s) = Inr (RNum (n - 1))" "view (snd (exec [''DECR'', k] s)) = (view s)(k \<mapsto> int_str (n - 1))"
    using counts [OF n] by simp_all
qed

text \<open>A server of keys and texts.\<close>

definition map_server :: "string list \<Rightarrow> (string \<rightharpoonup> string) \<Rightarrow> (string + Reply) \<times> (string \<rightharpoonup> string)" where
  "map_server parts m =
     (let k = parts ! 1; count = (case m k of None \<Rightarrow> Some 0 | Some v \<Rightarrow> str_int v)
      in case hd parts of c \<Rightarrow>
        if c = ''GET'' then (Inr (case m k of None \<Rightarrow> RNull | Some v \<Rightarrow> RStr v), m)
        else if c = ''INCR'' \<or> c = ''DECR'' then
          (case count of None \<Rightarrow> (Inl ''ERR value is not an integer or out of range'', m)
           | Some n \<Rightarrow> let n' = (if c = ''INCR'' then n + 1 else n - 1) in (Inr (RNum n'), m(k \<mapsto> int_str n')))
        else if c = ''PEXPIRE'' then (Inr (RNum (if m k = None then 0 else 1)), m)
        else if c = ''DEL'' then (Inr (RNum (if m k = None then 0 else 1)), m(k := None))
        else if c = ''SET'' \<and> parts ! 3 = ''NX'' then (if m k = None then (Inr (RStr ''OK''), m(k \<mapsto> parts ! 2)) else (Inr RNull, m))
        else (Inr (RStr ''OK''), m(k \<mapsto> parts ! 2)))"

lemma map_server_ok: "redis_server map_server (\<lambda>m. m)"
proof -
  have "str_int (int_str n) = Some n" for n using str_int_reads by (simp add: reads_ints_def)
  then show ?thesis by (auto simp: redis_server_def map_server_def Let_def)
qed

subsection \<open>The properties\<close>

text \<open>A command is exactly its parts to whoever reads the protocol: whatever bytes a part holds, line ends
  and markers included, the bytes written parse as the array of the parts and leave what follows.\<close>

theorem command_read_back:
  assumes "reads_ints number"
  shows "parse number (encode parts @ rest) = Parsed (RArr (map RStr parts)) None rest"
proof -
  have "parse_items number (length parts) (concat (map bulk parts) @ rest) = Items (map RStr parts) rest"
    by (rule parse_items_concat) (auto simp: parse_bulk [OF assms] item_value_def)
  then show ?thesis
    using parse_array [of number "map RStr parts" "concat (map bulk parts)" rest] assms by (simp add: encode_def)
qed

theorem command_read_back_witness:
  "parse str_int (encode [''SET'', CRLF @ ''$1''] @ ''x'') = Parsed (RArr [RStr ''SET'', RStr (CRLF @ ''$1'')]) None ''x''"
  using command_read_back [OF str_int_reads, of "[''SET'', CRLF @ ''$1'']" "''x''"] by simp

text \<open>C31 - Every command gets the reply to itself: however the network cuts the replies into pieces and whichever
  commands time out in between, the i-th waiting command is settled with the i-th reply - its value, or a
  rejection with its error - unless it had timed out; the commands beyond the replies keep waiting.\<close>

theorem replies_matched:
  assumes "reads_ints number" and "list_all wire_ok ws"
    and "cn_buffer c = []" and "distinct (cn_pending c)" and "\<forall>w \<in> set (cn_pending c). cn_settled c w = None"
    and "length ws \<le> length (cn_pending c)" and "concat (map bytes_of evs) = concat (map wire ws)"
    and "c' = fold (conn_step number message) evs c"
  shows "cn_pending c' = drop (length ws) (cn_pending c) \<and> cn_buffer c' = [] \<and>
    (\<forall>i < length ws. cn_settled c' (cn_pending c ! i) = Some (answer (ws ! i)) \<or>
       Timeout (cn_pending c ! i) \<in> set evs \<and> cn_settled c' (cn_pending c ! i) = Some (Inl message))"
proof -
  let ?T = "{w. Timeout w \<in> set evs}" and ?d = "fold deliver (map answer ws) c"
  have idle: "on_data number [] c = c" using assms(3) by (simp add: on_data_def drain.simps)
  have same: "c\<lparr>cn_buffer := []\<rparr> = c" using assms(3) by (metis Conn.surjective Conn.update_convs(2))
  have "on_data number (concat (map bytes_of evs)) c = ?d"
    using drain_wires [OF assms(1,2), of c] assms(3,7) unfolding same by (simp add: on_data_def fold_map comp_def)
  then have "beside message ?T c' ?d"
    using beside_run [OF idle, of message ?T c evs] assms(8) by (simp add: beside_def)
  then have b: "cn_pending c' = cn_pending ?d" "cn_buffer c' = cn_buffer ?d"
    "\<And>w. cn_settled c' w = cn_settled ?d w \<or> w \<in> ?T \<and> cn_settled c' w = Some (Inl message)"
    by (auto simp: beside_def)
  have d: "cn_pending ?d = drop (length ws) (cn_pending c)" "cn_buffer ?d = []"
    "\<forall>i < length ws. cn_settled ?d (cn_pending c ! i) = Some (answer (ws ! i))"
    using fold_deliver [of c "map answer ws"] assms(3-6) by simp_all
  show ?thesis using b(1,2) d b(3) [of "cn_pending c ! i" for i] by simp metis
qed

theorem replies_matched_witness:
  "let c' = fold (conn_step str_int ''late'') [Data '':'', Timeout 8, Data (''7'' @ CRLF @ ''+O''), Data (''K'' @ CRLF)]
      (pipeline [(7, [''INCR'', ''k'']), (8, [''PING''])] fresh)
   in cn_pending c' = [] \<and> cn_settled c' 7 = Some (Inr (RNum 7))
     \<and> (cn_settled c' 8 = Some (Inr (RStr ''OK'')) \<or> cn_settled c' 8 = Some (Inl ''late''))"
proof -
  let ?evs = "[Data '':'', Timeout 8, Data (''7'' @ CRLF @ ''+O''), Data (''K'' @ CRLF)]" and ?ws = "[WInt 7, WSimple ''OK'']"
    and ?c = "pipeline [(7, [''INCR'', ''k'']), (8, [''PING''])] fresh"
  have "concat (map bytes_of ?evs) = concat (map wire ?ws)" by code_simp
  moreover have c: "cn_pending ?c = [7, 8]" "cn_buffer ?c = []" "cn_settled ?c = Map.empty"
    by (simp_all add: pipeline_def fresh_def)
  ultimately show ?thesis
    using replies_matched [OF str_int_reads, of ?ws ?c ?evs _ "''late''"]
    by (auto simp: outcome_def All_less_Suc numeral_2_eq_2 Let_def)
qed

text \<open>A connection that ends leaves no command waiting: each is settled.\<close>

theorem closed_settles: "cn_pending (fail_conn c) = [] \<and> list_all (\<lambda>w. cn_settled (fail_conn c) w \<noteq> None) (cn_pending c)"
proof -
  let ?close = "fold (\<lambda>w. settle w (Inl ''the redis connection closed''))"
  have pending: "cn_pending (?close ws d) = cn_pending d" for ws d
    by (induction ws arbitrary: d) (simp_all add: settle_def)
  have kept: "cn_settled d w \<noteq> None \<Longrightarrow> cn_settled (?close ws d) w \<noteq> None" for ws d w
    by (induction ws arbitrary: d) (auto simp: settle_def)
  have "list_all (\<lambda>w. cn_settled (?close ws d) w \<noteq> None) ws" for ws d
  proof (induction ws arbitrary: d)
    case (Cons w ws)
    have "cn_settled (settle w (Inl ''the redis connection closed'') d) w \<noteq> None" by (simp add: settle_def)
    from kept [OF this] Cons show ?case by simp
  qed simp
  then show ?thesis by (simp add: fail_conn_def pending)
qed

text \<open>A command that the server ran before the connection was lost is run a second time.\<close>

theorem command_runs_twice:
  "command exec (Lost True, Answered) parts s = exec parts (snd (exec parts s))"
  by (simp add: command_def attempt_def)

end
