(* ===== verification/Rate_Limit.thy ===== *)
theory Rate_Limit
  imports Double Redis_Client
begin

text \<open>
  \<open>packages/api/src/limits.ts\<close>: the sliding-window rate limiter over Redis - the policy a request is held
  to, the check and its give-back, the release, the order in which a request passes its limits - and
  \<open>organizationLimits\<close> of \<open>packages/core/extensions.ts\<close>.

  Times are milliseconds. Every division, product and sum the code makes of a fraction is rounded as the code's doubles are,
  by \<open>fl\<close> of \<open>Double\<close>; limits, times and counters are integers, which are exact as doubles below \<open>2 ^ 53\<close>. \<open>exec\<close> is the Redis server
  and \<open>number\<close> is \<open>Number\<close> on a text, as in \<open>Redis_Client\<close>; a number that is \<open>NaN\<close> is \<open>None\<close>. Metrics and log
  lines are left out.
\<close>

subsection \<open>Resources and policies\<close>

datatype Resource = R_requests | R_org_requests | R_search | R_ingest | R_login | R_login_source | R_client_registration

fun resource_name :: "Resource \<Rightarrow> string" where
  "resource_name R_requests = ''requests''"
| "resource_name R_org_requests = ''org_requests''"
| "resource_name R_search = ''search''"
| "resource_name R_ingest = ''ingest''"
| "resource_name R_login = ''login''"
| "resource_name R_login_source = ''login_source''"
| "resource_name R_client_registration = ''client_registration''"

record LimitPolicy =
  lp_limit :: int
  lp_windowSeconds :: int

record LimitDecision =
  ld_allowed :: bool
  ld_limit :: int
  ld_remaining :: int
  ld_reset :: "int option"
  ld_degraded :: bool
  ld_firstRefusal :: bool

record RateConfig =
  rc_rateRequestsPerMin :: int
  rc_rateSearchPerMin :: int
  rc_rateIngestPerHour :: int
  rc_rateLoginPer15Min :: int
  rc_rateLoginSourcePer15Min :: int
  rc_rateClientRegistrationPerHour :: int

definition limitPoliciesFrom :: "RateConfig \<Rightarrow> Resource \<Rightarrow> LimitPolicy option" where
  "limitPoliciesFrom config resource = Some
     (case resource of
        R_requests \<Rightarrow> \<lparr>lp_limit = rc_rateRequestsPerMin config, lp_windowSeconds = 60\<rparr>
      | R_org_requests \<Rightarrow> \<lparr>lp_limit = 0, lp_windowSeconds = 60\<rparr>
      | R_search \<Rightarrow> \<lparr>lp_limit = rc_rateSearchPerMin config, lp_windowSeconds = 60\<rparr>
      | R_ingest \<Rightarrow> \<lparr>lp_limit = rc_rateIngestPerHour config, lp_windowSeconds = 3600\<rparr>
      | R_login \<Rightarrow> \<lparr>lp_limit = rc_rateLoginPer15Min config, lp_windowSeconds = 900\<rparr>
      | R_login_source \<Rightarrow> \<lparr>lp_limit = rc_rateLoginSourcePer15Min config, lp_windowSeconds = 900\<rparr>
      | R_client_registration \<Rightarrow> \<lparr>lp_limit = rc_rateClientRegistrationPerHour config, lp_windowSeconds = 3600\<rparr>)"

definition isOrganizationLimit :: "Resource \<Rightarrow> bool" where
  "isOrganizationLimit resource \<longleftrightarrow> resource \<in> {R_requests, R_org_requests, R_search, R_ingest}"

text \<open>
  A module's source of limits: \<open>None\<close> when none is loaded; on an organization it throws (\<open>Inl\<close>), or gives
  nothing, or a number for some resources, as a rational; \<open>kept\<close> has those that are positive integers.
\<close>

type_synonym RateLimitSource = "string \<Rightarrow> string + (Resource \<rightharpoonup> rat) option"

definition organizationLimits :: "RateLimitSource option \<Rightarrow> string \<Rightarrow> (Resource \<rightharpoonup> int) option" where
  "organizationLimits source orgId =
     (case source of
        None \<Rightarrow> None
      | Some limitsFor \<Rightarrow>
          (case limitsFor orgId of
             Inl _ \<Rightarrow> None
           | Inr None \<Rightarrow> None
           | Inr (Some raw) \<Rightarrow> Some (\<lambda>key. if \<not> isOrganizationLimit key then None
               else case raw key of Some v \<Rightarrow> if v = of_int \<lfloor>v\<rfloor> \<and> v > 0 then Some \<lfloor>v\<rfloor> else None | None \<Rightarrow> None)))"

definition policyFor :: "RateLimitSource option \<Rightarrow> (Resource \<Rightarrow> LimitPolicy option) \<Rightarrow> Resource \<Rightarrow> string option \<Rightarrow> LimitPolicy option" where
  "policyFor source policies resource orgId =
     (case policies resource of
        None \<Rightarrow> None
      | Some base \<Rightarrow>
          (let override = (case orgId of
                 Some org \<Rightarrow> if isOrganizationLimit resource
                   then (case organizationLimits source org of Some kept \<Rightarrow> kept resource | None \<Rightarrow> None) else None
               | None \<Rightarrow> None);
               limit = (case override of Some n \<Rightarrow> n | None \<Rightarrow> lp_limit base)
           in if limit > 0 then Some \<lparr>lp_limit = limit, lp_windowSeconds = lp_windowSeconds base\<rparr> else None))"

subsection \<open>secondsUntilRoom\<close>

definition secondsUntilRoom :: "int \<Rightarrow> int \<Rightarrow> int \<Rightarrow> int \<Rightarrow> int \<Rightarrow> int" where
  "secondsUntilRoom limit windowMs elapsedMs previous current =
     (let room = limit - 1;
          waitMs =
            (if current \<le> room
             then (if previous \<le> 0 then 0
                   else fl (fl (of_int windowMs * fl (1 - fl (of_int (room - current) / of_int previous))) - of_int elapsedMs))
             else (let intoNext = (if current \<le> 0 then 0 else max 0 (fl (of_int windowMs * fl (1 - fl (of_int room / of_int current)))))
                   in fl (of_int (windowMs - elapsedMs) + intoNext)))
      in max 1 \<lceil>fl (waitMs / 1000)\<rceil>)"

subsection \<open>check\<close>

text \<open>\<open>Math.floor(now / windowMs)\<close> is the integer quotient: \<open>floor_quotient\<close> of \<open>Double\<close>, for any \<open>now\<close> of at most 53 bits.\<close>

definition windowStart :: "int \<Rightarrow> int \<Rightarrow> int" where
  "windowStart now windowMs = (now div windowMs) * windowMs"

definition rl_key :: "Resource \<Rightarrow> string \<Rightarrow> int \<Rightarrow> string" where
  "rl_key resource subject start = ''nacre:rl:'' @ resource_name resource @ '':'' @ subject @ '':'' @ int_str start"

definition noted_key :: "Resource \<Rightarrow> string \<Rightarrow> int \<Rightarrow> string" where
  "noted_key resource subject start = ''nacre:rl:noted:'' @ resource_name resource @ '':'' @ subject @ '':'' @ int_str start"

text \<open>\<open>Number(count ?? 0)\<close>; an array, which no counter command answers, is read as no number.\<close>

definition reply_number :: "(string \<Rightarrow> int option) \<Rightarrow> Reply \<Rightarrow> int option" where
  "reply_number number r = (case r of RNum n \<Rightarrow> Some n | RNull \<Rightarrow> Some 0 | RStr t \<Rightarrow> number t | _ \<Rightarrow> None)"

definition estimate :: "int \<Rightarrow> int \<Rightarrow> int \<Rightarrow> int \<Rightarrow> rat" where
  "estimate windowMs elapsed previous current =
     (let weight = fl (1 - fl (of_int elapsed / of_int windowMs)) in fl (fl (of_int previous * weight) + of_int current))"

definition count_request :: "(string list \<Rightarrow> 's \<Rightarrow> (string + Reply) \<times> 's) \<Rightarrow> (string \<Rightarrow> int option) \<Rightarrow> nat option \<Rightarrow> string \<Rightarrow> string \<Rightarrow> int \<Rightarrow> 's
    \<Rightarrow> (string + int option \<times> int option) \<times> 's" where
  "count_request exec number fate key previousKey windowMs s =
     (case pipelined exec fate [[''INCR'', key], [''PEXPIRE'', key, int_str (2 * windowMs + 1000)], [''GET'', previousKey]] s of
        (Inl e, s') \<Rightarrow> (Inl e, s')
      | (Inr rs, s') \<Rightarrow> (Inr (reply_number number (rs ! 0), reply_number number (rs ! 2)), s'))"

text \<open>The give-back of a refused request, and its answer. With no number for the previous window the wait is one only where it is not asked for.\<close>

definition refusal_reset :: "int \<Rightarrow> int \<Rightarrow> int \<Rightarrow> int option \<Rightarrow> int option \<Rightarrow> int option" where
  "refusal_reset limit windowMs elapsed previous current =
     (case (current, previous) of
        (Some c, Some p) \<Rightarrow> Some (secondsUntilRoom limit windowMs elapsed p (c - 1))
      | (Some c, None) \<Rightarrow> if c - 1 \<le> limit - 1 then None else Some (secondsUntilRoom limit windowMs elapsed 0 (c - 1))
      | (None, _) \<Rightarrow> None)"

definition refuse_request :: "(string list \<Rightarrow> 's \<Rightarrow> (string + Reply) \<times> 's) \<Rightarrow> nat option \<Rightarrow> string \<Rightarrow> string \<Rightarrow> int \<Rightarrow> int \<Rightarrow> int option
    \<Rightarrow> LimitDecision \<Rightarrow> 's \<Rightarrow> LimitDecision \<times> 's" where
  "refuse_request exec fate key noted windowMs limit reset degraded s =
     (case pipelined exec fate [[''DECR'', key], [''SET'', noted, ''1'', ''NX'', ''PX'', int_str (windowMs + 1000)]] s of
        (Inl e, s') \<Rightarrow> (degraded, s')
      | (Inr rs, s') \<Rightarrow> (\<lparr>ld_allowed = False, ld_limit = limit, ld_remaining = 0, ld_reset = reset, ld_degraded = False,
          ld_firstRefusal = (rs ! 1 = RStr ''OK'')\<rparr>, s'))"

text \<open>\<open>fate\<close> and \<open>undo_fate\<close> are what becomes of the two pipelines.\<close>

definition check :: "(string list \<Rightarrow> 's \<Rightarrow> (string + Reply) \<times> 's) \<Rightarrow> (string \<Rightarrow> int option) \<Rightarrow> nat option \<Rightarrow> nat option \<Rightarrow> int
    \<Rightarrow> string \<Rightarrow> Resource \<Rightarrow> LimitPolicy \<Rightarrow> 's \<Rightarrow> LimitDecision \<times> 's" where
  "check exec number fate undo_fate now subject resource policy s =
     (let windowMs = lp_windowSeconds policy * 1000;
          start = windowStart now windowMs;
          elapsed = now - start;
          rolls = max 1 \<lceil>fl (of_int (start + windowMs - now) / 1000)\<rceil>;
          key = rl_key resource subject start;
          degraded = \<lparr>ld_allowed = True, ld_limit = lp_limit policy, ld_remaining = lp_limit policy, ld_reset = Some rolls,
            ld_degraded = True, ld_firstRefusal = False\<rparr>
      in case count_request exec number fate key (rl_key resource subject (start - windowMs)) windowMs s of
           (Inl e, s') \<Rightarrow> (degraded, s')
         | (Inr (current, previous), s') \<Rightarrow>
             if (case (current, previous) of
                   (Some c, Some p) \<Rightarrow> estimate windowMs elapsed p c \<le> of_int (lp_limit policy) | _ \<Rightarrow> False)
             then (\<lparr>ld_allowed = True, ld_limit = lp_limit policy,
                    ld_remaining = max 0 \<lfloor>fl (of_int (lp_limit policy) - estimate windowMs elapsed (the previous) (the current))\<rfloor>,
                    ld_reset = Some rolls, ld_degraded = False, ld_firstRefusal = False\<rparr>, s')
             else refuse_request exec undo_fate key (noted_key resource subject start) windowMs (lp_limit policy)
                    (refusal_reset (lp_limit policy) windowMs elapsed previous current) degraded s')"

subsection \<open>release, limitHeaders, admitRequest\<close>

definition release :: "(string list \<Rightarrow> 's \<Rightarrow> (string + Reply) \<times> 's) \<Rightarrow> Fate \<times> Fate \<Rightarrow> int \<Rightarrow> (Resource \<Rightarrow> LimitPolicy option)
    \<Rightarrow> string \<Rightarrow> Resource \<Rightarrow> 's \<Rightarrow> 's" where
  "release exec fates now policies subject resource s =
     (let windowMs = lp_windowSeconds (the (policies resource)) * 1000
      in snd (command exec fates [''DECR'', rl_key resource subject (windowStart now windowMs)] s))"

definition number_str :: "int option \<Rightarrow> string" where
  "number_str n = (case n of Some i \<Rightarrow> int_str i | None \<Rightarrow> ''NaN'')"

definition limitHeaders :: "LimitDecision \<Rightarrow> LimitPolicy \<Rightarrow> Resource \<Rightarrow> (string \<times> string) list" where
  "limitHeaders decision policy resource =
     [(''ratelimit-limit'', int_str (ld_limit decision)),
      (''ratelimit-remaining'', int_str (ld_remaining decision)),
      (''ratelimit-reset'', number_str (ld_reset decision)),
      (''ratelimit-policy'', resource_name resource @ '';q='' @ int_str (lp_limit policy) @ '';w='' @ int_str (lp_windowSeconds policy))]
     @ (if ld_allowed decision then [] else [(''retry-after'', number_str (ld_reset decision))])"

datatype Admission =
    Admitted "(string \<times> string) list"
  | Refused "(string \<times> string) list" Resource LimitDecision LimitPolicy

text \<open>One call of the limiter: the clock it read and what became of its commands.\<close>

record Turn =
  tn_now :: int
  tn_fate :: "nat option"
  tn_undo :: "nat option"
  tn_command :: "Fate \<times> Fate"

fun release_all :: "(string list \<Rightarrow> 's \<Rightarrow> (string + Reply) \<times> 's) \<Rightarrow> (nat \<Rightarrow> Turn) \<Rightarrow> nat \<Rightarrow> (Resource \<Rightarrow> LimitPolicy option)
    \<Rightarrow> (Resource \<times> string) list \<Rightarrow> 's \<Rightarrow> 's" where
  "release_all exec turn n policies [] s = s"
| "release_all exec turn n policies ((resource, subject) # earlier) s =
     release_all exec turn (Suc n) policies earlier
       (release exec (tn_command (turn n)) (tn_now (turn n)) policies subject resource s)"

fun admit_steps :: "(string list \<Rightarrow> 's \<Rightarrow> (string + Reply) \<times> 's) \<Rightarrow> (string \<Rightarrow> int option) \<Rightarrow> (nat \<Rightarrow> Turn) \<Rightarrow> nat \<Rightarrow> RateLimitSource option
    \<Rightarrow> (Resource \<Rightarrow> LimitPolicy option) \<Rightarrow> string \<Rightarrow> (Resource \<times> string) list \<Rightarrow> (string \<times> string) list \<Rightarrow> (Resource \<times> string) list \<Rightarrow> 's
    \<Rightarrow> Admission \<times> 's" where
  "admit_steps exec number turn n source policies orgId passed headers [] s = (Admitted headers, s)"
| "admit_steps exec number turn n source policies orgId passed headers ((resource, subject) # steps) s =
     (case policyFor source policies resource (Some orgId) of
        None \<Rightarrow> admit_steps exec number turn n source policies orgId passed headers steps s
      | Some policy \<Rightarrow>
          (let (decision, s') = check exec number (tn_fate (turn n)) (tn_undo (turn n)) (tn_now (turn n)) subject resource policy s;
               headers' = limitHeaders decision policy resource
           in if \<not> ld_allowed decision
              then (Refused headers' resource decision policy, release_all exec turn (Suc n) policies passed s')
              else admit_steps exec number turn (Suc n) source policies orgId (passed @ [(resource, subject)]) headers' steps s'))"

definition principalSubject :: "string \<Rightarrow> string \<Rightarrow> string \<Rightarrow> string" where
  "principalSubject orgId type i = orgId @ '':'' @ type @ '':'' @ i"

definition admitRequest :: "(string list \<Rightarrow> 's \<Rightarrow> (string + Reply) \<times> 's) \<Rightarrow> (string \<Rightarrow> int option) \<Rightarrow> (nat \<Rightarrow> Turn) \<Rightarrow> RateLimitSource option
    \<Rightarrow> (Resource \<Rightarrow> LimitPolicy option) \<Rightarrow> string \<Rightarrow> string \<Rightarrow> string \<Rightarrow> Resource option \<Rightarrow> 's \<Rightarrow> Admission \<times> 's" where
  "admitRequest exec number turn source policies orgId type i operation s =
     admit_steps exec number turn 0 source policies orgId [] []
       ([(R_requests, principalSubject orgId type i), (R_org_requests, orgId)]
        @ (case operation of Some r \<Rightarrow> [(r, orgId)] | None \<Rightarrow> [])) s"

subsection \<open>Keys\<close>

lemma resource_name_colon [simp]: "CHR '':'' \<notin> set (resource_name r)"
  by (cases r) simp_all

lemma resource_name_inj [simp]: "resource_name r = resource_name q \<longleftrightarrow> r = q"
  by (cases r; cases q) simp_all

lemma int_str_colon [simp]: "CHR '':'' \<notin> set (int_str n)"
  by (simp add: int_str_def)

lemma int_str_inj [simp]: "int_str m = int_str n \<longleftrightarrow> m = n"
  using reads_intsD(1) [OF str_int_reads] by (metis option.inject)

lemma rl_key_inj [simp]: "rl_key r x m = rl_key q y n \<longleftrightarrow> r = q \<and> x = y \<and> m = n"
proof
  assume "rl_key r x m = rl_key q y n"
  then have "resource_name r @ '':'' @ (x @ '':'' @ int_str m) = resource_name q @ '':'' @ (y @ '':'' @ int_str n)"
    by (simp add: rl_key_def)
  from colon_join_inj [OF _ _ this] have "r = q" and eq: "x @ '':'' @ int_str m = y @ '':'' @ int_str n" by simp_all
  with colon_last_inj [OF _ _ eq] show "r = q \<and> x = y \<and> m = n" by simp
qed simp

lemma noted_rl [simp]: "noted_key r x m \<noteq> rl_key q y n"
proof
  assume "noted_key r x m = rl_key q y n"
  then have "''noted'' @ '':'' @ (resource_name r @ '':'' @ x @ '':'' @ int_str m) = resource_name q @ '':'' @ (y @ '':'' @ int_str n)"
    by (simp add: noted_key_def rl_key_def)
  from colon_join_inj [OF _ _ this] show False by (cases q) simp_all
qed

subsection \<open>What the server counts\<close>

definition counts :: "('s \<Rightarrow> string \<rightharpoonup> string) \<Rightarrow> 's \<Rightarrow> Resource \<Rightarrow> string \<Rightarrow> int \<Rightarrow> int" where
  "counts view s r x w = (case view s (rl_key r x w) of None \<Rightarrow> 0 | Some t \<Rightarrow> the (str_int t))"

definition counting :: "('s \<Rightarrow> string \<rightharpoonup> string) \<Rightarrow> 's \<Rightarrow> bool" where
  "counting view s \<longleftrightarrow> (\<forall>r x w. view s (rl_key r x w) = None \<or> view s (rl_key r x w) = Some (int_str (counts view s r x w)))"

definition bump_count :: "Resource \<Rightarrow> string \<Rightarrow> int \<Rightarrow> int \<Rightarrow> (Resource \<Rightarrow> string \<Rightarrow> int \<Rightarrow> int) \<Rightarrow> Resource \<Rightarrow> string \<Rightarrow> int \<Rightarrow> int" where
  "bump_count r x w d f = f(r := (f r)(x := (f r x)(w := f r x w + d)))"

lemma countingD: "counting view s \<Longrightarrow> view s (rl_key r x w) = Some (int_str (counts view s r x w)) \<or> view s (rl_key r x w) = None \<and> counts view s r x w = 0"
  by (auto simp: counting_def counts_def split: option.splits)

lemma str_int_int_str [simp]: "str_int (int_str n) = Some n"
  by (rule reads_intsD(1) [OF str_int_reads])

lemma counts_write:
  assumes "counting view s" and "view s' = (view s)(rl_key r x w \<mapsto> int_str (counts view s r x w + d))"
  shows "counting view s' \<and> counts view s' = bump_count r x w d (counts view s)"
proof -
  have c: "counts view s' = bump_count r x w d (counts view s)"
    by (intro ext) (auto simp: counts_def assms(2) bump_count_def)
  then show ?thesis using assms(1) by (auto simp: counting_def assms(2) bump_count_def)
qed

lemma counts_same: "counting view s \<Longrightarrow> (\<And>r x w. view s' (rl_key r x w) = view s (rl_key r x w)) \<Longrightarrow> counting view s' \<and> counts view s' = counts view s"
  by (auto simp: counting_def counts_def fun_eq_iff)

lemma bump_count_0 [simp]: "bump_count r x w 0 f = f"
  by (simp add: bump_count_def fun_eq_iff)

lemma bump_count_add [simp]: "bump_count r x w d (bump_count r x w e f) = bump_count r x w (e + d) f"
  by (auto simp: bump_count_def fun_eq_iff)

lemma bump_count_comm: "bump_count r x w d (bump_count q y v e f) = bump_count q y v e (bump_count r x w d f)"
  by (auto simp: bump_count_def fun_eq_iff)

lemma bump_count_at: "bump_count r x w d f q y v = f q y v + (if r = q \<and> x = y \<and> w = v then d else 0)"
  by (simp add: bump_count_def)

lemma incr_counts:
  assumes "redis_server exec view" and "counting view s"
  shows "fst (exec [''INCR'', rl_key r x w] s) = Inr (RNum (counts view s r x w + 1))"
    and "counting view (snd (exec [''INCR'', rl_key r x w] s))"
    and "counts view (snd (exec [''INCR'', rl_key r x w] s)) = bump_count r x w 1 (counts view s)"
  using serverD(3,4) [OF assms(1) countingD [OF assms(2)]] counts_write [OF assms(2), of _ r x w 1] by auto

lemma decr_counts:
  assumes "redis_server exec view" and "counting view s"
  shows "\<exists>v. fst (exec [''DECR'', rl_key r x w] s) = Inr v"
    and "counting view (snd (exec [''DECR'', rl_key r x w] s))"
    and "counts view (snd (exec [''DECR'', rl_key r x w] s)) = bump_count r x w (-1) (counts view s)"
  using serverD(5,6) [OF assms(1) countingD [OF assms(2)]] counts_write [OF assms(2), of _ r x w "-1"] by auto

lemma count_request_run:
  assumes server: "redis_server exec view" and number: "reads_ints number" and counting: "counting view s" and "v \<noteq> w"
  shows "\<exists>s'. count_request exec number None (rl_key r x w) (rl_key r x v) W s
      = (Inr (Some (counts view s r x w + 1), Some (counts view s r x v)), s')
    \<and> counting view s' \<and> counts view s' = bump_count r x w 1 (counts view s)"
proof -
  define s1 where "s1 = snd (exec [''INCR'', rl_key r x w] s)"
  define s2 where "s2 = snd (exec [''PEXPIRE'', rl_key r x w, int_str (2 * W + 1000)] s1)"
  define s3 where "s3 = snd (exec [''GET'', rl_key r x v] s2)"
  note incr = incr_counts [OF server counting, of r x w, folded s1_def]
  have v2: "view s2 = view s1" and v3: "view s3 = view s2"
    unfolding s2_def s3_def by (rule serverD(8) [OF server], rule serverD(2) [OF server])
  obtain q where q: "fst (exec [''PEXPIRE'', rl_key r x w, int_str (2 * W + 1000)] s1) = Inr q"
    using serverD(7) [OF server] by blast
  have c3: "counting view s3 \<and> counts view s3 = counts view s1" using counts_same [OF incr(2), of s3] by (simp add: v2 v3)
  have get: "reply_number number (case view s2 (rl_key r x v) of None \<Rightarrow> RNull | Some t \<Rightarrow> RStr t) = Some (counts view s r x v)"
    using countingD [OF incr(2), of r x v] incr(3) assms(4) reads_intsD(1) [OF number]
    by (auto simp: v2 reply_number_def bump_count_at split: option.splits)
  have "count_request exec number None (rl_key r x w) (rl_key r x v) W s
      = (Inr (Some (counts view s r x w + 1), Some (counts view s r x v)), s3)"
  proof -
    have "exec [''INCR'', rl_key r x w] s = (Inr (RNum (counts view s r x w + 1)), s1)"
      and "exec [''PEXPIRE'', rl_key r x w, int_str (2 * W + 1000)] s1 = (Inr q, s2)"
      and "exec [''GET'', rl_key r x v] s2 = (Inr (case view s2 (rl_key r x v) of None \<Rightarrow> RNull | Some t \<Rightarrow> RStr t), s3)"
      using incr(1) q serverD(1) [OF server, of "rl_key r x v" s2] by (simp_all add: s1_def s2_def s3_def prod_eq_iff)
    with get show ?thesis by (simp add: count_request_def pipelined_def) (simp add: reply_number_def)
  qed
  then show ?thesis using c3 incr(3) by simp
qed

lemma refuse_request_run:
  assumes server: "redis_server exec view" and counting: "counting view s"
  shows "\<exists>s' n. refuse_request exec None (rl_key r x w) (noted_key r x w) W limit reset degraded s
      = (\<lparr>ld_allowed = False, ld_limit = limit, ld_remaining = 0, ld_reset = reset, ld_degraded = False, ld_firstRefusal = n\<rparr>, s')
    \<and> counting view s' \<and> counts view s' = bump_count r x w (-1) (counts view s)"
proof -
  define s1 where "s1 = snd (exec [''DECR'', rl_key r x w] s)"
  define set_noted where "set_noted = [''SET'', noted_key r x w, ''1'', ''NX'', ''PX'', int_str (W + 1000)]"
  define s2 where "s2 = snd (exec set_noted s1)"
  note decr = decr_counts [OF server counting, of r x w, folded s1_def]
  obtain v where v: "fst (exec [''DECR'', rl_key r x w] s) = Inr v" using decr(1) by blast
  obtain n where n: "fst (exec set_noted s1) = Inr n"
    using serverD(9) [OF server, of "''PX''"] by (auto simp: set_noted_def)
  have "view s2 = (if view s1 (noted_key r x w) = None then (view s1)(noted_key r x w \<mapsto> ''1'') else view s1)"
    unfolding s2_def set_noted_def by (rule serverD(10) [OF server]) simp
  then have "view s2 (rl_key q y u) = view s1 (rl_key q y u)" for q y u
    using noted_rl [of r x w q y u, symmetric] by simp
  then have "counting view s2 \<and> counts view s2 = bump_count r x w (-1) (counts view s)"
    using counts_same [OF decr(2), of s2] decr(3) by simp
  moreover have "refuse_request exec None (rl_key r x w) (noted_key r x w) W limit reset degraded s
      = (\<lparr>ld_allowed = False, ld_limit = limit, ld_remaining = 0, ld_reset = reset, ld_degraded = False, ld_firstRefusal = (n = RStr ''OK'')\<rparr>, s2)"
  proof -
    have "exec [''DECR'', rl_key r x w] s = (Inr v, s1)" and "exec set_noted s1 = (Inr n, s2)"
      using v n by (simp_all add: s1_def s2_def prod_eq_iff)
    then show ?thesis by (simp add: refuse_request_def pipelined_def set_noted_def)
  qed
  ultimately show ?thesis by blast
qed

text \<open>What a check that Redis answers decides and costs.\<close>

abbreviation fits :: "LimitPolicy \<Rightarrow> int \<Rightarrow> int \<Rightarrow> int \<Rightarrow> bool" where
  "fits policy elapsed previous current \<equiv>
     estimate (lp_windowSeconds policy * 1000) elapsed previous (current + 1) \<le> of_int (lp_limit policy)"

lemma check_run:
  assumes server: "redis_server exec view" and number: "reads_ints number" and counting: "counting view s" and W: "0 < lp_windowSeconds policy"
    and "check exec number None None now x r policy s = (d, s')"
    and w: "w = windowStart now (lp_windowSeconds policy * 1000)"
    and "p = counts view s r x (w - lp_windowSeconds policy * 1000)" and "c = counts view s r x w"
  shows "ld_allowed d \<longleftrightarrow> fits policy (now - w) p c"
    and "\<not> ld_allowed d \<Longrightarrow> ld_reset d = Some (secondsUntilRoom (lp_limit policy) (lp_windowSeconds policy * 1000) (now - w) p c)"
    and "counting view s'"
    and "counts view s' = bump_count r x w (if ld_allowed d then 1 else 0) (counts view s)"
    and "\<not> ld_degraded d"
proof -
  let ?W = "lp_windowSeconds policy * 1000"
  have ne: "w - ?W \<noteq> w" using W by simp
  obtain s1 where s1: "count_request exec number None (rl_key r x w) (rl_key r x (w - ?W)) ?W s = (Inr (Some (c + 1), Some p), s1)"
    "counting view s1" "counts view s1 = bump_count r x w 1 (counts view s)"
    using count_request_run [OF server number counting ne, of r x ?W] assms(7,8) by auto
  note run = assms(5) [unfolded check_def Let_def w [symmetric] s1(1)]
  have "(ld_allowed d \<longleftrightarrow> fits policy (now - w) p c)
    \<and> (\<not> ld_allowed d \<longrightarrow> ld_reset d = Some (secondsUntilRoom (lp_limit policy) ?W (now - w) p c))
    \<and> counting view s' \<and> counts view s' = bump_count r x w (if ld_allowed d then 1 else 0) (counts view s) \<and> \<not> ld_degraded d"
  proof (cases "fits policy (now - w) p c")
    case True
    then show ?thesis using run s1 by auto
  next
    case False
    then obtain degraded where "refuse_request exec None (rl_key r x w) (noted_key r x w) ?W (lp_limit policy)
        (refusal_reset (lp_limit policy) ?W (now - w) (Some p) (Some (c + 1))) degraded s1 = (d, s')"
      using run by auto
    then show ?thesis
      using refuse_request_run [OF server s1(2), of r x w ?W "lp_limit policy"
        "refusal_reset (lp_limit policy) ?W (now - w) (Some p) (Some (c + 1))" degraded] s1(3) False
      by (auto simp: refusal_reset_def)
  qed
  then show "ld_allowed d \<longleftrightarrow> fits policy (now - w) p c"
    and "\<not> ld_allowed d \<Longrightarrow> ld_reset d = Some (secondsUntilRoom (lp_limit policy) ?W (now - w) p c)"
    and "counting view s'" and "counts view s' = bump_count r x w (if ld_allowed d then 1 else 0) (counts view s)"
    and "\<not> ld_degraded d" by blast+
qed

subsection \<open>The estimate in doubles\<close>

text \<open>The part of the previous window that still counts.\<close>

definition share :: "int \<Rightarrow> int \<Rightarrow> int \<Rightarrow> rat" where
  "share W e p = fl (of_int p * fl (1 - fl (of_int e / of_int W)))"

lemma estimate_share: "estimate W e p c = fl (share W e p + of_int c)"
  by (simp add: estimate_def share_def)

lemma weight_range:
  assumes "0 < W" and "0 \<le> e" and "e \<le> W"
  shows "0 \<le> fl (1 - fl (of_int e / of_int W))" and "fl (1 - fl (of_int e / of_int W)) \<le> 1"
proof -
  have "0 \<le> (of_int e :: rat) / of_int W" "(of_int e :: rat) / of_int W \<le> of_int 1" using assms by simp_all
  from fl_nonneg [OF this(1)] fl_le_int [OF this(2)] have "0 \<le> 1 - fl (of_int e / of_int W)" "1 - fl (of_int e / of_int W) \<le> of_int 1"
    by simp_all
  from fl_nonneg [OF this(1)] fl_le_int [OF this(2)] show "0 \<le> fl (1 - fl (of_int e / of_int W))" "fl (1 - fl (of_int e / of_int W)) \<le> 1"
    by simp_all
qed

text \<open>The estimate only falls with the counts.\<close>

lemma estimate_mono:
  assumes "0 < W" and "0 \<le> e" and "e \<le> W" and "p' \<le> p" and "c' \<le> c"
  shows "estimate W e p' c' \<le> estimate W e p c"
proof -
  have "share W e p' \<le> share W e p"
    using weight_range(1) [OF assms(1-3)] assms(4) by (auto simp: share_def intro!: fl_mono mult_right_mono)
  then show ?thesis using assms(5) by (auto simp: estimate_share intro!: fl_mono)
qed

lemma estimate_fits:
  assumes "share W e p \<le> of_int m" and "m + c \<le> limit" and "0 \<le> limit" and "limit < 2 ^ 53"
  shows "estimate W e p c \<le> of_int limit"
proof -
  have "(of_int (m + c) :: rat) \<le> of_int limit" using assms(2) by (simp only: of_int_le_iff)
  then have "share W e p + of_int c \<le> of_int limit" using assms(1) by simp
  then show ?thesis unfolding estimate_share by (rule fl_le_int) (use assms(3,4) in simp)
qed

lemma share_le:
  assumes "0 < W" and "0 \<le> e" and "e \<le> W" and "0 \<le> p" and "p \<le> m" and "m < 2 ^ 53"
  shows "share W e p \<le> of_int m"
  unfolding share_def
proof (rule fl_le_int)
  have "of_int p * fl (1 - fl (of_int e / of_int W)) \<le> of_int p * 1"
    using weight_range(2) [OF assms(1-3)] assms(4) by (intro mult_left_mono) simp_all
  also have "\<dots> \<le> of_int m" using assms(5) by simp
  finally show "of_int p * fl (1 - fl (of_int e / of_int W)) \<le> of_int m" .
qed (use assms in simp)

text \<open>Admitting says something of the counter alone: it is within the limit, unless the previous window's is below zero.\<close>

lemma estimate_bounds_current:
  assumes "0 < W" and "0 \<le> e" and "e \<le> W" and "- V \<le> p" and "0 \<le> V" and "V + limit < 2 ^ 53" and "0 < limit"
    and "estimate W e p c \<le> of_int limit"
  shows "c \<le> limit + V"
proof (rule ccontr)
  assume "\<not> c \<le> limit + V"
  then have c: "limit + V + 1 \<le> c" by simp
  have "(of_int (- V) :: rat) \<le> share W e (- V)"
    unfolding share_def
  proof (rule fl_ge_int)
    have "of_int V * fl (1 - fl (of_int e / of_int W)) \<le> of_int V * 1"
      using weight_range(2) [OF assms(1-3)] assms(5) by (intro mult_left_mono) simp_all
    then show "of_int (- V) \<le> of_int (- V) * fl (1 - fl (of_int e / of_int W))" by simp
  qed (use assms(5-7) in simp)
  then have "of_int (limit + 1) \<le> share W e (- V) + of_int (limit + V + 1)" by simp
  from fl_ge_int [OF this] have "of_int (limit + 1) \<le> estimate W e (- V) (limit + V + 1)"
    unfolding estimate_share using assms(5-7) by simp
  also have "\<dots> \<le> estimate W e p c" using assms(1-4) c by (intro estimate_mono) simp_all
  also have "\<dots> \<le> of_int limit" by (rule assms(8))
  finally show False by simp
qed

subsection \<open>Waiting as long as one was told\<close>

text \<open>A window slid by the exact time, up to the rounding of three operations.\<close>

lemma slide:
  assumes "0 < W" and "W \<le> 2 ^ 49" and "0 \<le> q" and "q \<le> 1"
  shows "of_int W * (1 - q) - 3 * (of_int W / 2 ^ 53) \<le> fl (of_int W * fl (1 - fl q))"
    and "0 \<le> fl (of_int W * fl (1 - fl q))" and "fl (of_int W * fl (1 - fl q)) \<le> of_int W"
proof -
  let ?W = "of_int W :: rat"
  have W: "0 < ?W" using assms(1) by simp
  have q: "0 \<le> fl q" "fl q \<le> 1" "fl q \<le> q + 1 / 2 ^ 53"
    using fl_nonneg [OF assms(3)] fl_le_int [of q 1] fl_close(2) [of q 1] assms(3,4) by simp_all
  have a: "0 \<le> fl (1 - fl q)" "fl (1 - fl q) \<le> 1" "1 - fl q - 1 / 2 ^ 53 \<le> fl (1 - fl q)"
    using fl_nonneg [of "1 - fl q"] fl_le_int [of "1 - fl q" 1] fl_close(1) [of "1 - fl q" 1] q(1,2) by simp_all
  have p: "0 \<le> ?W * fl (1 - fl q)" "?W * fl (1 - fl q) \<le> ?W" using W a(1,2) by (simp_all add: mult_left_le)
  show "0 \<le> fl (?W * fl (1 - fl q))" using fl_nonneg [OF p(1)] .
  show "fl (?W * fl (1 - fl q)) \<le> ?W" using fl_le_int [OF p(2)] assms(1,2) by simp
  have "?W * (1 - q - 2 * (1 / 2 ^ 53)) \<le> ?W * fl (1 - fl q)" using W a(3) q(3) by (intro mult_left_mono) linarith+
  moreover have "?W * fl (1 - fl q) - ?W / 2 ^ 53 \<le> fl (?W * fl (1 - fl q))" using p by (intro fl_close(1)) simp
  ultimately show "?W * (1 - q) - 3 * (?W / 2 ^ 53) \<le> fl (?W * fl (1 - fl q))" by (simp add: algebra_simps)
qed

text \<open>Once the exact time is passed by four roundings of the window, what is left of the previous window fits.\<close>

lemma decayed:
  assumes "0 < W" and "0 < p" and "0 \<le> m" and "m < 2 ^ 53" and "0 \<le> t" and "t \<le> W"
    and "of_int W * (1 - of_int m / of_int p) + 3 * (of_int W / 2 ^ 53) \<le> (of_int t :: rat)"
  shows "share W t p \<le> of_int m"
  unfolding share_def
proof (rule fl_le_int)
  let ?W = "of_int W :: rat" and ?q = "of_int m / of_int p :: rat" and ?s = "of_int t / of_int W :: rat"
  have W: "0 < ?W" "0 < (of_int p :: rat)" using assms(1,2) by simp_all
  have s: "0 \<le> ?s" "?s \<le> 1" using assms(1,5,6) by simp_all
  have f: "0 \<le> fl ?s" "fl ?s \<le> 1" "?s - 1 / 2 ^ 53 \<le> fl ?s"
    using fl_nonneg [OF s(1)] fl_le_int [of ?s 1] fl_close(1) [of ?s 1] s by simp_all
  have "fl (1 - fl ?s) \<le> 1 - fl ?s + 1 / 2 ^ 53" using f by (intro fl_close(2)) simp
  also have "\<dots> \<le> 1 - ?s + 3 * (1 / 2 ^ 53)" using f(3) by simp
  also have "\<dots> \<le> ?q"
  proof -
    have "?W * (1 - ?q + 3 * (1 / 2 ^ 53)) \<le> of_int t" using assms(7) by (simp add: algebra_simps)
    then have "1 - ?q + 3 * (1 / 2 ^ 53) \<le> ?s" using W by (simp add: pos_le_divide_eq mult.commute)
    then show ?thesis by linarith
  qed
  finally have "of_int p * fl (1 - fl ?s) \<le> of_int p * ?q" using W by (intro mult_left_mono) simp_all
  then show "of_int p * fl (1 - fl ?s) \<le> of_int m" using W by simp
qed (use assms in simp)

lemma ceiling_wait:
  assumes "r = max 1 \<lceil>fl (wait / 1000)\<rceil>" and "\<bar>wait\<bar> \<le> B"
  shows "wait - B / 2 ^ 53 \<le> of_int (1000 * r)"
proof -
  have "fl (wait / 1000) \<le> of_int \<lceil>fl (wait / 1000)\<rceil>" by (rule le_of_int_ceiling)
  also have "\<dots> \<le> of_int r" using assms(1) by simp
  finally have "fl (wait / 1000) \<le> of_int r" .
  moreover have "wait / 1000 - (B / 1000) / 2 ^ 53 \<le> fl (wait / 1000)" using assms(2) by (intro fl_close(1)) simp
  ultimately show ?thesis by simp
qed

text \<open>A millisecond covers every rounding, for windows of at most \<open>2 ^ 49\<close> milliseconds.\<close>

lemma secondsUntilRoom_wait:
  assumes W: "0 < W" "W \<le> 2 ^ 49" and e: "0 \<le> e" "e < W" and "0 \<le> p" and "0 \<le> c" and limit: "1 \<le> limit" "limit < 2 ^ 53"
    and refused: "\<not> estimate W e p (c + 1) \<le> of_int limit"
    and r: "r = secondsUntilRoom limit W e p c" and t: "e + 1000 * r + 1 \<le> t"
  shows "c \<le> limit - 1 \<Longrightarrow> t \<le> W \<Longrightarrow> share W t p \<le> of_int (limit - 1 - c)"
    and "\<not> c \<le> limit - 1 \<Longrightarrow> W \<le> t \<and> (t - W \<le> W \<longrightarrow> share W (t - W) c \<le> of_int (limit - 1))"
    and "1 \<le> r"
proof -
  let ?q = "of_int :: int \<Rightarrow> rat"
  have qW: "0 < ?q W" "?q W \<le> 2 ^ 49" using W by (simp, metis of_int_le_iff of_int_numeral of_int_power)
  have late: "?q e + ?q (1000 * r) + 1 \<le> ?q t" using t by (metis of_int_1 of_int_add of_int_le_iff)
  have small: "10 * (?q W / 2 ^ 53) \<le> 1" using qW(2) by simp
  show "1 \<le> r" by (simp add: r secondsUntilRoom_def Let_def)
  { assume c: "c \<le> limit - 1" and "t \<le> W"
    have more: "limit - 1 - c < p"
    proof (rule ccontr)
      assume "\<not> limit - 1 - c < p"
      then have "share W e p \<le> of_int (limit - 1 - c)" using W e assms(5,6) limit by (intro share_le) simp_all
      from estimate_fits [OF this, of "c + 1" limit] refused limit show False by simp
    qed
    then have p: "0 < p" using c by simp
    define x where "x = ?q (limit - 1 - c) / ?q p"
    have x: "0 \<le> x" "x \<le> 1" using c p more by (simp_all add: x_def)
    note sl = slide [OF W x]
    define wait where "wait = fl (fl (?q W * fl (1 - fl x)) - ?q e)"
    have "\<bar>fl (?q W * fl (1 - fl x)) - ?q e\<bar> \<le> ?q W" using sl(2,3) e by (simp add: abs_le_iff)
    moreover define y where "y = fl (?q W * fl (1 - fl x)) - ?q e"
    ultimately have y: "\<bar>y\<bar> \<le> ?q W" by simp
    then have "fl y \<le> ?q W" "?q (- W) \<le> fl y" using W by (intro fl_le_int fl_ge_int; simp)+
    then have m: "fl (?q W * fl (1 - fl x)) - ?q e - ?q W / 2 ^ 53 \<le> wait" "\<bar>wait\<bar> \<le> ?q W"
      using fl_close(1) [OF y] by (simp_all add: wait_def y_def abs_le_iff)
    have "wait - ?q W / 2 ^ 53 \<le> ?q (1000 * r)"
      using r c p m(2) by (intro ceiling_wait) (simp_all add: secondsUntilRoom_def Let_def wait_def x_def)
    with late m(1) sl(1) small have "?q W * (1 - x) + 3 * (?q W / 2 ^ 53) \<le> ?q t" by linarith
    then show "share W t p \<le> of_int (limit - 1 - c)"
      using W p c limit assms(6) e t \<open>1 \<le> r\<close> \<open>t \<le> W\<close> by (intro decayed) (simp_all add: x_def) }
  { assume c: "\<not> c \<le> limit - 1"
    have c0: "0 < c" using c limit by simp
    define x where "x = ?q (limit - 1) / ?q c"
    have x: "0 \<le> x" "x \<le> 1" using c c0 limit by (simp_all add: x_def)
    note sl = slide [OF W x]
    define into where "into = max 0 (fl (?q W * fl (1 - fl x)))"
    have into: "into = fl (?q W * fl (1 - fl x))" using sl(2) by (simp add: into_def)
    define wait where "wait = fl (?q (W - e) + into)"
    have "0 \<le> ?q (W - e) + into" "?q (W - e) + into \<le> ?q (2 * W)" using sl(2,3) e by (simp_all add: into)
    then have m: "?q (W - e) + into - 2 * ?q W / 2 ^ 53 \<le> wait" "\<bar>wait\<bar> \<le> 2 * ?q W"
      unfolding wait_def using fl_close(1) [of "?q (W - e) + into" "2 * ?q W"] fl_nonneg fl_le_int [of _ "2 * W"] W by simp_all
    have "wait - 2 * ?q W / 2 ^ 53 \<le> ?q (1000 * r)"
      using r c c0 m(2) by (intro ceiling_wait) (simp_all add: secondsUntilRoom_def Let_def wait_def into_def x_def)
    with late m(1) sl(1) small have late': "?q W + (?q W * (1 - x) + 3 * (?q W / 2 ^ 53)) \<le> ?q t" by (simp add: into)
    have "0 \<le> ?q W * (1 - x) + 3 * (?q W / 2 ^ 53)" using qW(1) x(2) by simp
    with late' have "?q W \<le> ?q t" by linarith
    then have "W \<le> t" by simp
    moreover have "share W (t - W) c \<le> of_int (limit - 1)" if "t - W \<le> W"
      using late' W c0 limit that \<open>W \<le> t\<close> by (intro decayed) (simp_all add: x_def)
    ultimately show "W \<le> t \<and> (t - W \<le> W \<longrightarrow> share W (t - W) c \<le> of_int (limit - 1))" by blast }
qed

lemma window_later:
  assumes "0 < W" and "e = now - windowStart now W"
  shows "0 \<le> e" and "e < W" and "windowStart (now + d) W = windowStart now W + ((e + d) div W) * W"
proof -
  have e: "e = now mod W" using assms(2) by (simp add: windowStart_def minus_div_mult_eq_mod)
  then show "0 \<le> e" "e < W" using assms(1) by simp_all
  have "(e + d + (now div W) * W) div W = (e + d) div W + now div W" using assms(1) by simp
  moreover have "e + d + (now div W) * W = now + d" using e by (simp add: minus_div_mult_eq_mod [symmetric])
  ultimately have "(now + d) div W = (e + d) div W + now div W" by simp
  then show "windowStart (now + d) W = windowStart now W + ((e + d) div W) * W" by (simp add: windowStart_def algebra_simps)
qed

lemma fits_after_wait:
  assumes W: "0 < W" "W \<le> 2 ^ 49" and e: "0 \<le> e" "e < W" and "0 \<le> p" and "0 \<le> c" and limit: "1 \<le> limit" "limit < 2 ^ 53"
    and refused: "\<not> estimate W e p (c + 1) \<le> of_int limit" and t: "e + 1000 * secondsUntilRoom limit W e p c + 1 \<le> t"
    and n: "n = t div W" and before: "p' = (if n = 0 then p else if n = 1 then c else 0)" and here: "c' = (if n = 0 then c else 0)"
  shows "estimate W (t - n * W) p' (c' + 1) \<le> of_int limit"
proof -
  note wait = secondsUntilRoom_wait [OF W e assms(5,6) limit refused refl t]
  have "0 \<le> t" using wait(3) e(1) t by simp
  have rest: "0 \<le> t - n * W" "t - n * W \<le> W" using W n by (simp_all add: minus_div_mult_eq_mod less_imp_le)
  consider (zero) "n = 0" | (one) "n = 1" | (more) "n \<noteq> 0" "n \<noteq> 1" by blast
  then show ?thesis
  proof cases
    case zero
    then have "t < W" using W n \<open>0 \<le> t\<close> by (auto simp: zdiv_eq_0_iff)
    then have "c \<le> limit - 1" using wait(2) by linarith
    with wait(1) \<open>t < W\<close> have "share W t p \<le> of_int (limit - 1 - c)" by simp
    from estimate_fits [OF this, of "c + 1"] show ?thesis using zero limit by (simp add: before here)
  next
    case one
    have "share W (t - W) c \<le> of_int (limit - 1)"
    proof (cases "c \<le> limit - 1")
      case True
      then show ?thesis using W rest one assms(6) limit by (intro share_le) simp_all
    next
      case False
      then show ?thesis using wait(2) rest(2) one by simp
    qed
    from estimate_fits [OF this, of 1] show ?thesis using one limit by (simp add: before here)
  next
    case more
    have "share W (t - n * W) 0 \<le> of_int 0" by (simp add: share_def)
    from estimate_fits [OF this, of 1] show ?thesis using more limit by (simp add: before here)
  qed
qed

subsection \<open>Pipelines that break off, and commands sent twice\<close>

abbreviation decr :: "(string list \<Rightarrow> 's \<Rightarrow> (string + Reply) \<times> 's) \<Rightarrow> Resource \<Rightarrow> string \<Rightarrow> int \<Rightarrow> 's \<Rightarrow> 's" where
  "decr exec r x w s \<equiv> snd (exec [''DECR'', rl_key r x w] s)"

fun ran :: "Fate \<Rightarrow> nat" where
  "ran Answered = 1"
| "ran (Late b) = (if b then 1 else 0)"
| "ran (Lost b) = (if b then 1 else 0)"

text \<open>How often the server runs a command of these fates: never, once, or - the first attempt run and lost - twice.\<close>

definition times_run :: "Fate \<times> Fate \<Rightarrow> nat" where
  "times_run fates = ran (fst fates) + (case fst fates of Lost _ \<Rightarrow> ran (snd fates) | _ \<Rightarrow> 0)"

lemma ran_le: "ran f \<le> 1"
  by (cases f) simp_all

lemma times_run_le: "times_run fates \<le> 2"
  using ran_le [of "fst fates"] ran_le [of "snd fates"] by (auto simp: times_run_def split: Fate.splits)

lemma attempt_runs: "snd (attempt exec fate parts s) = ((\<lambda>s. snd (exec parts s)) ^^ ran fate) s"
  by (cases fate) (simp_all add: attempt_def)

lemma command_runs: "snd (command exec fates parts s) = ((\<lambda>s. snd (exec parts s)) ^^ times_run fates) s"
proof (cases "fst fates")
  case (Lost b)
  have "snd (command exec fates parts s) = ((\<lambda>s. snd (exec parts s)) ^^ ran (snd fates)) (((\<lambda>s. snd (exec parts s)) ^^ ran (Lost b)) s)"
    using Lost by (simp add: command_def attempt_runs)
  also have "\<dots> = ((\<lambda>s. snd (exec parts s)) ^^ times_run fates) s"
    using Lost by (simp add: times_run_def add.commute funpow_add del: ran.simps)
  finally show ?thesis .
qed (simp_all add: command_def attempt_runs times_run_def)

lemma release_runs:
  assumes "policies r = Some policy" and "w = windowStart now (lp_windowSeconds policy * 1000)"
  shows "release exec fates now policies x r s = (decr exec r x w ^^ times_run fates) s"
  using assms by (simp add: release_def command_runs)

lemma decr_times:
  assumes "redis_server exec view" and "counting view s"
  shows "counting view ((decr exec r x w ^^ k) s) \<and> counts view ((decr exec r x w ^^ k) s) = bump_count r x w (- int k) (counts view s)"
proof (induction k)
  case (Suc k)
  then show ?case using decr_counts [OF assms(1), of "(decr exec r x w ^^ k) s" r x w] by (simp add: algebra_simps)
qed (use assms(2) in simp)

lemma count_request_lost:
  assumes server: "redis_server exec view" and counting: "counting view s"
    and "count_request exec number (Some k) (rl_key r x w) previousKey W s = (res, s')"
  shows "(\<exists>e. res = Inl e) \<and> (k = 0 \<longrightarrow> s' = s)
    \<and> (0 < k \<longrightarrow> counting view s' \<and> counts view s' = counts view (snd (exec [''INCR'', rl_key r x w] s)))"
proof -
  define s1 where "s1 = snd (exec [''INCR'', rl_key r x w] s)"
  define s2 where "s2 = snd (exec [''PEXPIRE'', rl_key r x w, int_str (2 * W + 1000)] s1)"
  define s3 where "s3 = snd (exec [''GET'', previousKey] s2)"
  have v: "view s2 = view s1" "view s3 = view s1"
    unfolding s2_def s3_def by (simp_all add: serverD(8) [OF server] serverD(2) [OF server])
  have c1: "counting view s1" using incr_counts(2) [OF server counting] by (simp add: s1_def)
  have "s' = (if k = 0 then s else if k = Suc 0 then s1 else if k = Suc (Suc 0) then s2 else s3)"
  proof -
    consider "k = 0" | "k = Suc 0" | "k = Suc (Suc 0)" | j where "k = Suc (Suc (Suc j))" using not0_implies_Suc by blast
    then show ?thesis using assms(3) by cases (simp_all add: count_request_def pipelined_def split_beta s1_def s2_def s3_def)
  qed
  moreover have "counting view s2" "counts view s2 = counts view s1" "counting view s3" "counts view s3 = counts view s1"
    using counts_same [OF c1, of s2] counts_same [OF c1, of s3] v by simp_all
  moreover have "\<exists>e. res = Inl e" using assms(3) by (auto simp: count_request_def pipelined_def)
  ultimately show ?thesis using c1 unfolding s1_def [symmetric] by auto
qed

lemma refuse_request_lost:
  assumes server: "redis_server exec view" and counting: "counting view s"
    and "refuse_request exec (Some k) (rl_key r x w) (noted_key r x w) W limit reset degraded s = (d, s')"
  shows "d = degraded \<and> (k = 0 \<longrightarrow> s' = s) \<and> (0 < k \<longrightarrow> counting view s' \<and> counts view s' = counts view (decr exec r x w s))"
proof -
  define s1 where "s1 = decr exec r x w s"
  define s2 where "s2 = snd (exec [''SET'', noted_key r x w, ''1'', ''NX'', ''PX'', int_str (W + 1000)] s1)"
  have c1: "counting view s1" using decr_counts(2) [OF server counting] by (simp add: s1_def)
  have "view s2 = (if view s1 (noted_key r x w) = None then (view s1)(noted_key r x w \<mapsto> ''1'') else view s1)"
    unfolding s2_def by (rule serverD(10) [OF server]) simp
  then have "view s2 (rl_key q y u) = view s1 (rl_key q y u)" for q y u
    using noted_rl [of r x w q y u, symmetric] by simp
  then have "counting view s2 \<and> counts view s2 = counts view s1" using counts_same [OF c1, of s2] by simp
  moreover have "d = degraded \<and> s' = (if k = 0 then s else if k = Suc 0 then s1 else s2)"
  proof -
    consider "k = 0" | "k = Suc 0" | j where "k = Suc (Suc j)" using not0_implies_Suc by blast
    then show ?thesis using assms(3) by cases (simp_all add: refuse_request_def pipelined_def split_beta s1_def s2_def)
  qed
  ultimately show ?thesis using c1 by (simp flip: s1_def)
qed

subsection \<open>The limit under interleaving\<close>

text \<open>
  The requests on one counter - resource \<open>r\<close>, subject \<open>x\<close>, the window of length \<open>W\<close> at \<open>w\<close> - as their Redis
  commands interleave: a request counts itself, looks at the previous window, and is admitted or
  gives its count back. Replies may be lost at each point; the request then goes through as degraded, and
  the counter may have it or not. A request that was let through may be released, because a later
  limit refused it: \<open>release\<close> sends a \<open>DECR\<close> for the window its own clock is in, for degraded requests too, and the
  client may run it twice. The state is the server, the requests in flight, how many stand admitted (\<open>A\<close>), how many passed as
  degraded with their count left in this counter (\<open>D\<close>), and \<open>U\<close>, the decrements this counter got beyond one for
  each request it had counted: \<open>stray\<close> is a release of a request this counter never had - degraded before it was counted,
  or counted in another window. \<open>elsewhere\<close> is anything the server does that leaves the counter: other keys,
  their expiry, the lifetime of this one. \<open>L\<close> is the largest limit, and the previous window's counter is never below \<open>- V\<close>:
  surplus decrements may have taken it below zero.
\<close>

record Flight =
  fl_limit :: int
  fl_elapsed :: int
  fl_current :: int
  fl_previous :: "int option"

type_synonym 's limiter = "'s \<times> Flight list \<times> nat \<times> nat \<times> nat"

inductive limiter_step :: "(string list \<Rightarrow> 's \<Rightarrow> (string + Reply) \<times> 's) \<Rightarrow> ('s \<Rightarrow> string \<rightharpoonup> string) \<Rightarrow> (string \<Rightarrow> int option)
    \<Rightarrow> Resource \<Rightarrow> string \<Rightarrow> int \<Rightarrow> int \<Rightarrow> int \<Rightarrow> int \<Rightarrow> 's limiter \<Rightarrow> 's limiter \<Rightarrow> bool"
  for exec view number r x w W L V where
  count: "exec [''INCR'', rl_key r x w] s = (Inr (RNum c), s') \<Longrightarrow> 0 < limit \<Longrightarrow> limit \<le> L \<Longrightarrow> 0 \<le> e \<Longrightarrow> e \<le> W \<Longrightarrow>
    limiter_step exec view number r x w W L V (s, F, A, D, U)
      (s', F @ [\<lparr>fl_limit = limit, fl_elapsed = e, fl_current = c, fl_previous = None\<rparr>], A, D, U)"
| count_lost: "limiter_step exec view number r x w W L V (s, F, A, D, U) (snd (exec [''INCR'', rl_key r x w] s), F, A, Suc D, U)"
| look: "exec [''GET'', rl_key r x (w - W)] s = (Inr v, s') \<Longrightarrow> reply_number number v = Some p \<Longrightarrow>
    limiter_step exec view number r x w W L V (s, F @ f # G, A, D, U) (s', F @ f\<lparr>fl_previous := Some p\<rparr> # G, A, D, U)"
| look_lost: "limiter_step exec view number r x w W L V (s, F @ f # G, A, D, U) (s, F @ G, A, Suc D, U)"
| admit: "fl_previous f = Some p \<Longrightarrow> estimate W (fl_elapsed f) p (fl_current f) \<le> of_int (fl_limit f) \<Longrightarrow>
    limiter_step exec view number r x w W L V (s, F @ f # G, A, D, U) (s, F @ G, Suc A, D, U)"
| refuse: "fl_previous f = Some p \<Longrightarrow> \<not> estimate W (fl_elapsed f) p (fl_current f) \<le> of_int (fl_limit f) \<Longrightarrow>
    limiter_step exec view number r x w W L V (s, F @ f # G, A, D, U) (decr exec r x w s, F @ G, A, D, U)"
| refuse_lost: "fl_previous f = Some p \<Longrightarrow> \<not> estimate W (fl_elapsed f) p (fl_current f) \<le> of_int (fl_limit f) \<Longrightarrow>
    limiter_step exec view number r x w W L V (s, F @ f # G, A, D, U) (s, F @ G, A, Suc D, U)"
| give_back: "k \<le> 2 \<Longrightarrow>
    limiter_step exec view number r x w W L V (s, F, Suc A, D, U) ((decr exec r x w ^^ k) s, F, A, D, U + (k - 1))"
| give_back_degraded: "k \<le> 2 \<Longrightarrow>
    limiter_step exec view number r x w W L V (s, F, A, Suc D, U) ((decr exec r x w ^^ k) s, F, A, D, U + (k - 1))"
| stray: "k \<le> 2 \<Longrightarrow> limiter_step exec view number r x w W L V (s, F, A, D, U) ((decr exec r x w ^^ k) s, F, A, D, U + k)"
| elsewhere: "counts view s' r x w = counts view s r x w \<Longrightarrow> counting view s' \<Longrightarrow> - V \<le> counts view s' r x (w - W) \<Longrightarrow>
    limiter_step exec view number r x w W L V (s, F, A, D, U) (s', F, A, D, U)"

text \<open>The requests in flight whose count is within the limits.\<close>

abbreviation fitting :: "int \<Rightarrow> Flight list \<Rightarrow> nat" where
  "fitting L F \<equiv> length (filter (\<lambda>f. fl_current f \<le> L) F)"

definition limiter_ok :: "('s \<Rightarrow> string \<rightharpoonup> string) \<Rightarrow> Resource \<Rightarrow> string \<Rightarrow> int \<Rightarrow> int \<Rightarrow> int \<Rightarrow> int \<Rightarrow> 's limiter \<Rightarrow> bool" where
  "limiter_ok view r x w W L V st \<longleftrightarrow>
     (case st of (s, F, A, D, U) \<Rightarrow>
        counting view s \<and> - V \<le> counts view s r x (w - W)
        \<and> int (A + D + length F) \<le> counts view s r x w + int U
        \<and> int (A + fitting (L + V) F) \<le> max 0 (L + V) + int U
        \<and> list_all (\<lambda>f. 0 < fl_limit f \<and> fl_limit f \<le> L \<and> 0 \<le> fl_elapsed f \<and> fl_elapsed f \<le> W
             \<and> (case fl_previous f of None \<Rightarrow> True | Some p \<Rightarrow> - V \<le> p)) F)"

lemma limiter_ok_decr:
  assumes "redis_server exec view" and "0 < W" and "limiter_ok view r x w W L V (s, F, A, D, U)"
    and "A' + D' + length F' + k \<le> A + D + length F + j" and "A' + fitting (L + V) F' \<le> A + fitting (L + V) F" and "set F' \<subseteq> set F"
  shows "limiter_ok view r x w W L V ((decr exec r x w ^^ k) s, F', A', D', U + j)"
proof -
  have c: "counting view s" using assms(3) by (simp add: limiter_ok_def)
  have n: "int (A' + D' + length F') + int k \<le> int (A + D + length F) + int j"
    "int (A' + fitting (L + V) F') \<le> int (A + fitting (L + V) F)" using assms(4,5) by linarith+
  have "list_all P F'" if "list_all P F" for P using that assms(6) by (auto simp: list_all_iff)
  then show ?thesis
    using decr_times [OF assms(1) c, where r = r and x = x and w = w and k = k] assms(2,3) n unfolding limiter_ok_def prod.case by (auto simp: bump_count_at)
qed

lemma limiter_step_ok:
  assumes server: "redis_server exec view" and number: "reads_ints number" and W: "0 < W" and V: "0 \<le> V" "L + V < 2 ^ 53"
    and "limiter_step exec view number r x w W L V st st'" and ok: "limiter_ok view r x w W L V st"
  shows "limiter_ok view r x w W L V st'"
  using assms(6)
proof cases
  case (count s c s' limit e F A D U)
  then have c: "counting view s" using ok by (simp add: limiter_ok_def)
  from incr_counts [OF server c, of r x w] count(3) have "c = counts view s r x w + 1" "counting view s'"
    "counts view s' = bump_count r x w 1 (counts view s)" by simp_all
  moreover have "int (A + fitting (L + V) F) \<le> counts view s r x w + int U"
  proof (rule order_trans)
    show "int (A + fitting (L + V) F) \<le> int (A + D + length F)" using length_filter_le [of "\<lambda>f. fl_current f \<le> L + V" F] by linarith
  qed (use count(1) ok in \<open>simp add: limiter_ok_def\<close>)
  ultimately show ?thesis using count(1,2,4-) ok W by (auto simp: limiter_ok_def bump_count_at)
next
  case (count_lost s F A D U)
  then have c: "counting view s" using ok by (simp add: limiter_ok_def)
  from incr_counts [OF server c, of r x w] count_lost ok W show ?thesis by (auto simp: limiter_ok_def bump_count_at)
next
  case (look s v s' p F f G A D U)
  then have c: "counting view s" using ok by (simp add: limiter_ok_def)
  have s': "view s' = view s" using serverD(2) [OF server, of "rl_key r x (w - W)" s] look(3) by simp
  have "v = (case view s (rl_key r x (w - W)) of None \<Rightarrow> RNull | Some t \<Rightarrow> RStr t)"
    using serverD(1) [OF server, of "rl_key r x (w - W)" s] look(3) by simp
  then have "p = counts view s r x (w - W)"
    using look(4) countingD [OF c, of r x "w - W"] reads_intsD(1) [OF number] by (auto simp: reply_number_def)
  then show ?thesis using look(1,2) ok counts_same [OF c, of s'] s' by (auto simp: limiter_ok_def)
next
  case (look_lost s F f G A D U)
  then show ?thesis using ok by (auto simp: limiter_ok_def split: if_splits)
next
  case (admit f p s F G A D U)
  have f: "- V \<le> p" "fl_limit f \<le> L" "0 \<le> fl_elapsed f" "fl_elapsed f \<le> W" "0 < fl_limit f" using admit ok by (auto simp: limiter_ok_def)
  have "fl_current f \<le> fl_limit f + V"
    using estimate_bounds_current [OF W f(3,4,1) V(1) _ f(5) admit(4)] f(2) V(2) by simp
  then have "fl_current f \<le> L + V" using f(2) by simp
  then show ?thesis using admit(1,2) ok by (simp add: limiter_ok_def)
next
  case (refuse f p s F G A D U)
  then show ?thesis using limiter_ok_decr [OF server W ok [unfolded refuse(1)], of A D "F @ G" 1 0] by (force split: if_splits)
next
  case (refuse_lost f p s F G A D U)
  then show ?thesis using ok by (auto simp: limiter_ok_def split: if_splits)
next
  case (give_back k s F A D U)
  then show ?thesis using limiter_ok_decr [OF server W ok [unfolded give_back(1)], of A D F k "k - 1"] by simp
next
  case (give_back_degraded k s F A D U)
  then show ?thesis using limiter_ok_decr [OF server W ok [unfolded give_back_degraded(1)], of A D F k "k - 1"] by simp
next
  case (stray k s F A D U)
  then show ?thesis using limiter_ok_decr [OF server W ok [unfolded stray(1)], of A D F k k] by simp
next
  case (elsewhere s' s F A D U)
  then show ?thesis using ok by (simp add: limiter_ok_def)
qed

lemma limiter_reach_ok:
  assumes "redis_server exec view" and "reads_ints number" and "0 < W" and "0 \<le> V" and "L + V < 2 ^ 53"
    and "(limiter_step exec view number r x w W L V)\<^sup>*\<^sup>* st st'" and "limiter_ok view r x w W L V st"
  shows "limiter_ok view r x w W L V st'"
  using assms(6,7) by (induction rule: rtranclp_induct) (auto intro: limiter_step_ok [OF assms(1-5)])

subsection \<open>The program's check and release are such steps\<close>

lemma counted_and_looked:
  assumes server: "redis_server exec view" and number: "reads_ints number" and counting: "counting view s"
    and "0 < limit" "limit \<le> L" "0 \<le> e" "e \<le> W" and W: "0 < W"
    and c: "c = counts view s r x w" and p: "p = counts view s r x (w - W)"
    and s1: "counting view s1" "counts view s1 = bump_count r x w 1 (counts view s)" and before: "- V \<le> p"
  shows "(limiter_step exec view number r x w W L V)\<^sup>*\<^sup>* (s, F, A, D, U)
    (s1, F @ [\<lparr>fl_limit = limit, fl_elapsed = e, fl_current = c + 1, fl_previous = Some p\<rparr>], A, D, U)"
proof -
  let ?step = "limiter_step exec view number r x w W L V"
  define t1 where "t1 = snd (exec [''INCR'', rl_key r x w] s)"
  define t2 where "t2 = snd (exec [''GET'', rl_key r x (w - W)] t1)"
  define f where "f = \<lparr>fl_limit = limit, fl_elapsed = e, fl_current = c + 1, fl_previous = None\<rparr>"
  note incr = incr_counts [OF server counting, of r x w, folded t1_def c]
  have "?step (s, F, A, D, U) (t1, F @ [f], A, D, U)"
    using limiter_step.count [of exec r x w s "c + 1" t1 limit L e W view number V F A D U] incr(1) assms(4-7)
    by (simp add: f_def t1_def prod_eq_iff)
  moreover have "?step (t1, F @ [f], A, D, U) (t2, F @ [f\<lparr>fl_previous := Some p\<rparr>], A, D, U)"
  proof -
    let ?v = "case view t1 (rl_key r x (w - W)) of None \<Rightarrow> RNull | Some t \<Rightarrow> RStr t"
    have "exec [''GET'', rl_key r x (w - W)] t1 = (Inr ?v, t2)" using serverD(1) [OF server] by (simp add: t2_def prod_eq_iff)
    moreover have "reply_number number ?v = Some p"
      using countingD [OF incr(2), of r x "w - W"] incr(3) W reads_intsD(1) [OF number] by (auto simp: reply_number_def bump_count_at p)
    ultimately show ?thesis using limiter_step.look [of exec r x w W t1 ?v t2 number p view L V F f "[]" A D U] by simp
  qed
  moreover have "counts view t2 = counts view t1"
    using counts_same [OF incr(2), of t2] serverD(2) [OF server, of "rl_key r x (w - W)" t1] by (simp add: t2_def)
  then have "?step (t2, F @ [f\<lparr>fl_previous := Some p\<rparr>], A, D, U) (s1, F @ [f\<lparr>fl_previous := Some p\<rparr>], A, D, U)"
    using s1 incr(3) before W by (intro limiter_step.elsewhere) (simp_all add: bump_count_at p)
  ultimately have "?step\<^sup>*\<^sup>* (s, F, A, D, U) (s1, F @ [f\<lparr>fl_previous := Some p\<rparr>], A, D, U)"
    by (meson converse_rtranclp_into_rtranclp rtranclp.rtrancl_refl)
  then show ?thesis by (simp add: f_def)
qed

text \<open>A check, whatever becomes of its two pipelines, is a run of these steps: it adds an admitted request when it
  allows one that is not degraded, and may leave the count of a degraded one.\<close>

lemma check_is_steps:
  assumes server: "redis_server exec view" and number: "reads_ints number" and counting: "counting view s"
    and policy: "W = lp_windowSeconds policy * 1000" "0 < lp_windowSeconds policy" "0 < lp_limit policy" "lp_limit policy \<le> L"
    and run: "check exec number fate undo now x r policy s = (d, s')"
    and w: "w = windowStart now W" and before: "- V \<le> counts view s r x (w - W)"
  shows "\<exists>D'. (limiter_step exec view number r x w W L V)\<^sup>*\<^sup>* (s, F, A, D, U) (s', F, if ld_allowed d \<and> \<not> ld_degraded d then Suc A else A, D', U)
    \<and> (D' = D \<or> D' = Suc D \<and> ld_degraded d)"
proof -
  let ?step = "limiter_step exec view number r x w W L V"
  have W: "0 < W" "w - W \<noteq> w" using policy by simp_all
  define c p where "c = counts view s r x w" and "p = counts view s r x (w - W)"
  define deg where "deg = \<lparr>ld_allowed = True, ld_limit = lp_limit policy, ld_remaining = lp_limit policy,
    ld_reset = Some (max 1 \<lceil>fl (of_int (w + W - now) / 1000)\<rceil>), ld_degraded = True, ld_firstRefusal = False\<rparr>"
  note chk = run [unfolded check_def Let_def policy(1) [symmetric] w [symmetric], folded deg_def]
  show ?thesis
  proof (cases fate)
    case (Some k)
    obtain res s1 where q: "count_request exec number (Some k) (rl_key r x w) (rl_key r x (w - W)) W s = (res, s1)" by force
    note lost = count_request_lost [OF server counting q]
    then have d: "d = deg" "s' = s1" using chk q Some by auto
    have D: "ld_allowed d \<and> ld_degraded d" by (simp add: d deg_def)
    show ?thesis
    proof (cases "k = 0")
      case True
      then show ?thesis using lost d(2) D by auto
    next
      case False
      let ?s = "snd (exec [''INCR'', rl_key r x w] s)"
      have "?step (s, F, A, D, U) (?s, F, A, Suc D, U)" by (rule limiter_step.count_lost)
      moreover have "?step (?s, F, A, Suc D, U) (s', F, A, Suc D, U)"
        using lost False d(2) before incr_counts(3) [OF server counting, of r x w] W
        by (intro limiter_step.elsewhere) (simp_all add: bump_count_at)
      ultimately have "?step\<^sup>*\<^sup>* (s, F, A, D, U) (s', F, A, Suc D, U)" by (meson converse_rtranclp_into_rtranclp rtranclp.rtrancl_refl)
      then show ?thesis using D by (intro exI [of _ "Suc D"]) simp
    qed
  next
    case None
    obtain s1 where s1: "count_request exec number None (rl_key r x w) (rl_key r x (w - W)) W s = (Inr (Some (c + 1), Some p), s1)"
      "counting view s1" "counts view s1 = bump_count r x w 1 (counts view s)"
      using count_request_run [OF server number counting W(2), of r x W] by (auto simp: c_def p_def)
    note e = window_later [OF W(1) refl, of now, folded w]
    define f where "f = \<lparr>fl_limit = lp_limit policy, fl_elapsed = now - w, fl_current = c + 1, fl_previous = Some p\<rparr>"
    have looked: "?step\<^sup>*\<^sup>* (s, F, A, D, U) (s1, F @ [f], A, D, U)"
      unfolding f_def using before e by (intro counted_and_looked [OF server number counting policy(3,4) _ _ W(1) c_def p_def s1(2,3)]) (simp_all add: p_def)
    show ?thesis
    proof (cases "estimate W (now - w) p (c + 1) \<le> of_int (lp_limit policy)")
      case True
      then have d: "ld_allowed d \<and> \<not> ld_degraded d" "s' = s1" using chk s1(1) None by auto
      have "?step (s1, F @ [f], A, D, U) (s1, F, Suc A, D, U)"
        using limiter_step.admit [of f p W exec view number r x w L V s1 F "[]" A D U] True by (simp add: f_def)
      with looked show ?thesis using d by (intro exI [of _ D]) auto
    next
      case False
      then have ref: "refuse_request exec undo (rl_key r x w) (noted_key r x w) W (lp_limit policy)
          (refusal_reset (lp_limit policy) W (now - w) (Some p) (Some (c + 1))) deg s1 = (d, s')"
        using chk s1(1) None by simp
      have fs: "fl_previous f = Some p" "\<not> estimate W (fl_elapsed f) p (fl_current f) \<le> of_int (fl_limit f)" using False by (simp_all add: f_def)
      let ?s = "decr exec r x w s1"
      have dc: "counts view ?s = counts view s" "counting view ?s" using decr_counts(2,3) [OF server s1(2), of r x w] s1(3) by simp_all
      have gone: "?step\<^sup>*\<^sup>* (s1, F @ [f], A, D, U) (s', F, A, D, U)" if "counting view s'" "counts view s' = counts view s"
      proof -
        have "?step (s1, F @ [f], A, D, U) (?s, F, A, D, U)"
          using limiter_step.refuse [OF fs, of exec view number r x w L V s1 F "[]" A D U] by simp
        moreover have "?step (?s, F, A, D, U) (s', F, A, D, U)" using that dc before by (intro limiter_step.elsewhere) simp_all
        ultimately show ?thesis by (meson converse_rtranclp_into_rtranclp rtranclp.rtrancl_refl)
      qed
      show ?thesis
      proof (cases undo)
        case None
        then have "\<not> ld_allowed d" "counting view s'" "counts view s' = counts view s"
          using refuse_request_run [OF server s1(2), of r x w W "lp_limit policy"
            "refusal_reset (lp_limit policy) W (now - w) (Some p) (Some (c + 1))" deg] ref s1(3) by auto
        moreover from this(2,3) have "?step\<^sup>*\<^sup>* (s, F, A, D, U) (s', F, A, D, U)" using gone looked by (meson rtranclp_trans)
        ultimately show ?thesis by (intro exI [of _ D]) simp
      next
        case (Some k)
        note lost = refuse_request_lost [OF server s1(2) ref [unfolded Some]]
        have D: "ld_allowed d \<and> ld_degraded d" using lost by (simp add: deg_def)
        show ?thesis
        proof (cases "k = 0")
          case True
          have "?step (s1, F @ [f], A, D, U) (s1, F, A, Suc D, U)"
            using limiter_step.refuse_lost [OF fs, of exec view number r x w L V s1 F "[]" A D U] by simp
          with looked show ?thesis using lost True D by (intro exI [of _ "Suc D"]) auto
        next
          case False
          with lost dc(1) have "counting view s'" "counts view s' = counts view s" by simp_all
          then have "?step\<^sup>*\<^sup>* (s, F, A, D, U) (s', F, A, D, U)" using gone looked by (meson rtranclp_trans)
          then show ?thesis using D by (intro exI [of _ D]) simp
        qed
      qed
    qed
  qed
qed

text \<open>A release whose clock is in this window, of a request that stands admitted, of a degraded one the counter has, and of one it has not.\<close>

lemma release_is_step:
  assumes "policies r = Some policy" and "w = windowStart now (lp_windowSeconds policy * 1000)"
  shows "limiter_step exec view number r x w W L V (s, F, Suc A, D, U)
      (release exec fates now policies x r s, F, A, D, U + (times_run fates - 1))"
    and "limiter_step exec view number r x w W L V (s, F, A, Suc D, U)
      (release exec fates now policies x r s, F, A, D, U + (times_run fates - 1))"
    and "limiter_step exec view number r x w W L V (s, F, A, D, U)
      (release exec fates now policies x r s, F, A, D, U + times_run fates)"
  unfolding release_runs [of policies r policy w now, OF assms]
  using limiter_step.give_back limiter_step.give_back_degraded limiter_step.stray times_run_le by metis+

subsection \<open>What a request costs\<close>

definition spend :: "int \<Rightarrow> (Resource \<Rightarrow> int) \<Rightarrow> (Resource \<times> string) list \<Rightarrow> (Resource \<Rightarrow> string \<Rightarrow> int \<Rightarrow> int) \<Rightarrow> Resource \<Rightarrow> string \<Rightarrow> int \<Rightarrow> int" where
  "spend d win = fold (\<lambda>(r, x). bump_count r x (win r) d)"

lemma spend_simps [simp]:
  "spend d win [] f = f" "spend d win ((r, x) # steps) f = spend d win steps (bump_count r x (win r) d f)"
  "spend d win (steps @ [(r, x)]) f = bump_count r x (win r) d (spend d win steps f)"
  by (simp_all add: spend_def)

lemma spend_bump: "spend d win steps (bump_count r x w e f) = bump_count r x w e (spend d win steps f)"
proof (induction steps arbitrary: f)
  case (Cons q steps)
  then show ?case by (cases q) (simp, metis bump_count_comm)
qed simp

lemma spend_at: "spend d win steps f r x w = f r x w + d * int (length (filter (\<lambda>q. q = (r, x)) steps)) * (if w = win r then 1 else 0)"
proof (induction steps arbitrary: f)
  case (Cons q steps)
  then show ?case by (cases q) (auto simp: bump_count_at algebra_simps)
qed simp

text \<open>Every command is answered, and every reading of the clock is in the same windows, \<open>win\<close>.\<close>

definition steady :: "(nat \<Rightarrow> Turn) \<Rightarrow> (Resource \<Rightarrow> LimitPolicy option) \<Rightarrow> (Resource \<Rightarrow> int) \<Rightarrow> bool" where
  "steady turn policies win \<longleftrightarrow>
     (\<forall>n. tn_fate (turn n) = None \<and> tn_undo (turn n) = None \<and> fst (tn_command (turn n)) = Answered
        \<and> (\<forall>r p. policies r = Some p \<longrightarrow> 0 < lp_windowSeconds p \<and> windowStart (tn_now (turn n)) (lp_windowSeconds p * 1000) = win r))"

lemma policyFor_window:
  "policyFor source policies r orgId = Some policy \<Longrightarrow>
   \<exists>p. policies r = Some p \<and> lp_windowSeconds policy = lp_windowSeconds p \<and> 0 < lp_limit policy"
  by (auto simp: policyFor_def Let_def split: option.splits if_splits)

lemma release_all_counts:
  assumes "redis_server exec view" and "steady turn policies win" and "counting view s"
    and "list_all (\<lambda>(r, x). policies r \<noteq> None) earlier"
  shows "counting view (release_all exec turn n policies earlier s)
    \<and> counts view (release_all exec turn n policies earlier s) = spend (-1) win earlier (counts view s)"
  using assms(3,4)
proof (induction earlier arbitrary: n s)
  case (Cons q earlier)
  obtain r x where q: "q = (r, x)" by force
  obtain p where p: "policies r = Some p" using Cons.prems q by auto
  define s1 where "s1 = release exec (tn_command (turn n)) (tn_now (turn n)) policies x r s"
  have "s1 = snd (exec [''DECR'', rl_key r x (win r)] s)"
    using assms(2) p by (simp add: s1_def release_def steady_def command_def attempt_def)
  with decr_counts [OF assms(1) Cons.prems(1), of r x "win r"]
  have "counting view s1" "counts view s1 = bump_count r x (win r) (-1) (counts view s)" by simp_all
  with Cons.IH [of s1 "Suc n"] Cons.prems(2) q show ?case by (simp add: s1_def)
qed simp

lemma admit_steps_counts:
  assumes server: "redis_server exec view" and number: "reads_ints number" and steady: "steady turn policies win" and "counting view s"
    and "list_all (\<lambda>(r, x). policies r \<noteq> None) passed"
    and "admit_steps exec number turn n source policies orgId passed headers steps s = (a, s')"
  shows "counts view s' = (case a of
      Admitted _ \<Rightarrow> spend 1 win (filter (\<lambda>(r, x). policyFor source policies r (Some orgId) \<noteq> None) steps) (counts view s)
    | Refused _ _ _ _ \<Rightarrow> spend (-1) win passed (counts view s))"
  using assms(4-6)
proof (induction steps arbitrary: n passed headers s)
  case (Cons q steps)
  obtain r x where q: "q = (r, x)" by force
  show ?case
  proof (cases "policyFor source policies r (Some orgId)")
    case None
    with Cons q show ?thesis by (auto split: Admission.splits)
  next
    case (Some policy)
    obtain p where p: "policies r = Some p" "lp_windowSeconds policy = lp_windowSeconds p" using policyFor_window [OF Some] by auto
    obtain d s1 where d: "check exec number None None (tn_now (turn n)) x r policy s = (d, s1)" by force
    have w: "win r = windowStart (tn_now (turn n)) (lp_windowSeconds policy * 1000)" "0 < lp_windowSeconds policy"
      using steady p by (auto simp: steady_def)
    note run = check_run(3,4) [OF server number Cons.prems(1) w(2) d w(1) refl refl]
    have fates: "tn_fate (turn n) = None" "tn_undo (turn n) = None" using steady by (simp_all add: steady_def)
    show ?thesis
    proof (cases "ld_allowed d")
      case True
      have "admit_steps exec number turn (Suc n) source policies orgId (passed @ [(r, x)]) (limitHeaders d policy r) steps s1 = (a, s')"
        using Cons.prems(3) Some d True by (simp add: q fates)
      from Cons.IH [OF run(1) _ this] Cons.prems(2) p(1) run(2) True Some show ?thesis
        by (auto simp: q spend_bump split: Admission.splits)
    next
      case False
      then have "(a, s') = (Refused (limitHeaders d policy r) r d policy, release_all exec turn (Suc n) policies passed s1)"
        using Cons.prems(3) Some d by (simp add: q fates)
      then show ?thesis
        using release_all_counts [OF server steady run(1) Cons.prems(2), of "Suc n"] run(2) False by simp
    qed
  qed
qed auto

subsection \<open>The properties\<close>

text \<open>C28 - The limit under concurrency: however the requests on one counter interleave their Redis commands -
  counting, looking, giving back, releasing, with replies lost anywhere and commands run twice - no more of
  them stand admitted in a window than the largest limit they were held to, plus one for every decrement
  the counter got beyond those of the requests it had counted, plus as much as the previous window's
  counter is below zero. Without such surplus decrements (\<open>U = 0\<close>, \<open>V = 0\<close>) the limit is exact; with one, it is not:
  a release of a degraded request, after the window rolled, or sent twice, lets one more in. Degraded requests, which Redis did not answer, are not
  counted among the admitted.\<close>

theorem admitted_within_limit:
  assumes "redis_server exec view" and "reads_ints number" and "0 < W" and "0 \<le> V" and "L + V < 2 ^ 53" and "counting view s"
    and "0 \<le> counts view s r x w" and "- V \<le> counts view s r x (w - W)"
    and "(limiter_step exec view number r x w W L V)\<^sup>*\<^sup>* (s, [], 0, 0, 0) (s', F, A, D, U)"
  shows "int A \<le> max 0 (L + V) + int U"
proof -
  have "limiter_ok view r x w W L V (s, [], 0, 0, 0)" using assms(6-8) by (simp add: limiter_ok_def)
  from limiter_reach_ok [OF assms(1-5,9) this] show ?thesis by (simp add: limiter_ok_def)
qed

text \<open>The witnesses' policy, and what a key holds in a server of texts.\<close>

definition three_a_minute :: LimitPolicy where "three_a_minute = \<lparr>lp_limit = 3, lp_windowSeconds = 60\<rparr>"

lemma no_counts: "counting (\<lambda>m. m) Map.empty" "counts (\<lambda>m. m) Map.empty r x w = 0"
  by (simp_all add: counting_def counts_def)

text \<open>With nothing in the previous window the estimate is the counter.\<close>

lemma estimate_alone: "\<bar>c\<bar> \<le> 2 ^ 53 \<Longrightarrow> estimate W e 0 c = of_int c"
  by (simp add: estimate_def fl_int)

theorem admitted_within_limit_witness:
  "int 1 \<le> max 0 3 \<and> ld_allowed (fst (check map_server str_int None None 61000 ''a'' R_search three_a_minute Map.empty))"
proof -
  let ?c = "check map_server str_int None None 61000 ''a'' R_search three_a_minute Map.empty"
  have w: "windowStart 61000 60000 = 60000" by code_simp
  have allowed: "ld_allowed (fst ?c)" "\<not> ld_degraded (fst ?c)"
    using check_run(1,5) [OF map_server_ok str_int_reads no_counts(1), of three_a_minute 61000 "''a''" R_search "fst ?c" "snd ?c"]
    by (simp_all add: three_a_minute_def no_counts estimate_alone w)
  have "\<exists>D'. (limiter_step map_server (\<lambda>m. m) str_int R_search ''a'' 60000 60000 3 0)\<^sup>*\<^sup>* (Map.empty, [], 0, 0, 0) (snd ?c, [], 1, D', 0)"
    using check_is_steps [OF map_server_ok str_int_reads no_counts(1), of 60000 three_a_minute 3 None None 61000 "''a''" R_search "fst ?c" "snd ?c" 60000 0 "[]" 0 0 0]
      allowed by (simp add: three_a_minute_def no_counts w) blast
  with admitted_within_limit [OF map_server_ok str_int_reads _ _ _ no_counts(1), of 60000 0 3 R_search "''a''" 60000] allowed show ?thesis
    by (auto simp: no_counts)
qed

text \<open>The surplus decrement at work. The window is full: \<open>limit\<close> requests stand admitted and one more is refused. A request whose
  pipeline never reaches Redis passes as degraded, a later limit refuses it, and its release
  decrements a counter it was never in; the next request is then admitted, one more than the limit.\<close>

theorem degraded_release_overadmits:
  assumes server: "redis_server exec view" and number: "reads_ints number" and counting: "counting view s"
    and policy: "policies r = Some policy" "W = lp_windowSeconds policy * 1000" "0 < lp_windowSeconds policy" "0 < lp_limit policy" "lp_limit policy < 2 ^ 53"
    and w: "w = windowStart now W" and full: "counts view s r x w = lp_limit policy" "counts view s r x (w - W) = 0"
    and degraded: "check exec number (Some 0) undo now x r policy s = (d, s1)"
    and released: "s2 = release exec (Answered, again) now policies x r s1"
  shows "\<not> ld_allowed (fst (check exec number None None now x r policy s)) \<and> ld_allowed d \<and> ld_degraded d
    \<and> ld_allowed (fst (check exec number None None now x r policy s2)) \<and> \<not> ld_degraded (fst (check exec number None None now x r policy s2))"
proof -
  note w' = w [unfolded policy(2)] and p' = full(2) [unfolded policy(2), symmetric]
  have "\<not> ld_allowed (fst (check exec number None None now x r policy s))"
    using check_run(1) [OF server number counting policy(3) surjective_pairing w' p' full(1) [symmetric]] policy(4,5)
    by (simp add: estimate_alone)
  moreover have d: "ld_allowed d" "ld_degraded d" "s1 = s"
    using degraded by (auto simp: check_def Let_def count_request_def pipelined_def)
  have s2: "s2 = decr exec r x w s" using release_runs [of policies r policy w now exec "(Answered, again)", OF policy(1) w'] released d(3) by (simp add: times_run_def)
  have c2: "counting view s2" "counts view s2 r x w = lp_limit policy - 1" "0 = counts view s2 r x (w - W)"
    using decr_counts(2,3) [OF server counting, of r x w] full policy(2,3) by (simp_all add: s2 bump_count_at)
  have "ld_allowed (fst (check exec number None None now x r policy s2))" "\<not> ld_degraded (fst (check exec number None None now x r policy s2))"
    using check_run(1,5) [OF server number c2(1) policy(3) surjective_pairing w' c2(3) [unfolded policy(2)] c2(2) [symmetric]] policy(4,5)
    by (simp_all add: estimate_alone)
  ultimately show ?thesis using d by blast
qed

text \<open>C29 - Retry-After is honest up to the rounding of doubles: a request that was refused and told to wait is admitted
  when it comes back any time from one millisecond after that long on, unless others were counted on the same subject meanwhile. The
  millisecond is needed - exactly after that long the rounded estimate may still be above the limit, as \<open>retry_after_short\<close> shows -
  and is enough for every window of at most \<open>2 ^ 49\<close> milliseconds and every limit below \<open>2 ^ 53\<close>.\<close>

theorem retry_after_suffices:
  assumes server: "redis_server exec view" and number: "reads_ints number" and "counting view s" and "counting view s2"
    and policy: "W = lp_windowSeconds policy * 1000" "0 < lp_windowSeconds policy" "W \<le> 2 ^ 49" "1 \<le> lp_limit policy" "lp_limit policy < 2 ^ 53"
    and "check exec number None None now x r policy s = (d, s')" and "\<not> ld_allowed d" and "ld_reset d = Some wait"
    and "\<And>v. 0 \<le> counts view s r x v" and "\<And>v. now < v \<Longrightarrow> counts view s r x v = 0"
    and "\<And>v. counts view s2 r x v \<le> counts view s' r x v" and later: "now + 1000 * wait + 1 \<le> later"
  shows "ld_allowed (fst (check exec number None None later x r policy s2))"
proof -
  define w where "w = windowStart now W"
  define e where "e = now - w"
  define p c where "p = counts view s r x (w - W)" and "c = counts view s r x w"
  have W: "0 < W" using policy by simp
  note run = check_run [OF server number assms(3) policy(2) assms(10) w_def [unfolded policy(1)] p_def [unfolded policy(1)] c_def, folded policy(1)]
  note e = window_later [OF W, of e now, folded w_def, OF e_def]
  define t n where "t = e + (later - now)" and "n = t div W"
  have wait: "wait = secondsUntilRoom (lp_limit policy) W e p c" using run(2) [OF assms(11)] assms(12) by (simp add: e_def)
  have refused: "\<not> estimate W e p (c + 1) \<le> of_int (lp_limit policy)" using run(1) assms(11) by (simp add: e_def policy(1))
  have w2: "windowStart later W = w + n * W" using e(3) [of "later - now"] by (simp add: n_def t_def)
  have pc: "0 \<le> p" "0 \<le> c" using assms(13) by (simp_all add: p_def c_def)
  have t: "e + 1000 * wait + 1 \<le> t" using later by (simp add: t_def)
  have t0: "0 \<le> n"
    using secondsUntilRoom_wait(3) [OF W policy(3) e(1,2) pc policy(4,5) refused wait t] t e(1) W
    by (auto simp: n_def pos_imp_zdiv_nonneg_iff)
  have s': "counts view s' = counts view s" using run(4) assms(11) by simp
  have future: "counts view s2 r x v \<le> 0" if "w + W \<le> v" for v
    using assms(14) [of v] assms(15) [of v] e(2) that by (simp add: s' e_def)
  let ?p = "if n = 0 then p else if n = 1 then c else 0" and ?c = "if n = 0 then c else 0"
  consider "n = 0" | "n = 1" | "2 \<le> n" using t0 by linarith
  then have "counts view s2 r x (w + n * W - W) \<le> ?p \<and> counts view s2 r x (w + n * W) \<le> ?c"
  proof cases
    case 3
    have "2 * W \<le> n * W" using 3 W by simp
    then show ?thesis using 3 future [of "w + n * W - W"] future [of "w + n * W"] W by simp
  qed (use assms(15) [of w] assms(15) [of "w - W"] future [of "w + W"] in \<open>simp_all add: s' p_def c_def\<close>)
  then have "estimate W (t - n * W) (counts view s2 r x (w + n * W - W)) (counts view s2 r x (w + n * W) + 1)
      \<le> estimate W (t - n * W) ?p (?c + 1)"
    using W by (intro estimate_mono) (simp_all add: n_def minus_div_mult_eq_mod less_imp_le)
  also have "\<dots> \<le> of_int (lp_limit policy)"
    using fits_after_wait [OF W policy(3) e(1,2) pc policy(4,5) refused t [unfolded wait] n_def refl refl] .
  finally show ?thesis
    using check_run(1) [OF server number assms(4) policy(2) surjective_pairing refl refl refl, of later x r] w2
    by (simp add: policy(1) [symmetric] t_def e_def algebra_simps)
qed

definition full_minute :: "string \<rightharpoonup> string" where
  "full_minute = [rl_key R_search ''a'' 60000 \<mapsto> int_str 3]"

lemma full_minute_counts:
  "counting (\<lambda>m. m) full_minute"
  "counts (\<lambda>m. m) full_minute r x w = (if r = R_search \<and> x = ''a'' \<and> w = 60000 then 3 else 0)"
  by (auto simp: full_minute_def counting_def counts_def)

theorem retry_after_suffices_witness:
  "ld_allowed (fst (check map_server str_int None None (61000 + 1000 * 79 + 1) ''a'' R_search three_a_minute
     (snd (check map_server str_int None None 61000 ''a'' R_search three_a_minute full_minute))))"
proof -
  let ?c = "check map_server str_int None None 61000 ''a'' R_search three_a_minute full_minute"
  have w: "windowStart 61000 60000 = 60000" and wait: "secondsUntilRoom 3 60000 1000 0 3 = 79" by code_simp+
  note run = check_run [OF map_server_ok str_int_reads full_minute_counts(1) _ surjective_pairing refl refl refl, of three_a_minute 61000 "''a''" R_search]
  have refused: "\<not> ld_allowed (fst ?c)" "ld_reset (fst ?c) = Some 79"
    using run(1,2) by (simp_all add: three_a_minute_def full_minute_counts estimate_alone w wait)
  show ?thesis
    using retry_after_suffices [OF map_server_ok str_int_reads full_minute_counts(1) run(3), of 60000 three_a_minute, OF _ _ _ _ _ _ surjective_pairing refused]
    by (auto simp: three_a_minute_def full_minute_counts)
qed

text \<open>Why the millisecond: an hour's window of 500 with 400 requests in the previous hour and 238 in this one, 1250 seconds into
  it. The request is refused and told to wait one second, but a second later the rounded estimate is \<open>2 ^ -44\<close>
  above 500, and it is refused again.\<close>

theorem retry_after_short:
  "\<not> estimate 3600000 1250000 400 (238 + 1) \<le> 500 \<and> secondsUntilRoom 500 3600000 1250000 400 238 = 1
    \<and> estimate 3600000 (1250000 + 1000 * 1) 400 (238 + 1) = 500 + 1 / 2 ^ 44"
proof (intro conjI)
  show "\<not> estimate 3600000 1250000 400 (238 + 1) \<le> 500" by code_simp
  show "secondsUntilRoom 500 3600000 1250000 400 238 = 1" by code_simp
  show "estimate 3600000 (1250000 + 1000 * 1) 400 (238 + 1) = 500 + 1 / 2 ^ 44" by code_simp
qed

text \<open>A request costs exactly what it should: with every command answered and the clock inside one window of each limit,
  an admitted request adds one to each limit it was counted against and a refused one leaves every
  counter as it was, whichever limit refused it.\<close>

theorem admission_costs:
  assumes "redis_server exec view" and "reads_ints number" and "counting view s" and "steady turn policies win"
    and "admitRequest exec number turn source policies orgId type i operation s = (a, s')"
    and "steps = [(R_requests, principalSubject orgId type i), (R_org_requests, orgId)] @ (case operation of Some q \<Rightarrow> [(q, orgId)] | None \<Rightarrow> [])"
  shows "counts view s' r x w = counts view s r x w +
    (case a of
       Admitted _ \<Rightarrow> if w = win r \<and> policyFor source policies r (Some orgId) \<noteq> None then int (length (filter (\<lambda>q. q = (r, x)) steps)) else 0
     | Refused _ _ _ _ \<Rightarrow> 0)"
proof -
  have "length (filter (\<lambda>q. q = (r, x)) (filter (\<lambda>(r, x). P r) qs)) = (if P r then length (filter (\<lambda>q. q = (r, x)) qs) else 0)" for P qs
    by (induction qs) auto
  then show ?thesis
    using admit_steps_counts [OF assms(1,2,4,3) _ assms(5) [unfolded admitRequest_def, folded assms(6)]]
    by (cases a) (auto simp: spend_at)
qed

definition per_minute :: "Resource \<Rightarrow> LimitPolicy option" where
  "per_minute r = Some (if r = R_requests then \<lparr>lp_limit = 9, lp_windowSeconds = 60\<rparr> else three_a_minute)"

definition noon :: "nat \<Rightarrow> Turn" where
  "noon n = \<lparr>tn_now = 61000, tn_fate = None, tn_undo = None, tn_command = (Answered, Answered)\<rparr>"

theorem admission_costs_witness:
  "counts (\<lambda>m. m) (snd (admitRequest map_server str_int noon None per_minute ''a'' ''user'' ''u'' (Some R_search) full_minute))
      R_requests ''a:user:u'' 60000
    = (case fst (admitRequest map_server str_int noon None per_minute ''a'' ''user'' ''u'' (Some R_search) full_minute) of
        Admitted _ \<Rightarrow> 1 | Refused _ _ _ _ \<Rightarrow> 0)"
proof -
  have "steady noon per_minute (\<lambda>r. 60000)"
    by (auto simp: steady_def noon_def per_minute_def three_a_minute_def windowStart_def)
  note cost = admission_costs [OF map_server_ok str_int_reads full_minute_counts(1) this surjective_pairing refl,
    of None "''a''" "''user''" "''u''" "Some R_search" R_requests "''a:user:u''" 60000]
  have "policyFor None per_minute R_requests (Some ''a'') \<noteq> None" by code_simp
  with cost show ?thesis by (auto simp: full_minute_counts principalSubject_def split: Admission.splits)
qed

text \<open>Giving a request back after its window has rolled takes it from the wrong window: the counter of the window it was
  counted in keeps it, and the new window's counter goes one below what it was - to minus one
  where it was empty, which is one request more than the limit.\<close>

theorem release_after_roll:
  assumes "redis_server exec view" and "reads_ints number" and "counting view s"
    and "policies r = Some policy" and "W = lp_windowSeconds policy * 1000" and "0 < lp_windowSeconds policy"
    and "check exec number None None now x r policy s = (d, s1)" and "ld_allowed d"
    and "s2 = release exec (Answered, again) later policies x r s1"
    and "w = windowStart now W" and "v = windowStart later W" and "w \<noteq> v"
  shows "counts view s2 r x w = counts view s r x w + 1 \<and> counts view s2 r x v = counts view s r x v - 1"
proof -
  note run = check_run(3,4) [OF assms(1-3,6,7) assms(10) [unfolded assms(5)] refl refl]
  have "s2 = snd (exec [''DECR'', rl_key r x v] s1)"
    using assms(4,5,9,11) by (simp add: release_def command_def attempt_def)
  with decr_counts(3) [OF assms(1) run(1), of r x v] run(2) assms(8,12) show ?thesis by (simp add: bump_count_at)
qed

theorem release_after_roll_witness:
  "counts (\<lambda>m. m) (release map_server (Answered, Answered) 121000 (\<lambda>_. Some three_a_minute) ''a'' R_search
      (snd (check map_server str_int None None 61000 ''a'' R_search three_a_minute Map.empty))) R_search ''a'' 120000 = -1"
proof -
  let ?c = "check map_server str_int None None 61000 ''a'' R_search three_a_minute Map.empty"
  have w: "windowStart 61000 60000 = 60000" "windowStart 121000 60000 = 120000" by code_simp+
  have "ld_allowed (fst ?c)"
    using check_run(1) [OF map_server_ok str_int_reads no_counts(1) _ surjective_pairing refl refl refl, of three_a_minute 61000 "''a''" R_search]
    by (simp add: three_a_minute_def no_counts estimate_alone w)
  from release_after_roll [OF map_server_ok str_int_reads no_counts(1) _ _ _ surjective_pairing this refl refl refl, of "\<lambda>_. Some three_a_minute" 60000 121000]
  show ?thesis by (simp add: three_a_minute_def no_counts w)
qed

end
