(* ===== verification/Js_Values.thy ===== *)
theory Js_Values
  imports Complex_Main Prelude
begin

text \<open>
  JavaScript values of type \<open>unknown\<close>, as a request body or a parsed text holds them. An object
  is its own enumerable properties in the order \<open>Object.entries\<close> gives; numbers are exact
  rationals, with \<open>JNonFinite\<close> for \<open>NaN\<close> and the infinities.
\<close>

datatype jsval =
    JUndefined
  | JNull
  | JBool bool
  | JNum rat
  | JNonFinite
  | JStr string
  | JArr "jsval list"
  | JObj "(string \<times> jsval) list"

text \<open>
  A stored text is what \<open>JSON.parse\<close> makes of it: \<open>None\<close> when it throws. \<open>JSON.stringify v\<close> is
  then \<open>Some v\<close>, for the values the sources write (strings, arrays and plain objects).
\<close>

type_synonym json_text = "jsval option"

fun as_string :: "jsval \<Rightarrow> string option" where
  "as_string (JStr s) = Some s"
| "as_string _ = None"

definition string_array :: "jsval \<Rightarrow> string list option" where
  "string_array v =
     (case v of
        JArr xs \<Rightarrow> if (\<forall>x \<in> set xs. as_string x \<noteq> None) then Some (map (the \<circ> as_string) xs) else None
      | _ \<Rightarrow> None)"

lemma map_JStr_inj: "map JStr xs = map JStr ys \<longleftrightarrow> xs = ys"
  by (simp add: inj_map_eq_map inj_def)

lemma string_array_strings [simp]: "string_array (JArr (map JStr xs)) = Some xs"
  by (simp add: string_array_def comp_def)

lemma size_snd_obj [termination_simp]: "(k, v) \<in> set es \<Longrightarrow> size v < Suc (size_list (size_prod (\<lambda>_. 0) size) es)"
  by (induction es) (auto simp: le_imp_less_Suc trans_less_add2)

end
