(* ===== verification/Authz_Types.thy ===== *)
theory Authz_Types
  imports Prelude
begin

text \<open>
  The vocabulary of the permission model: \<open>packages/core/types.ts\<close>, the implication table of
  \<open>packages/core/authz/permissions.ts\<close>, and the scope tree of
  \<open>packages/core/authz/scope-tree.ts\<close> with its in-memory implementation. The contract the
  resolver relies on - a layer is listed under exactly the workspace it names - is the locale
  \<open>placed_tree\<close>, interpreted on \<open>MemoryScopeTree\<close>.
\<close>

subsection \<open>types.ts\<close>

datatype PrincipalType = User | Group | ServiceAccount

record Principal =
  ptype :: PrincipalType
  pid :: string

fun principalTypeName :: "PrincipalType \<Rightarrow> string" where
  "principalTypeName User = ''user''"
| "principalTypeName Group = ''group''"
| "principalTypeName ServiceAccount = ''service_account''"

definition principalRef :: "Principal \<Rightarrow> string" where
  "principalRef p = principalTypeName (ptype p) @ '':'' @ pid p"

datatype ScopeType = Workspace | Layer | Document

record Scope =
  stype :: ScopeType
  sid :: string

fun scopeTypeName :: "ScopeType \<Rightarrow> string" where
  "scopeTypeName Workspace = ''workspace''"
| "scopeTypeName Layer = ''layer''"
| "scopeTypeName Document = ''document''"

definition scopeRef :: "Scope \<Rightarrow> string" where
  "scopeRef s = scopeTypeName (stype s) @ '':'' @ sid s"

datatype Permission = Read | Write | Admin

datatype Effect = Allow | Deny

record Grant =
  grant_org :: string
  grant_principal :: Principal
  grant_scope :: Scope
  grant_permission :: Permission
  grant_effect :: Effect

datatype OrgRole = PlatformAdmin | OrgAdmin | Member

lemma principalTypeName_no_colon [simp]: "CHR '':'' \<notin> set (principalTypeName t)"
  by (cases t) simp_all

lemma scopeTypeName_no_colon [simp]: "CHR '':'' \<notin> set (scopeTypeName t)"
  by (cases t) simp_all

lemma principalTypeName_inj [simp]: "principalTypeName t = principalTypeName u \<longleftrightarrow> t = u"
  by (cases t; cases u) simp_all

lemma principalRef_inj [simp]: "principalRef p = principalRef q \<longleftrightarrow> p = q"
proof
  assume "principalRef p = principalRef q"
  then have "principalTypeName (ptype p) = principalTypeName (ptype q) \<and> pid p = pid q"
    unfolding principalRef_def by (intro colon_join_inj) simp_all
  then show "p = q" by simp
qed simp

subsection \<open>permissions.ts\<close>

fun IMPLIES :: "Permission \<Rightarrow> Permission list" where
  "IMPLIES Read = [Read]"
| "IMPLIES Write = [Write]"
| "IMPLIES Admin = [Read, Write, Admin]"

definition implied :: "Permission \<Rightarrow> Permission list" where
  "implied granted = set_of (IMPLIES granted)"

definition satisfies :: "Permission \<Rightarrow> Permission \<Rightarrow> bool" where
  "satisfies granted requested = (requested \<in> set (IMPLIES granted))"

lemma satisfies_iff: "satisfies g r \<longleftrightarrow> g = r \<or> g = Admin"
  by (cases g; cases r) (simp_all add: satisfies_def)

subsection \<open>scope-tree.ts\<close>

text \<open>The interface \<open>ScopeTree\<close>, as the record of its three methods.\<close>

record ScopeTree =
  layersOf :: "string \<Rightarrow> string list"
  workspaceOf :: "string \<Rightarrow> string option"
  layerOf :: "string \<Rightarrow> string option"

record ScopeTreeData =
  data_layers :: "(string \<times> string list) list"
  data_documents :: "(string \<times> string) list"

text \<open>The constructor's nested loop: every layer is set to the workspace that lists it.\<close>

definition workspaceByLayer :: "(string \<times> string list) list \<Rightarrow> (string \<times> string) list" where
  "workspaceByLayer layersByWorkspace =
     fold (\<lambda>(workspace, layers) m. fold (\<lambda>layer. AList.update layer workspace) layers m)
       layersByWorkspace []"

definition MemoryScopeTree :: "ScopeTreeData \<Rightarrow> ScopeTree" where
  "MemoryScopeTree d =
     (let layersByWorkspace = map_from (data_layers d);
          byLayer = workspaceByLayer layersByWorkspace;
          layerByDocument = map_from (data_documents d)
      in \<lparr>layersOf = (\<lambda>w. case map_of layersByWorkspace w of None \<Rightarrow> [] | Some ls \<Rightarrow> ls),
          workspaceOf = map_of byLayer,
          layerOf = map_of layerByDocument\<rparr>)"

text \<open>The chain from a scope up to the root, the scope itself first.\<close>

function ancestry :: "Scope \<Rightarrow> ScopeTree \<Rightarrow> Scope list" where
  "ancestry scope tree =
     (case stype scope of
        Workspace \<Rightarrow> [scope]
      | Layer \<Rightarrow>
          (case workspaceOf tree (sid scope) of
             None \<Rightarrow> [scope]
           | Some workspace \<Rightarrow> [scope, \<lparr>stype = Workspace, sid = workspace\<rparr>])
      | Document \<Rightarrow>
          (case layerOf tree (sid scope) of
             None \<Rightarrow> [scope]
           | Some layer \<Rightarrow> scope # ancestry \<lparr>stype = Layer, sid = layer\<rparr> tree))"
  by pat_completeness auto
termination
  by (relation "measure (\<lambda>(s, t). case stype s of Workspace \<Rightarrow> 0 | Layer \<Rightarrow> 1 | Document \<Rightarrow> (2::nat))")
     auto

declare ancestry.simps [simp del]

lemma ancestry_workspace [simp]:
  "ancestry \<lparr>stype = Workspace, sid = w\<rparr> t = [\<lparr>stype = Workspace, sid = w\<rparr>]"
  by (subst ancestry.simps) simp

lemma ancestry_layer:
  "set (ancestry \<lparr>stype = Layer, sid = l\<rparr> t) =
     insert \<lparr>stype = Layer, sid = l\<rparr>
       {\<lparr>stype = Workspace, sid = w\<rparr> | w. workspaceOf t l = Some w}"
  by (subst ancestry.simps) (auto split: option.splits)

lemma ancestry_document:
  "layerOf t d = Some l \<Longrightarrow>
   set (ancestry \<lparr>stype = Document, sid = d\<rparr> t) =
     insert \<lparr>stype = Document, sid = d\<rparr> (set (ancestry \<lparr>stype = Layer, sid = l\<rparr> t))"
  by (subst ancestry.simps) simp

lemma ancestry_unplaced [simp]:
  "layerOf t d = None \<Longrightarrow>
   ancestry \<lparr>stype = Document, sid = d\<rparr> t = [\<lparr>stype = Document, sid = d\<rparr>]"
  by (subst ancestry.simps) simp

text \<open>
  The contract of a scope tree: its two views of the layer relation agree. \<open>valid\<close> is what
  the provider asks of the data it is built from.
\<close>

locale placed_tree =
  fixes build :: "'d \<Rightarrow> ScopeTree" and valid :: "'d \<Rightarrow> bool"
  assumes layers_workspace:
    "valid d \<Longrightarrow> l \<in> set (layersOf (build d) w) \<longleftrightarrow> workspaceOf (build d) l = Some w"
begin

lemma one_workspace:
  assumes "valid d" and "l \<in> set (layersOf (build d) w)" and "l \<in> set (layersOf (build d) v)"
  shows "w = v"
  using assms layers_workspace [of d l w] layers_workspace [of d l v] by simp

end

text \<open>A layer id is listed under at most one workspace (it is a primary key).\<close>

definition layers_once :: "(string \<times> string list) list \<Rightarrow> bool" where
  "layers_once es \<longleftrightarrow>
     (\<forall>e \<in> set es. \<forall>f \<in> set es. \<forall>l \<in> set (snd e). l \<in> set (snd f) \<longrightarrow> fst e = fst f)"

definition placed_once :: "ScopeTreeData \<Rightarrow> bool" where
  "placed_once d \<longleftrightarrow> layers_once (map_from (data_layers d))"

lemma map_of_fold_const:
  "map_of (fold (\<lambda>l. AList.update l w) ls m) l
     = (if l \<in> set ls then Some w else map_of m l)"
  by (induction ls arbitrary: m) (auto simp: update_conv')

lemma map_of_fold_workspaces:
  assumes "layers_once es"
  shows "map_of (fold (\<lambda>(w, ls) m. fold (\<lambda>l. AList.update l w) ls m) es m) l = Some w
     \<longleftrightarrow> (\<exists>ls. (w, ls) \<in> set es \<and> l \<in> set ls)
        \<or> ((\<forall>e \<in> set es. l \<notin> set (snd e)) \<and> map_of m l = Some w)"
  using assms
proof (induction es arbitrary: m)
  case Nil
  then show ?case by simp
next
  case (Cons e es)
  obtain v ms where e: "e = (v, ms)" by force
  have uniq: "layers_once es"
    using Cons.prems by (simp add: layers_once_def)
  show ?case
  proof (cases "l \<in> set ms")
    case True
    have here: "fst f = v" if "f \<in> set es" "l \<in> set (snd f)" for f
      using Cons.prems True that unfolding e layers_once_def by fastforce
    have "(\<exists>ls. (w, ls) \<in> set es \<and> l \<in> set ls) \<or> ((\<forall>f \<in> set es. l \<notin> set (snd f)) \<and> w = v)
        \<longleftrightarrow> w = v"
      using here by (metis fst_conv snd_conv prod.collapse)
    with True show ?thesis
      by (auto simp: e Cons.IH [OF uniq] map_of_fold_const dest: here)
  next
    case False
    then show ?thesis
      by (simp add: e Cons.IH [OF uniq] map_of_fold_const) blast
  qed
qed

interpretation memory_tree: placed_tree MemoryScopeTree placed_once
proof
  fix d l w
  assume "placed_once d"
  then have u: "layers_once (map_from (data_layers d))"
    by (simp add: placed_once_def)
  have "l \<in> set (layersOf (MemoryScopeTree d) w)
      \<longleftrightarrow> (\<exists>ls. map_of (map_from (data_layers d)) w = Some ls \<and> l \<in> set ls)"
    by (auto simp: MemoryScopeTree_def Let_def split: option.splits)
  also have "\<dots> \<longleftrightarrow> (\<exists>ls. (w, ls) \<in> set (map_from (data_layers d)) \<and> l \<in> set ls)"
    by simp
  also have "\<dots> \<longleftrightarrow> workspaceOf (MemoryScopeTree d) l = Some w"
    using map_of_fold_workspaces [OF u, of "[]" l w]
    by (simp add: MemoryScopeTree_def workspaceByLayer_def Let_def)
  finally show "l \<in> set (layersOf (MemoryScopeTree d) w)
      \<longleftrightarrow> workspaceOf (MemoryScopeTree d) l = Some w" .
qed

end
