(* ===== verification/Auth.thy ===== *)
theory Auth
  imports Authz_Types Js_Values
begin

text \<open>
  \<open>packages/api/src/auth.ts\<close> and \<open>packages/api/src/skill-ceiling.ts\<close>: from a bearer token to an
  \<open>AuthContext\<close>, the delegation's two restrictions (a permission ceiling and a layer narrowing),
  and the refusal of a request that names an organization. The verification of a signature
  (\<open>jwtVerify\<close>), the service-key and delegation lookups and the registered credential providers
  are arguments; every refusal is a value of \<open>Refusal\<close>, and \<open>refusal_detail\<close> is what the caller
  is told about it.
\<close>

subsection \<open>The context and its delegation\<close>

datatype CeilingValue = CPerm Permission | CSkill

record LayerCeiling =
  lc_id :: string
  lc_permissions :: "CeilingValue list option"

record Delegation =
  dg_id :: string
  dg_admin :: bool
  dg_layers :: "LayerCeiling list option"
  dg_permissions :: "CeilingValue list option"

record AuthContext =
  au_orgId :: string
  au_principal :: Principal
  au_role :: OrgRole
  au_delegation :: "Delegation option"

text \<open>\<open>auth.delegation?.permissions\<close> and \<open>auth.delegation?.layers\<close>.\<close>

definition auth_permissions :: "AuthContext \<Rightarrow> CeilingValue list option" where
  "auth_permissions auth = Option.bind (au_delegation auth) dg_permissions"

definition auth_layers :: "AuthContext \<Rightarrow> LayerCeiling list option" where
  "auth_layers auth = Option.bind (au_delegation auth) dg_layers"

definition delegationPermits :: "AuthContext \<Rightarrow> Permission \<Rightarrow> bool" where
  "delegationPermits auth permission =
     (case auth_permissions auth of None \<Rightarrow> True | Some held \<Rightarrow> CPerm permission \<in> set held)"

definition administers :: "AuthContext \<Rightarrow> bool" where
  "administers auth =
     (au_role auth = OrgAdmin \<and> delegationPermits auth Admin \<and> auth_layers auth = None)"

definition administersTenants :: "AuthContext \<Rightarrow> bool" where
  "administersTenants auth = (au_role auth = PlatformAdmin)"

definition delegatedLayers :: "AuthContext \<Rightarrow> Permission \<Rightarrow> string list option" where
  "delegatedLayers auth permission =
     (case auth_layers auth of
        None \<Rightarrow> None
      | Some narrowed \<Rightarrow>
          Some (map lc_id (filter (\<lambda>l. case lc_permissions l of None \<Rightarrow> True
                                       | Some ps \<Rightarrow> CPerm permission \<in> set ps) narrowed)))"

definition withinDelegation :: "AuthContext \<Rightarrow> string \<Rightarrow> Permission \<Rightarrow> bool" where
  "withinDelegation auth layerId permission =
     (case delegatedLayers auth permission of None \<Rightarrow> True | Some admitted \<Rightarrow> layerId \<in> set admitted)"

subsection \<open>skill-ceiling.ts\<close>

fun ceilingValueName :: "CeilingValue \<Rightarrow> string" where
  "ceilingValueName (CPerm Read) = ''read''"
| "ceilingValueName (CPerm Write) = ''write''"
| "ceilingValueName (CPerm Admin) = ''admin''"
| "ceilingValueName CSkill = ''skill''"

definition CEILING_VALUES :: "CeilingValue list" where
  "CEILING_VALUES = [CPerm Read, CPerm Write, CPerm Admin, CSkill]"

definition isCeilingValue :: "string \<Rightarrow> bool" where
  "isCeilingValue v = (v \<in> set (map ceilingValueName CEILING_VALUES))"

definition permissionsOf :: "CeilingValue list \<Rightarrow> Permission list" where
  "permissionsOf values = List.map_filter (\<lambda>v. case v of CPerm p \<Rightarrow> Some p | CSkill \<Rightarrow> None) values"

text \<open>\<open>ceilingOf\<close> of \<open>adapters.ts\<close>: the ceiling as \<open>resolve\<close> takes it.\<close>

definition ceilingOf :: "AuthContext \<Rightarrow> Permission list option" where
  "ceilingOf auth = map_option permissionsOf (auth_permissions auth)"

definition inCeiling :: "AuthContext \<Rightarrow> string \<Rightarrow> CeilingValue \<Rightarrow> bool" where
  "inCeiling auth layerId v =
     (case au_delegation auth of
        None \<Rightarrow> True
      | Some delegation \<Rightarrow>
          if (case dg_permissions delegation of None \<Rightarrow> False | Some connection \<Rightarrow> v \<notin> set connection) then False
          else case dg_layers delegation of
                 None \<Rightarrow> True
               | Some layers \<Rightarrow>
                   (case find (\<lambda>l. lc_id l = layerId) layers of
                      None \<Rightarrow> False
                    | Some entry \<Rightarrow>
                        (case lc_permissions entry of None \<Rightarrow> True | Some ps \<Rightarrow> v \<in> set ps)))"

definition skillCeilingAdmits :: "AuthContext \<Rightarrow> string \<Rightarrow> bool" where
  "skillCeilingAdmits auth layerId = (inCeiling auth layerId (CPerm Admin) \<or> inCeiling auth layerId CSkill)"

definition skillCeilingLayers :: "AuthContext \<Rightarrow> string list option" where
  "skillCeilingLayers auth =
     (case au_delegation auth of
        None \<Rightarrow> None
      | Some delegation \<Rightarrow>
          (case dg_layers delegation of
             None \<Rightarrow>
               (let admits = (case dg_permissions delegation of None \<Rightarrow> True
                              | Some connection \<Rightarrow> CPerm Admin \<in> set connection \<or> CSkill \<in> set connection)
                in if admits then None else Some [])
           | Some layers \<Rightarrow> Some (map lc_id (filter (\<lambda>l. skillCeilingAdmits auth (lc_id l)) layers))))"

fun ceilingOffers :: "AuthContext \<Rightarrow> CeilingValue \<Rightarrow> bool" where
  "ceilingOffers auth CSkill =
     (case skillCeilingLayers auth of None \<Rightarrow> True | Some layers \<Rightarrow> layers \<noteq> [])"
| "ceilingOffers auth (CPerm need) = delegationPermits auth need"

subsection \<open>Requests that name an organization\<close>

definition FORBIDDEN_KEYS :: "string list" where
  "FORBIDDEN_KEYS = [''org_id'', ''orgId'', ''organization'', ''organization_id'', ''tenant'', ''tenant_id'']"

text \<open>
  \<open>Object.entries\<close> of an array gives its indices as keys, so the walk goes through arrays too;
  the answer is the first forbidden key met, depth first, with the path to it.
\<close>

fun find_in_value :: "jsval \<Rightarrow> string list \<Rightarrow> string list option"
  and find_in_entries :: "(string \<times> jsval) list \<Rightarrow> string list \<Rightarrow> string list option"
  and find_in_items :: "nat \<Rightarrow> jsval list \<Rightarrow> string list \<Rightarrow> string list option" where
  "find_in_value (JObj es) path = find_in_entries es path"
| "find_in_value (JArr xs) path = find_in_items 0 xs path"
| "find_in_value _ path = None"
| "find_in_entries [] path = None"
| "find_in_entries ((key, nested) # es) path =
     (if key \<in> set FORBIDDEN_KEYS then Some (path @ [key])
      else case find_in_value nested (path @ [key]) of
             Some deeper \<Rightarrow> Some deeper
           | None \<Rightarrow> find_in_entries es path)"
| "find_in_items i [] path = None"
| "find_in_items i (nested # xs) path =
     (if nat_str i \<in> set FORBIDDEN_KEYS then Some (path @ [nat_str i])
      else case find_in_value nested (path @ [nat_str i]) of
             Some deeper \<Rightarrow> Some deeper
           | None \<Rightarrow> find_in_items (Suc i) xs path)"

fun join_with :: "string \<Rightarrow> string list \<Rightarrow> string" where
  "join_with sep [] = []"
| "join_with sep [x] = x"
| "join_with sep (x # y # xs) = x @ sep @ join_with sep (y # xs)"

definition findTenantOverride :: "jsval \<Rightarrow> string option" where
  "findTenantOverride v = map_option (join_with ''.'') (find_in_value v [])"

definition header_name :: "string \<Rightarrow> string" where
  "header_name key = ''x-'' @ map (\<lambda>c. if c = CHR ''_'' then CHR ''-'' else c) key"

definition remove_detail :: "string \<Rightarrow> string" where
  "remove_detail key =
     ''The organization comes from the token. Remove '' @ [CHR 0x27] @ key @ [CHR 0x27] @ ''.''"

text \<open>The query's parameter names and the header names are all this reads; the answer is the 403's detail.\<close>

fun override_in_keys :: "string list \<Rightarrow> string list \<Rightarrow> string list \<Rightarrow> string option" where
  "override_in_keys [] query headers = None"
| "override_in_keys (key # keys) query headers =
     (if key \<in> set query then Some (remove_detail key)
      else if header_name key \<in> set headers then Some ''The organization comes from the token.''
      else override_in_keys keys query headers)"

definition rejectTenantOverride :: "jsval \<Rightarrow> string list \<Rightarrow> string list \<Rightarrow> string option" where
  "rejectTenantOverride body query headers =
     (case findTenantOverride body of
        Some inBody \<Rightarrow> Some (remove_detail inBody)
      | None \<Rightarrow> override_in_keys FORBIDDEN_KEYS query headers)"

subsection \<open>authenticate\<close>

datatype Refusal =
    No_bearer | Service_keys_unavailable | Service_key_rejected | Unverifiable | Claims_incomplete
  | Delegation_claim_malformed | Delegations_unavailable | Delegation_unresolved
  | Delegation_subject_mismatch | Delegation_surface_mismatch
  | Admin_surface_agent | Admin_surface_not_delegated | Admin_surface_not_admin

text \<open>The one sentence the 401 carries.\<close>

fun refusal_detail :: "Refusal \<Rightarrow> string" where
  "refusal_detail No_bearer = ''A bearer token is required.''"
| "refusal_detail _ = ''The token is not valid.''"

record Claims =
  cl_org :: jsval
  cl_sub :: jsval
  cl_principal_type :: jsval
  cl_role :: jsval
  cl_del :: jsval

text \<open>What \<open>Delegations.resolve\<close> answers with, and the options a process is wired with.\<close>

record DelegationRow =
  dr_userId :: string
  dr_role :: OrgRole
  dr_admin :: bool
  dr_layers :: "LayerCeiling list option"
  dr_permissions :: "CeilingValue list option"

record 'k VerifyOptions =
  vo_keys :: "'k list"
  vo_verify :: "'k \<Rightarrow> string \<Rightarrow> Claims option"
  vo_serviceKeys :: "(string \<Rightarrow> AuthContext option) option"
  vo_active :: "(string \<Rightarrow> string \<Rightarrow> bool) option"
  vo_delegations :: "(string \<Rightarrow> string \<Rightarrow> DelegationRow option) option"
  vo_providers :: "(string \<Rightarrow> unit + AuthContext option) list"
  vo_admin :: bool

fun roleOf :: "string \<Rightarrow> OrgRole option" where
  "roleOf s = (if s = ''platform_admin'' then Some PlatformAdmin
     else if s = ''org_admin'' then Some OrgAdmin
     else if s = ''member'' then Some Member else None)"

fun principalTypeOf :: "string \<Rightarrow> PrincipalType option" where
  "principalTypeOf s = (if s = ''user'' then Some User
     else if s = ''group'' then Some Group
     else if s = ''service_account'' then Some ServiceAccount else None)"

text \<open>\<open>claims.role ?? 'member'\<close>, then the type checks that make a token evaluable.\<close>

definition claimed_role :: "jsval \<Rightarrow> OrgRole option" where
  "claimed_role v = (case v of JUndefined \<Rightarrow> Some Member | JNull \<Rightarrow> Some Member | JStr s \<Rightarrow> roleOf s | _ \<Rightarrow> None)"

definition read_claims :: "Claims \<Rightarrow> AuthContext option" where
  "read_claims claims =
     (case (as_string (cl_org claims), as_string (cl_sub claims),
            Option.bind (as_string (cl_principal_type claims)) principalTypeOf, claimed_role (cl_role claims)) of
        (Some org, Some sub, Some type, Some role) \<Rightarrow>
          Some \<lparr>au_orgId = org, au_principal = \<lparr>ptype = type, pid = sub\<rparr>, au_role = role, au_delegation = None\<rparr>
      | _ \<Rightarrow> None)"

text \<open>The loop over the keys: the first that verifies.\<close>

fun verify_keys :: "('k \<Rightarrow> string \<Rightarrow> Claims option) \<Rightarrow> 'k list \<Rightarrow> string \<Rightarrow> Claims option" where
  "verify_keys verify [] bearer = None"
| "verify_keys verify (key # keys) bearer =
     (case verify key bearer of Some claims \<Rightarrow> Some claims | None \<Rightarrow> verify_keys verify keys bearer)"

text \<open>The loop over the providers: one that throws is one that does not recognise the credential.\<close>

fun ask_providers :: "(string \<Rightarrow> unit + AuthContext option) list \<Rightarrow> string \<Rightarrow> AuthContext option" where
  "ask_providers [] bearer = None"
| "ask_providers (provider # ps) bearer =
     (case provider bearer of Inr (Some resolved) \<Rightarrow> Some resolved | _ \<Rightarrow> ask_providers ps bearer)"

definition delegated_context :: "AuthContext \<Rightarrow> 'k VerifyOptions \<Rightarrow> jsval \<Rightarrow> Refusal + AuthContext" where
  "delegated_context base options del =
     (case del of
        JStr delId \<Rightarrow>
          (case vo_delegations options of
             None \<Rightarrow> Inl Delegations_unavailable
           | Some lookup \<Rightarrow>
               (case lookup (au_orgId base) delId of
                  None \<Rightarrow> Inl Delegation_unresolved
                | Some row \<Rightarrow>
                    if dr_userId row \<noteq> pid (au_principal base) \<or> ptype (au_principal base) \<noteq> User
                    then Inl Delegation_subject_mismatch
                    else if dr_admin row \<noteq> vo_admin options then Inl Delegation_surface_mismatch
                    else if dr_admin row \<and> dr_role row \<noteq> OrgAdmin then Inl Admin_surface_not_admin
                    else Inr \<lparr>au_orgId = au_orgId base,
                              au_principal = \<lparr>ptype = User, pid = dr_userId row\<rparr>,
                              au_role = dr_role row,
                              au_delegation = Some \<lparr>dg_id = delId, dg_admin = dr_admin row,
                                dg_layers = dr_layers row, dg_permissions = dr_permissions row\<rparr>\<rparr>))
      | _ \<Rightarrow> Inl Delegation_claim_malformed)"

definition starts_with :: "string \<Rightarrow> string \<Rightarrow> bool" where
  "starts_with prefix s = (take (length prefix) s = prefix)"

definition bearer_of :: "string option \<Rightarrow> string option" where
  "bearer_of authorization =
     (case authorization of
        None \<Rightarrow> None
      | Some s \<Rightarrow> if starts_with ''Bearer '' s then Some (drop 7 s) else None)"

definition authenticate :: "string option \<Rightarrow> 'k VerifyOptions \<Rightarrow> Refusal + AuthContext" where
  "authenticate authorization options =
     (case bearer_of authorization of
        None \<Rightarrow> Inl No_bearer
      | Some bearer \<Rightarrow>
          if starts_with ''nacre_sk_'' bearer then
            (if vo_admin options then Inl Admin_surface_agent
             else case vo_serviceKeys options of
                    None \<Rightarrow> Inl Service_keys_unavailable
                  | Some lookup \<Rightarrow>
                      (case lookup bearer of Some resolved \<Rightarrow> Inr resolved | None \<Rightarrow> Inl Service_key_rejected))
          else
            (case verify_keys (vo_verify options) (vo_keys options) bearer of
               None \<Rightarrow>
                 (if vo_admin options then Inl Unverifiable
                  else case ask_providers (vo_providers options) bearer of
                         Some resolved \<Rightarrow> Inr resolved
                       | None \<Rightarrow> Inl Unverifiable)
             | Some claims \<Rightarrow>
                 (case read_claims claims of
                    None \<Rightarrow> Inl Claims_incomplete
                  | Some base \<Rightarrow>
                      if cl_del claims = JUndefined
                      then (if vo_admin options then Inl Admin_surface_not_delegated else Inr base)
                      else delegated_context base options (cl_del claims))))"

definition stillActing :: "AuthContext \<Rightarrow> 'k VerifyOptions \<Rightarrow> AuthContext option" where
  "stillActing auth verify =
     (case au_delegation auth of
        Some delegation \<Rightarrow>
          (case vo_delegations verify of
             None \<Rightarrow> None
           | Some lookup \<Rightarrow>
               (case lookup (au_orgId auth) (dg_id delegation) of
                  None \<Rightarrow> None
                | Some row \<Rightarrow>
                    if dr_userId row \<noteq> pid (au_principal auth) then None
                    else if dr_admin row \<noteq> dg_admin delegation then None
                    else Some (auth\<lparr>au_role := dr_role row,
                           au_delegation := Some \<lparr>dg_id = dg_id delegation, dg_admin = dg_admin delegation,
                             dg_layers = dr_layers row, dg_permissions = dr_permissions row\<rparr>\<rparr>)))
      | None \<Rightarrow>
          if ptype (au_principal auth) = ServiceAccount
          then (case vo_active verify of
                  None \<Rightarrow> None
                | Some active \<Rightarrow> if active (au_orgId auth) (pid (au_principal auth)) then Some auth else None)
          else Some auth)"


subsection \<open>What the ceiling and the narrowing give\<close>

lemma permissionsOf_iff [simp]: "p \<in> set (permissionsOf values) \<longleftrightarrow> CPerm p \<in> set values"
  by (force simp: permissionsOf_def map_filter_def split: CeilingValue.splits)

lemma ceilingOf_permits:
  "(case ceilingOf auth of None \<Rightarrow> True | Some ps \<Rightarrow> p \<in> set ps) \<longleftrightarrow> delegationPermits auth p"
  by (simp add: ceilingOf_def delegationPermits_def split: option.splits)

lemma isCeilingValue_iff: "isCeilingValue v \<longleftrightarrow> (\<exists>c. v = ceilingValueName c)"
proof
  assume "\<exists>c. v = ceilingValueName c"
  then obtain c where c: "v = ceilingValueName c" by blast
  show "isCeilingValue v"
    by (cases c rule: ceilingValueName.cases) (simp_all add: c isCeilingValue_def CEILING_VALUES_def)
qed (auto simp: isCeilingValue_def)

text \<open>Listing the layers and asking one of them are the same question, when layer ids are distinct.\<close>

lemma skillCeilingLayers_admits:
  assumes d: "au_delegation auth = Some dg" and l: "dg_layers dg = Some ls"
  shows "skillCeilingLayers auth = Some (map lc_id (filter (\<lambda>e. skillCeilingAdmits auth (lc_id e)) ls))"
    and "skillCeilingAdmits auth x \<Longrightarrow> x \<in> lc_id ` set ls"
proof -
  show "skillCeilingLayers auth = Some (map lc_id (filter (\<lambda>e. skillCeilingAdmits auth (lc_id e)) ls))"
    by (simp add: skillCeilingLayers_def d l)
  assume "skillCeilingAdmits auth x"
  then have "inCeiling auth x (CPerm Admin) \<or> inCeiling auth x CSkill"
    by (simp add: skillCeilingAdmits_def)
  then have "find (\<lambda>e. lc_id e = x) ls \<noteq> None"
    by (cases "find (\<lambda>e. lc_id e = x) ls") (auto simp: inCeiling_def d l split: if_splits)
  then show "x \<in> lc_id ` set ls" by (auto simp: find_None_iff)
qed

lemma skillCeilingLayers_listed:
  "x \<in> (case skillCeilingLayers auth of None \<Rightarrow> UNIV | Some ls \<Rightarrow> set ls) \<longleftrightarrow> skillCeilingAdmits auth x"
proof (cases "au_delegation auth")
  case None
  then show ?thesis by (simp add: skillCeilingLayers_def skillCeilingAdmits_def inCeiling_def)
next
  case (Some dg)
  show ?thesis
  proof (cases "dg_layers dg")
    case None
    with Some show ?thesis
      by (cases "dg_permissions dg")
         (auto simp: skillCeilingLayers_def skillCeilingAdmits_def inCeiling_def)
  next
    case (Some ls)
    with skillCeilingLayers_admits [OF \<open>au_delegation auth = Some dg\<close> Some] show ?thesis by auto
  qed
qed

subsection \<open>What a successful authentication says\<close>

lemma authenticate_cases:
  assumes "authenticate authorization options = Inr ctx"
  obtains
    (service_key) lookup bearer where "\<not> vo_admin options" "vo_serviceKeys options = Some lookup"
      "bearer_of authorization = Some bearer" "lookup bearer = Some ctx"
  | (provider) bearer where "\<not> vo_admin options" "bearer_of authorization = Some bearer"
      "verify_keys (vo_verify options) (vo_keys options) bearer = None"
      "ask_providers (vo_providers options) bearer = Some ctx"
  | (plain) bearer claims where "\<not> vo_admin options" "bearer_of authorization = Some bearer"
      "verify_keys (vo_verify options) (vo_keys options) bearer = Some claims"
      "cl_del claims = JUndefined" "read_claims claims = Some ctx"
  | (delegated) bearer claims base where "bearer_of authorization = Some bearer"
      "verify_keys (vo_verify options) (vo_keys options) bearer = Some claims"
      "read_claims claims = Some base" "delegated_context base options (cl_del claims) = Inr ctx"
  using assms unfolding authenticate_def
  by (auto split: option.splits if_splits)

lemma delegated_context_Inr:
  assumes "delegated_context base options del = Inr ctx"
  obtains delId lookup row where "del = JStr delId" "vo_delegations options = Some lookup"
    "lookup (au_orgId base) delId = Some row" "dr_userId row = pid (au_principal base)"
    "ptype (au_principal base) = User" "dr_admin row = vo_admin options"
    "dr_admin row \<longrightarrow> dr_role row = OrgAdmin"
    "ctx = \<lparr>au_orgId = au_orgId base, au_principal = \<lparr>ptype = User, pid = dr_userId row\<rparr>, au_role = dr_role row,
       au_delegation = Some \<lparr>dg_id = delId, dg_admin = dr_admin row,
         dg_layers = dr_layers row, dg_permissions = dr_permissions row\<rparr>\<rparr>"
  using assms unfolding delegated_context_def
  by (auto split: jsval.splits option.splits if_splits)

lemma read_claims_context:
  "read_claims claims = Some ctx \<longleftrightarrow>
     cl_org claims = JStr (au_orgId ctx) \<and> cl_sub claims = JStr (pid (au_principal ctx))
     \<and> (\<exists>kind. cl_principal_type claims = JStr kind \<and> principalTypeOf kind = Some (ptype (au_principal ctx)))
     \<and> claimed_role (cl_role claims) = Some (au_role ctx) \<and> au_delegation ctx = None"
proof (cases "\<exists>org sub kind. cl_org claims = JStr org \<and> cl_sub claims = JStr sub \<and> cl_principal_type claims = JStr kind")
  case True
  then obtain org sub kind where j: "cl_org claims = JStr org" "cl_sub claims = JStr sub" "cl_principal_type claims = JStr kind"
    by blast
  obtain t r where tr: "principalTypeOf kind = t" "claimed_role (cl_role claims) = r" by blast
  show ?thesis
    unfolding read_claims_def j as_string.simps bind.bind_lunit tr
    by (cases t; cases r) (auto simp: tr simp del: principalTypeOf.simps)
next
  case False
  then have "read_claims claims = None"
    unfolding read_claims_def
    by (cases "cl_org claims"; simp; cases "cl_sub claims"; simp; cases "cl_principal_type claims"; simp split: option.splits)
  with False show ?thesis by auto
qed

lemma verify_keys_Some: "verify_keys verify keys b = Some c \<Longrightarrow> \<exists>k \<in> set keys. verify k b = Some c"
  by (induction keys) (auto split: option.splits)

lemma verify_keys_None: "verify_keys verify keys b = None \<longleftrightarrow> (\<forall>k \<in> set keys. verify k b = None)"
  by (induction keys) (auto split: option.splits)

subsection \<open>The search for a tenant override is complete\<close>

text \<open>\<open>names_tenant\<close>: an object somewhere inside the value has a forbidden key.\<close>

inductive names_tenant :: "jsval \<Rightarrow> bool" where
  here: "(k, v) \<in> set es \<Longrightarrow> k \<in> set FORBIDDEN_KEYS \<Longrightarrow> names_tenant (JObj es)"
| inside: "(k, v) \<in> set es \<Longrightarrow> names_tenant v \<Longrightarrow> names_tenant (JObj es)"
| item: "v \<in> set xs \<Longrightarrow> names_tenant v \<Longrightarrow> names_tenant (JArr xs)"

inductive_simps names_tenant_obj: "names_tenant (JObj es)"

lemma names_tenant_Cons:
  "names_tenant (JObj ((k, v) # es)) \<longleftrightarrow> k \<in> set FORBIDDEN_KEYS \<or> names_tenant v \<or> names_tenant (JObj es)"
  unfolding names_tenant_obj by auto

lemma names_tenant_Nil: "\<not> names_tenant (JObj [])"
  unfolding names_tenant_obj by simp

inductive_simps names_tenant_arr: "names_tenant (JArr xs)"
inductive_simps names_tenant_str: "names_tenant (JStr s)"
inductive_simps names_tenant_leaf:
  "names_tenant JUndefined" "names_tenant JNull" "names_tenant (JBool b)" "names_tenant (JNum q)"
  "names_tenant JNonFinite"

lemma index_not_forbidden: "nat_str i \<notin> set FORBIDDEN_KEYS"
proof
  assume i: "nat_str i \<in> set FORBIDDEN_KEYS"
  have "\<exists>c \<in> set (nat_str i). \<not> (48 \<le> (of_char c :: nat) \<and> (of_char c :: nat) < 58)"
    using i unfolding FORBIDDEN_KEYS_def by auto
  then show False using nat_str_digits by blast
qed

lemma find_in_complete:
  "find_in_value v path \<noteq> None \<longleftrightarrow> names_tenant v"
  "find_in_entries es path \<noteq> None \<longleftrightarrow> names_tenant (JObj es)"
  "find_in_items i xs path \<noteq> None \<longleftrightarrow> names_tenant (JArr xs)"
  by (induction v path and es path and i xs path rule: find_in_value_find_in_entries_find_in_items.induct)
     (auto simp: names_tenant_leaf names_tenant_str names_tenant_Cons names_tenant_Nil names_tenant_arr index_not_forbidden
        split: option.splits)

lemma override_in_keys_iff:
  "override_in_keys keys query headers \<noteq> None \<longleftrightarrow>
     (\<exists>k \<in> set keys. k \<in> set query \<or> header_name k \<in> set headers)"
  by (induction keys) auto

subsection \<open>The properties\<close>

text \<open>C36 - On the admin surface a request acts only as the human a live, admin-bearing delegation names:
  the token's signature verified, its \<open>del\<close> claim resolved to a row, the row is marked admin, its
  user is the token's subject and holds the role \<open>org_admin\<close> now, and the context carries that row.\<close>

theorem admin_surface_delegated:
  assumes "vo_admin options" and "authenticate authorization options = Inr ctx"
  shows "\<exists>bearer key claims delId lookup row.
    bearer_of authorization = Some bearer \<and> key \<in> set (vo_keys options)
    \<and> vo_verify options key bearer = Some claims \<and> cl_del claims = JStr delId
    \<and> cl_org claims = JStr (au_orgId ctx) \<and> cl_sub claims = JStr (dr_userId row)
    \<and> vo_delegations options = Some lookup \<and> lookup (au_orgId ctx) delId = Some row
    \<and> dr_admin row \<and> dr_role row = OrgAdmin \<and> au_role ctx = OrgAdmin
    \<and> au_principal ctx = \<lparr>ptype = User, pid = dr_userId row\<rparr>
    \<and> au_delegation ctx = Some \<lparr>dg_id = delId, dg_admin = True, dg_layers = dr_layers row,
         dg_permissions = dr_permissions row\<rparr>"
  using assms(2)
proof (cases rule: authenticate_cases)
  case (delegated bearer claims base)
  from delegated(2) obtain key where key: "key \<in> set (vo_keys options)" "vo_verify options key bearer = Some claims"
    using verify_keys_Some by metis
  note base = delegated(3) [unfolded read_claims_context]
  from delegated(4) show ?thesis
    by (rule delegated_context_Inr) (use delegated(1) key base assms(1) in auto)
qed (use assms(1) in simp_all)

definition sample_claims :: Claims where
  "sample_claims = \<lparr>cl_org = JStr ''acme'', cl_sub = JStr ''ada'', cl_principal_type = JStr ''user'',
     cl_role = JUndefined, cl_del = JStr ''d7''\<rparr>"

definition sample_row :: DelegationRow where
  "sample_row = \<lparr>dr_userId = ''ada'', dr_role = OrgAdmin, dr_admin = True, dr_layers = None,
     dr_permissions = Some [CPerm Admin]\<rparr>"

definition sample_options :: "bool \<Rightarrow> nat VerifyOptions" where
  "sample_options admin = \<lparr>vo_keys = [0, 1], vo_verify = (\<lambda>k b. if k = 1 \<and> b = ''tok'' then Some sample_claims else None),
     vo_serviceKeys = None, vo_active = None,
     vo_delegations = Some (\<lambda>org d. if org = ''acme'' \<and> d = ''d7'' then Some sample_row else None),
     vo_providers = [], vo_admin = admin\<rparr>"

lemma sample_authenticated:
  "authenticate (Some ''Bearer tok'') (sample_options True) =
     Inr \<lparr>au_orgId = ''acme'', au_principal = \<lparr>ptype = User, pid = ''ada''\<rparr>, au_role = OrgAdmin,
       au_delegation = Some \<lparr>dg_id = ''d7'', dg_admin = True, dg_layers = None, dg_permissions = Some [CPerm Admin]\<rparr>\<rparr>"
  by (simp add: authenticate_def bearer_of_def starts_with_def sample_options_def sample_claims_def sample_row_def
      read_claims_def claimed_role_def delegated_context_def)

theorem admin_surface_delegated_witness:
  "vo_admin (sample_options True) \<and>
   (\<exists>delId lookup row. vo_delegations (sample_options True) = Some lookup
      \<and> lookup ''acme'' delId = Some row \<and> dr_role row = OrgAdmin)"
  using admin_surface_delegated [OF _ sample_authenticated] by (auto simp: sample_options_def)

text \<open>C37 - All of a context - organization, principal, role and delegation - comes from what verified the
  bearer. For a plain token they are exactly the claims of a signature that verified under a
  configured key: its organization, its subject with its kind of principal, its role (a member when
  the claim is absent), and no delegation. For a delegated token the organization is the claim's and
  the rest is the current row of the delegation it names, whose user is the token's subject.
  Otherwise the service-key lookup or a registered provider answered the context whole. A token the keys verify is never
  handed on to a provider, and a service key or a provider is never accepted on the admin surface.\<close>

theorem authenticate_origin:
  assumes "authenticate authorization options = Inr ctx"
  shows "\<exists>bearer. bearer_of authorization = Some bearer \<and>
    ((\<exists>key \<in> set (vo_keys options). \<exists>claims. vo_verify options key bearer = Some claims \<and> cl_org claims = JStr (au_orgId ctx)
        \<and> cl_sub claims = JStr (pid (au_principal ctx))
        \<and> (\<exists>kind. cl_principal_type claims = JStr kind \<and> principalTypeOf kind = Some (ptype (au_principal ctx)))
        \<and> (\<not> vo_admin options \<and> cl_del claims = JUndefined \<and> claimed_role (cl_role claims) = Some (au_role ctx)
             \<and> au_delegation ctx = None
           \<or> (\<exists>delId lookup row. cl_del claims = JStr delId \<and> vo_delegations options = Some lookup
                \<and> lookup (au_orgId ctx) delId = Some row \<and> dr_admin row = vo_admin options \<and> au_role ctx = dr_role row
                \<and> au_principal ctx = \<lparr>ptype = User, pid = dr_userId row\<rparr>
                \<and> au_delegation ctx = Some \<lparr>dg_id = delId, dg_admin = dr_admin row,
                     dg_layers = dr_layers row, dg_permissions = dr_permissions row\<rparr>)))
     \<or> (\<not> vo_admin options \<and> (\<exists>lookup. vo_serviceKeys options = Some lookup \<and> lookup bearer = Some ctx))
     \<or> (\<not> vo_admin options \<and> (\<forall>key \<in> set (vo_keys options). vo_verify options key bearer = None)
          \<and> ask_providers (vo_providers options) bearer = Some ctx))"
  using assms
proof (cases rule: authenticate_cases)
  case (plain bearer claims)
  then obtain key where "key \<in> set (vo_keys options)" "vo_verify options key bearer = Some claims"
    using verify_keys_Some by metis
  with plain(1,2,4) plain(5) [unfolded read_claims_context] show ?thesis by blast
next
  case (delegated bearer claims base)
  then obtain key where key: "key \<in> set (vo_keys options)" "vo_verify options key bearer = Some claims"
    using verify_keys_Some by metis
  note base = delegated(3) [unfolded read_claims_context]
  from delegated(4) obtain delId lookup row where d: "cl_del claims = JStr delId"
    "vo_delegations options = Some lookup" "lookup (au_orgId ctx) delId = Some row" "dr_admin row = vo_admin options"
    "au_role ctx = dr_role row" "au_principal ctx = \<lparr>ptype = User, pid = dr_userId row\<rparr>"
    "au_principal ctx = au_principal base" "au_orgId ctx = au_orgId base"
    "au_delegation ctx = Some \<lparr>dg_id = delId, dg_admin = dr_admin row, dg_layers = dr_layers row,
       dg_permissions = dr_permissions row\<rparr>"
    by (rule delegated_context_Inr) (simp add: Principal.equality)
  show ?thesis
    by (rule exI [of _ bearer], rule conjI [OF delegated(1)], rule disjI1, rule bexI [OF _ key(1)],
        rule exI [of _ claims], rule conjI [OF key(2)])
       (use d base in \<open>simp del: principalTypeOf.simps\<close>)
next
  case (provider bearer)
  then show ?thesis by (simp add: verify_keys_None)
qed auto

theorem authenticate_origin_witness:
  "\<exists>bearer. bearer_of (Some ''Bearer tok'') = Some bearer \<and>
     (\<exists>key claims. vo_verify (sample_options True) key bearer = Some claims \<and> cl_org claims = JStr ''acme'')"
proof -
  have "vo_admin (sample_options True)" by (simp add: sample_options_def)
  with authenticate_origin [OF sample_authenticated] show ?thesis by auto
qed

text \<open>A refusal tells the caller one of two sentences, and which one depends only on whether a bearer
  token was sent: no reason for rejecting a token can be told from another.\<close>

theorem authenticate_refusal_uniform:
  assumes "authenticate authorization options = Inl r"
  shows "refusal_detail r = (if bearer_of authorization = None
    then ''A bearer token is required.'' else ''The token is not valid.'')"
proof (cases "bearer_of authorization")
  case None
  with assms show ?thesis by (simp add: authenticate_def)
next
  case (Some bearer)
  have "r \<noteq> No_bearer"
    using assms Some by (auto simp: authenticate_def delegated_context_def split: option.splits if_splits jsval.splits)
  with Some show ?thesis by (cases r) simp_all
qed

theorem authenticate_refusal_uniform_witness:
  "refusal_detail Delegation_surface_mismatch = ''The token is not valid.''"
proof -
  have "authenticate (Some ''Bearer tok'') (sample_options False) = Inl Delegation_surface_mismatch"
    by (simp add: authenticate_def bearer_of_def starts_with_def sample_options_def sample_claims_def sample_row_def
        read_claims_def claimed_role_def delegated_context_def)
  from authenticate_refusal_uniform [OF this] show ?thesis by (simp add: bearer_of_def starts_with_def)
qed

text \<open>\<open>stillActing\<close> keeps who is acting and renews what they may do: it never changes organization or
  principal, and a delegated context survives only while its row resolves for the same user and
  surface, with the row's role and ceilings as they are now.\<close>

theorem stillActing_current:
  assumes "stillActing auth options = Some now"
  shows "au_orgId now = au_orgId auth \<and> au_principal now = au_principal auth \<and>
    (case au_delegation auth of
       None \<Rightarrow> now = auth \<and> (ptype (au_principal auth) = ServiceAccount \<longrightarrow>
         (\<exists>active. vo_active options = Some active \<and> active (au_orgId auth) (pid (au_principal auth))))
     | Some d \<Rightarrow> (\<exists>lookup row. vo_delegations options = Some lookup \<and> lookup (au_orgId auth) (dg_id d) = Some row
         \<and> dr_userId row = pid (au_principal auth) \<and> dr_admin row = dg_admin d \<and> au_role now = dr_role row
         \<and> au_delegation now = Some \<lparr>dg_id = dg_id d, dg_admin = dg_admin d, dg_layers = dr_layers row,
              dg_permissions = dr_permissions row\<rparr>))"
  using assms unfolding stillActing_def
  by (auto split: option.splits if_splits)

theorem stillActing_current_witness:
  "au_role (the (stillActing \<lparr>au_orgId = ''acme'', au_principal = \<lparr>ptype = User, pid = ''ada''\<rparr>, au_role = Member,
       au_delegation = Some \<lparr>dg_id = ''d7'', dg_admin = True, dg_layers = None, dg_permissions = None\<rparr>\<rparr>
     (sample_options True))) = OrgAdmin"
proof -
  let ?a = "\<lparr>au_orgId = ''acme'', au_principal = \<lparr>ptype = User, pid = ''ada''\<rparr>, au_role = Member,
       au_delegation = Some \<lparr>dg_id = ''d7'', dg_admin = True, dg_layers = None, dg_permissions = None\<rparr>\<rparr>"
  obtain now where now: "stillActing ?a (sample_options True) = Some now"
    by (simp add: stillActing_def sample_options_def sample_row_def)
  from stillActing_current [OF now] have "au_role now = OrgAdmin"
    by (auto simp: sample_options_def sample_row_def)
  with now show ?thesis by simp
qed

text \<open>A request is rejected for naming an organization exactly when it names one: an object
  anywhere inside its JSON body has a forbidden key, however deep and through arrays, or the query
  or the headers do.\<close>

theorem tenant_override_complete:
  "rejectTenantOverride body query headers \<noteq> None \<longleftrightarrow>
     names_tenant body \<or> (\<exists>k \<in> set FORBIDDEN_KEYS. k \<in> set query \<or> header_name k \<in> set headers)"
  using find_in_complete(1) [of body "[]"] override_in_keys_iff [of FORBIDDEN_KEYS query headers]
  by (auto simp: rejectTenantOverride_def findTenantOverride_def split: option.splits)

text \<open>The listing of the layers whose skills a caller may manage and the question asked of one layer
  are the same answer, for every ceiling a delegation can carry.\<close>

theorem skill_ceiling_agrees:
  "skillCeilingAdmits auth layer \<longleftrightarrow>
     (case skillCeilingLayers auth of None \<Rightarrow> True | Some listed \<Rightarrow> layer \<in> set listed)"
  using skillCeilingLayers_listed [of layer auth] by (simp split: option.splits)

end
