(* ===== verification/Idempotency.thy ===== *)
theory Idempotency
  imports Redis_Client Js_Values Auth "HOL-Library.Countable"
begin

text \<open>
  \<open>packages/api/src/idempotency.ts\<close>: the cache of responses under an \<open>Idempotency-Key\<close>, and the part of
  \<open>packages/api/src/server.ts\<close> that consults it before a handler and feeds it after one.

  \<open>digest\<close> is the truncated hash, \<open>Json\<close> is \<open>JSON.stringify\<close> and \<open>JSON.parse\<close> (none when it throws), \<open>exec\<close>
  the Redis server of \<open>Redis_Client\<close>; what becomes of each command is a \<open>Fate\<close>. A thrown error makes
  the request go ahead uncached, \<open>Proceed None\<close>.
\<close>

subsection \<open>Credentials in a body\<close>

definition CREDENTIAL_FIELDS :: "string list" where
  "CREDENTIAL_FIELDS = [''password'', ''access_token'', ''refresh_token'', ''secret'', ''otpauth_url'', ''recovery_codes'',
     ''key'', ''token'', ''code'', ''redirect_to'', ''challenge'']"

fun carriesCredential :: "nat \<Rightarrow> jsval \<Rightarrow> bool" where
  "carriesCredential depth (JArr items) \<longleftrightarrow> depth \<le> 16 \<and> list_ex (carriesCredential (depth + 1)) items"
| "carriesCredential depth (JObj es) \<longleftrightarrow> depth \<le> 16 \<and>
     list_ex (\<lambda>(field, inner). field \<in> set CREDENTIAL_FIELDS \<or> carriesCredential (depth + 1) inner) es"
| "carriesCredential depth _ \<longleftrightarrow> False"

subsection \<open>Keys and records\<close>

record Json =
  js_stringify :: "jsval \<Rightarrow> string"
  js_parse :: "string \<Rightarrow> jsval option"

record IdemPrincipal =
  ip_orgId :: string
  ip_type :: string
  ip_key :: string

definition owner_id :: "IdemPrincipal \<Rightarrow> string" where
  "owner_id p = ip_orgId p @ '':'' @ ip_type p @ '':'' @ ip_key p"

record IdemRequest =
  iq_principal :: IdemPrincipal
  iq_key :: string
  iq_method :: string
  iq_path :: string
  iq_body :: jsval

text \<open>\<open>body ?? null\<close>.\<close>

definition body_or_null :: "jsval \<Rightarrow> jsval" where
  "body_or_null v = (if v = JUndefined then JNull else v)"

definition fingerprint :: "Json \<Rightarrow> (string \<Rightarrow> string) \<Rightarrow> IdemRequest \<Rightarrow> string" where
  "fingerprint json digest q = digest (js_stringify json
     (JObj [(''method'', JStr (iq_method q)), (''path'', JStr (iq_path q)), (''body'', body_or_null (iq_body q))]))"

definition cacheKey :: "(string \<Rightarrow> string) \<Rightarrow> IdemRequest \<Rightarrow> string" where
  "cacheKey digest q = ''nacre:idem:'' @ owner_id (iq_principal q) @ '':'' @ digest (iq_key q)"

definition pending_record :: "string \<Rightarrow> jsval" where
  "pending_record fp = JObj [(''fingerprint'', JStr fp), (''pending'', JBool True)]"

definition response_record :: "string \<Rightarrow> int \<Rightarrow> jsval \<Rightarrow> jsval" where
  "response_record fp status body = JObj [(''fingerprint'', JStr fp), (''status'', JNum (of_int status)), (''body'', body)]"

definition TTL_SECONDS :: nat where "TTL_SECONDS = 24 * 60 * 60"

definition RESERVATION_SECONDS :: nat where "RESERVATION_SECONDS = 60"

subsection \<open>begin and store\<close>

text \<open>\<open>Proceed\<close> carries what \<open>store\<close> closes over, or nothing where it does nothing.\<close>

datatype Outcome = Replay jsval jsval | Conflict | Proceed "(string \<times> string) option"

text \<open>A property of a value that is not \<open>null\<close>.\<close>

definition jfield :: "jsval \<Rightarrow> string \<Rightarrow> jsval" where
  "jfield v name = (case v of JObj es \<Rightarrow> (case map_of es name of Some x \<Rightarrow> x | None \<Rightarrow> JUndefined) | _ \<Rightarrow> JUndefined)"

definition read_record :: "Json \<Rightarrow> string \<Rightarrow> string \<Rightarrow> Outcome option" where
  "read_record json fp existing =
     (case js_parse json existing of
        None \<Rightarrow> None
      | Some v \<Rightarrow>
          if v = JNull then None
          else Some (if jfield v ''fingerprint'' \<noteq> JStr fp then Conflict
                     else if jfield v ''pending'' = JBool True then Conflict
                     else Replay (jfield v ''status'') (jfield v ''body'')))"

definition reservation :: "Json \<Rightarrow> (string \<Rightarrow> string) \<Rightarrow> IdemRequest \<Rightarrow> string list" where
  "reservation json digest q = [''SET'', cacheKey digest q, js_stringify json (pending_record (fingerprint json digest q)), ''NX'', ''EX'',
     nat_str RESERVATION_SECONDS]"

definition idem_begin :: "(string list \<Rightarrow> 's \<Rightarrow> (string + Reply) \<times> 's) \<Rightarrow> Json \<Rightarrow> (string \<Rightarrow> string) \<Rightarrow> Fate \<times> Fate \<Rightarrow> Fate \<times> Fate \<Rightarrow> IdemRequest \<Rightarrow> 's
    \<Rightarrow> Outcome \<times> 's" where
  "idem_begin exec json digest get_fates set_fates q s =
     (case command exec get_fates [''GET'', cacheKey digest q] s of
        (Inl e, s1) \<Rightarrow> (Proceed None, s1)
      | (Inr (RStr existing), s1) \<Rightarrow>
          (case read_record json (fingerprint json digest q) existing of None \<Rightarrow> Proceed None | Some result \<Rightarrow> result, s1)
      | (Inr _, s1) \<Rightarrow>
          (case command exec set_fates (reservation json digest q) s1 of
             (Inl e, s2) \<Rightarrow> (Proceed None, s2)
           | (Inr RNull, s2) \<Rightarrow> (Conflict, s2)
           | (Inr _, s2) \<Rightarrow> (Proceed (Some (cacheKey digest q, fingerprint json digest q)), s2)))"

definition idem_store :: "(string list \<Rightarrow> 's \<Rightarrow> (string + Reply) \<times> 's) \<Rightarrow> Json \<Rightarrow> Fate \<times> Fate \<Rightarrow> (string \<times> string) option \<Rightarrow> int \<Rightarrow> jsval \<Rightarrow> 's \<Rightarrow> 's" where
  "idem_store exec json fates handle status body s =
     (case handle of
        None \<Rightarrow> s
      | Some (k, fp) \<Rightarrow>
          if status \<ge> 400 \<or> carriesCredential 0 body then snd (command exec fates [''DEL'', k] s)
          else snd (command exec fates [''SET'', k, js_stringify json (response_record fp status body), ''EX'', nat_str TTL_SECONDS] s))"

subsection \<open>The server around it\<close>

definition NEVER_CACHED :: "string list" where
  "NEVER_CACHED = [''/v1/service-accounts'', ''/v1/documents'', ''/v1/search'', ''/v1/uploads'', ''/v1/me'']"

definition neverCached :: "string \<Rightarrow> bool" where
  "neverCached instance' = list_ex (\<lambda>path. instance' = path \<or> starts_with (path @ ''/'') instance') NEVER_CACHED"

definition idem_applies :: "string option \<Rightarrow> string \<Rightarrow> string \<Rightarrow> bool" where
  "idem_applies header method instance' \<longleftrightarrow> header \<noteq> None \<and> header \<noteq> Some [] \<and>
     method \<in> set [''POST'', ''PUT'', ''PATCH'', ''DELETE''] \<and> \<not> neverCached instance'"

definition idem_request :: "AuthContext \<Rightarrow> string \<Rightarrow> string \<Rightarrow> string \<Rightarrow> jsval \<Rightarrow> IdemRequest" where
  "idem_request auth key method instance' body =
     \<lparr>iq_principal = \<lparr>ip_orgId = au_orgId auth, ip_type = principalTypeName (ptype (au_principal auth)), ip_key = pid (au_principal auth)\<rparr>,
      iq_key = key, iq_method = method, iq_path = instance', iq_body = body\<rparr>"

text \<open>What \<open>decorate\<close> hands to the store once a response ends: the parsed text, \<open>null\<close> for a 204 without one.\<close>

definition stored_body :: "Json \<Rightarrow> int \<Rightarrow> string option \<Rightarrow> jsval option" where
  "stored_body json status chunk =
     (case chunk of
        Some (c # cs) \<Rightarrow> js_parse json (c # cs)
      | _ \<Rightarrow> if status = 204 then Some JNull else None)"

datatype IdemAnswer = Replayed jsval jsval | Conflicted | Handled int "string option"

text \<open>A request through the cache; \<open>handler\<close> is the status and the text of the body it answers.\<close>

definition idempotent :: "(string list \<Rightarrow> 's \<Rightarrow> (string + Reply) \<times> 's) \<Rightarrow> Json \<Rightarrow> (string \<Rightarrow> string) \<Rightarrow> Fate \<times> Fate \<Rightarrow> Fate \<times> Fate \<Rightarrow> Fate \<times> Fate
    \<Rightarrow> AuthContext \<Rightarrow> string option \<Rightarrow> string \<Rightarrow> string \<Rightarrow> jsval \<Rightarrow> int \<times> string option \<Rightarrow> 's \<Rightarrow> IdemAnswer \<times> 's" where
  "idempotent exec json digest get_fates set_fates store_fates auth header method instance' body handler s =
     (if \<not> idem_applies header method instance' then (Handled (fst handler) (snd handler), s)
      else case idem_begin exec json digest get_fates set_fates (idem_request auth (the header) method instance' body) s of
        (Replay status cached, s1) \<Rightarrow> (Replayed status cached, s1)
      | (Conflict, s1) \<Rightarrow> (Conflicted, s1)
      | (Proceed handle, s1) \<Rightarrow>
          (Handled (fst handler) (snd handler),
           case stored_body json (fst handler) (snd handler) of
             None \<Rightarrow> s1
           | Some v \<Rightarrow> idem_store exec json store_fates handle (fst handler) v s1))"

subsection \<open>What the bounded walk finds\<close>

text \<open>A credential field \<open>n\<close> levels down.\<close>

inductive field_at :: "nat \<Rightarrow> jsval \<Rightarrow> bool" where
  here: "(field, inner) \<in> set es \<Longrightarrow> field \<in> set CREDENTIAL_FIELDS \<Longrightarrow> field_at 0 (JObj es)"
| member: "(field, inner) \<in> set es \<Longrightarrow> field_at n inner \<Longrightarrow> field_at (Suc n) (JObj es)"
| item: "v \<in> set items \<Longrightarrow> field_at n v \<Longrightarrow> field_at (Suc n) (JArr items)"

inductive_cases field_atE [elim!]: "field_at n (JObj es)" "field_at n (JArr items)"
inductive_simps field_at_simps [simp]:
  "field_at n JUndefined" "field_at n JNull" "field_at n (JBool b)" "field_at n (JNum q)" "field_at n JNonFinite" "field_at n (JStr s)"
  "field_at 0 (JArr items)"

lemma carries_iff: "carriesCredential depth v \<longleftrightarrow> (\<exists>n. depth + n \<le> 16 \<and> field_at n v)"
proof (induction depth v rule: carriesCredential.induct)
  case (1 depth items)
  have "carriesCredential depth (JArr items) \<longleftrightarrow> depth \<le> 16 \<and> (\<exists>v \<in> set items. \<exists>n. depth + 1 + n \<le> 16 \<and> field_at n v)"
    using 1 by (simp add: list_ex_iff)
  also have "\<dots> \<longleftrightarrow> (\<exists>n. depth + n \<le> 16 \<and> field_at n (JArr items))"
  proof
    assume "depth \<le> 16 \<and> (\<exists>v \<in> set items. \<exists>n. depth + 1 + n \<le> 16 \<and> field_at n v)"
    then obtain v n where "v \<in> set items" "depth + Suc n \<le> 16" "field_at n v" by auto
    then show "\<exists>n. depth + n \<le> 16 \<and> field_at n (JArr items)" using field_at.item by blast
  qed fastforce
  finally show ?case .
next
  case (2 depth es)
  have "carriesCredential depth (JObj es) \<longleftrightarrow> depth \<le> 16 \<and>
      (\<exists>(f, v) \<in> set es. f \<in> set CREDENTIAL_FIELDS \<or> (\<exists>n. depth + 1 + n \<le> 16 \<and> field_at n v))"
    using 2 by (fastforce simp: list_ex_iff)
  also have "\<dots> \<longleftrightarrow> (\<exists>n. depth + n \<le> 16 \<and> field_at n (JObj es))"
  proof
    assume "depth \<le> 16 \<and> (\<exists>(f, v) \<in> set es. f \<in> set CREDENTIAL_FIELDS \<or> (\<exists>n. depth + 1 + n \<le> 16 \<and> field_at n v))"
    then obtain f v where fv: "depth \<le> 16" "(f, v) \<in> set es" "f \<in> set CREDENTIAL_FIELDS \<or> (\<exists>n. depth + Suc n \<le> 16 \<and> field_at n v)" by auto
    from fv(3) show "\<exists>n. depth + n \<le> 16 \<and> field_at n (JObj es)"
    proof
      assume "f \<in> set CREDENTIAL_FIELDS"
      then show ?thesis using fv field_at.here [of f v es] by (intro exI [of _ 0]) simp
    next
      assume "\<exists>n. depth + Suc n \<le> 16 \<and> field_at n v"
      then show ?thesis using fv field_at.member [of f v es] by blast
    qed
  qed fastforce
  finally show ?case .
qed simp_all

subsection \<open>Values through the store\<close>

text \<open>The values \<open>JSON.parse\<close> gives: they come back from their own text.\<close>

fun json_value :: "jsval \<Rightarrow> bool" where
  "json_value JUndefined \<longleftrightarrow> False"
| "json_value JNonFinite \<longleftrightarrow> False"
| "json_value (JArr vs) \<longleftrightarrow> list_all json_value vs"
| "json_value (JObj es) \<longleftrightarrow> distinct (map fst es) \<and> list_all (\<lambda>(k, v). json_value v) es"
| "json_value _ \<longleftrightarrow> True"

definition json_ok :: "Json \<Rightarrow> bool" where
  "json_ok json \<longleftrightarrow> (\<forall>v. json_value v \<longrightarrow> js_parse json (js_stringify json v) = Some v) \<and> (\<forall>t v. js_parse json t = Some v \<longrightarrow> json_value v)"

lemma json_parse: "json_ok json \<Longrightarrow> json_value v \<Longrightarrow> js_parse json (js_stringify json v) = Some v"
  by (simp add: json_ok_def)

lemma read_pending:
  "json_ok json \<Longrightarrow> read_record json fp (js_stringify json (pending_record fp')) = Some Conflict"
  using json_parse [of json "pending_record fp'"] by (simp add: read_record_def pending_record_def jfield_def)

lemma read_response:
  "json_ok json \<Longrightarrow> json_value body \<Longrightarrow>
   read_record json fp (js_stringify json (response_record fp' status body)) = Some (if fp' = fp then Replay (JNum (of_int status)) body else Conflict)"
  using json_parse [of json "response_record fp' status body"] by (simp add: read_record_def response_record_def jfield_def)

lemma command_answered [simp]: "command exec (Answered, f) parts s = exec parts s"
  by (simp add: command_def attempt_def)

lemma begin_reads:
  assumes "redis_server exec view" and "idem_begin exec json digest (Answered, f) g q s = (r, s')"
  shows "case view s (cacheKey digest q) of
     Some t \<Rightarrow> r = (case read_record json (fingerprint json digest q) t of None \<Rightarrow> Proceed None | Some result \<Rightarrow> result)
   | None \<Rightarrow> (\<nexists>st b. r = Replay st b)"
proof -
  obtain s1 where get: "exec [''GET'', cacheKey digest q] s = (Inr (case view s (cacheKey digest q) of None \<Rightarrow> RNull | Some v \<Rightarrow> RStr v), s1)"
    using serverD(1) [OF assms(1), of "cacheKey digest q" s] by (metis prod.collapse)
  show ?thesis
  proof (cases "view s (cacheKey digest q)")
    case None
    then show ?thesis
      using assms(2) get by (auto simp: idem_begin_def split: prod.splits sum.splits Reply.splits)
  next
    case (Some t)
    then show ?thesis using assms(2) get by (auto simp: idem_begin_def)
  qed
qed

lemma begin_free:
  assumes "redis_server exec view" and "view s (cacheKey digest q) = None"
  shows "\<exists>s'. idem_begin exec json digest (Answered, f) (Answered, g) q s = (Proceed (Some (cacheKey digest q, fingerprint json digest q)), s')
    \<and> view s' = (view s)(cacheKey digest q \<mapsto> js_stringify json (pending_record (fingerprint json digest q)))"
proof -
  define s1 where "s1 = snd (exec [''GET'', cacheKey digest q] s)"
  define s2 where "s2 = snd (exec (reservation json digest q) s1)"
  have get: "exec [''GET'', cacheKey digest q] s = (Inr RNull, s1)" "view s1 = view s"
    using serverD(1,2) [OF assms(1), of "cacheKey digest q" s] assms(2) by (simp_all add: s1_def prod_eq_iff)
  have set_nx: "exec (reservation json digest q) s1 = (Inr (RStr ''OK''), s2)"
    "view s2 = (view s)(cacheKey digest q \<mapsto> js_stringify json (pending_record (fingerprint json digest q)))"
    using serverD(9,10) [OF assms(1), of "''EX''"] assms(2) get(2) by (simp_all add: s2_def reservation_def prod_eq_iff)
  then show ?thesis using get by (simp add: idem_begin_def)
qed

lemma store_writes:
  assumes "redis_server exec view"
  shows "view (idem_store exec json (Answered, f) (Some (k, fp)) status body s) =
    (if status \<ge> 400 \<or> carriesCredential 0 body then (view s)(k := None)
     else (view s)(k \<mapsto> js_stringify json (response_record fp status body)))"
  using serverD(12,14) [OF assms] by (simp add: idem_store_def)

subsection \<open>Requests that interleave\<close>

text \<open>
  The server's texts, the responses handed to the store with the requests they answered, and the requests
  that hold a reservation. A reservation may be refused or its reply lost; anything else may drop a key,
  as its expiry does, but writes none.
\<close>

type_synonym 's Idem = "'s \<times> (IdemRequest \<times> int \<times> jsval) list \<times> IdemRequest list"

inductive idem_step :: "(string list \<Rightarrow> 's \<Rightarrow> (string + Reply) \<times> 's) \<Rightarrow> ('s \<Rightarrow> string \<rightharpoonup> string) \<Rightarrow> Json \<Rightarrow> (string \<Rightarrow> string) \<Rightarrow> 's Idem \<Rightarrow> 's Idem \<Rightarrow> bool"
  for exec view json digest where
  reserve: "exec (reservation json digest q) s = (Inr (RStr ''OK''), s') \<Longrightarrow>
    idem_step exec view json digest (s, answers, held) (s', answers, q # held)"
| reserve_lost: "idem_step exec view json digest (s, answers, held) (snd (exec (reservation json digest q) s), answers, held)"
| finish: "q \<in> set held \<Longrightarrow> json_value body \<Longrightarrow>
    idem_step exec view json digest (s, answers, held)
      (idem_store exec json fates (Some (cacheKey digest q, fingerprint json digest q)) status body s, (q, status, body) # answers, remove1 q held)"
| elsewhere: "(\<And>q. view s' (cacheKey digest q) \<in> {view s (cacheKey digest q), None}) \<Longrightarrow>
    idem_step exec view json digest (s, answers, held) (s', answers, held)"

definition earned :: "Json \<Rightarrow> (string \<Rightarrow> string) \<Rightarrow> (IdemRequest \<times> int \<times> jsval) list \<Rightarrow> string \<Rightarrow> string \<Rightarrow> bool" where
  "earned json digest answers k t \<longleftrightarrow>
     (\<exists>fp. t = js_stringify json (pending_record fp)) \<or>
     (\<exists>q status body. (q, status, body) \<in> set answers \<and> cacheKey digest q = k \<and> json_value body
        \<and> status < 400 \<and> \<not> carriesCredential 0 body \<and> t = js_stringify json (response_record (fingerprint json digest q) status body))"

definition idem_ok :: "('s \<Rightarrow> string \<rightharpoonup> string) \<Rightarrow> Json \<Rightarrow> (string \<Rightarrow> string) \<Rightarrow> 's Idem \<Rightarrow> bool" where
  "idem_ok view json digest st \<longleftrightarrow>
     (case st of (s, answers, held) \<Rightarrow> \<forall>q t. view s (cacheKey digest q) = Some t \<longrightarrow> earned json digest answers (cacheKey digest q) t)"

lemma earned_more: "earned json digest answers k t \<Longrightarrow> earned json digest (a # answers) k t"
  by (auto simp: earned_def)

lemma command_writes:
  assumes "redis_server exec view" and "parts = [''DEL'', k] \<and> new = None \<or> parts = [''SET'', k, v, ''EX'', t] \<and> new = Some v"
  shows "view (snd (command exec fates parts s)) k' \<in> {view s k', if k' = k then new else view s k'}"
proof -
  have one: "view (snd (attempt exec f parts u)) k' \<in> {view u k', if k' = k then new else view u k'}" for f u
    using assms(2) serverD(12,14) [OF assms(1)] by (cases f) (auto simp: attempt_def)
  show ?thesis
  proof (cases "fst fates")
    case (Lost r)
    then show ?thesis
      using one [of "snd fates" "snd (attempt exec (Lost r) parts s)"] one [of "Lost r" s] by (auto simp: command_def)
  qed (use one [of "fst fates" s] in \<open>simp_all add: command_def\<close>)
qed

lemma reservation_view:
  assumes "redis_server exec view"
  shows "view (snd (exec (reservation json digest q) s)) k =
    (if k = cacheKey digest q \<and> view s k = None then Some (js_stringify json (pending_record (fingerprint json digest q))) else view s k)"
  using serverD(10) [OF assms, of "''EX''"] by (auto simp: reservation_def)

lemma idem_step_ok:
  assumes server: "redis_server exec view" and "idem_step exec view json digest st st'" and ok: "idem_ok view json digest st"
  shows "idem_ok view json digest st'"
  using assms(2)
proof cases
  case (reserve q s s' answers held)
  then have "s' = snd (exec (reservation json digest q) s)" by simp
  then show ?thesis using ok reserve(1,2) by (auto simp: idem_ok_def earned_def reservation_view [OF server] split: if_splits)
next
  case (reserve_lost s answers held q)
  then show ?thesis using ok by (auto simp: idem_ok_def earned_def reservation_view [OF server] split: if_splits)
next
  case (finish q held body s answers fates status)
  let ?s' = "idem_store exec json fates (Some (cacheKey digest q, fingerprint json digest q)) status body s"
  let ?text = "js_stringify json (response_record (fingerprint json digest q) status body)"
  show ?thesis
    unfolding idem_ok_def finish(2) prod.case
  proof (intro allI impI)
    fix q' t assume t: "view ?s' (cacheKey digest q') = Some t"
    consider "view s (cacheKey digest q') = Some t" | "cacheKey digest q' = cacheKey digest q" "t = ?text" "\<not> (status \<ge> 400 \<or> carriesCredential 0 body)"
      using t command_writes [OF server, of "[''DEL'', cacheKey digest q]" "cacheKey digest q" None _ _ fates s "cacheKey digest q'"]
        command_writes [OF server, of "[''SET'', cacheKey digest q, ?text, ''EX'', nat_str TTL_SECONDS]" "cacheKey digest q" "Some ?text" ?text _ fates s "cacheKey digest q'"]
      by (fastforce simp: idem_store_def split: if_splits)
    then show "earned json digest ((q, status, body) # answers) (cacheKey digest q') t"
    proof cases
      case 1
      then show ?thesis using ok finish(1) by (auto simp: idem_ok_def intro: earned_more)
    next
      case 2
      then have "(q, status, body) \<in> set ((q, status, body) # answers) \<and> cacheKey digest q = cacheKey digest q' \<and> json_value body
          \<and> status < 400 \<and> \<not> carriesCredential 0 body \<and> t = ?text" using finish(4) by simp
      then show ?thesis unfolding earned_def by blast
    qed
  qed
next
  case (elsewhere s' s answers held)
  show ?thesis
    unfolding idem_ok_def elsewhere(2) prod.case
  proof (intro allI impI)
    fix q t assume "view s' (cacheKey digest q) = Some t"
    then have "view s (cacheKey digest q) = Some t" using elsewhere(3) [of q] by auto
    then show "earned json digest answers (cacheKey digest q) t" using ok elsewhere(1) by (simp add: idem_ok_def)
  qed
qed

lemma idem_reach_ok:
  assumes "redis_server exec view" and "(idem_step exec view json digest)\<^sup>*\<^sup>* st st'" and "idem_ok view json digest st"
  shows "idem_ok view json digest st'"
  using assms(2,3) by (induction rule: rtranclp_induct) (auto intro: idem_step_ok [OF assms(1)])

definition plain_principal :: "IdemPrincipal \<Rightarrow> bool" where
  "plain_principal p \<longleftrightarrow> CHR '':'' \<notin> set (ip_orgId p) \<and> CHR '':'' \<notin> set (ip_type p)"

lemma cacheKey_inj:
  assumes "\<And>t. CHR '':'' \<notin> set (digest t)" and "plain_principal (iq_principal q)" and "plain_principal (iq_principal q')"
    and "cacheKey digest q = cacheKey digest q'"
  shows "iq_principal q = iq_principal q' \<and> digest (iq_key q) = digest (iq_key q')"
proof -
  have "owner_id (iq_principal q) @ '':'' @ digest (iq_key q) = owner_id (iq_principal q') @ '':'' @ digest (iq_key q')"
    using assms(4) by (simp add: cacheKey_def)
  from colon_last_inj [OF assms(1) assms(1) this]
  have o: "owner_id (iq_principal q) = owner_id (iq_principal q')" and d: "digest (iq_key q) = digest (iq_key q')" by simp_all
  have "ip_orgId (iq_principal q) = ip_orgId (iq_principal q')"
    and rest: "ip_type (iq_principal q) @ '':'' @ ip_key (iq_principal q) = ip_type (iq_principal q') @ '':'' @ ip_key (iq_principal q')"
    using colon_join_inj [OF _ _ o [unfolded owner_id_def]] assms(2,3) by (auto simp: plain_principal_def)
  moreover have "ip_type (iq_principal q) = ip_type (iq_principal q') \<and> ip_key (iq_principal q) = ip_key (iq_principal q')"
    using colon_join_inj [OF _ _ rest] assms(2,3) by (auto simp: plain_principal_def)
  ultimately show ?thesis using d by (simp add: IdemPrincipal.equality)
qed

subsection \<open>The properties\<close>

text \<open>C30 - A replay was earned: however requests interleave, expire and lose replies, what \<open>begin\<close> replays is a response that was
  handed to the cache for a request of the same organization and principal with the same key and the same
  method, path and body (each up to its digest), that succeeded, and whose body has no credential
  field down to the depth the walk goes.\<close>

theorem replay_earned:
  assumes "redis_server exec view" and "json_ok json" and "\<And>t. CHR '':'' \<notin> set (digest t)"
    and "\<And>q. view s0 (cacheKey digest q) = None"
    and "(idem_step exec view json digest)\<^sup>*\<^sup>* (s0, [], []) (s, answers, held)"
    and "idem_begin exec json digest (Answered, f) g q s = (Replay status body, s')"
    and "plain_principal (iq_principal q)" and "list_all (\<lambda>(q, _). plain_principal (iq_principal q)) answers"
  shows "\<exists>q' n. (q', n, body) \<in> set answers \<and> status = JNum (of_int n) \<and> n < 400 \<and> \<not> carriesCredential 0 body
    \<and> iq_principal q' = iq_principal q \<and> digest (iq_key q') = digest (iq_key q) \<and> fingerprint json digest q' = fingerprint json digest q"
proof -
  have ok: "idem_ok view json digest (s, answers, held)"
    using idem_reach_ok [OF assms(1,5)] assms(4) by (simp add: idem_ok_def)
  obtain t where t: "view s (cacheKey digest q) = Some t"
    "read_record json (fingerprint json digest q) t = Some (Replay status body)"
    using begin_reads [OF assms(1,6)] by (auto split: option.splits)
  have "earned json digest answers (cacheKey digest q) t" using ok t(1) by (simp add: idem_ok_def)
  then obtain q' n b where e: "(q', n, b) \<in> set answers" "cacheKey digest q' = cacheKey digest q" "json_value b" "n < 400"
    "\<not> carriesCredential 0 b" "t = js_stringify json (response_record (fingerprint json digest q') n b)"
    using t(2) read_pending [OF assms(2)] unfolding earned_def by fastforce
  have same: "fingerprint json digest q' = fingerprint json digest q" "status = JNum (of_int n)" "body = b"
    using t(2) read_response [OF assms(2) e(3)] e(6) by (auto split: if_splits)
  have "plain_principal (iq_principal q')" using assms(8) e(1) by (auto simp: list_all_iff)
  from cacheKey_inj [OF assms(3) this assms(7) e(2)] same e(1,4,5) show ?thesis by blast
qed

text \<open>A text for every value, for the witnesses.\<close>

instance jsval :: countable
  by countable_datatype

definition count_json :: Json where
  "count_json = \<lparr>js_stringify = \<lambda>v. nat_str (to_nat v),
     js_parse = \<lambda>t. let v = from_nat (str_nat t) in if json_value v then Some v else None\<rparr>"

lemma count_json_ok: "json_ok count_json"
  by (simp add: json_ok_def count_json_def Let_def)

definition sample_call :: IdemRequest where
  "sample_call = \<lparr>iq_principal = \<lparr>ip_orgId = ''acme'', ip_type = ''user'', ip_key = ''u1''\<rparr>, iq_key = ''k'', iq_method = ''POST'', iq_path = ''/v1/grants'', iq_body = JNull\<rparr>"

theorem replay_earned_witness:
  "\<exists>q' n. (q', n, JNull) \<in> set [(sample_call, 201 :: int, JNull)] \<and> n < 400 \<and> iq_principal q' = iq_principal sample_call"
proof -
  let ?k = "cacheKey (\<lambda>_. ''d'') sample_call" and ?fp = "fingerprint count_json (\<lambda>_. ''d'') sample_call"
  let ?s1 = "[?k \<mapsto> js_stringify count_json (pending_record ?fp)]"
  let ?s2 = "idem_store map_server count_json (Answered, Answered) (Some (?k, ?fp)) 201 JNull ?s1"
  let ?step = "idem_step map_server (\<lambda>m. m) count_json (\<lambda>_. ''d'')"
  have "map_server (reservation count_json (\<lambda>_. ''d'') sample_call) Map.empty = (Inr (RStr ''OK''), ?s1)"
    by (simp add: map_server_def reservation_def)
  then have "?step (Map.empty, [], []) (?s1, [], [sample_call])" by (rule idem_step.reserve)
  moreover have "?step (?s1, [], [sample_call]) (?s2, [(sample_call, 201, JNull)], remove1 sample_call [sample_call])"
    by (rule idem_step.finish) simp_all
  ultimately have run: "?step\<^sup>*\<^sup>* (Map.empty, [], []) (?s2, [(sample_call, 201, JNull)], [])" by simp
  have "?s2 ?k = Some (js_stringify count_json (response_record ?fp 201 JNull))"
    using store_writes [OF map_server_ok, of count_json Answered ?k ?fp 201 JNull ?s1] by simp
  then have "idem_begin map_server count_json (\<lambda>_. ''d'') (Answered, Answered) (Answered, Answered) sample_call ?s2 = (Replay (JNum (of_int 201)) JNull, ?s2)"
    using read_response [OF count_json_ok, of JNull ?fp ?fp 201] by (simp add: idem_begin_def map_server_def)
  from replay_earned [OF map_server_ok count_json_ok _ _ run this] show ?thesis
    by (auto simp: plain_principal_def sample_call_def)
qed

text \<open>A retry is answered once for all: where the key is free, a request of a principal that succeeds without a credential
  in its answer is replayed to the next identical request of that principal, the handler not run - whatever the
  delegation of either was - while one that failed or carries a credential leaves the key free.\<close>

theorem replayed_whatever_delegation:
  assumes "redis_server exec view" and "json_ok json" and "idem_applies (Some key) method path"
    and "au_orgId auth' = au_orgId auth" and "au_principal auth' = au_principal auth"
    and "view s (cacheKey digest (idem_request auth key method path body)) = None"
    and "stored_body json status chunk = Some v"
    and "idempotent exec json digest (Answered, f) (Answered, g) (Answered, h) auth (Some key) method path body (status, chunk) s = (a, s1)"
    and "idempotent exec json digest (Answered, f) (Answered, g) (Answered, h) auth' (Some key) method path body handler s1 = (a', s2)"
  shows "a = Handled status chunk \<and>
    a' = (if status \<ge> 400 \<or> carriesCredential 0 v then Handled (fst handler) (snd handler) else Replayed (JNum (of_int status)) v)"
proof -
  let ?q = "idem_request auth key method path body"
  have q': "idem_request auth' key method path body = ?q" using assms(4,5) by (simp add: idem_request_def)
  obtain u where u: "idem_begin exec json digest (Answered, f) (Answered, g) ?q s = (Proceed (Some (cacheKey digest ?q, fingerprint json digest ?q)), u)"
    using begin_free [OF assms(1,6)] by blast
  then have s1: "a = Handled status chunk" "s1 = idem_store exec json (Answered, h) (Some (cacheKey digest ?q, fingerprint json digest ?q)) status v u"
    using assms(3,7,8) by (simp_all add: idempotent_def)
  have v: "json_value v"
    using assms(2,7) by (auto simp: stored_body_def json_ok_def split: option.splits list.splits if_splits)
  have "a' = (if status \<ge> 400 \<or> carriesCredential 0 v then Handled (fst handler) (snd handler) else Replayed (JNum (of_int status)) v)"
  proof (cases "status \<ge> 400 \<or> carriesCredential 0 v")
    case True
    then have "view s1 (cacheKey digest ?q) = None" using store_writes [OF assms(1)] s1(2) by simp
    from begin_free [OF assms(1) this, of json f g] True assms(3,9) show ?thesis by (auto simp: idempotent_def q')
  next
    case False
    then have "view s1 (cacheKey digest ?q) = Some (js_stringify json (response_record (fingerprint json digest ?q) status v))"
      using store_writes [OF assms(1)] s1(2) by simp
    moreover obtain r u' where r: "idem_begin exec json digest (Answered, f) (Answered, g) ?q s1 = (r, u')" by force
    ultimately have "r = Replay (JNum (of_int status)) v"
      using begin_reads [OF assms(1) r] read_response [OF assms(2) v] by simp
    with r False assms(3,9) show ?thesis by (auto simp: idempotent_def q')
  qed
  with s1(1) show ?thesis by simp
qed

definition sample_person :: AuthContext where
  "sample_person = \<lparr>au_orgId = ''acme'', au_principal = \<lparr>ptype = User, pid = ''u1''\<rparr>, au_role = OrgAdmin, au_delegation = None\<rparr>"

theorem replayed_whatever_delegation_witness:
  "\<forall>d. fst (idempotent map_server count_json (\<lambda>_. ''d'') (Answered, Answered) (Answered, Answered) (Answered, Answered)
      (sample_person\<lparr>au_delegation := Some d\<rparr>) (Some ''k'') ''DELETE'' ''/v1/grants/g'' JUndefined (404, None)
      (snd (idempotent map_server count_json (\<lambda>_. ''d'') (Answered, Answered) (Answered, Answered) (Answered, Answered)
        sample_person (Some ''k'') ''DELETE'' ''/v1/grants/g'' JUndefined (204, None) Map.empty)))
    = Replayed (JNum 204) JNull"
proof
  fix d
  have applies: "idem_applies (Some ''k'') ''DELETE'' ''/v1/grants/g''" by code_simp
  show "fst (idempotent map_server count_json (\<lambda>_. ''d'') (Answered, Answered) (Answered, Answered) (Answered, Answered)
      (sample_person\<lparr>au_delegation := Some d\<rparr>) (Some ''k'') ''DELETE'' ''/v1/grants/g'' JUndefined (404, None)
      (snd (idempotent map_server count_json (\<lambda>_. ''d'') (Answered, Answered) (Answered, Answered) (Answered, Answered)
        sample_person (Some ''k'') ''DELETE'' ''/v1/grants/g'' JUndefined (204, None) Map.empty)))
    = Replayed (JNum 204) JNull"
    using replayed_whatever_delegation [OF map_server_ok count_json_ok applies, of "sample_person\<lparr>au_delegation := Some d\<rparr>" sample_person
        Map.empty "\<lambda>_. ''d''" JUndefined 204 None JNull Answered Answered Answered, OF _ _ _ _ surjective_pairing surjective_pairing]
    by (simp add: stored_body_def)
qed

text \<open>The walk for credentials is bounded: it finds a credential field exactly when one is at most sixteen levels down, and
  a body with one below that goes to the cache.\<close>

theorem credential_depth: "carriesCredential 0 v \<longleftrightarrow> (\<exists>n. n \<le> 16 \<and> field_at n v)"
  using carries_iff [of 0 v] by simp

end
