(* ===== verification/Resolver.thy ===== *)
theory Resolver
  imports Authz_Types
begin

text \<open>
  \<open>packages/core/authz/reference.ts\<close> - the eight rules, one scope at a time - and
  \<open>packages/core/authz/resolve.ts\<close> - the whole permitted set at once, in the shape a pre-filter
  needs. They are two algorithms for one question; the lemmas here show that they agree, under
  the scope-tree contract \<open>placed_tree\<close>, also when the resolver is handed a tree that places
  only the documents its grants name.
\<close>

subsection \<open>The input both share\<close>

text \<open>\<open>principals\<close> is a \<open>Set\<close>; \<open>ceiling\<close> is absent for every token that is not a delegation.\<close>

record ResolveInput =
  ri_orgId :: string
  ri_role :: OrgRole
  ri_principals :: "string list"
  ri_grants :: "Grant list"
  ri_tree :: ScopeTree
  ri_ceiling :: "Permission list option"

definition within_ceiling :: "Permission list option \<Rightarrow> Permission \<Rightarrow> bool" where
  "within_ceiling ceiling permission =
     (case ceiling of None \<Rightarrow> True | Some ps \<Rightarrow> permission \<in> set ps)"

subsection \<open>reference.ts\<close>

definition referenceAllows :: "ResolveInput \<Rightarrow> Scope \<Rightarrow> Permission \<Rightarrow> bool" where
  "referenceAllows input scope permission =
     (if \<not> within_ceiling (ri_ceiling input) permission then False
      else if ri_role input = PlatformAdmin then False
      else if ri_role input = OrgAdmin then True
      else
        let mine = filter (\<lambda>g. grant_org g = ri_orgId input
                    \<and> principalRef (grant_principal g) \<in> set (ri_principals input)) (ri_grants input);
            chain = ancestry scope (ri_tree input);
            covers = (\<lambda>granted. \<exists>s \<in> set chain. stype s = stype granted \<and> sid s = sid granted);
            applicable = filter (\<lambda>g. covers (grant_scope g)
                    \<and> satisfies (grant_permission g) permission) mine
        in if \<exists>g \<in> set applicable. grant_effect g = Deny then False
           else (\<exists>g \<in> set applicable. grant_effect g = Allow))"

subsection \<open>resolve.ts\<close>

datatype AccessPlan =
    PlanNone
  | PlanAll
  | PlanScoped (plan_layers: "string list") (plan_extraDocs: "string list") (plan_deniedDocs: "string list")

record ScopeSets =
  ss_workspaces :: "string list"
  ss_layers :: "string list"
  ss_docs :: "string list"

definition empty_sets :: ScopeSets where
  "empty_sets = \<lparr>ss_workspaces = [], ss_layers = [], ss_docs = []\<rparr>"

definition add_scope :: "Scope \<Rightarrow> ScopeSets \<Rightarrow> ScopeSets" where
  "add_scope s side =
     (case stype s of
        Workspace \<Rightarrow> side\<lparr>ss_workspaces := set_add (sid s) (ss_workspaces side)\<rparr>
      | Layer \<Rightarrow> side\<lparr>ss_layers := set_add (sid s) (ss_layers side)\<rparr>
      | Document \<Rightarrow> side\<lparr>ss_docs := set_add (sid s) (ss_docs side)\<rparr>)"

text \<open>The loop over the applicable grants, filling \<open>denied\<close> and \<open>allowed\<close>.\<close>

definition sort_grant :: "Grant \<Rightarrow> ScopeSets \<times> ScopeSets \<Rightarrow> ScopeSets \<times> ScopeSets" where
  "sort_grant g sides =
     (case sides of (denied, allowed) \<Rightarrow>
        if grant_effect g = Deny then (add_scope (grant_scope g) denied, allowed)
        else (denied, add_scope (grant_scope g) allowed))"

definition applicable_grants :: "ResolveInput \<Rightarrow> Permission \<Rightarrow> Grant list" where
  "applicable_grants input permission =
     filter (\<lambda>g. grant_org g = ri_orgId input
        \<and> principalRef (grant_principal g) \<in> set (ri_principals input)
        \<and> satisfies (grant_permission g) permission) (ri_grants input)"

definition denied_layers :: "ScopeTree \<Rightarrow> ScopeSets \<Rightarrow> string list" where
  "denied_layers tree denied =
     fold (\<lambda>workspace acc. fold set_add (layersOf tree workspace) acc)
       (ss_workspaces denied) (set_of (ss_layers denied))"

definition allowed_layers :: "ScopeTree \<Rightarrow> ScopeSets \<Rightarrow> string list \<Rightarrow> string list" where
  "allowed_layers tree allowed deniedLayers =
     (let keep = (\<lambda>layer acc. if layer \<notin> set deniedLayers then set_add layer acc else acc);
          fromWorkspaces = fold (\<lambda>workspace acc. fold keep (layersOf tree workspace) acc)
                             (ss_workspaces allowed) []
      in fold keep (ss_layers allowed) fromWorkspaces)"

definition extra_doc :: "ScopeTree \<Rightarrow> ScopeSets \<Rightarrow> string list \<Rightarrow> string list \<Rightarrow> string \<Rightarrow> bool" where
  "extra_doc tree denied deniedLayers layers doc =
     (if doc \<in> set (ss_docs denied) then False
      else case layerOf tree doc of
             None \<Rightarrow> False
           | Some layer \<Rightarrow>
               if layer \<in> set deniedLayers then False
               else if (case workspaceOf tree layer of
                          None \<Rightarrow> False
                        | Some workspace \<Rightarrow> workspace \<in> set (ss_workspaces denied)) then False
               else layer \<notin> set layers)"

definition extra_docs :: "ScopeTree \<Rightarrow> ScopeSets \<Rightarrow> ScopeSets \<Rightarrow> string list \<Rightarrow> string list \<Rightarrow> string list" where
  "extra_docs tree denied allowed deniedLayers layers =
     fold (\<lambda>doc acc. if extra_doc tree denied deniedLayers layers doc then set_add doc acc else acc)
       (ss_docs allowed) []"

definition resolve :: "ResolveInput \<Rightarrow> Permission \<Rightarrow> AccessPlan" where
  "resolve input permission =
     (if \<not> within_ceiling (ri_ceiling input) permission then PlanNone
      else if ri_role input = PlatformAdmin then PlanNone
      else if ri_role input = OrgAdmin then PlanAll
      else
        let (denied, allowed) =
              fold sort_grant (applicable_grants input permission) (empty_sets, empty_sets);
            deniedLayers = denied_layers (ri_tree input) denied;
            layers = allowed_layers (ri_tree input) allowed deniedLayers;
            extraDocs = extra_docs (ri_tree input) denied allowed deniedLayers layers
        in if layers = [] \<and> extraDocs = [] then PlanNone
           else PlanScoped (sort layers) (sort extraDocs) (sort (ss_docs denied)))"

text \<open>What a plan reaches: a document, given the layer it lives in.\<close>

definition plan_reaches :: "AccessPlan \<Rightarrow> string \<Rightarrow> string \<Rightarrow> bool" where
  "plan_reaches plan doc layer =
     (case plan of
        PlanNone \<Rightarrow> False
      | PlanAll \<Rightarrow> True
      | PlanScoped layers extraDocs deniedDocs \<Rightarrow>
          (layer \<in> set layers \<or> doc \<in> set extraDocs) \<and> doc \<notin> set deniedDocs)"

subsection \<open>The sets the loops build\<close>

definition scoped_ids :: "Grant list \<Rightarrow> Effect \<Rightarrow> ScopeType \<Rightarrow> string set" where
  "scoped_ids gs e t = {sid (grant_scope g) | g. g \<in> set gs \<and> grant_effect g = e \<and> stype (grant_scope g) = t}"

fun side_ids :: "ScopeSets \<Rightarrow> ScopeType \<Rightarrow> string list" where
  "side_ids s Workspace = ss_workspaces s"
| "side_ids s Layer = ss_layers s"
| "side_ids s Document = ss_docs s"

lemma side_ids_add:
  "set (side_ids (add_scope s side) t) =
     (if stype s = t then insert (sid s) (set (side_ids side t)) else set (side_ids side t))"
  by (cases t; cases "stype s") (simp_all add: add_scope_def)

lemma distinct_side_ids_add:
  "distinct (side_ids side t) \<Longrightarrow> distinct (side_ids (add_scope s side) t)"
  by (cases t; cases "stype s") (simp_all add: add_scope_def)

lemma sort_grant_pair:
  "sort_grant g (d, a) =
     (if grant_effect g = Deny then (add_scope (grant_scope g) d, a) else (d, add_scope (grant_scope g) a))"
  by (simp add: sort_grant_def)

lemma side_ids_fold:
  "set (side_ids (fst (fold sort_grant gs (d, a))) t) = scoped_ids gs Deny t \<union> set (side_ids d t)"
  "set (side_ids (snd (fold sort_grant gs (d, a))) t) = scoped_ids gs Allow t \<union> set (side_ids a t)"
proof (induction gs arbitrary: d a)
  case Nil
  case 1 show ?case by (simp add: scoped_ids_def)
  case 2 show ?case by (simp add: scoped_ids_def)
next
  case (Cons g gs)
  case 1 show ?case
    by (cases "grant_effect g") (auto simp: sort_grant_pair Cons.IH side_ids_add scoped_ids_def)
  case 2 show ?case
    by (cases "grant_effect g") (auto simp: sort_grant_pair Cons.IH side_ids_add scoped_ids_def)
qed

lemma distinct_side_ids_fold:
  assumes "\<And>t. distinct (side_ids d t)"
  shows "distinct (side_ids (fst (fold sort_grant gs (d, a))) t)"
  using assms
  by (induction gs arbitrary: d a)
     (auto simp: sort_grant_pair distinct_side_ids_add)

lemma side_ids_empty [simp]: "side_ids empty_sets t = []"
  by (cases t) (simp_all add: empty_sets_def)

lemma set_denied_layers:
  "set (denied_layers tree denied) =
     set (ss_layers denied) \<union> (\<Union>w \<in> set (ss_workspaces denied). set (layersOf tree w))"
  unfolding denied_layers_def
  by (subst set_fold_nested [where F = "\<lambda>w. set (layersOf tree w)"]) auto

lemma set_allowed_layers:
  "set (allowed_layers tree allowed deniedLayers) =
     (set (ss_layers allowed) \<union> (\<Union>w \<in> set (ss_workspaces allowed). set (layersOf tree w)))
       - set deniedLayers"
proof -
  let ?keep = "\<lambda>layer acc. if layer \<notin> set deniedLayers then set_add layer acc else acc"
  have k: "set (fold ?keep ls acc) = (set ls - set deniedLayers) \<union> set acc" for ls acc
    by auto
  have n: "set (fold (\<lambda>w acc. fold ?keep (layersOf tree w) acc) ws acc)
      = (\<Union>w \<in> set ws. set (layersOf tree w) - set deniedLayers) \<union> set acc" for ws acc
    by (rule set_fold_nested) auto
  show ?thesis
    by (auto simp: allowed_layers_def Let_def k n)
qed

lemma set_extra_docs:
  "set (extra_docs tree denied allowed deniedLayers layers) =
     {d \<in> set (ss_docs allowed). extra_doc tree denied deniedLayers layers d}"
  by (simp add: extra_docs_def)

text \<open>The applicable grants, read from one side of the resolver's answer.\<close>

definition hits :: "ResolveInput \<Rightarrow> Permission \<Rightarrow> Effect \<Rightarrow> ScopeType \<Rightarrow> string set" where
  "hits input p e t = scoped_ids (applicable_grants input p) e t"

definition layer_hit :: "ResolveInput \<Rightarrow> Permission \<Rightarrow> Effect \<Rightarrow> string \<Rightarrow> bool" where
  "layer_hit input p e l \<longleftrightarrow>
     l \<in> hits input p e Layer \<or> (\<exists>w \<in> hits input p e Workspace. l \<in> set (layersOf (ri_tree input) w))"

definition extra_hit :: "ResolveInput \<Rightarrow> Permission \<Rightarrow> string \<Rightarrow> bool" where
  "extra_hit input p d \<longleftrightarrow>
     d \<in> hits input p Allow Document \<and> d \<notin> hits input p Deny Document \<and>
     (\<exists>m. layerOf (ri_tree input) d = Some m \<and> \<not> layer_hit input p Deny m \<and>
        (\<forall>w. workspaceOf (ri_tree input) m = Some w \<longrightarrow> w \<notin> hits input p Deny Workspace) \<and>
        \<not> layer_hit input p Allow m)"

text \<open>A member's plan, with the three lists it carries characterised by the grants.\<close>

lemma resolve_shape:
  assumes "within_ceiling (ri_ceiling input) p" and "ri_role input = Member"
  obtains al ex dd where
    "resolve input p = (if al = [] \<and> ex = [] then PlanNone else PlanScoped (sort al) (sort ex) (sort dd))"
    and "\<And>m. m \<in> set al \<longleftrightarrow> layer_hit input p Allow m \<and> \<not> layer_hit input p Deny m"
    and "\<And>d. d \<in> set ex \<longleftrightarrow> extra_hit input p d"
    and "\<And>d. d \<in> set dd \<longleftrightarrow> d \<in> hits input p Deny Document"
proof -
  obtain den alw where f: "fold sort_grant (applicable_grants input p) (empty_sets, empty_sets) = (den, alw)"
    by force
  have sides: "set (side_ids den t) = hits input p Deny t" "set (side_ids alw t) = hits input p Allow t" for t
    using side_ids_fold [of "applicable_grants input p" empty_sets empty_sets t] f
    by (simp_all add: hits_def)
  note ws = sides [of Workspace, simplified] and ls = sides [of Layer, simplified]
    and ds = sides [of Document, simplified]
  define dl where "dl = denied_layers (ri_tree input) den"
  define al where "al = allowed_layers (ri_tree input) alw dl"
  define ex where "ex = extra_docs (ri_tree input) den alw dl al"
  have dl: "m \<in> set dl \<longleftrightarrow> layer_hit input p Deny m" for m
    by (auto simp: dl_def set_denied_layers ws ls layer_hit_def)
  have al: "m \<in> set al \<longleftrightarrow> layer_hit input p Allow m \<and> \<not> layer_hit input p Deny m" for m
    by (auto simp: al_def set_allowed_layers ws ls dl layer_hit_def)
  have ex: "d \<in> set ex \<longleftrightarrow> extra_hit input p d" for d
    by (auto simp: ex_def set_extra_docs extra_doc_def extra_hit_def ws ds dl al split: option.splits)
  have "resolve input p =
      (if al = [] \<and> ex = [] then PlanNone else PlanScoped (sort al) (sort ex) (sort (ss_docs den)))"
    using assms
    unfolding resolve_def Let_def f prod.case dl_def [symmetric] al_def [symmetric] ex_def [symmetric]
    by simp
  then show ?thesis by (rule that [OF _ al ex]) (simp add: ds)
qed

lemma resolve_member:
  assumes "within_ceiling (ri_ceiling input) p" and "ri_role input = Member"
  shows "plan_reaches (resolve input p) d l \<longleftrightarrow>
    d \<notin> hits input p Deny Document \<and>
    ((layer_hit input p Allow l \<and> \<not> layer_hit input p Deny l) \<or> extra_hit input p d)"
proof -
  obtain al ex dd where
    r: "resolve input p = (if al = [] \<and> ex = [] then PlanNone else PlanScoped (sort al) (sort ex) (sort dd))"
    and al: "\<And>m. m \<in> set al \<longleftrightarrow> layer_hit input p Allow m \<and> \<not> layer_hit input p Deny m"
    and ex: "\<And>d. d \<in> set ex \<longleftrightarrow> extra_hit input p d"
    and dd: "\<And>d. d \<in> set dd \<longleftrightarrow> d \<in> hits input p Deny Document"
    using resolve_shape [OF assms] by blast
  show ?thesis
    using al [of l] ex [of d] dd [of d] by (auto simp: r plan_reaches_def)
qed

lemma layers_of_plan:
  assumes "within_ceiling (ri_ceiling input) p" and "ri_role input = Member"
  shows "(case resolve input p of PlanNone \<Rightarrow> False | PlanAll \<Rightarrow> True | PlanScoped ls _ _ \<Rightarrow> l \<in> set ls)
    \<longleftrightarrow> layer_hit input p Allow l \<and> \<not> layer_hit input p Deny l"
proof -
  obtain al ex dd where
    r: "resolve input p = (if al = [] \<and> ex = [] then PlanNone else PlanScoped (sort al) (sort ex) (sort dd))"
    and al: "\<And>m. m \<in> set al \<longleftrightarrow> layer_hit input p Allow m \<and> \<not> layer_hit input p Deny m"
    and "\<And>d. d \<in> set ex \<longleftrightarrow> extra_hit input p d"
    and "\<And>d. d \<in> set dd \<longleftrightarrow> d \<in> hits input p Deny Document"
    using resolve_shape [OF assms] by blast
  show ?thesis using al [of l] by (auto simp: r)
qed

lemma reference_member:
  assumes "within_ceiling (ri_ceiling input) p" and "ri_role input = Member"
  shows "referenceAllows input s p \<longleftrightarrow>
    (\<forall>a \<in> set (ancestry s (ri_tree input)). sid a \<notin> hits input p Deny (stype a)) \<and>
    (\<exists>a \<in> set (ancestry s (ri_tree input)). sid a \<in> hits input p Allow (stype a))"
proof -
  define app where "app = filter (\<lambda>g. (\<exists>a \<in> set (ancestry s (ri_tree input)).
      stype a = stype (grant_scope g) \<and> sid a = sid (grant_scope g)) \<and> satisfies (grant_permission g) p)
    (filter (\<lambda>g. grant_org g = ri_orgId input
      \<and> principalRef (grant_principal g) \<in> set (ri_principals input)) (ri_grants input))"
  have hit: "(\<exists>g \<in> set app. grant_effect g = e)
      \<longleftrightarrow> (\<exists>a \<in> set (ancestry s (ri_tree input)). sid a \<in> hits input p e (stype a))" for e
    by (auto simp: app_def hits_def scoped_ids_def applicable_grants_def) metis+
  have "referenceAllows input s p \<longleftrightarrow>
      \<not> (\<exists>g \<in> set app. grant_effect g = Deny) \<and> (\<exists>g \<in> set app. grant_effect g = Allow)"
    using assms unfolding referenceAllows_def Let_def app_def [symmetric] by simp
  then show ?thesis by (simp add: hit)
qed

subsection \<open>The equivalence, from the scope-tree contract\<close>

text \<open>
  \<open>agrees_on\<close>: the tree the resolver is handed and the organization's full tree are one tree of
  workspaces and layers, and place alike every document a grant names.
\<close>

definition agrees_on :: "Grant list \<Rightarrow> ScopeTree \<Rightarrow> ScopeTree \<Rightarrow> bool" where
  "agrees_on gs part full \<longleftrightarrow>
     layersOf part = layersOf full \<and> workspaceOf part = workspaceOf full \<and>
     (\<forall>g \<in> set gs. stype (grant_scope g) = Document \<longrightarrow>
        layerOf part (sid (grant_scope g)) = layerOf full (sid (grant_scope g)))"

lemma hits_tree [simp]: "hits (input\<lparr>ri_tree := t\<rparr>) p e k = hits input p e k"
  by (simp add: hits_def applicable_grants_def)

lemma hits_named: "x \<in> hits input p e k \<Longrightarrow>
    \<exists>g \<in> set (ri_grants input). stype (grant_scope g) = k \<and> sid (grant_scope g) = x"
  by (auto simp: hits_def scoped_ids_def applicable_grants_def)

context placed_tree
begin

lemma layer_hit_workspace:
  assumes "valid t"
  shows "layer_hit (input\<lparr>ri_tree := build t\<rparr>) p e l \<longleftrightarrow>
    l \<in> hits input p e Layer \<or> (\<exists>w \<in> hits input p e Workspace. workspaceOf (build t) l = Some w)"
  by (simp add: layer_hit_def layers_workspace [OF assms])

lemma layer_chain:
  assumes "valid t"
  shows "(\<exists>a \<in> set (ancestry \<lparr>stype = Layer, sid = l\<rparr> (build t)). sid a \<in> hits input p e (stype a))
    \<longleftrightarrow> layer_hit (input\<lparr>ri_tree := build t\<rparr>) p e l"
  using assms by (auto simp: ancestry_layer layer_hit_workspace)

lemma document_chain:
  assumes "valid t" and "layerOf full d = Some l"
    and "layersOf full = layersOf (build t)" and "workspaceOf full = workspaceOf (build t)"
  shows "(\<exists>a \<in> set (ancestry \<lparr>stype = Document, sid = d\<rparr> full). sid a \<in> hits input p e (stype a))
    \<longleftrightarrow> d \<in> hits input p e Document \<or> layer_hit (input\<lparr>ri_tree := build t\<rparr>) p e l"
  using layer_chain [OF assms(1), of l input p e]
  by (simp add: ancestry_document [OF assms(2)] ancestry_layer assms(4))

lemma resolve_agrees_at:
  assumes t: "valid t" and lay: "layersOf full = layersOf (build t)" and wsp: "workspaceOf full = workspaceOf (build t)"
    and here: "\<forall>g \<in> set (ri_grants input). grant_scope g = \<lparr>stype = Document, sid = d\<rparr> \<longrightarrow> layerOf (build t) d = layerOf full d"
    and placed: "layerOf full d = Some l"
  shows "plan_reaches (resolve (input\<lparr>ri_tree := build t\<rparr>) p) d l
    \<longleftrightarrow> referenceAllows (input\<lparr>ri_tree := full\<rparr>) \<lparr>stype = Document, sid = d\<rparr> p"
proof (cases "within_ceiling (ri_ceiling input) p \<and> ri_role input = Member")
  case False
  then show ?thesis
    by (cases "ri_role input") (auto simp: resolve_def referenceAllows_def plan_reaches_def)
next
  case True
  let ?i = "input\<lparr>ri_tree := build t\<rparr>"
  have named: "layerOf (build t) d = Some l" if hit: "d \<in> hits input p e Document" for e
  proof -
    obtain g where g: "g \<in> set (ri_grants input)" "stype (grant_scope g) = Document" "sid (grant_scope g) = d"
      using hits_named [OF hit] by auto
    then have "grant_scope g = \<lparr>stype = Document, sid = d\<rparr>" by (simp add: Scope.equality)
    then show ?thesis using here g(1) placed by auto
  qed
  have ref: "referenceAllows (input\<lparr>ri_tree := full\<rparr>) \<lparr>stype = Document, sid = d\<rparr> p \<longleftrightarrow>
      \<not> (d \<in> hits input p Deny Document \<or> layer_hit ?i p Deny l) \<and>
      (d \<in> hits input p Allow Document \<or> layer_hit ?i p Allow l)"
    using True reference_member [of "input\<lparr>ri_tree := full\<rparr>" p]
      document_chain [OF t placed lay wsp, of input p Deny]
      document_chain [OF t placed lay wsp, of input p Allow] by auto
  have wsd: "\<not> layer_hit ?i p Deny l \<Longrightarrow> workspaceOf (build t) l = Some w \<Longrightarrow>
      w \<notin> hits input p Deny Workspace" for w
    using layer_hit_workspace [OF t, of input p Deny l] by auto
  show ?thesis
    using True resolve_member [of ?i p d l] named [of Allow] wsd by (auto simp: ref extra_hit_def)
qed

lemma resolve_agrees_reference:
  assumes "valid t" and "agrees_on (ri_grants input) (build t) full" and "layerOf full d = Some l"
  shows "plan_reaches (resolve (input\<lparr>ri_tree := build t\<rparr>) p) d l
    \<longleftrightarrow> referenceAllows (input\<lparr>ri_tree := full\<rparr>) \<lparr>stype = Document, sid = d\<rparr> p"
  using assms by (intro resolve_agrees_at) (auto simp: agrees_on_def)

text \<open>For a layer: it is in the plan exactly when the rules allow the layer itself.\<close>

lemma resolve_layers_reference:
  assumes t: "valid t"
  shows "(case resolve (input\<lparr>ri_tree := build t\<rparr>) p of PlanNone \<Rightarrow> False | PlanAll \<Rightarrow> True
      | PlanScoped ls _ _ \<Rightarrow> l \<in> set ls)
    \<longleftrightarrow> referenceAllows (input\<lparr>ri_tree := build t\<rparr>) \<lparr>stype = Layer, sid = l\<rparr> p"
proof (cases "within_ceiling (ri_ceiling input) p \<and> ri_role input = Member")
  case False
  then show ?thesis
    by (cases "ri_role input") (auto simp: resolve_def referenceAllows_def)
next
  case True
  let ?i = "input\<lparr>ri_tree := build t\<rparr>"
  have "referenceAllows ?i \<lparr>stype = Layer, sid = l\<rparr> p \<longleftrightarrow>
      \<not> layer_hit ?i p Deny l \<and> layer_hit ?i p Allow l"
    using True reference_member [of ?i p] layer_chain [OF t, of l input p Deny]
      layer_chain [OF t, of l input p Allow] by auto
  then show ?thesis using True layers_of_plan [of ?i p l] by auto
qed

end

text \<open>
  The tree of the model, \<open>MemoryScopeTree\<close>, meets the contract, so both facts hold of it:
  \<open>memory_tree.resolve_agrees_reference\<close> and \<open>memory_tree.resolve_layers_reference\<close>.
\<close>

text \<open>The set-at-once resolver and the eight rules agree on layers: a layer is in the plan of a
  request exactly when the rules, applied to that layer alone, allow it. The hypothesis is the
  primary key of layers: no layer is listed under two workspaces.\<close>

theorem resolve_layers_exact:
  assumes "placed_once d" and "ri_tree input = MemoryScopeTree d"
  shows "(case resolve input p of PlanNone \<Rightarrow> False | PlanAll \<Rightarrow> True | PlanScoped ls _ _ \<Rightarrow> l \<in> set ls)
    \<longleftrightarrow> referenceAllows input \<lparr>stype = Layer, sid = l\<rparr> p"
proof -
  have "input\<lparr>ri_tree := MemoryScopeTree d\<rparr> = input" by (simp flip: assms(2))
  with memory_tree.resolve_layers_reference [OF assms(1), where input = input and p = p and l = l] show ?thesis by simp
qed

definition sample_tree :: ScopeTreeData where
  "sample_tree = \<lparr>data_layers = [(''w'', [''l1'', ''l2''])], data_documents = []\<rparr>"

definition sample_input :: ResolveInput where
  "sample_input = \<lparr>ri_orgId = ''acme'', ri_role = Member, ri_principals = [''user:ada''],
     ri_grants = [\<lparr>grant_org = ''acme'', grant_principal = \<lparr>ptype = User, pid = ''ada''\<rparr>,
                    grant_scope = \<lparr>stype = Workspace, sid = ''w''\<rparr>, grant_permission = Read, grant_effect = Allow\<rparr>,
                  \<lparr>grant_org = ''acme'', grant_principal = \<lparr>ptype = User, pid = ''ada''\<rparr>,
                    grant_scope = \<lparr>stype = Layer, sid = ''l2''\<rparr>, grant_permission = Admin, grant_effect = Deny\<rparr>],
     ri_tree = MemoryScopeTree sample_tree, ri_ceiling = None\<rparr>"

theorem resolve_layers_exact_witness:
  "resolve sample_input Read = PlanScoped [''l1''] [] []
   \<and> referenceAllows sample_input \<lparr>stype = Layer, sid = ''l1''\<rparr> Read
   \<and> \<not> referenceAllows sample_input \<lparr>stype = Layer, sid = ''l2''\<rparr> Read"
proof -
  have p: "placed_once sample_tree" by code_simp
  have t: "ri_tree sample_input = MemoryScopeTree sample_tree" by (simp add: sample_input_def)
  have r: "resolve sample_input Read = PlanScoped [''l1''] [] []" by code_simp
  show ?thesis
    using resolve_layers_exact [OF p t, where p = Read and l = "''l1''"] resolve_layers_exact [OF p t, where p = Read and l = "''l2''"] r by simp
qed

end
