(* ===== verification/Js_Text.thy ===== *)
theory Js_Text
  imports Complex_Main Prelude
begin

text \<open>
  JavaScript strings as document text: lists of UTF-16 code units, with the operations the
  sources use - \<open>codePointAt\<close>, iteration by code point, \<open>slice\<close>, \<open>trim\<close>, \<open>lastIndexOf\<close>,
  \<open>replace(/\\r\\n/g, '\\n')\<close> - and the token cost of \<open>packages/core/text/tokens.ts\<close>. Costs are
  counted in halves of a token, so that ASCII's half token is an integer.
\<close>

type_synonym jstext = "nat list"

subsection \<open>Code points\<close>

definition is_high :: "nat \<Rightarrow> bool" where
  "is_high u \<longleftrightarrow> 0xD800 \<le> u \<and> u \<le> 0xDBFF"

definition is_low :: "nat \<Rightarrow> bool" where
  "is_low u \<longleftrightarrow> 0xDC00 \<le> u \<and> u \<le> 0xDFFF"

definition pair_point :: "nat \<Rightarrow> nat \<Rightarrow> nat" where
  "pair_point h l = 0x10000 + (h - 0xD800) * 0x400 + (l - 0xDC00)"

text \<open>The string iterator: a high and a low surrogate together are one code point.\<close>

fun code_points :: "jstext \<Rightarrow> nat list" where
  "code_points [] = []"
| "code_points [u] = [u]"
| "code_points (u # v # us) =
     (if is_high u \<and> is_low v then pair_point u v # code_points us else u # code_points (v # us))"

text \<open>\<open>codePointAt(i)\<close> for \<open>i\<close> in range.\<close>

definition codePointAt :: "jstext \<Rightarrow> nat \<Rightarrow> nat" where
  "codePointAt t i =
     (if Suc i < length t \<and> is_high (t ! i) \<and> is_low (t ! Suc i)
      then pair_point (t ! i) (t ! Suc i) else t ! i)"

text \<open>A code point as the code units a string holds for it.\<close>

definition utf16 :: "nat \<Rightarrow> nat list" where
  "utf16 c = (if c < 0x10000 then [c]
     else [0xD800 + (c - 0x10000) div 0x400, 0xDC00 + (c - 0x10000) mod 0x400])"

text \<open>Well-formed text: every unit is sixteen bits wide.\<close>

definition units :: "jstext \<Rightarrow> bool" where
  "units t \<longleftrightarrow> (\<forall>u \<in> set t. u < 0x10000)"

lemma pair_point_ge: "0x10000 \<le> pair_point h l"
  by (simp add: pair_point_def)

subsection \<open>Slices and searches\<close>

definition slice :: "jstext \<Rightarrow> nat \<Rightarrow> nat \<Rightarrow> jstext" where
  "slice t from to = drop from (take to t)"

lemma length_slice: "to \<le> length t \<Longrightarrow> length (slice t from to) = to - from"
  by (simp add: slice_def)

text \<open>White space, as \<open>trim\<close> and \<open>\\s\<close> read it.\<close>

definition js_space :: "nat \<Rightarrow> bool" where
  "js_space u \<longleftrightarrow> u \<in> {9, 10, 11, 12, 13, 32, 0xA0, 0x1680, 0x2028, 0x2029, 0x202F, 0x205F, 0x3000, 0xFEFF}
     \<or> (0x2000 \<le> u \<and> u \<le> 0x200A)"

definition js_trim :: "jstext \<Rightarrow> jstext" where
  "js_trim t = rev (dropWhile js_space (rev (dropWhile js_space t)))"

text \<open>\<open>replace(/\\r\\n/g, '\\n')\<close>.\<close>

fun normalize_newlines :: "jstext \<Rightarrow> jstext" where
  "normalize_newlines [] = []"
| "normalize_newlines [u] = [u]"
| "normalize_newlines (u # v # us) =
     (if u = 13 \<and> v = 10 then 10 # normalize_newlines us else u # normalize_newlines (v # us))"

definition occurs_at :: "jstext \<Rightarrow> jstext \<Rightarrow> nat \<Rightarrow> bool" where
  "occurs_at sep t i \<longleftrightarrow> i + length sep \<le> length t \<and> take (length sep) (drop i t) = sep"

text \<open>\<open>t.lastIndexOf(sep, from)\<close>: the greatest position not after \<open>from\<close> where \<open>sep\<close> occurs.\<close>

fun last_index_of :: "jstext \<Rightarrow> jstext \<Rightarrow> nat \<Rightarrow> nat option" where
  "last_index_of t sep 0 = (if occurs_at sep t 0 then Some 0 else None)"
| "last_index_of t sep (Suc n) = (if occurs_at sep t (Suc n) then Some (Suc n) else last_index_of t sep n)"

lemma last_index_of_Some:
  "last_index_of t sep n = Some i \<Longrightarrow> i \<le> n \<and> occurs_at sep t i"
  by (induction n) (auto split: if_splits intro: le_SucI)

text \<open>\<open>search\<close> for the first white space.\<close>

fun search_space :: "jstext \<Rightarrow> nat option" where
  "search_space [] = None"
| "search_space (u # us) = (if js_space u then Some 0 else map_option Suc (search_space us))"

lemma search_space_Some: "search_space t = Some i \<Longrightarrow> i < length t \<and> js_space (t ! i)"
  by (induction t arbitrary: i) (auto split: if_splits)

text \<open>Trimming removes white space at both ends and nothing else.\<close>

lemma js_trim_parts: "\<exists>pre suf. t = pre @ js_trim t @ suf \<and> (\<forall>u \<in> set pre \<union> set suf. js_space u)"
proof -
  let ?d = "dropWhile js_space t"
  have t: "t = takeWhile js_space t @ ?d" by simp
  have "rev ?d = takeWhile js_space (rev ?d) @ dropWhile js_space (rev ?d)" by simp
  then have "?d = js_trim t @ rev (takeWhile js_space (rev ?d))"
    by (metis js_trim_def rev_append rev_rev_ident)
  with t have "t = takeWhile js_space t @ js_trim t @ rev (takeWhile js_space (rev ?d))" by metis
  moreover have "\<forall>u \<in> set (takeWhile js_space t) \<union> set (rev (takeWhile js_space (rev ?d))). js_space u"
    by (auto dest: set_takeWhileD)
  ultimately show ?thesis by blast
qed

lemma js_trim_Nil: "js_trim t = [] \<longleftrightarrow> (\<forall>u \<in> set t. js_space u)"
proof -
  have "js_trim t = [] \<longleftrightarrow> (\<forall>u \<in> set (dropWhile js_space t). js_space u)"
    by (simp add: js_trim_def dropWhile_eq_Nil_conv)
  also have "\<dots> \<longleftrightarrow> (\<forall>u \<in> set t. js_space u)"
    by (metis Un_iff set_append set_takeWhileD takeWhile_dropWhile_id)
  finally show ?thesis .
qed

lemma normalize_newlines_space: "(\<forall>u \<in> set (normalize_newlines t). js_space u) \<longleftrightarrow> (\<forall>u \<in> set t. js_space u)"
  by (induction t rule: normalize_newlines.induct) (auto simp: js_space_def)

lemma length_js_trim: "length (js_trim t) \<le> length t"
  by (metis js_trim_def length_dropWhile_le length_rev order.trans)

subsection \<open>tokens.ts\<close>

text \<open>What one code point costs, in half tokens.\<close>

definition half_cost :: "nat \<Rightarrow> nat" where
  "half_cost code = (if code < 0x80 then 1 else if code < 0x800 then 4 else if code < 0x10000 then 6 else 8)"

text \<open>\<open>Math.ceil\<close> of the sum.\<close>

definition estimateTokens :: "jstext \<Rightarrow> nat" where
  "estimateTokens t = (sum_list (map half_cost (code_points t)) + 1) div 2"

definition DEFAULT_EMBED_MAX_TOKENS :: nat where
  "DEFAULT_EMBED_MAX_TOKENS = 512"

definition TOKEN_RESERVE :: nat where
  "TOKEN_RESERVE = 4"

text \<open>\<open>None\<close> is the thrown error: no room once the reserve is taken.\<close>

definition tokenBudget :: "nat \<Rightarrow> nat option" where
  "tokenBudget maxTokens = (if maxTokens < TOKEN_RESERVE + 1 then None else Some (maxTokens - TOKEN_RESERVE))"

definition half_tokens :: "jstext \<Rightarrow> nat" where
  "half_tokens t = sum_list (map half_cost (code_points t))"

lemma half_cost_pos: "1 \<le> half_cost c" and half_cost_le: "half_cost c \<le> 8"
  by (simp_all add: half_cost_def)

lemma half_cost_unit: "u < 0x10000 \<Longrightarrow> half_cost u \<le> 6"
  by (simp add: half_cost_def)

lemma half_cost_pair: "half_cost (pair_point h l) = 8"
  using pair_point_ge [of h l] by (simp add: half_cost_def)

text \<open>Cutting text anywhere, even inside a surrogate pair, never makes either part cost more.\<close>

lemma half_tokens_Cons: "half_tokens t \<le> half_tokens (u # t)"
proof (induction t arbitrary: u rule: code_points.induct)
  case 1
  then show ?case by (simp add: half_tokens_def)
next
  case (2 v)
  show ?case
    using half_cost_pair [of u v] half_cost_pos half_cost_le [of v] by (simp add: half_tokens_def)
next
  case (3 v w us)
  have hv: "is_high v \<Longrightarrow> \<not> is_low v" by (simp add: is_high_def is_low_def)
  show ?case
  proof (cases "is_high u \<and> is_low v")
    case True
    then have nv: "\<not> is_high v" by (auto simp: is_high_def is_low_def)
    then have "half_tokens (v # w # us) = half_cost v + half_tokens (w # us)"
      by (simp add: half_tokens_def)
    moreover have "half_tokens (u # v # w # us) = 8 + half_tokens (w # us)"
      using True by (simp add: half_tokens_def half_cost_pair)
    ultimately show ?thesis using half_cost_le [of v] by simp
  next
    case False
    then show ?thesis by (auto simp: half_tokens_def)
  qed
qed

lemma half_tokens_drop: "half_tokens (drop n t) \<le> half_tokens t"
proof (induction n arbitrary: t)
  case (Suc n)
  show ?case
  proof (cases t)
    case (Cons u us)
    then show ?thesis using Suc [of us] half_tokens_Cons [of us u] by simp
  qed simp
qed simp

lemma half_tokens_append: "units t \<Longrightarrow> half_tokens t \<le> half_tokens (t @ s)"
proof (induction t rule: code_points.induct)
  case 1
  then show ?case by (simp add: half_tokens_def)
next
  case (2 u)
  then have "half_cost u \<le> 6" by (intro half_cost_unit) (simp add: units_def)
  then show ?case
    by (cases s) (auto simp: half_tokens_def half_cost_pair)
next
  case (3 u v us)
  have "units us" "units (v # us)" using 3(3) by (simp_all add: units_def)
  with 3(1,2) show ?case by (auto simp: half_tokens_def)
qed

lemma half_tokens_take: "units t \<Longrightarrow> half_tokens (take n t) \<le> half_tokens t"
  using half_tokens_append [of "take n t" "drop n t"] by (auto simp: units_def dest: in_set_takeD)

lemma estimate_le_budget: "estimateTokens t \<le> b \<longleftrightarrow> half_tokens t \<le> 2 * b"
  by (auto simp: estimateTokens_def half_tokens_def)

lemma units_slice: "units t \<Longrightarrow> units (slice t a b)"
  by (auto simp: units_def slice_def dest: in_set_takeD in_set_dropD)

lemma half_tokens_trim: "units t \<Longrightarrow> half_tokens (js_trim t) \<le> half_tokens t"
proof -
  assume u: "units t"
  obtain pre suf where p: "t = pre @ js_trim t @ suf" using js_trim_parts by blast
  have "js_trim t @ suf = drop (length pre) t" using p by (metis append_eq_conv_conj)
  then have "half_tokens (js_trim t @ suf) \<le> half_tokens t"
    using half_tokens_drop [of "length pre" t] by simp
  moreover have "units (js_trim t)" using u p by (auto simp: units_def) (metis UnCI p set_append)
  then have "half_tokens (js_trim t) \<le> half_tokens (js_trim t @ suf)" by (rule half_tokens_append)
  ultimately show ?thesis by simp
qed

end
