(* ===== verification/Bm25.thy ===== *)
theory Bm25
  imports Js_Text "HOL-Library.Word" "HOL-Library.AList"
begin

unbundle bit_operations_syntax

text \<open>
  \<open>packages/core/text/bm25.ts\<close>: a text as the sparse vector of its terms. The Unicode tables the
  code reads through \<open>normalize\<close>, \<open>toLowerCase\<close> and the property escapes of its regular expressions
  are the fields of \<open>Unicode\<close>. Term hashes are 32-bit words; weights are rationals, where the
  code has doubles.
\<close>

subsection \<open>Tokens\<close>

text \<open>
  \<open>uc_fold\<close> is \<open>normalize('NFKC').toLowerCase()\<close>, \<open>uc_word\<close> is \<open>[\p{L}\p{N}]\<close> and \<open>uc_ideographic\<close> the
  three scripts of \<open>IDEOGRAPHIC\<close>, on code points.
\<close>

record Unicode =
  uc_fold :: "jstext \<Rightarrow> jstext"
  uc_word :: "nat \<Rightarrow> bool"
  uc_ideographic :: "nat \<Rightarrow> bool"

definition SPARSE_VECTOR_NAME :: string where
  "SPARSE_VECTOR_NAME = ''bm25''"

record SparseVector =
  sv_indices :: "32 word list"
  sv_values :: "rat list"

definition connector :: "nat \<Rightarrow> bool" where
  "connector c \<longleftrightarrow> c \<in> {46, 95, 45, 47}"

text \<open>
  One match of \<open>TOKEN\<close> from where a word character stands: a run of them, extended while a connector
  and another word character follow. Greedy matching needs no backtracking here, since nothing
  follows the group.
\<close>

function take_token :: "Unicode \<Rightarrow> nat list \<Rightarrow> nat list \<times> nat list" where
  "take_token u cps =
     (let run = takeWhile (uc_word u) cps; rest = dropWhile (uc_word u) cps
      in case rest of
           c # d # ds \<Rightarrow>
             if connector c \<and> uc_word u d
             then (case take_token u (d # ds) of (tail, left) \<Rightarrow> (run @ c # tail, left))
             else (run, rest)
         | _ \<Rightarrow> (run, rest))"
  by pat_completeness auto
termination
proof (relation "measure (\<lambda>(u, cps). length cps)", goal_cases)
  case (2 u cps run rest c tl d ds)
  then have "length (c # d # ds) \<le> length cps" by (metis length_dropWhile_le)
  then show ?case by simp
qed simp

declare take_token.simps [simp del]

lemma take_token_left:
  "take_token u cps = (tok, left) \<Longrightarrow> length left \<le> length cps"
proof (induction u cps arbitrary: tok left rule: take_token.induct)
  case (1 u cps)
  let ?rest = "dropWhile (uc_word u) cps"
  have le: "length ?rest \<le> length cps" by (rule length_dropWhile_le)
  show ?case
  proof (cases "\<exists>c d ds. ?rest = c # d # ds \<and> connector c \<and> uc_word u d")
    case True
    then obtain c d ds where r: "?rest = c # d # ds" "connector c" "uc_word u d" by blast
    obtain tail l where m: "take_token u (d # ds) = (tail, l)" by force
    have "length l \<le> length (d # ds)" using "1.IH" [OF refl refl r(1) refl _ m] r by simp
    moreover have "left = l" using "1.prems" r m by (simp add: take_token.simps [of u cps])
    ultimately show ?thesis using le r(1) by simp
  next
    case False
    then have "left = ?rest"
      using "1.prems" by (auto simp: take_token.simps [of u cps] Let_def split: list.splits if_splits)
    with le show ?thesis by simp
  qed
qed

lemma take_token_word:
  assumes "uc_word u c" and "take_token u (c # cs) = (tok, left)"
  shows "length left \<le> length cs" and "tok \<noteq> []"
proof -
  have dw: "dropWhile (uc_word u) (c # cs) = dropWhile (uc_word u) cs" using assms(1) by simp
  have le: "length (dropWhile (uc_word u) cs) \<le> length cs" by (rule length_dropWhile_le)
  have "length left \<le> length (dropWhile (uc_word u) cs)"
  proof (cases "\<exists>c' d ds. dropWhile (uc_word u) cs = c' # d # ds \<and> connector c' \<and> uc_word u d")
    case True
    then obtain c' d ds where r: "dropWhile (uc_word u) cs = c' # d # ds" "connector c'" "uc_word u d" by blast
    obtain tail l where m: "take_token u (d # ds) = (tail, l)" by force
    have "left = l" using assms r m by (simp add: take_token.simps [of u "c # cs"])
    with take_token_left [OF m] r(1) show ?thesis by simp
  next
    case False
    then have "left = dropWhile (uc_word u) cs"
      using assms by (auto simp: take_token.simps [of u "c # cs"] Let_def split: list.splits if_splits)
    then show ?thesis by simp
  qed
  with le show "length left \<le> length cs" by simp
  show "tok \<noteq> []"
    using assms by (auto simp: take_token.simps [of u "c # cs"] Let_def split: list.splits if_splits prod.splits)
qed

text \<open>\<open>matchAll(TOKEN)\<close>: the matches from left to right, each after the end of the last.\<close>

function match_all :: "Unicode \<Rightarrow> nat list \<Rightarrow> nat list list" where
  "match_all u [] = []"
| "match_all u (c # cs) =
     (if uc_word u c then (case take_token u (c # cs) of (tok, left) \<Rightarrow> tok # match_all u left)
      else match_all u cs)"
  by pat_completeness auto
termination
  by (relation "measure (\<lambda>(u, cps). length cps)") (auto dest: take_token_word(1) [OF _ sym])

definition units_of :: "nat list \<Rightarrow> jstext" where
  "units_of cps = concat (map utf16 cps)"

fun split_connectors :: "nat list \<Rightarrow> nat list list" where
  "split_connectors [] = [[]]"
| "split_connectors (c # cs) =
     (if connector c then [] # split_connectors cs
      else case split_connectors cs of p # ps \<Rightarrow> (c # p) # ps | [] \<Rightarrow> [[c]])"

text \<open>What one match contributes: its characters when ideographic, else itself and its parts.\<close>

definition token_terms :: "Unicode \<Rightarrow> nat list \<Rightarrow> jstext list" where
  "token_terms u tok =
     (if \<exists>c \<in> set tok. uc_ideographic u c then map (\<lambda>c. utf16 c) tok
      else units_of tok #
        (if length (units_of tok) > 1 \<and> (\<exists>c \<in> set tok. connector c)
         then map units_of (filter (\<lambda>p. length (units_of p) > 0) (split_connectors tok)) else []))"

definition tokenize :: "Unicode \<Rightarrow> jstext \<Rightarrow> jstext list" where
  "tokenize u t = concat (map (token_terms u) (match_all u (code_points (uc_fold u t))))"

subsection \<open>Hashes and vectors\<close>

definition hash :: "jstext \<Rightarrow> 32 word" where
  "hash token = foldl (\<lambda>h c. (h XOR of_nat c) * 0x01000193) 0x811c9dc5 token"

text \<open>The \<open>Map\<close> from hash to frequency, in insertion order.\<close>

definition counts :: "jstext list \<Rightarrow> (32 word \<times> nat) list" where
  "counts tokens =
     fold (\<lambda>token m. AList.update (hash token)
       ((case map_of m (hash token) of None \<Rightarrow> 0 | Some n \<Rightarrow> n) + 1) m) tokens []"

definition assemble :: "(32 word \<times> rat) list \<Rightarrow> SparseVector" where
  "assemble pairs =
     (let sorted = sort_key fst pairs in \<lparr>sv_indices = map fst sorted, sv_values = map snd sorted\<rparr>)"

definition K1 :: rat where "K1 = 6 / 5"

definition B :: rat where "B = 3 / 4"

definition AVERAGE_CHUNK_TOKENS :: rat where "AVERAGE_CHUNK_TOKENS = 120"

definition normalisation :: "nat \<Rightarrow> rat" where
  "normalisation len = K1 * (1 - B + (B * of_nat len) / AVERAGE_CHUNK_TOKENS)"

definition weight :: "nat \<Rightarrow> nat \<Rightarrow> rat" where
  "weight len frequency = (of_nat frequency * (K1 + 1)) / (of_nat frequency + normalisation len)"

definition encodeDocument :: "Unicode \<Rightarrow> jstext \<Rightarrow> SparseVector" where
  "encodeDocument u t =
     (let tokens = tokenize u t
      in if tokens = [] then \<lparr>sv_indices = [], sv_values = []\<rparr>
         else assemble (map (\<lambda>(index, frequency). (index, weight (length tokens) frequency)) (counts tokens)))"

definition encodeQuery :: "Unicode \<Rightarrow> jstext \<Rightarrow> SparseVector" where
  "encodeQuery u t =
     (let tokens = tokenize u t
      in if tokens = [] then \<lparr>sv_indices = [], sv_values = []\<rparr>
         else assemble (map (\<lambda>index. (index, 1)) (set_of (map hash tokens))))"

definition isEmpty :: "SparseVector \<Rightarrow> bool" where
  "isEmpty v = (sv_indices v = [])"

subsection \<open>What the vectors hold\<close>

lemma counts_fold:
  "map_of (fold (\<lambda>token m. AList.update (hash token)
      ((case map_of m (hash token) of None \<Rightarrow> 0 | Some n \<Rightarrow> n) + 1) m) tokens m) i =
   (if i \<in> hash ` set tokens \<or> map_of m i \<noteq> None
    then Some (length (filter (\<lambda>t. hash t = i) tokens) + (case map_of m i of None \<Rightarrow> 0 | Some n \<Rightarrow> n)) else None)"
  by (induction tokens arbitrary: m) (auto simp: update_conv' split: option.splits)

lemma map_of_counts:
  "map_of (counts tokens) i =
     (if i \<in> hash ` set tokens then Some (length (filter (\<lambda>t. hash t = i) tokens)) else None)"
  unfolding counts_def counts_fold by simp

lemma distinct_counts: "distinct (map fst (counts tokens))"
proof -
  have "distinct (map fst (fold (\<lambda>token m. AList.update (hash token)
      ((case map_of m (hash token) of None \<Rightarrow> 0 | Some n \<Rightarrow> n) + 1) m) tokens m))"
    if "distinct (map fst m)" for m :: "(32 word \<times> nat) list"
    using that by (induction tokens arbitrary: m) (simp_all add: distinct_update)
  from this [of "[]"] show ?thesis unfolding counts_def by simp
qed

lemma counts_entries:
  "(i, n) \<in> set (counts tokens) \<longleftrightarrow> i \<in> hash ` set tokens \<and> n = length (filter (\<lambda>t. hash t = i) tokens)"
  using map_of_counts [of tokens i] map_of_eq_Some_iff [OF distinct_counts, of tokens i n] by (auto split: if_splits)

lemma counts_keys: "fst ` set (counts tokens) = hash ` set tokens"
  using counts_entries by (force simp: image_iff)

lemma assemble_indices:
  "set (sv_indices (assemble ps)) = fst ` set ps" "length (sv_indices (assemble ps)) = length (sv_values (assemble ps))"
  "distinct (map fst ps) \<Longrightarrow> sorted_wrt (<) (sv_indices (assemble ps))"
proof -
  show "set (sv_indices (assemble ps)) = fst ` set ps" by (simp add: assemble_def Let_def)
  show "length (sv_indices (assemble ps)) = length (sv_values (assemble ps))" by (simp add: assemble_def Let_def)
  assume "distinct (map fst ps)"
  then have "distinct (map fst (sort_key fst ps))" by (simp add: distinct_map)
  then show "sorted_wrt (<) (sv_indices (assemble ps))"
    by (simp add: assemble_def Let_def strict_sorted_iff)
qed

lemma assemble_values: "set (zip (sv_indices (assemble ps)) (sv_values (assemble ps))) = set ps"
  by (simp add: assemble_def Let_def zip_map_fst_snd)

lemma encodeDocument_cases:
  "encodeDocument u t =
     (if tokenize u t = [] then \<lparr>sv_indices = [], sv_values = []\<rparr>
      else assemble (map (\<lambda>(i, f). (i, weight (length (tokenize u t)) f)) (counts (tokenize u t))))"
  by (simp add: encodeDocument_def Let_def)

lemma map_fst_weighted: "map fst (map (\<lambda>(i, f). (i, w f)) ps) = map fst ps"
  by (induction ps) auto

lemma weight_bounds: "0 < f \<Longrightarrow> 0 < weight len f \<and> weight len f < K1 + 1"
proof -
  assume f: "0 < f"
  have n: "0 < normalisation len"
    by (simp add: normalisation_def K1_def B_def AVERAGE_CHUNK_TOKENS_def)
  have d: "0 < of_nat f + normalisation len" using n by (simp add: add_nonneg_pos)
  have "weight len f < K1 + 1 \<longleftrightarrow> of_nat f * (K1 + 1) < (K1 + 1) * (of_nat f + normalisation len)"
    using d by (simp add: weight_def divide_less_eq)
  also have "\<dots> \<longleftrightarrow> 0 < (K1 + 1) * normalisation len" by (simp add: algebra_simps)
  finally show ?thesis using d n f by (simp add: weight_def K1_def)
qed

lemma match_all_Nil: "match_all u cps = [] \<longleftrightarrow> (\<forall>c \<in> set cps. \<not> uc_word u c)"
  by (induction u cps rule: match_all.induct) (auto split: prod.splits)

lemma match_all_tokens: "tok \<in> set (match_all u cps) \<Longrightarrow> tok \<noteq> []"
proof (induction u cps rule: match_all.induct)
  case (2 u c cs)
  obtain t left where t: "take_token u (c # cs) = (t, left)" by force
  show ?case
  proof (cases "uc_word u c")
    case True
    with "2.prems" t have "tok = t \<or> tok \<in> set (match_all u left)" by simp
    with "2.IH"(1) [OF True t [symmetric]] take_token_word(2) [OF True t] show ?thesis by auto
  qed (use 2 in simp)
qed simp

lemma token_terms_Nil: "tok \<noteq> [] \<Longrightarrow> token_terms u tok \<noteq> []"
  by (simp add: token_terms_def)

lemma tokenize_Nil: "tokenize u t = [] \<longleftrightarrow> (\<forall>c \<in> set (code_points (uc_fold u t)). \<not> uc_word u c)"
proof -
  have "tokenize u t = [] \<longleftrightarrow> match_all u (code_points (uc_fold u t)) = []"
    using match_all_tokens [of _ u "code_points (uc_fold u t)"] token_terms_Nil
    by (auto simp: tokenize_def)
  then show ?thesis by (simp add: match_all_Nil)
qed

subsection \<open>The properties\<close>

text \<open>A document's and a query's sparse vectors hold one value per index, the indices strictly ascending
  as unsigned 32-bit numbers, and the indices are exactly the hashes of the text's terms on both
  sides: a term the query and the chunk share is always a shared dimension.\<close>

theorem sparse_vectors_wellformed:
  "sorted_wrt (<) (sv_indices (encodeDocument u t)) \<and> sorted_wrt (<) (sv_indices (encodeQuery u t))
   \<and> length (sv_indices (encodeDocument u t)) = length (sv_values (encodeDocument u t))
   \<and> length (sv_indices (encodeQuery u t)) = length (sv_values (encodeQuery u t))
   \<and> set (sv_indices (encodeDocument u t)) = hash ` set (tokenize u t)
   \<and> set (sv_indices (encodeQuery u t)) = hash ` set (tokenize u t)"
proof (cases "tokenize u t = []")
  case True
  then show ?thesis by (simp add: encodeDocument_def encodeQuery_def)
next
  case False
  let ?ts = "tokenize u t"
  let ?d = "map (\<lambda>(i, f). (i, weight (length ?ts) f)) (counts ?ts)"
  let ?q = "map (\<lambda>i. (i, 1 :: rat)) (set_of (map hash ?ts))"
  have d: "encodeDocument u t = assemble ?d" and q: "encodeQuery u t = assemble ?q"
    using False by (simp_all add: encodeDocument_def encodeQuery_def Let_def)
  have fd: "map fst ?d = map fst (counts ?ts)" by (rule map_fst_weighted)
  have fq: "map fst ?q = set_of (map hash ?ts)" by (simp add: comp_def)
  have "fst ` set ?d = hash ` set ?ts"
    using fd counts_keys [of ?ts] by (metis set_map)
  moreover have "fst ` set ?q = hash ` set ?ts" by (simp add: image_image)
  ultimately show ?thesis
    using assemble_indices(3) [of ?d] assemble_indices(3) [of ?q] distinct_counts [of ?ts]
    unfolding d q fd fq by (simp add: assemble_indices(1,2) del: set_map)
qed

text \<open>A term's weight in a document is the saturated frequency of BM25: it grows from the number of
  terms with its hash, is always positive and never reaches \<open>K1 + 1\<close>.\<close>

theorem document_weights:
  assumes "(i, w) \<in> set (zip (sv_indices (encodeDocument u t)) (sv_values (encodeDocument u t)))"
  shows "w = weight (length (tokenize u t)) (length (filter (\<lambda>x. hash x = i) (tokenize u t)))
    \<and> 0 < w \<and> w < K1 + 1"
proof (cases "tokenize u t = []")
  case True
  with assms show ?thesis by (simp add: encodeDocument_def)
next
  case False
  then obtain f where f: "(i, f) \<in> set (counts (tokenize u t))" "w = weight (length (tokenize u t)) f"
    using assms by (auto simp: encodeDocument_cases assemble_values)
  then have n: "f = length (filter (\<lambda>x. hash x = i) (tokenize u t))" and "i \<in> hash ` set (tokenize u t)"
    by (simp_all add: counts_entries)
  then have "0 < f" by (auto simp: length_greater_0_conv filter_empty_conv)
  with weight_bounds f(2) n show ?thesis by blast
qed

definition ascii :: Unicode where
  "ascii = \<lparr>uc_fold = map (\<lambda>c. if 65 \<le> c \<and> c \<le> 90 then c + 32 else c),
     uc_word = (\<lambda>c. 48 \<le> c \<and> c \<le> 57 \<or> 97 \<le> c \<and> c \<le> 122), uc_ideographic = (\<lambda>c. False)\<rparr>"

lemma sample_tokens: "tokenize ascii [83, 51, 45, 97, 46, 32, 115, 51] = [[115, 51, 45, 97], [115, 51], [97], [115, 51]]"
  by (simp add: tokenize_def ascii_def is_high_def take_token.simps token_terms_def units_of_def utf16_def connector_def)

theorem document_weights_witness:
  "\<exists>w. (hash [115, 51], w) \<in> set (zip (sv_indices (encodeDocument ascii [83, 51, 45, 97, 46, 32, 115, 51]))
        (sv_values (encodeDocument ascii [83, 51, 45, 97, 46, 32, 115, 51]))) \<and> 0 < w \<and> w < 11 / 5"
proof -
  let ?t = "[83, 51, 45, 97, 46, 32, 115, 51]"
  have "hash [115, 51] \<in> fst ` set (counts (tokenize ascii ?t))"
    by (simp add: counts_keys sample_tokens)
  then obtain f where "(hash [115, 51], f) \<in> set (counts (tokenize ascii ?t))" by force
  then have "(hash [115, 51], weight (length (tokenize ascii ?t)) f) \<in> set (zip (sv_indices (encodeDocument ascii ?t)) (sv_values (encodeDocument ascii ?t)))"
    unfolding encodeDocument_cases by (auto simp: assemble_values sample_tokens intro!: image_eqI [rotated])
  with document_weights [OF this] show ?thesis by (auto simp: K1_def)
qed

text \<open>The lexical branch has something to ask exactly when the folded query contains a letter or a
  digit; a query of punctuation alone is empty.\<close>

theorem query_empty_iff:
  "isEmpty (encodeQuery u t) \<longleftrightarrow> filter (uc_word u) (code_points (uc_fold u t)) = []"
proof -
  have "isEmpty (encodeQuery u t) \<longleftrightarrow> tokenize u t = []"
    by (simp add: isEmpty_def encodeQuery_def Let_def flip: set_empty)
       (simp add: assemble_indices(1) image_image)
  then show ?thesis by (simp add: tokenize_Nil filter_empty_conv)
qed

end
