(* ===== verification/Vector_Filter.thy ===== *)
theory Vector_Filter
  imports Resolver Js_Values Bm25
begin

text \<open>
  \<open>packages/core/authz/filter.ts\<close> - the payload filter a plan becomes - and
  \<open>packages/core/vector/query.ts\<close> - the hybrid query that repeats it in every branch - with the
  collection's name from \<open>packages/core/provision.ts\<close>'s slugs. What Qdrant makes of a filter is a
  parameter: \<open>matches\<close> for a clause and \<open>passes\<close> for a filter, with the documented behaviour the
  code relies on in \<open>qdrant_semantics\<close>. An empty \<open>should\<close> and an empty \<open>any\<close> are left unspecified
  there, so that no lemma can rest on them.
\<close>

subsection \<open>filter.ts\<close>

datatype scalar = SStr string | SNum rat | SBool bool

datatype FilterClause = MatchValue (fc_key: string) scalar | MatchAny (fc_key: string) "scalar list"

record VectorFilter =
  vf_must :: "FilterClause list"
  vf_should :: "FilterClause list option"
  vf_must_not :: "FilterClause list option"

datatype MetadataValue = MScalar scalar | MList "scalar list"

definition METADATA_PREFIX :: string where
  "METADATA_PREFIX = ''meta''"

record Narrowing =
  nw_layers :: "string list option"
  nw_metadata :: "(string \<times> MetadataValue) list option"

text \<open>The three refusals, and the \<open>TypeError\<close> of a plan the type excludes.\<close>

datatype FilterError = NarrowedToNoLayers | NarrowedToNoValues string | ReachesNothing | NotQueryable

definition narrow_layers :: "Narrowing option \<Rightarrow> string list option" where
  "narrow_layers narrow = Option.bind narrow nw_layers"

definition narrow_metadata :: "Narrowing option \<Rightarrow> (string \<times> MetadataValue) list" where
  "narrow_metadata narrow = (case Option.bind narrow nw_metadata of None \<Rightarrow> [] | Some es \<Rightarrow> es)"

definition meta_field :: "string \<Rightarrow> string" where
  "meta_field key = METADATA_PREFIX @ ''.'' @ key"

fun metadata_clauses :: "(string \<times> MetadataValue) list \<Rightarrow> FilterError + FilterClause list" where
  "metadata_clauses [] = Inr []"
| "metadata_clauses ((key, v) # es) =
     (case v of
        MList [] \<Rightarrow> Inl (NarrowedToNoValues key)
      | MList vs \<Rightarrow> map_sum id ((#) (MatchAny (meta_field key) vs)) (metadata_clauses es)
      | MScalar s \<Rightarrow> map_sum id ((#) (MatchValue (meta_field key) s)) (metadata_clauses es))"

definition base_clauses :: "string \<Rightarrow> FilterClause list" where
  "base_clauses orgId = [MatchValue ''org_id'' (SStr orgId), MatchValue ''deleted'' (SBool False)]"

definition layer_clauses :: "Narrowing option \<Rightarrow> FilterError + FilterClause list" where
  "layer_clauses narrow =
     (case narrow_layers narrow of
        None \<Rightarrow> Inr []
      | Some layers \<Rightarrow>
          if layers = [] then Inl NarrowedToNoLayers else Inr [MatchAny ''layer_id'' (map SStr layers)])"

definition plan_filter :: "FilterClause list \<Rightarrow> AccessPlan \<Rightarrow> FilterError + VectorFilter" where
  "plan_filter must plan =
     (case plan of
        PlanNone \<Rightarrow> Inl NotQueryable
      | PlanAll \<Rightarrow> Inr \<lparr>vf_must = must, vf_should = None, vf_must_not = None\<rparr>
      | PlanScoped layers extraDocs deniedDocs \<Rightarrow>
          (let should = (if layers = [] then [] else [MatchAny ''layer_id'' (map SStr layers)])
                      @ (if extraDocs = [] then [] else [MatchAny ''doc_id'' (map SStr extraDocs)])
           in if should = [] then Inl ReachesNothing
              else Inr \<lparr>vf_must = must, vf_should = Some should,
                        vf_must_not = (if deniedDocs = [] then None
                                       else Some [MatchAny ''doc_id'' (map SStr deniedDocs)])\<rparr>))"

definition buildFilter :: "string \<Rightarrow> AccessPlan \<Rightarrow> Narrowing option \<Rightarrow> FilterError + VectorFilter" where
  "buildFilter orgId plan narrow =
     (case layer_clauses narrow of
        Inl e \<Rightarrow> Inl e
      | Inr ls \<Rightarrow>
          (case metadata_clauses (narrow_metadata narrow) of
             Inl e \<Rightarrow> Inl e
           | Inr ms \<Rightarrow> plan_filter (base_clauses orgId @ ls @ ms) plan))"

subsection \<open>query.ts\<close>

datatype Branch =
    DenseBranch (br_onlyLayers: "string list option") (br_using: string) "rat list"
  | SparseBranch (br_onlyLayers: "string list option") (br_using: string) SparseVector

datatype PrefetchQuery = DenseQuery "rat list" | SparseQuery "32 word list" "rat list"

record PrefetchClause =
  pf_query :: PrefetchQuery
  pf_using :: string
  pf_filter :: VectorFilter
  pf_limit :: nat

record HybridQuery =
  hq_prefetch :: "PrefetchClause list"
  hq_limit :: nat
  hq_with_payload :: bool

record HybridQueryOptions =
  ho_branches :: "Branch list"
  ho_filter :: VectorFilter
  ho_prefetchLimit :: "nat option"
  ho_limit :: nat
  ho_withPayload :: "bool option"

datatype QueryError = NoBranches | BranchNarrowedToNoLayers

fun branch_query :: "Branch \<Rightarrow> PrefetchQuery" where
  "branch_query (DenseBranch _ _ vector) = DenseQuery vector"
| "branch_query (SparseBranch _ _ vector) = SparseQuery (sv_indices vector) (sv_values vector)"

definition branch_filter :: "VectorFilter \<Rightarrow> Branch \<Rightarrow> VectorFilter" where
  "branch_filter flt branch =
     (case br_onlyLayers branch of
        None \<Rightarrow> flt
      | Some layers \<Rightarrow> flt\<lparr>vf_must := vf_must flt @ [MatchAny ''layer_id'' (map SStr layers)]\<rparr>)"

definition buildHybridQuery :: "HybridQueryOptions \<Rightarrow> QueryError + HybridQuery" where
  "buildHybridQuery options =
     (if ho_branches options = [] then Inl NoBranches
      else if \<exists>b \<in> set (ho_branches options). br_onlyLayers b = Some [] then Inl BranchNarrowedToNoLayers
      else Inr \<lparr>hq_prefetch = map (\<lambda>b. \<lparr>pf_query = branch_query b, pf_using = br_using b,
                    pf_filter = branch_filter (ho_filter options) b,
                    pf_limit = (case ho_prefetchLimit options of None \<Rightarrow> 50 | Some n \<Rightarrow> n)\<rparr>) (ho_branches options),
                hq_limit = ho_limit options,
                hq_with_payload = (case ho_withPayload options of None \<Rightarrow> True | Some b \<Rightarrow> b)\<rparr>)"

definition lower_char :: "char \<Rightarrow> bool" where
  "lower_char c \<longleftrightarrow> (97 \<le> (of_char c :: nat) \<and> (of_char c :: nat) \<le> 122)"

definition upper_char :: "char \<Rightarrow> bool" where
  "upper_char c \<longleftrightarrow> (65 \<le> (of_char c :: nat) \<and> (of_char c :: nat) \<le> 90)"

definition digit :: "char \<Rightarrow> bool" where
  "digit c \<longleftrightarrow> (48 \<le> (of_char c :: nat) \<and> (of_char c :: nat) \<le> 57)"

definition alnum :: "char \<Rightarrow> bool" where
  "alnum c \<longleftrightarrow> lower_char c \<or> upper_char c \<or> digit c"

definition vectorName :: "string \<Rightarrow> nat \<Rightarrow> string" where
  "vectorName model dimensions =
     ''v_'' @ map (\<lambda>c. if alnum c then c else CHR ''_'') model @ ''_'' @ nat_str dimensions"

definition collectionName :: "string \<Rightarrow> string + string" where
  "collectionName orgSlug =
     (if orgSlug \<noteq> [] \<and> alnum (hd orgSlug)
           \<and> (\<forall>c \<in> set (tl orgSlug). alnum c \<or> c = CHR ''_'' \<or> c = CHR ''-'')
      then Inr (''org_'' @ map (\<lambda>c. if c = CHR ''-'' then CHR ''_'' else c) orgSlug)
      else Inl (''refusing to build a collection name from: '' @ orgSlug))"

text \<open>\<open>organizationSlugError\<close> of \<open>provision.ts\<close>, as the test whether there is no error.\<close>

definition slug_char :: "char \<Rightarrow> bool" where
  "slug_char c \<longleftrightarrow> lower_char c \<or> digit c"

definition organizationSlugOk :: "string \<Rightarrow> bool" where
  "organizationSlugOk slug \<longleftrightarrow>
     2 \<le> length slug \<and> length slug \<le> 40 \<and> slug_char (hd slug) \<and> slug_char (last slug)
     \<and> (\<forall>c \<in> set slug. slug_char c \<or> c = CHR ''-'')"

subsection \<open>What Qdrant is relied on for\<close>

type_synonym payload = "(string \<times> jsval) list"

definition qdrant_semantics ::
  "(payload \<Rightarrow> FilterClause \<Rightarrow> bool) \<Rightarrow> (VectorFilter \<Rightarrow> payload \<Rightarrow> bool) \<Rightarrow> bool" where
  "qdrant_semantics matches passes \<longleftrightarrow>
     (\<forall>pl k s v. CHR ''.'' \<notin> set k \<longrightarrow> map_of pl k = Some (JStr s) \<longrightarrow>
        matches pl (MatchValue k (SStr v)) = (s = v)) \<and>
     (\<forall>pl k s v. CHR ''.'' \<notin> set k \<longrightarrow> map_of pl k = Some (JBool s) \<longrightarrow>
        matches pl (MatchValue k (SBool v)) = (s = v)) \<and>
     (\<forall>pl k vs. vs \<noteq> [] \<longrightarrow> matches pl (MatchAny k vs) = (\<exists>v \<in> set vs. matches pl (MatchValue k v))) \<and>
     (\<forall>f pl. vf_should f \<noteq> Some [] \<longrightarrow> passes f pl =
        ((\<forall>c \<in> set (vf_must f). matches pl c) \<and>
         (case vf_should f of None \<Rightarrow> True | Some cs \<Rightarrow> \<exists>c \<in> set cs. matches pl c) \<and>
         (case vf_must_not f of None \<Rightarrow> True | Some cs \<Rightarrow> \<not> (\<exists>c \<in> set cs. matches pl c))))"

text \<open>A point's payload, as the writer of points makes it: four fields the filter reads.\<close>

definition point_payload :: "payload \<Rightarrow> string \<Rightarrow> bool \<Rightarrow> string \<Rightarrow> string \<Rightarrow> bool" where
  "point_payload pl org deleted doc layer \<longleftrightarrow>
     map_of pl ''org_id'' = Some (JStr org) \<and> map_of pl ''deleted'' = Some (JBool deleted) \<and>
     map_of pl ''doc_id'' = Some (JStr doc) \<and> map_of pl ''layer_id'' = Some (JStr layer)"

definition metadata_admits :: "(payload \<Rightarrow> FilterClause \<Rightarrow> bool) \<Rightarrow> (string \<times> MetadataValue) list \<Rightarrow> payload \<Rightarrow> bool" where
  "metadata_admits matches es pl \<longleftrightarrow>
     (\<forall>(k, v) \<in> set es. \<exists>s \<in> (case v of MScalar s \<Rightarrow> {s} | MList ss \<Rightarrow> set ss). matches pl (MatchValue (meta_field k) s))"

definition admitted :: "(payload \<Rightarrow> FilterClause \<Rightarrow> bool) \<Rightarrow> string \<Rightarrow> AccessPlan \<Rightarrow> Narrowing option \<Rightarrow> payload
    \<Rightarrow> string \<Rightarrow> bool \<Rightarrow> string \<Rightarrow> string \<Rightarrow> bool" where
  "admitted matches orgId plan narrow pl org deleted doc layer \<longleftrightarrow>
     org = orgId \<and> \<not> deleted \<and> plan_reaches plan doc layer
     \<and> (case narrow_layers narrow of None \<Rightarrow> True | Some ls \<Rightarrow> layer \<in> set ls)
     \<and> metadata_admits matches (narrow_metadata narrow) pl"

lemma qdrantD:
  assumes "qdrant_semantics matches passes"
  shows "CHR ''.'' \<notin> set k \<Longrightarrow> map_of pl k = Some (JStr s) \<Longrightarrow> matches pl (MatchValue k (SStr v)) \<longleftrightarrow> s = v"
    and "CHR ''.'' \<notin> set k \<Longrightarrow> map_of pl k = Some (JBool b) \<Longrightarrow> matches pl (MatchValue k (SBool c)) \<longleftrightarrow> b = c"
    and "vs \<noteq> [] \<Longrightarrow> matches pl (MatchAny k vs) \<longleftrightarrow> (\<exists>v \<in> set vs. matches pl (MatchValue k v))"
    and "vf_should f \<noteq> Some [] \<Longrightarrow> passes f pl \<longleftrightarrow>
        (\<forall>c \<in> set (vf_must f). matches pl c) \<and>
        (case vf_should f of None \<Rightarrow> True | Some cs \<Rightarrow> \<exists>c \<in> set cs. matches pl c) \<and>
        (case vf_must_not f of None \<Rightarrow> True | Some cs \<Rightarrow> \<not> (\<exists>c \<in> set cs. matches pl c))"
  using assms unfolding qdrant_semantics_def by simp_all

lemma any_strings:
  assumes "qdrant_semantics matches passes" and "CHR ''.'' \<notin> set k" and "map_of pl k = Some (JStr s)"
    and "xs \<noteq> []"
  shows "matches pl (MatchAny k (map SStr xs)) \<longleftrightarrow> s \<in> set xs"
  using assms(4) qdrantD(3) [OF assms(1), of "map SStr xs" pl k] qdrantD(1) [OF assms(1-3)] by auto

lemma metadata_clauses_match:
  assumes "qdrant_semantics matches passes" and "metadata_clauses es = Inr ms"
  shows "(\<forall>c \<in> set ms. matches pl c) \<longleftrightarrow> metadata_admits matches es pl"
  using assms(2)
proof (induction es arbitrary: ms)
  case Nil
  then show ?case by (simp add: metadata_admits_def)
next
  case (Cons e es)
  obtain k v where e: "e = (k, v)" by force
  obtain ms' where m: "metadata_clauses es = Inr ms'"
    using Cons.prems e by (cases "metadata_clauses es") (auto split: MetadataValue.splits list.splits)
  note ih = Cons.IH [OF m]
  show ?case
  proof (cases v)
    case (MScalar s)
    then show ?thesis using Cons.prems e m ih by (auto simp: metadata_admits_def)
  next
    case (MList vs)
    then have vs: "vs \<noteq> []" using Cons.prems e by (cases vs) auto
    with MList have "ms = MatchAny (meta_field k) vs # ms'"
      using Cons.prems e m by (cases vs) auto
    then show ?thesis
      using ih e MList qdrantD(3) [OF assms(1) vs, of pl "meta_field k"] by (auto simp: metadata_admits_def)
  qed
qed

lemma layer_clauses_match:
  assumes "qdrant_semantics matches passes" and "layer_clauses narrow = Inr ls"
    and "map_of pl ''layer_id'' = Some (JStr l)"
  shows "(\<forall>c \<in> set ls. matches pl c) \<longleftrightarrow>
    (case narrow_layers narrow of None \<Rightarrow> True | Some xs \<Rightarrow> l \<in> set xs)"
proof (cases "narrow_layers narrow")
  case None
  with assms(2) show ?thesis by (simp add: layer_clauses_def)
next
  case (Some xs)
  with assms(2) have "xs \<noteq> []" "ls = [MatchAny ''layer_id'' (map SStr xs)]"
    by (auto simp: layer_clauses_def split: if_splits)
  with Some any_strings [OF assms(1) _ assms(3)] show ?thesis by simp
qed

lemma base_clauses_match:
  assumes "qdrant_semantics matches passes" and "point_payload pl org deleted doc layer"
  shows "(\<forall>c \<in> set (base_clauses orgId). matches pl c) \<longleftrightarrow> org = orgId \<and> \<not> deleted"
  using qdrantD(1) [OF assms(1), of "''org_id''" pl org] qdrantD(2) [OF assms(1), of "''deleted''" pl deleted] assms(2)
  by (simp add: base_clauses_def point_payload_def)

lemma plan_filter_passes:
  assumes q: "qdrant_semantics matches passes" and p: "point_payload pl org deleted doc layer"
    and f: "plan_filter must plan = Inr f"
  shows "passes f pl \<longleftrightarrow> (\<forall>c \<in> set must. matches pl c) \<and> plan_reaches plan doc layer"
proof (cases plan)
  case PlanNone
  with f show ?thesis by (simp add: plan_filter_def)
next
  case PlanAll
  with f have "f = \<lparr>vf_must = must, vf_should = None, vf_must_not = None\<rparr>" by (simp add: plan_filter_def)
  with PlanAll qdrantD(4) [OF q, of f pl] show ?thesis by (simp add: plan_reaches_def)
next
  case (PlanScoped ls ds dn)
  have lay: "xs \<noteq> [] \<Longrightarrow> matches pl (MatchAny ''layer_id'' (map SStr xs)) \<longleftrightarrow> layer \<in> set xs" for xs
    using any_strings [OF q, of "''layer_id''" pl layer xs] p by (simp add: point_payload_def)
  have dc: "xs \<noteq> [] \<Longrightarrow> matches pl (MatchAny ''doc_id'' (map SStr xs)) \<longleftrightarrow> doc \<in> set xs" for xs
    using any_strings [OF q, of "''doc_id''" pl doc xs] p by (simp add: point_payload_def)
  let ?sh = "(if ls = [] then [] else [MatchAny ''layer_id'' (map SStr ls)])
    @ (if ds = [] then [] else [MatchAny ''doc_id'' (map SStr ds)])"
  have sh: "?sh \<noteq> []" and f': "f = \<lparr>vf_must = must, vf_should = Some ?sh,
      vf_must_not = (if dn = [] then None else Some [MatchAny ''doc_id'' (map SStr dn)])\<rparr>"
    using f PlanScoped by (auto simp: plan_filter_def Let_def split: if_splits)
  have "(\<exists>c \<in> set ?sh. matches pl c) \<longleftrightarrow> layer \<in> set ls \<or> doc \<in> set ds"
    using lay [of ls] dc [of ds] by auto
  moreover have "vf_should f \<noteq> Some []" using sh f' by simp
  ultimately show ?thesis
    using qdrantD(4) [OF q, of f pl] dc [of dn] PlanScoped f' by (simp add: plan_reaches_def)
qed

lemma buildFilter_Inr:
  assumes "buildFilter orgId plan narrow = Inr f"
  obtains ls ms where "layer_clauses narrow = Inr ls" "metadata_clauses (narrow_metadata narrow) = Inr ms"
    "plan_filter (base_clauses orgId @ ls @ ms) plan = Inr f"
  using assms by (auto simp: buildFilter_def split: sum.splits)

lemma buildFilter_passes:
  assumes q: "qdrant_semantics matches passes" and p: "point_payload pl org deleted doc layer"
    and f: "buildFilter orgId plan narrow = Inr f"
  shows "passes f pl \<longleftrightarrow> admitted matches orgId plan narrow pl org deleted doc layer"
proof -
  from f obtain ls ms where c: "layer_clauses narrow = Inr ls"
    "metadata_clauses (narrow_metadata narrow) = Inr ms" "plan_filter (base_clauses orgId @ ls @ ms) plan = Inr f"
    by (rule buildFilter_Inr)
  have "map_of pl ''layer_id'' = Some (JStr layer)" using p by (simp add: point_payload_def)
  from plan_filter_passes [OF q p c(3)] base_clauses_match [OF q p, of orgId]
    layer_clauses_match [OF q c(1) this] metadata_clauses_match [OF q c(2), of pl]
  show ?thesis by (auto simp: admitted_def)
qed

lemma buildFilter_should: "buildFilter orgId plan narrow = Inr f \<Longrightarrow> vf_should f \<noteq> Some []"
  by (erule buildFilter_Inr) (auto simp: plan_filter_def Let_def split: AccessPlan.splits if_splits)

text \<open>A branch's filter only adds a clause.\<close>

lemma branch_passes:
  assumes q: "qdrant_semantics matches passes" and b: "buildHybridQuery options = Inr hq"
    and c: "c \<in> set (hq_prefetch hq)" "passes (pf_filter c) pl" and s: "vf_should (ho_filter options) \<noteq> Some []"
  shows "passes (ho_filter options) pl"
proof -
  obtain br where br: "pf_filter c = branch_filter (ho_filter options) br"
    using b c(1) by (auto simp: buildHybridQuery_def split: if_splits)
  show ?thesis
  proof (cases "br_onlyLayers br")
    case None
    with br c(2) show ?thesis by (simp add: branch_filter_def)
  next
    case (Some ls)
    then have f: "pf_filter c = (ho_filter options)\<lparr>vf_must := vf_must (ho_filter options) @ [MatchAny ''layer_id'' (map SStr ls)]\<rparr>"
      using br by (simp add: branch_filter_def)
    then have "vf_should (pf_filter c) \<noteq> Some []" using s by simp
    from qdrantD(4) [OF q this, of pl] qdrantD(4) [OF q s, of pl] c(2) f show ?thesis by simp
  qed
qed

subsection \<open>An evaluator of filters\<close>

text \<open>A direct reading of the documented behaviour, to show that the hypotheses above can hold.\<close>

fun scalar_val :: "scalar \<Rightarrow> jsval" where
  "scalar_val (SStr s) = JStr s"
| "scalar_val (SNum q) = JNum q"
| "scalar_val (SBool b) = JBool b"

definition field_at :: "payload \<Rightarrow> string \<Rightarrow> jsval option" where
  "field_at pl k =
     (case index_of (CHR ''.'') k of
        None \<Rightarrow> map_of pl k
      | Some i \<Rightarrow> (case map_of pl (take i k) of Some (JObj es) \<Rightarrow> map_of es (drop (Suc i) k) | _ \<Rightarrow> None))"

definition holds :: "payload \<Rightarrow> string \<Rightarrow> scalar \<Rightarrow> bool" where
  "holds pl k v = (case field_at pl k of None \<Rightarrow> False | Some (JArr xs) \<Rightarrow> scalar_val v \<in> set xs | Some x \<Rightarrow> x = scalar_val v)"

fun clause_matches :: "payload \<Rightarrow> FilterClause \<Rightarrow> bool" where
  "clause_matches pl (MatchValue k v) = holds pl k v"
| "clause_matches pl (MatchAny k vs) = (\<exists>v \<in> set vs. holds pl k v)"

definition filter_passes :: "VectorFilter \<Rightarrow> payload \<Rightarrow> bool" where
  "filter_passes f pl =
     ((\<forall>c \<in> set (vf_must f). clause_matches pl c) \<and>
      (case vf_should f of None \<Rightarrow> True | Some cs \<Rightarrow> cs = [] \<or> (\<exists>c \<in> set cs. clause_matches pl c)) \<and>
      (case vf_must_not f of None \<Rightarrow> True | Some cs \<Rightarrow> \<not> (\<exists>c \<in> set cs. clause_matches pl c)))"

lemma evaluator_semantics: "qdrant_semantics clause_matches filter_passes"
  unfolding qdrant_semantics_def
  by (auto simp: holds_def field_at_def index_of_None filter_passes_def split: option.splits)

subsection \<open>The properties\<close>

text \<open>C39 - The filter built from a plan admits exactly the points it should: those of the organization, not
  deleted, reached by the plan, inside the requested layers and carrying the requested metadata.\<close>

theorem filter_admits_exactly:
  assumes "qdrant_semantics matches passes" and "point_payload pl org deleted doc layer"
    and "buildFilter orgId plan narrow = Inr f"
  shows "passes f pl \<longleftrightarrow> org = orgId \<and> \<not> deleted \<and> plan_reaches plan doc layer
     \<and> (case narrow_layers narrow of None \<Rightarrow> True | Some ls \<Rightarrow> layer \<in> set ls)
     \<and> metadata_admits matches (narrow_metadata narrow) pl"
  using buildFilter_passes [OF assms] by (simp add: admitted_def)

definition sample_payload :: payload where
  "sample_payload = [(''org_id'', JStr ''acme''), (''deleted'', JBool False), (''doc_id'', JStr ''d1''),
     (''layer_id'', JStr ''l1''), (''meta'', JObj [(''source'', JStr ''wiki'')])]"

definition sample_narrowing :: Narrowing where
  "sample_narrowing = \<lparr>nw_layers = Some [''l1'', ''l3''], nw_metadata = Some [(''source'', MList [SStr ''wiki'', SStr ''blog''])]\<rparr>"

definition sample_filter :: VectorFilter where
  "sample_filter = \<lparr>vf_must = [MatchValue ''org_id'' (SStr ''acme''), MatchValue ''deleted'' (SBool False),
       MatchAny ''layer_id'' [SStr ''l1'', SStr ''l3''], MatchAny ''meta.source'' [SStr ''wiki'', SStr ''blog'']],
     vf_should = Some [MatchAny ''layer_id'' [SStr ''l1'']], vf_must_not = Some [MatchAny ''doc_id'' [SStr ''d9'']]\<rparr>"

lemma sample_built: "buildFilter ''acme'' (PlanScoped [''l1''] [] [''d9'']) (Some sample_narrowing) = Inr sample_filter"
  by (simp add: buildFilter_def layer_clauses_def narrow_layers_def narrow_metadata_def sample_narrowing_def
      plan_filter_def base_clauses_def meta_field_def METADATA_PREFIX_def sample_filter_def)

lemma sample_point: "point_payload sample_payload ''acme'' False ''d1'' ''l1''"
  by (simp add: point_payload_def sample_payload_def)

theorem filter_admits_exactly_witness: "filter_passes sample_filter sample_payload"
proof -
  have "metadata_admits clause_matches (narrow_metadata (Some sample_narrowing)) sample_payload"
    by (simp add: metadata_admits_def narrow_metadata_def sample_narrowing_def holds_def field_at_def meta_field_def
        METADATA_PREFIX_def sample_payload_def)
  then show ?thesis
    using filter_admits_exactly [OF evaluator_semantics sample_point sample_built]
    by (simp add: plan_reaches_def narrow_layers_def sample_narrowing_def)
qed

definition clause_named :: "FilterClause \<Rightarrow> bool" where
  "clause_named c = (case c of MatchValue _ _ \<Rightarrow> True | MatchAny _ vs \<Rightarrow> vs \<noteq> [])"

lemma metadata_clauses_named:
  "metadata_clauses es = Inr ms \<Longrightarrow> c \<in> set ms \<Longrightarrow> clause_named c \<and> (\<exists>k. fc_key c = meta_field k)"
proof (induction es arbitrary: ms)
  case (Cons e es)
  obtain k v where e: "e = (k, v)" by force
  obtain ms' where m: "metadata_clauses es = Inr ms'"
    using Cons.prems e by (cases "metadata_clauses es") (auto split: MetadataValue.splits list.splits)
  with Cons.prems e have "c \<in> set ms' \<or> (clause_named c \<and> fc_key c = meta_field k)"
    by (auto simp: clause_named_def split: MetadataValue.splits list.splits)
  with Cons.IH [OF m] show ?case by blast
qed simp

lemma layer_clauses_named:
  "layer_clauses narrow = Inr ls \<Longrightarrow> c \<in> set ls \<Longrightarrow> clause_named c \<and> fc_key c = ''layer_id''"
  by (auto simp: layer_clauses_def clause_named_def split: option.splits if_splits)

lemma plan_filter_shape:
  "plan_filter must plan = Inr f \<Longrightarrow> vf_must f = must \<and> vf_should f \<noteq> Some []
     \<and> (\<forall>cs. vf_should f = Some cs \<longrightarrow> (\<forall>c \<in> set cs. clause_named c))
     \<and> (\<forall>cs. vf_must_not f = Some cs \<longrightarrow> (\<forall>c \<in> set cs. clause_named c))"
  by (auto simp: plan_filter_def clause_named_def Let_def split: AccessPlan.splits if_splits)

text \<open>Every clause of a built filter names at least one value and \<open>should\<close> is never an empty list, so the
  degenerate filters that Qdrant reads as no constraint are never sent; the organization and
  deletion clauses are always there; and a caller's metadata key becomes a field under \<open>meta.\<close>,
  never one of the fields the permission clauses read.\<close>

theorem filter_never_degenerate:
  assumes "buildFilter orgId plan narrow = Inr f"
  shows "vf_should f \<noteq> Some []
    \<and> (\<forall>c \<in> set (vf_must f @ concat (map (case_option [] id) [vf_should f, vf_must_not f])). clause_named c)
    \<and> take 2 (vf_must f) = [MatchValue ''org_id'' (SStr orgId), MatchValue ''deleted'' (SBool False)]
    \<and> (\<forall>c \<in> set (drop 2 (vf_must f)). fc_key c = ''layer_id'' \<or> (\<exists>k. fc_key c = ''meta.'' @ k))"
proof -
  from assms obtain ls ms where c: "layer_clauses narrow = Inr ls"
    "metadata_clauses (narrow_metadata narrow) = Inr ms" "plan_filter (base_clauses orgId @ ls @ ms) plan = Inr f"
    by (rule buildFilter_Inr)
  note shape = plan_filter_shape [OF c(3)]
  have must: "vf_must f = base_clauses orgId @ ls @ ms" using shape by blast
  have "\<forall>c \<in> set (ls @ ms). clause_named c \<and> (fc_key c = ''layer_id'' \<or> (\<exists>k. fc_key c = ''meta.'' @ k))"
    using layer_clauses_named [OF c(1)] metadata_clauses_named [OF c(2)]
    by (auto simp: meta_field_def METADATA_PREFIX_def)
  moreover have "\<forall>c \<in> set (base_clauses orgId). clause_named c" by (simp add: base_clauses_def clause_named_def)
  moreover have "\<forall>c \<in> set (concat (map (case_option [] id) [vf_should f, vf_must_not f])). clause_named c"
    using shape by (cases "vf_should f"; cases "vf_must_not f") auto
  ultimately show ?thesis
    using shape by (auto simp: must base_clauses_def)
qed

theorem filter_never_degenerate_witness:
  "vf_should sample_filter \<noteq> Some [] \<and> take 2 (vf_must sample_filter) = [MatchValue ''org_id'' (SStr ''acme''), MatchValue ''deleted'' (SBool False)]"
  using filter_never_degenerate [OF sample_built] by blast

lemma resolve_scoped_reaches: "resolve input p = PlanScoped ls ds dn \<Longrightarrow> ls \<noteq> [] \<or> ds \<noteq> []"
proof -
  assume r: "resolve input p = PlanScoped ls ds dn"
  have s: "sort xs = [] \<longleftrightarrow> xs = []" for xs :: "string list" by (metis set_empty set_sort)
  show ?thesis
    using r by (auto simp: resolve_def Let_def s split: if_splits prod.splits)
qed

lemma metadata_clauses_total:
  "(\<forall>(k, v) \<in> set es. v \<noteq> MList []) \<Longrightarrow> \<exists>ms. metadata_clauses es = Inr ms"
  by (induction es) (auto split: MetadataValue.splits list.splits)

text \<open>A plan the resolver produced can always be queried: unless it is \<open>none\<close>, and provided the caller
  does not narrow to an empty list, \<open>buildFilter\<close> returns a filter.\<close>

theorem resolved_plan_queryable:
  assumes "resolve input p \<noteq> PlanNone" and "narrow_layers narrow \<noteq> Some []"
    and "\<forall>(k, v) \<in> set (narrow_metadata narrow). v \<noteq> MList []"
  shows "\<exists>f. buildFilter orgId (resolve input p) narrow = Inr f"
proof -
  obtain ls where ls: "layer_clauses narrow = Inr ls"
    using assms(2) by (cases "narrow_layers narrow") (auto simp: layer_clauses_def)
  obtain ms where ms: "metadata_clauses (narrow_metadata narrow) = Inr ms"
    using metadata_clauses_total [OF assms(3)] by blast
  show ?thesis
  proof (cases "resolve input p")
    case PlanNone
    with assms(1) show ?thesis by simp
  next
    case PlanAll
    then show ?thesis by (simp add: buildFilter_def ls ms plan_filter_def)
  next
    case (PlanScoped xs ds dn)
    with resolve_scoped_reaches [OF PlanScoped] show ?thesis
      by (auto simp: buildFilter_def ls ms plan_filter_def Let_def)
  qed
qed

theorem resolved_plan_queryable_witness:
  "\<exists>f. buildFilter ''acme'' (PlanScoped [''l1''] [] []) (Some sample_narrowing) = Inr f"
proof -
  have r: "resolve sample_input Read = PlanScoped [''l1''] [] []" by code_simp
  show ?thesis
    using resolved_plan_queryable [where input = sample_input and p = Read and narrow = "Some sample_narrowing"
        and orgId = "''acme''"]
    by (simp add: r narrow_layers_def narrow_metadata_def sample_narrowing_def)
qed

text \<open>No branch of a hybrid query escapes the filter: every prefetch clause carries it, narrowed at most
  to the branch's own layers, so what passes any branch passes the one filter that was given.\<close>

theorem every_branch_filtered:
  assumes "qdrant_semantics matches passes" and "vf_should (ho_filter options) \<noteq> Some []"
    and "buildHybridQuery options = Inr q" and "c \<in> set (hq_prefetch q)" and "passes (pf_filter c) pl"
  shows "passes (ho_filter options) pl
    \<and> (\<exists>b \<in> set (ho_branches options). pf_filter c = branch_filter (ho_filter options) b
         \<and> (map_of pl ''layer_id'' = Some (JStr l) \<longrightarrow>
              (case br_onlyLayers b of None \<Rightarrow> True | Some ls \<Rightarrow> l \<in> set ls)))"
proof -
  obtain b where b: "b \<in> set (ho_branches options)" "pf_filter c = branch_filter (ho_filter options) b"
      "br_onlyLayers b \<noteq> Some []"
    using assms(3,4) by (auto simp: buildHybridQuery_def split: if_splits)
  have s: "vf_should (pf_filter c) \<noteq> Some []" using assms(2) b(2) by (simp add: branch_filter_def split: option.splits)
  note all = qdrantD(4) [OF assms(1) s, of pl] and one = qdrantD(4) [OF assms(1,2), of pl]
  show ?thesis
  proof (cases "br_onlyLayers b")
    case None
    then have "branch_filter (ho_filter options) b = ho_filter options" by (simp add: branch_filter_def)
    with None b assms(5) show ?thesis by (auto intro!: bexI [OF _ b(1)])
  next
    case (Some ls)
    with b(3) have "ls \<noteq> []" by simp
    with any_strings [OF assms(1), of "''layer_id''" pl l ls]
    have "map_of pl ''layer_id'' = Some (JStr l) \<longrightarrow> matches pl (MatchAny ''layer_id'' (map SStr ls)) = (l \<in> set ls)"
      by simp
    moreover have "vf_must (pf_filter c) = vf_must (ho_filter options) @ [MatchAny ''layer_id'' (map SStr ls)]"
      "vf_should (pf_filter c) = vf_should (ho_filter options)" "vf_must_not (pf_filter c) = vf_must_not (ho_filter options)"
      using Some b(2) by (simp_all add: branch_filter_def)
    ultimately show ?thesis using Some b(2) assms(5) all one by (auto intro!: bexI [OF _ b(1)])
  qed
qed

definition sample_query :: HybridQueryOptions where
  "sample_query = \<lparr>ho_branches = [DenseBranch (Some [''l1'']) ''v_m_3'' [1, 0, 0], SparseBranch None ''bm25'' \<lparr>sv_indices = [7], sv_values = [1]\<rparr>],
     ho_filter = sample_filter, ho_prefetchLimit = None, ho_limit = 10, ho_withPayload = None\<rparr>"

theorem every_branch_filtered_witness:
  "\<exists>q c. buildHybridQuery sample_query = Inr q \<and> c \<in> set (hq_prefetch q) \<and> pf_limit c = 50
     \<and> filter_passes (pf_filter c) sample_payload \<and> filter_passes sample_filter sample_payload"
proof -
  let ?b = "DenseBranch (Some [''l1'']) ''v_m_3'' [1, 0, 0]"
  let ?c = "\<lparr>pf_query = branch_query ?b, pf_using = br_using ?b, pf_filter = branch_filter sample_filter ?b, pf_limit = 50\<rparr>"
  obtain q where q: "buildHybridQuery sample_query = Inr q" "?c \<in> set (hq_prefetch q)"
    by (simp add: buildHybridQuery_def sample_query_def)
  have p: "filter_passes (pf_filter ?c) sample_payload"
    by (simp add: filter_passes_def branch_filter_def sample_filter_def holds_def field_at_def sample_payload_def)
  have s: "vf_should (ho_filter sample_query) \<noteq> Some []" by (simp add: sample_query_def sample_filter_def)
  have "filter_passes sample_filter sample_payload"
    using every_branch_filtered [OF evaluator_semantics s q p] by (simp add: sample_query_def)
  with q p show ?thesis by (intro exI [of _ q] exI [of _ ?c]) simp
qed

lemma slug_collection:
  assumes "organizationSlugOk s"
  shows "collectionName s = Inr (''org_'' @ map (\<lambda>c. if c = CHR ''-'' then CHR ''_'' else c) s)" and "CHR ''_'' \<notin> set s"
proof -
  have u: "\<not> slug_char (CHR ''_'')" by code_simp
  show "CHR ''_'' \<notin> set s" using assms u unfolding organizationSlugOk_def by (auto; fastforce)
  show "collectionName s = Inr (''org_'' @ map (\<lambda>c. if c = CHR ''-'' then CHR ''_'' else c) s)"
    using assms by (cases s) (auto simp: collectionName_def organizationSlugOk_def slug_char_def alnum_def)
qed

lemma dash_inj:
  "\<lbrakk>CHR ''_'' \<notin> set a; CHR ''_'' \<notin> set b;
    map (\<lambda>c. if c = CHR ''-'' then CHR ''_'' else c) a = map (\<lambda>c. if c = CHR ''-'' then CHR ''_'' else c) b\<rbrakk> \<Longrightarrow> a = b"
  by (erule map_inj_on) (auto simp: inj_on_def split: if_splits)

text \<open>Two organizations never share a collection: the names built from slugs that provisioning accepts
  are distinct, although a hyphen and an underscore are written alike.\<close>

theorem collection_names_distinct:
  assumes "organizationSlugOk a" and "organizationSlugOk b"
  shows "(\<exists>n. collectionName a = Inr n) \<and> (collectionName a = collectionName b \<longleftrightarrow> a = b)"
  using slug_collection [OF assms(1)] slug_collection [OF assms(2)] dash_inj [of a b] by auto

theorem collection_names_distinct_witness:
  "collectionName ''acme-eu'' = Inr ''org_acme_eu'' \<and> collectionName ''acme-eu'' \<noteq> collectionName ''acmeeu''"
proof -
  have "organizationSlugOk ''acme-eu''" "organizationSlugOk ''acmeeu''" by code_simp+
  moreover have "collectionName ''acme-eu'' = Inr ''org_acme_eu''" by code_simp
  ultimately show ?thesis using collection_names_distinct [of "''acme-eu''" "''acmeeu''"] by simp
qed

end
