(* ===== verification/Points.thy ===== *)
theory Points
  imports Vector_Filter
begin

text \<open>
  The writes to the vector store: \<open>QdrantVectorWriter\<close> of \<open>packages/worker/src/adapters.ts\<close> - a
  document's points replaced, purged or flagged - and, of \<open>packages/core/vector/search.ts\<close>,
  \<open>tombstone\<close>, \<open>tombstoneLayer\<close>, \<open>setMetadata\<close> and the \<open>MetadataIndexer\<close>. The Qdrant client is a
  record of operations on a state of its own; \<open>qdrant_store\<close> says what is relied on, through a view
  of each collection as a map from ids to points. A failed call may have been applied to some of
  the points and not to others.
\<close>

subsection \<open>The client\<close>

datatype Vec = Dense "rat list" | Sparse SparseVector

record Point =
  pt_id :: string
  pt_vector :: "(string \<times> Vec) list"
  pt_payload :: payload

text \<open>\<open>must\<close>, all matches by value on strings, and \<open>must_not: [{has_id}]\<close>.\<close>

record PointFilter =
  sl_must :: "(string \<times> string) list"
  sl_not_ids :: "string list option"

record 's QdrantClient =
  qc_upsert :: "string \<Rightarrow> Point list \<Rightarrow> 's \<Rightarrow> (string + unit) \<times> 's"
  qc_delete :: "string \<Rightarrow> PointFilter \<Rightarrow> 's \<Rightarrow> (string + unit) \<times> 's"
  qc_setPayload :: "string \<Rightarrow> payload \<Rightarrow> PointFilter \<Rightarrow> 's \<Rightarrow> (string + unit) \<times> 's"
  qc_updateVectors :: "string \<Rightarrow> (string \<times> (string \<times> Vec) list) list \<Rightarrow> 's \<Rightarrow> (string + unit) \<times> 's"
  qc_getCollection :: "string \<Rightarrow> 's \<Rightarrow> string + string list"
  qc_createPayloadIndex :: "string \<Rightarrow> string \<Rightarrow> 's \<Rightarrow> (string + unit) \<times> 's"

definition selects :: "PointFilter \<Rightarrow> Point \<Rightarrow> bool" where
  "selects f p \<longleftrightarrow> (\<forall>(k, v) \<in> set (sl_must f). map_of (pt_payload p) k = Some (JStr v))
     \<and> (case sl_not_ids f of None \<Rightarrow> True | Some ids \<Rightarrow> pt_id p \<notin> set ids)"

text \<open>The effect of each call on a collection.\<close>

definition upserted :: "Point list \<Rightarrow> (string \<rightharpoonup> Point) \<Rightarrow> (string \<rightharpoonup> Point)" where
  "upserted ps m = fold (\<lambda>p m. m(pt_id p \<mapsto> p)) ps m"

definition deleted_by :: "PointFilter \<Rightarrow> (string \<rightharpoonup> Point) \<Rightarrow> (string \<rightharpoonup> Point)" where
  "deleted_by f m i = (case m i of None \<Rightarrow> None | Some p \<Rightarrow> if selects f p then None else Some p)"

definition set_fields :: "payload \<Rightarrow> Point \<Rightarrow> Point" where
  "set_fields flds p = p\<lparr>pt_payload := flds @ filter (\<lambda>(k, v). k \<notin> fst ` set flds) (pt_payload p)\<rparr>"

definition payload_set :: "payload \<Rightarrow> PointFilter \<Rightarrow> (string \<rightharpoonup> Point) \<Rightarrow> (string \<rightharpoonup> Point)" where
  "payload_set flds f m i = (case m i of None \<Rightarrow> None | Some p \<Rightarrow> Some (if selects f p then set_fields flds p else p))"

text \<open>
  \<open>effect r s s' coll g\<close>: a call that answered \<open>r\<close> and left \<open>s'\<close> changed the collection by \<open>g\<close> if it
  succeeded, by \<open>g\<close> on some of the ids if it failed, and no other collection.
\<close>

definition effect :: "('s \<Rightarrow> string \<Rightarrow> string \<rightharpoonup> Point) \<Rightarrow> (string + unit) \<times> 's \<Rightarrow> 's \<Rightarrow> string
    \<Rightarrow> ((string \<rightharpoonup> Point) \<Rightarrow> (string \<rightharpoonup> Point)) \<Rightarrow> bool" where
  "effect view run s coll g \<longleftrightarrow>
     (\<forall>other. other \<noteq> coll \<longrightarrow> view (snd run) other = view s other) \<and>
     (\<forall>i. view (snd run) coll i = g (view s coll) i \<or> (fst run \<noteq> Inr () \<and> view (snd run) coll i = view s coll i))"

definition qdrant_store :: "'s QdrantClient \<Rightarrow> ('s \<Rightarrow> string \<Rightarrow> string \<rightharpoonup> Point) \<Rightarrow> bool" where
  "qdrant_store client view \<longleftrightarrow>
     (\<forall>coll ps s. effect view (qc_upsert client coll ps s) s coll (upserted ps)) \<and>
     (\<forall>coll f s. effect view (qc_delete client coll f s) s coll (deleted_by f)) \<and>
     (\<forall>coll flds f s. effect view (qc_setPayload client coll flds f s) s coll (payload_set flds f)) \<and>
     (\<forall>coll field s. view (snd (qc_createPayloadIndex client coll field s)) = view s) \<and>
     (\<forall>s coll i p. view s coll i = Some p \<longrightarrow> pt_id p = i)"

subsection \<open>MetadataIndexer\<close>

definition METADATA_INDEX_LIMIT :: nat where "METADATA_INDEX_LIMIT = 64"

record Indexer =
  ix_known :: "(string \<times> string list) list"
  ix_atLimit :: "string list"

definition meta_fields :: "string list \<Rightarrow> string list" where
  "meta_fields schema = filter (\<lambda>field. take 5 field = METADATA_PREFIX @ ''.'') schema"

definition fieldsOf :: "'s QdrantClient \<Rightarrow> string \<Rightarrow> 's \<Rightarrow> string + string list" where
  "fieldsOf client collection s = map_sum id meta_fields (qc_getCollection client collection s)"

text \<open>\<open>#indexed\<close>: the cached set, or the collection's schema, which is then cached.\<close>

definition indexed_fields :: "'s QdrantClient \<Rightarrow> string \<Rightarrow> Indexer \<Rightarrow> 's \<Rightarrow> (string + string list) \<times> Indexer" where
  "indexed_fields client collection ix s =
     (case map_of (ix_known ix) collection of
        Some flds \<Rightarrow> (Inr flds, ix)
      | None \<Rightarrow> (case qc_getCollection client collection s of
                    Inl e \<Rightarrow> (Inl e, ix)
                  | Inr schema \<Rightarrow> (Inr (meta_fields schema),
                                   ix\<lparr>ix_known := (collection, meta_fields schema) # ix_known ix\<rparr>)))"

text \<open>
  The loop over the keys. \<open>indexed\<close> is the set inside \<open>ix_known\<close>, shared by reference in the source:
  a field added to it is known to the next call. It stops at the first index that is refused.
\<close>

fun ensure_keys :: "'s QdrantClient \<Rightarrow> nat \<Rightarrow> string \<Rightarrow> string list \<Rightarrow> string list \<Rightarrow> Indexer \<Rightarrow> 's \<Rightarrow> Indexer \<times> 's" where
  "ensure_keys client limit collection [] flds ix s =
     (ix\<lparr>ix_known := AList.update collection flds (ix_known ix)\<rparr>, s)"
| "ensure_keys client limit collection (key # keys) flds ix s =
     (let field = METADATA_PREFIX @ ''.'' @ key
      in if field \<in> set flds then ensure_keys client limit collection keys flds ix s
         else if length flds \<ge> limit
         then ensure_keys client limit collection keys flds
                (ix\<lparr>ix_atLimit := List.insert collection (ix_atLimit ix)\<rparr>) s
         else case qc_createPayloadIndex client collection field s of
                (Inl e, s') \<Rightarrow> (ix\<lparr>ix_known := AList.update collection flds (ix_known ix)\<rparr>, s')
              | (Inr _, s') \<Rightarrow> ensure_keys client limit collection keys (flds @ [field]) ix s')"

definition ensure :: "'s QdrantClient \<Rightarrow> nat \<Rightarrow> string \<Rightarrow> string list \<Rightarrow> Indexer \<times> 's \<Rightarrow> Indexer \<times> 's" where
  "ensure client limit collection keys st =
     (if keys = [] then st
      else case indexed_fields client collection (fst st) (snd st) of
             (Inl e, ix) \<Rightarrow> (ix, snd st)
           | (Inr flds, ix) \<Rightarrow> ensure_keys client limit collection keys flds ix (snd st))"

subsection \<open>QdrantVectorWriter\<close>

record IngestPoint =
  ip_id :: string
  ip_ordinal :: nat
  ip_vector :: "rat list"
  ip_sparse :: SparseVector

record WriteInput =
  wi_org :: string
  wi_collection :: string
  wi_layer :: string
  wi_document :: string
  wi_vectorName :: string
  wi_metadata :: "(string \<times> jsval) list"
  wi_points :: "IngestPoint list"

definition point_of :: "WriteInput \<Rightarrow> IngestPoint \<Rightarrow> Point" where
  "point_of input p =
     \<lparr>pt_id = ip_id p,
      pt_vector = (wi_vectorName input, Dense (ip_vector p)) #
        (if isEmpty (ip_sparse p) then [] else [(SPARSE_VECTOR_NAME, Sparse (ip_sparse p))]),
      pt_payload = [(''org_id'', JStr (wi_org input)), (''layer_id'', JStr (wi_layer input)),
        (''doc_id'', JStr (wi_document input)), (''chunk_id'', JStr (ip_id p)), (''ordinal'', JNum (of_nat (ip_ordinal p))),
        (''deleted'', JBool False), (METADATA_PREFIX, JObj (wi_metadata input))]\<rparr>"

definition upsertPoints :: "'s QdrantClient \<Rightarrow> WriteInput \<Rightarrow> 's \<Rightarrow> (string + unit) \<times> 's" where
  "upsertPoints client input s = qc_upsert client (wi_collection input) (map (point_of input) (wi_points input)) s"

definition doc_filter :: "string \<Rightarrow> PointFilter" where
  "doc_filter documentId = \<lparr>sl_must = [(''doc_id'', documentId)], sl_not_ids = None\<rparr>"

definition layer_filter :: "string \<Rightarrow> PointFilter" where
  "layer_filter layerId = \<lparr>sl_must = [(''layer_id'', layerId)], sl_not_ids = None\<rparr>"

definition sweep :: "'s QdrantClient \<Rightarrow> string \<Rightarrow> string \<Rightarrow> string list \<Rightarrow> 's \<Rightarrow> (string + unit) \<times> 's" where
  "sweep client collection documentId keep s =
     qc_delete client collection
       ((doc_filter documentId)\<lparr>sl_not_ids := (if keep = [] then None else Some keep)\<rparr>) s"

datatype WriteError = UpsertRejected string string | SweepRejected string string

definition write_points :: "'s QdrantClient \<Rightarrow> WriteInput \<Rightarrow> Indexer \<times> 's \<Rightarrow> (WriteError + unit) \<times> (Indexer \<times> 's)" where
  "write_points client input st =
     (case (if wi_points input \<noteq> [] then upsertPoints client input (snd st) else (Inr (), snd st)) of
        (Inl cause, s) \<Rightarrow> (Inl (UpsertRejected (wi_collection input) cause), (fst st, s))
      | (Inr _, s) \<Rightarrow>
          (case sweep client (wi_collection input) (wi_document input) (map ip_id (wi_points input)) s of
             (Inl cause, s') \<Rightarrow> (Inl (SweepRejected (wi_collection input) cause), (fst st, s'))
           | (Inr _, s') \<Rightarrow>
               (Inr (), ensure client METADATA_INDEX_LIMIT (wi_collection input) (map fst (wi_metadata input)) (fst st, s'))))"

definition tombstone_points :: "'s QdrantClient \<Rightarrow> string \<Rightarrow> string \<Rightarrow> 's \<Rightarrow> (string + unit) \<times> 's" where
  "tombstone_points client collection documentId s =
     qc_setPayload client collection [(''deleted'', JBool True)] (doc_filter documentId) s"

definition tombstoneLayer :: "'s QdrantClient \<Rightarrow> string \<Rightarrow> string \<Rightarrow> 's \<Rightarrow> (string + unit) \<times> 's" where
  "tombstoneLayer client collection layerId s =
     qc_setPayload client collection [(''deleted'', JBool True)] (layer_filter layerId) s"

definition setMetadata :: "'s QdrantClient \<Rightarrow> string \<Rightarrow> string \<Rightarrow> (string \<times> jsval) list \<Rightarrow> Indexer \<times> 's
    \<Rightarrow> (string + unit) \<times> (Indexer \<times> 's)" where
  "setMetadata client collection documentId metadata st =
     (case qc_setPayload client collection [(METADATA_PREFIX, JObj metadata)] (doc_filter documentId) (snd st) of
        (Inl cause, s) \<Rightarrow> (Inl cause, (fst st, s))
      | (Inr _, s) \<Rightarrow> (Inr (), ensure client METADATA_INDEX_LIMIT collection (map fst metadata) (fst st, s)))"

text \<open>\<open>collectionMissing\<close>: three phrases, in any case, anywhere in the explanation of the error.\<close>

fun contains :: "string \<Rightarrow> string \<Rightarrow> bool" where
  "contains needle [] = (needle = [])"
| "contains needle (c # cs) = (take (length needle) (c # cs) = needle \<or> contains needle cs)"

definition lower :: "string \<Rightarrow> string" where
  "lower s = map (\<lambda>c. if upper_char c then char_of (of_char c + 32 :: nat) else c) s"

definition collectionMissing :: "string \<Rightarrow> bool" where
  "collectionMissing cause \<longleftrightarrow>
     (\<exists>phrase \<in> set [''doesn'' @ [char_of (39 :: nat)] @ ''t exist'', ''does not exist'', ''not found: collection''].
        contains phrase (lower cause))"

definition purge :: "'s QdrantClient \<Rightarrow> string \<Rightarrow> string \<Rightarrow> 's \<Rightarrow> (string + unit) \<times> 's" where
  "purge client collection documentId s =
     (case qc_delete client collection (doc_filter documentId) s of
        (Inl cause, s') \<Rightarrow> (if collectionMissing cause then Inr () else Inl cause, s')
      | (Inr _, s') \<Rightarrow> (Inr (), s'))"

definition addVector :: "'s QdrantClient \<Rightarrow> string \<Rightarrow> string \<Rightarrow> (string \<times> rat list) list \<Rightarrow> 's \<Rightarrow> (string + unit) \<times> 's" where
  "addVector client collection name points s =
     (if points = [] then (Inr (), s)
      else qc_updateVectors client collection (map (\<lambda>(i, v). (i, [(name, Dense v)])) points) s)"

subsection \<open>What the calls do to the view\<close>

lemma effectD:
  assumes "effect view run s coll g"
  shows "other \<noteq> coll \<Longrightarrow> view (snd run) other = view s other"
    and "fst run = Inr () \<Longrightarrow> view (snd run) coll = g (view s coll)"
    and "view (snd run) coll i = g (view s coll) i \<or> view (snd run) coll i = view s coll i"
  using assms unfolding effect_def by (auto intro!: ext)

lemma qdrantS:
  assumes "qdrant_store client view"
  shows "effect view (qc_upsert client coll ps s) s coll (upserted ps)"
    and "effect view (qc_delete client coll f s) s coll (deleted_by f)"
    and "effect view (qc_setPayload client coll flds f s) s coll (payload_set flds f)"
    and "view (snd (qc_createPayloadIndex client coll field s)) = view s"
    and "view s coll i = Some p \<Longrightarrow> pt_id p = i"
  using assms unfolding qdrant_store_def by blast+

lemma upserted_Some:
  "upserted ps m i = Some p \<Longrightarrow> p \<in> set ps \<and> pt_id p = i \<or> m i = Some p \<and> i \<notin> pt_id ` set ps"
  unfolding upserted_def by (induction ps arbitrary: m) (fastforce split: if_splits)+

lemma upserted_other: "i \<notin> pt_id ` set ps \<Longrightarrow> upserted ps m i = m i"
  unfolding upserted_def by (induction ps arbitrary: m) auto

lemma upserted_new: "distinct (map pt_id ps) \<Longrightarrow> p \<in> set ps \<Longrightarrow> upserted ps m (pt_id p) = Some p"
proof (induction ps arbitrary: m)
  case (Cons q ps)
  then show ?case
    using upserted_other [of "pt_id q" ps "m(pt_id q \<mapsto> q)"] by (auto simp: upserted_def)
qed simp

lemma ensure_keys_view:
  "qdrant_store client view \<Longrightarrow> view (snd (ensure_keys client limit coll keys flds ix s)) = view s"
proof (induction client limit coll keys flds ix s rule: ensure_keys.induct)
  case (2 client limit collection key keys flds ix s)
  have "view s' = view s" if "qc_createPayloadIndex client collection f s = (r, s')" for r s' f
    using qdrantS(4) [OF 2(4), of collection f s] that by simp
  with 2 show ?case by (auto simp: Let_def split: sum.splits prod.splits)
qed simp

lemma ensure_view: "qdrant_store client view \<Longrightarrow> view (snd (ensure client limit coll keys st)) = view (snd st)"
  by (auto simp: ensure_def ensure_keys_view split: sum.splits prod.splits)

definition doc_of :: "Point \<Rightarrow> jsval option" where
  "doc_of p = map_of (pt_payload p) ''doc_id''"

lemma doc_filter_selects [simp]:
  "selects (doc_filter d) p \<longleftrightarrow> doc_of p = Some (JStr d)"
  "selects ((doc_filter d)\<lparr>sl_not_ids := ids\<rparr>) p \<longleftrightarrow>
     doc_of p = Some (JStr d) \<and> (case ids of None \<Rightarrow> True | Some is \<Rightarrow> pt_id p \<notin> set is)"
  by (simp_all add: selects_def doc_filter_def doc_of_def)

lemma point_of_simps [simp]:
  "pt_id (point_of input p) = ip_id p" "doc_of (point_of input p) = Some (JStr (wi_document input))"
  "point_payload (pt_payload (point_of input p)) (wi_org input) False (wi_document input) (wi_layer input)"
  by (simp_all add: point_of_def doc_of_def point_payload_def METADATA_PREFIX_def)

lemma point_ids: "pt_id ` (point_of input ` A) = ip_id ` A"
  by (simp add: image_image)

lemma set_fields_at: "map_of (pt_payload (set_fields flds p)) k =
    (case map_of flds k of Some v \<Rightarrow> Some v | None \<Rightarrow> map_of (pt_payload p) k)"
proof (cases "map_of flds k")
  case None
  then have "k \<notin> fst ` set flds" by (simp add: map_of_eq_None_iff)
  then have "map_of (filter (\<lambda>(x, v). x \<notin> fst ` set flds) m) k = map_of m k" for m :: payload
    by (induction m) force+
  with None show ?thesis by (simp add: set_fields_def map_add_def)
next
  case (Some v)
  then show ?thesis by (simp add: set_fields_def map_add_def)
qed

lemma pt_id_set_fields [simp]: "pt_id (set_fields flds p) = pt_id p"
  by (simp add: set_fields_def)

lemma effect_Some:
  assumes "effect view run s coll g" and "view (snd run) c i = Some p"
  shows "view s c i = Some p \<or> c = coll \<and> g (view s coll) i = Some p"
  using effectD(1,3) [OF assms(1)] assms(2) by (cases "c = coll") (metis, auto)

lemma delete_view:
  assumes q: "qdrant_store client view" and "view (snd (qc_delete client coll f s)) c i = Some p"
  shows "view s c i = Some p"
  using effect_Some [OF qdrantS(2) [OF q] assms(2)] by (auto simp: deleted_by_def split: option.splits if_splits)

lemma upsert_view:
  assumes q: "qdrant_store client view" and "view (snd (qc_upsert client coll ps s)) c i = Some p"
  shows "view s c i = Some p \<or> c = coll \<and> p \<in> set ps"
  using effect_Some [OF qdrantS(1) [OF q] assms(2)] upserted_Some [of ps _ i p] by blast

lemma payload_view:
  assumes q: "qdrant_store client view" and "view (snd (qc_setPayload client coll flds f s)) c i = Some p"
  shows "\<exists>old. view s c i = Some old \<and> (p = old \<or> c = coll \<and> selects f old \<and> p = set_fields flds old)"
  using effect_Some [OF qdrantS(3) [OF q] assms(2)] by (auto simp: payload_set_def split: option.splits if_splits)

lemma write_cases:
  assumes "write_points client input st = (r, st')"
  obtains (refused) cause s where "wi_points input \<noteq> []" "upsertPoints client input (snd st) = (Inl cause, s)"
      "r = Inl (UpsertRejected (wi_collection input) cause)" "st' = (fst st, s)"
    | (swept) s r2 s' where "wi_points input = [] \<and> s = snd st \<or> wi_points input \<noteq> [] \<and> upsertPoints client input (snd st) = (Inr (), s)"
      "sweep client (wi_collection input) (wi_document input) (map ip_id (wi_points input)) s = (r2, s')"
      "(case r2 of Inl cause \<Rightarrow> r = Inl (SweepRejected (wi_collection input) cause) \<and> st' = (fst st, s')
        | Inr _ \<Rightarrow> r = Inr () \<and>
            st' = ensure client METADATA_INDEX_LIMIT (wi_collection input) (map fst (wi_metadata input)) (fst st, s'))"
  using assms unfolding write_points_def by (auto split: sum.splits prod.splits if_splits)

lemma write_view:
  assumes q: "qdrant_store client view" and run: "write_points client input st = (r, st')"
    and p: "view (snd st') c i = Some p"
  shows "view (snd st) c i = Some p \<or> c = wi_collection input \<and> p \<in> point_of input ` set (wi_points input)"
  using run
proof (cases rule: write_cases)
  case (refused cause s)
  with upsert_view [OF q, of "wi_collection input" "map (point_of input) (wi_points input)" "snd st" c i p] p
  show ?thesis by (simp add: upsertPoints_def)
next
  case (swept s r2 s')
  have "view s' c i = Some p"
    using p swept(3) ensure_view [OF q] by (cases r2) auto
  then have "view s c i = Some p"
    using delete_view [OF q, of "wi_collection input" _ s c i p] swept(2) unfolding sweep_def by (metis snd_conv)
  with swept(1) upsert_view [OF q, of "wi_collection input" "map (point_of input) (wi_points input)" "snd st" c i p]
  show ?thesis by (auto simp: upsertPoints_def)
qed

lemma upserted_map_of:
  assumes "distinct (map pt_id ps)"
  shows "upserted ps m i = (case map_of (map (\<lambda>p. (pt_id p, p)) ps) i of Some p \<Rightarrow> Some p | None \<Rightarrow> m i)"
proof (cases "i \<in> pt_id ` set ps")
  case True
  then obtain p where p: "p \<in> set ps" "i = pt_id p" by auto
  have "map_of (map (\<lambda>p. (pt_id p, p)) ps) i = Some p"
    using assms p by (intro map_of_is_SomeI) (auto simp: comp_def)
  with p show ?thesis using upserted_new [OF assms p(1)] by simp
next
  case False
  then have "map_of (map (\<lambda>p. (pt_id p, p)) ps) i = None" by (auto simp: map_of_eq_None_iff)
  then show ?thesis using upserted_other [OF False, of m] by simp
qed

lemma tombstone_view:
  assumes q: "qdrant_store client view" and run: "tombstone_points client coll d s = (r, s')"
    and p: "view s' c i = Some p"
  shows "\<exists>old. view s c i = Some old \<and> (p = old \<or> p = set_fields [(''deleted'', JBool True)] old)"
    and "r = Inr () \<Longrightarrow> c = coll \<Longrightarrow> doc_of p = Some (JStr d) \<Longrightarrow> map_of (pt_payload p) ''deleted'' = Some (JBool True)"
proof -
  let ?f = "[(''deleted'', JBool True)]"
  have s': "s' = snd (qc_setPayload client coll ?f (doc_filter d) s)" "r = fst (qc_setPayload client coll ?f (doc_filter d) s)"
    using run by (simp_all add: tombstone_points_def)
  show "\<exists>old. view s c i = Some old \<and> (p = old \<or> p = set_fields ?f old)"
    using payload_view [OF q] p unfolding s' by blast
  show "map_of (pt_payload p) ''deleted'' = Some (JBool True)" if "r = Inr ()" "c = coll" "doc_of p = Some (JStr d)"
  proof -
    have "payload_set ?f (doc_filter d) (view s coll) i = Some p"
      using effectD(2) [OF qdrantS(3) [OF q, where coll = coll and flds = ?f and f = "doc_filter d" and s = s]] that(1,2) p
      by (simp add: s')
    then obtain old where "p = (if doc_of old = Some (JStr d) then set_fields ?f old else old)"
      by (auto simp: payload_set_def split: option.splits)
    with that(3) show ?thesis by (auto simp: set_fields_at split: if_splits)
  qed
qed

lemma tombstoneLayer_view:
  assumes q: "qdrant_store client view" and run: "tombstoneLayer client coll l s = (Inr (), s')"
    and p: "view s' coll i = Some p" and here: "map_of (pt_payload p) ''layer_id'' = Some (JStr l)"
  shows "map_of (pt_payload p) ''deleted'' = Some (JBool True)"
proof -
  let ?f = "[(''deleted'', JBool True)]"
  have s': "s' = snd (qc_setPayload client coll ?f (layer_filter l) s)" "fst (qc_setPayload client coll ?f (layer_filter l) s) = Inr ()"
    using run by (simp_all add: tombstoneLayer_def)
  have "payload_set ?f (layer_filter l) (view s coll) i = Some p"
    using effectD(2) [OF qdrantS(3) [OF q, where coll = coll and flds = ?f and f = "layer_filter l" and s = s]] s' p by simp
  then obtain old where "p = (if selects (layer_filter l) old then set_fields ?f old else old)"
    by (auto simp: payload_set_def split: option.splits)
  with here show ?thesis by (auto simp: set_fields_at selects_def layer_filter_def split: if_splits)
qed

lemma purge_view:
  assumes q: "qdrant_store client view" and run: "purge client coll d s = (r, s')" and p: "view s' c i = Some p"
  shows "view s c i = Some p"
proof -
  have "s' = snd (qc_delete client coll (doc_filter d) s)"
    using run by (auto simp: purge_def split: sum.splits prod.splits)
  then show ?thesis using delete_view [OF q] p by blast
qed

lemma setMetadata_view:
  assumes q: "qdrant_store client view" and run: "setMetadata client coll d m st = (r, st')" and p: "view (snd st') c i = Some p"
  shows "\<exists>old. view (snd st) c i = Some old \<and> (p = old \<or> p = set_fields [(METADATA_PREFIX, JObj m)] old)"
proof -
  have "view (snd st') = view (snd (qc_setPayload client coll [(METADATA_PREFIX, JObj m)] (doc_filter d) (snd st)))"
    using run ensure_view [OF q] by (auto simp: setMetadata_def split: sum.splits prod.splits)
  then show ?thesis using payload_view [OF q] p by metis
qed

subsection \<open>Indexing replaces\<close>

lemma write_points_view:
  assumes "qdrant_store client view" and "write_points client input st = (Inr (), st')"
    and "distinct (map ip_id (wi_points input))"
  shows "view (snd st') c i =
    (if c = wi_collection input
     then case map_of (map (\<lambda>p. (ip_id p, point_of input p)) (wi_points input)) i of
            Some p \<Rightarrow> Some p
          | None \<Rightarrow> (case view (snd st) c i of
                       Some p \<Rightarrow> if map_of (pt_payload p) ''doc_id'' = Some (JStr (wi_document input)) then None else Some p
                     | None \<Rightarrow> None)
     else view (snd st) c i)"
  using assms(2)
proof (cases rule: write_cases)
  case (swept s r2 s')
  let ?ps = "map (point_of input) (wi_points input)" and ?c = "wi_collection input"
  let ?f = "(doc_filter (wi_document input))\<lparr>sl_not_ids := (if map ip_id (wi_points input) = [] then None
      else Some (map ip_id (wi_points input)))\<rparr>"
  have ok: "r2 = Inr ()" and st': "view (snd st') = view s'"
    using swept(3) ensure_view [OF assms(1)] by (cases r2; simp)+
  have s': "qc_delete client ?c ?f s = (Inr (), s')" using swept(2) ok by (simp add: sweep_def)
  have up: "view s ?c = upserted ?ps (view (snd st) ?c)" "\<And>d. d \<noteq> ?c \<Longrightarrow> view s d = view (snd st) d"
    using swept(1) effectD(1,2) [OF qdrantS(1) [OF assms(1), where coll = ?c and ps = ?ps and s = "snd st"]]
    by (auto simp: upsertPoints_def upserted_def)
  have del: "view s' ?c = deleted_by ?f (view s ?c)" "\<And>d. d \<noteq> ?c \<Longrightarrow> view s' d = view s d"
    using effectD(1,2) [OF qdrantS(2) [OF assms(1), where coll = ?c and f = ?f and s = s], unfolded s' fst_conv snd_conv]
    by simp_all
  have ids: "distinct (map pt_id ?ps)" using assms(3) by (simp add: comp_def)
  have new: "upserted ?ps m j = (case map_of (map (\<lambda>p. (ip_id p, point_of input p)) (wi_points input)) j of
      Some p \<Rightarrow> Some p | None \<Rightarrow> m j)" for m j
    using upserted_map_of [OF ids, of m j] by (simp add: comp_def)
  show ?thesis
  proof (cases "c = ?c")
    case True
    show ?thesis
    proof (cases "map_of (map (\<lambda>p. (ip_id p, point_of input p)) (wi_points input)) i")
      case None
      then have "i \<notin> ip_id ` set (wi_points input)" by (simp add: map_of_eq_None_iff image_image)
      then show ?thesis
        using None True qdrantS(5) [OF assms(1), of "snd st" ?c i]
        by (auto simp: st' del up new deleted_by_def doc_of_def split: option.splits)
    next
      case (Some p)
      then obtain x where "x \<in> set (wi_points input)" "p = point_of input x" by (auto dest!: map_of_SomeD)
      then show ?thesis
        using Some True by (auto simp: st' del up new deleted_by_def split: option.splits)
    qed
  next
    case False
    then show ?thesis using st' up(2) del(2) by simp
  qed
qed simp

text \<open>C5 - Indexing a document replaces its points: after a successful write the collection holds exactly the
  points just written for the document, none of an earlier pass, and every point of every other
  document and of every other collection as it was.\<close>

theorem write_replaces:
  assumes "qdrant_store client view" and "write_points client input st = (Inr (), st')"
    and "distinct (map ip_id (wi_points input))"
  shows "view (snd st') c i =
    (if c = wi_collection input
     then case map_of (map (\<lambda>p. (ip_id p, point_of input p)) (wi_points input)) i of
            Some p \<Rightarrow> Some p
          | None \<Rightarrow> (case view (snd st) c i of
                       Some p \<Rightarrow> if map_of (pt_payload p) ''doc_id'' = Some (JStr (wi_document input)) then None else Some p
                     | None \<Rightarrow> None)
     else view (snd st) c i)"
  by (rule write_points_view [OF assms])

subsection \<open>A store in memory\<close>

text \<open>Collections as maps, which shows that the laws above can hold.\<close>

type_synonym memory = "string \<Rightarrow> string \<rightharpoonup> Point"

definition memory_view :: "memory \<Rightarrow> string \<Rightarrow> string \<rightharpoonup> Point" where
  "memory_view s c i = (case s c i of Some p \<Rightarrow> if pt_id p = i then Some p else None | None \<Rightarrow> None)"

definition memory_client :: "memory QdrantClient" where
  "memory_client = \<lparr>
     qc_upsert = (\<lambda>c ps s. (Inr (), s(c := upserted ps (s c)))),
     qc_delete = (\<lambda>c f s. (Inr (), s(c := deleted_by f (s c)))),
     qc_setPayload = (\<lambda>c flds f s. (Inr (), s(c := payload_set flds f (s c)))),
     qc_updateVectors = (\<lambda>c vs s. (Inr (), s)),
     qc_getCollection = (\<lambda>c s. Inr []),
     qc_createPayloadIndex = (\<lambda>c field s. (Inr (), s))\<rparr>"

lemma memory_upserted:
  "(case upserted ps m i of Some p \<Rightarrow> if pt_id p = i then Some p else None | None \<Rightarrow> None)
     = upserted ps (\<lambda>i. case m i of Some p \<Rightarrow> if pt_id p = i then Some p else None | None \<Rightarrow> None) i"
proof (induction ps arbitrary: m)
  case (Cons q ps)
  have "(\<lambda>i. case (m(pt_id q \<mapsto> q)) i of Some p \<Rightarrow> if pt_id p = i then Some p else None | None \<Rightarrow> None)
      = (\<lambda>i. case m i of Some p \<Rightarrow> if pt_id p = i then Some p else None | None \<Rightarrow> None)(pt_id q \<mapsto> q)"
    by (rule ext) simp
  from Cons.IH [of "m(pt_id q \<mapsto> q)", unfolded this] show ?case
    by (simp only: upserted_def fold_simps comp_apply)
qed (simp add: upserted_def)

lemma memory_store: "qdrant_store memory_client memory_view"
  unfolding qdrant_store_def effect_def memory_client_def memory_view_def
  by (auto simp: memory_upserted deleted_by_def payload_set_def split: option.splits if_splits)

definition sample_write :: WriteInput where
  "sample_write = \<lparr>wi_org = ''acme'', wi_collection = ''org_acme'', wi_layer = ''l1'', wi_document = ''d1'',
     wi_vectorName = ''v'', wi_metadata = [], wi_points =
       [\<lparr>ip_id = ''p2'', ip_ordinal = 0, ip_vector = [1], ip_sparse = \<lparr>sv_indices = [], sv_values = []\<rparr>\<rparr>]\<rparr>"

definition sample_index :: memory where
  "sample_index = (\<lambda>_. Map.empty)(''org_acme'' := [''p1'' \<mapsto> point_of sample_write
     \<lparr>ip_id = ''p1'', ip_ordinal = 0, ip_vector = [0], ip_sparse = \<lparr>sv_indices = [], sv_values = []\<rparr>\<rparr>])"

theorem write_replaces_witness:
  "memory_view (snd (snd (write_points memory_client sample_write (\<lparr>ix_known = [], ix_atLimit = []\<rparr>, sample_index)))) ''org_acme'' ''p1'' = None
   \<and> memory_view (snd (snd (write_points memory_client sample_write (\<lparr>ix_known = [], ix_atLimit = []\<rparr>, sample_index)))) ''org_acme'' ''p2''
       = Some (point_of sample_write (hd (wi_points sample_write)))"
proof -
  let ?st = "(\<lparr>ix_known = [], ix_atLimit = []\<rparr>, sample_index)"
  have "fst (write_points memory_client sample_write ?st) = Inr ()"
    by (simp add: write_points_def sample_write_def memory_client_def upsertPoints_def sweep_def split: prod.splits)
  then have run: "write_points memory_client sample_write ?st = (Inr (), snd (write_points memory_client sample_write ?st))"
    by (metis prod.collapse)
  note w = write_replaces [OF memory_store run, where c = "''org_acme''"]
  show ?thesis
    using w [where i = "''p1''"] w [where i = "''p2''"]
    by (simp add: sample_write_def sample_index_def memory_view_def point_of_def)
qed

end
