(* ===== verification/Queue.thy ===== *)
theory Queue
  imports Complex_Main Js_Values
begin

text \<open>
  The life of a document in the indexing queue: \<open>claimNext\<close> (\<open>packages/worker/src/claim.ts\<close>),
  \<open>recordFailure\<close> (\<open>retry.ts\<close>), \<open>claimStranded\<close>, \<open>claimPurgeable\<close>, \<open>markPurged\<close>, \<open>stillDeleted\<close> and the
  fenced \<open>upsert\<close> (\<open>packages/worker/src/adapters.ts\<close>), the statements of the API that touch the same
  row - the re-send, the retry, the tombstone of a document and of a layer's documents, and the retag of
  \<open>packages/api/src/adapters.ts\<close> - and the two that requeue many documents at once: \<open>requeueForRebuild\<close>
  (\<open>packages/core/rebuild.ts\<close>) and \<open>repairAfterCopy\<close> (\<open>packages/worker/src/adapters.ts\<close>). Every one is a
  single SQL statement (\<open>repairAfterCopy\<close>: two of one transaction), so it is one function on the table; \<open>queue_step\<close> interleaves them.
  They are all the statements of the code that write a column of the record below.
  Title, source and \<open>reindexed_vector\<close> are left out: no statement here decides anything by them. \<open>updated_at\<close>
  decides only what \<open>repairAfterCopy\<close> requeues, which takes the set of rows touched since as an argument.
  \<open>external_id\<close> is nullable in the schema, but both statements that insert a row bind a string to it,
  so a row's is a string here. Times are microseconds. The statements that read the clock take it as \<open>now\<close>.
\<close>

subsection \<open>The documents table\<close>

datatype Status = Pending | Parsing | Indexing | Indexed | Failed

record QDoc =
  qd_id :: string
  qd_org :: string
  qd_layer :: string
  qd_external :: string
  qd_status :: Status
  qd_attempts :: nat
  qd_error :: "string option"
  qd_created_at :: nat
  qd_claimed_at :: "nat option"
  qd_retry_after :: "nat option"
  qd_deleted_at :: "nat option"
  qd_purged_at :: "nat option"
  qd_sweep_claimed_at :: "nat option"
  qd_hash :: string
  qd_metadata :: jsval
  qd_chunk_count :: nat
  qd_version :: nat

type_synonym table = "QDoc list"

definition seconds :: "nat \<Rightarrow> nat" where
  "seconds s = s * 1000000"

definition update_where :: "('r \<Rightarrow> bool) \<Rightarrow> ('r \<Rightarrow> 'r) \<Rightarrow> 'r list \<Rightarrow> 'r list" where
  "update_where P f docs = map (\<lambda>d. if P d then f d else d) docs"

text \<open>The primary key and \<open>UNIQUE (layer_id, external_id)\<close>.\<close>

definition keyed :: "table \<Rightarrow> bool" where
  "keyed docs \<longleftrightarrow> distinct (map qd_id docs) \<and> distinct (map (\<lambda>d. (qd_layer d, qd_external d)) docs)"

lemma in_update_where:
  "d' \<in> set (update_where P f docs) \<longleftrightarrow> (\<exists>d \<in> set docs. d' = (if P d then f d else d))"
  by (auto simp: update_where_def)

lemma update_where_none: "\<forall>d \<in> set docs. \<not> P d \<Longrightarrow> update_where P f docs = docs"
  by (auto simp: update_where_def intro: map_idI)

lemma keyed_update_where:
  assumes "\<And>d. qd_id (f d) = qd_id d" "\<And>d. qd_layer (f d) = qd_layer d" "\<And>d. qd_external (f d) = qd_external d"
  shows "keyed (update_where P f docs) = keyed docs"
proof -
  have "map qd_id (update_where P f docs) = map qd_id docs"
    "map (\<lambda>d. (qd_layer d, qd_external d)) (update_where P f docs) = map (\<lambda>d. (qd_layer d, qd_external d)) docs"
    by (simp_all add: update_where_def assms)
  then show ?thesis by (simp add: keyed_def)
qed

lemma keyed_id: "keyed docs \<Longrightarrow> d \<in> set docs \<Longrightarrow> e \<in> set docs \<Longrightarrow> qd_id d = qd_id e \<Longrightarrow> d = e"
  by (auto simp: keyed_def distinct_map inj_on_def)

subsection \<open>claim.ts\<close>

record QClaim =
  qc_org :: string
  qc_document :: string
  qc_layer :: string
  qc_external :: string
  qc_metadata :: jsval
  qc_attempts :: nat
  qc_claimedAt :: nat

definition claimable_now :: "nat \<Rightarrow> QDoc \<Rightarrow> bool" where
  "claimable_now now d \<longleftrightarrow> (case qd_retry_after d of None \<Rightarrow> True | Some t \<Rightarrow> t \<le> now)"

text \<open>
  \<open>copying\<close> are the organizations whose collection is being copied, \<open>locked\<close> the rows other
  transactions hold (\<open>SKIP LOCKED\<close>).
\<close>

definition claimable :: "string list \<Rightarrow> string list \<Rightarrow> nat \<Rightarrow> QDoc \<Rightarrow> bool" where
  "claimable copying locked now d \<longleftrightarrow>
     qd_status d = Pending \<and> qd_deleted_at d = None \<and> claimable_now now d
     \<and> qd_org d \<notin> set copying \<and> qd_id d \<notin> set locked"

definition lease :: "nat \<Rightarrow> QDoc \<Rightarrow> QDoc" where
  "lease now d = d\<lparr>qd_status := Parsing, qd_claimed_at := Some now, qd_attempts := qd_attempts d + 1\<rparr>"

definition claim_of :: "nat \<Rightarrow> QDoc \<Rightarrow> QClaim" where
  "claim_of now row =
     \<lparr>qc_org = qd_org row, qc_document = qd_id row, qc_layer = qd_layer row, qc_external = qd_external row,
      qc_metadata = (if qd_metadata row = JNull then JObj [] else qd_metadata row),
      qc_attempts = qd_attempts row + 1, qc_claimedAt = now\<rparr>"

definition claimNext :: "string list \<Rightarrow> string list \<Rightarrow> nat \<Rightarrow> table \<Rightarrow> QClaim option \<times> table" where
  "claimNext copying locked now docs =
     (case sort_key qd_created_at (filter (claimable copying locked now) docs) of
        [] \<Rightarrow> (None, docs)
      | row # _ \<Rightarrow>
          (Some (claim_of now row),
           update_where (\<lambda>d. qd_id d = qd_id row) (lease now) docs))"

subsection \<open>The fence\<close>

text \<open>The condition every write of a pass carries: the row is still this claim's.\<close>

definition fenced :: "nat option \<Rightarrow> QDoc \<Rightarrow> bool" where
  "fenced claim d \<longleftrightarrow>
     (case claim of None \<Rightarrow> True
      | Some t \<Rightarrow> qd_claimed_at d = Some t \<and> qd_status d = Parsing \<and> qd_deleted_at d = None)"

record UpsertInput =
  ui_org :: string
  ui_layer :: string
  ui_external :: string
  ui_hash :: string
  ui_metadata :: jsval
  ui_chunks :: nat
  ui_claim :: "nat option"

definition index_row :: "UpsertInput \<Rightarrow> QDoc \<Rightarrow> QDoc" where
  "index_row input d =
     d\<lparr>qd_hash := ui_hash input, qd_status := Indexed, qd_chunk_count := ui_chunks input, qd_version := qd_version d + 1,
       qd_claimed_at := None, qd_attempts := 0\<rparr>"

definition inserted_row :: "string \<Rightarrow> nat \<Rightarrow> UpsertInput \<Rightarrow> Status \<Rightarrow> QDoc" where
  "inserted_row newId now input status =
     \<lparr>qd_id = newId, qd_org = ui_org input, qd_layer = ui_layer input, qd_external = ui_external input,
      qd_status = status, qd_attempts = 0, qd_error = None, qd_created_at = now, qd_claimed_at = None,
      qd_retry_after = None, qd_deleted_at = None, qd_purged_at = None, qd_sweep_claimed_at = None,
      qd_hash = ui_hash input, qd_metadata = ui_metadata input, qd_chunk_count = ui_chunks input, qd_version = 1\<rparr>"

datatype UpsertError = ClaimLost | NoId | WriteFailed string

text \<open>\<open>INSERT ... ON CONFLICT (layer_id, external_id) DO UPDATE ... WHERE\<close> the fence, with the id it returns.\<close>

definition upsert_statement :: "string \<Rightarrow> nat \<Rightarrow> UpsertInput \<Rightarrow> table \<Rightarrow> string option \<times> table" where
  "upsert_statement newId now input docs =
     (case find (\<lambda>d. qd_layer d = ui_layer input \<and> qd_external d = ui_external input) docs of
        None \<Rightarrow> (Some newId, docs @ [inserted_row newId now input Indexed])
      | Some d \<Rightarrow> if fenced (ui_claim input) d
                  then (Some (qd_id d), update_where (\<lambda>x. qd_id x = qd_id d) (index_row input) docs)
                  else (None, docs))"

text \<open>The vector write runs inside the transaction: when it throws, the transaction rolls back.\<close>

definition upsert :: "string \<Rightarrow> nat \<Rightarrow> UpsertInput \<Rightarrow> (string \<Rightarrow> string + unit) \<Rightarrow> table \<Rightarrow> (UpsertError + string) \<times> table" where
  "upsert newId now input write docs =
     (let (returned, docs') = upsert_statement newId now input docs
      in case returned of
           None \<Rightarrow> (Inl (if ui_claim input \<noteq> None then ClaimLost else NoId), docs)
         | Some i \<Rightarrow> (case write i of Inl e \<Rightarrow> (Inl (WriteFailed e), docs) | Inr _ \<Rightarrow> (Inr i, docs')))"

subsection \<open>retry.ts\<close>

definition RETRY_BASE_MS :: int where "RETRY_BASE_MS = 30000"

definition RETRY_CAP_MS :: int where "RETRY_CAP_MS = 15 * 60000"

text \<open>\<open>random()\<close> is a rational of the unit interval.\<close>

definition retryDelayMs :: "nat \<Rightarrow> rat \<Rightarrow> int" where
  "retryDelayMs attempts random =
     (let ceil = min RETRY_CAP_MS (RETRY_BASE_MS * 2 ^ (attempts - 1)) in floor (random * of_int ceil))"

text \<open>\<open>retryable\<close> is the classifier's verdict on the error's text.\<close>

definition fail_row :: "string \<Rightarrow> bool \<Rightarrow> nat \<Rightarrow> nat \<Rightarrow> QDoc \<Rightarrow> QDoc" where
  "fail_row error retryable maxAttempts resume d =
     d\<lparr>qd_status := (if retryable \<and> qd_attempts d < maxAttempts then Pending else Failed),
       qd_error := Some error, qd_claimed_at := None,
       qd_retry_after := (if retryable \<and> qd_attempts d < maxAttempts then Some resume else None)\<rparr>"

definition recordFailure :: "nat \<Rightarrow> QClaim \<Rightarrow> nat option \<Rightarrow> string \<Rightarrow> bool \<Rightarrow> nat \<Rightarrow> rat \<Rightarrow> table \<Rightarrow> bool \<times> table" where
  "recordFailure now claim fence error retryable maxAttempts random docs =
     (let mine = (\<lambda>d. qd_org d = qc_org claim \<and> qd_id d = qc_document claim \<and> fenced fence d);
          resume = now + nat (retryDelayMs (qc_attempts claim) random) * 1000;
          docs' = update_where mine (fail_row error retryable maxAttempts resume) docs
      in (case find mine docs of
            None \<Rightarrow> False
          | Some d \<Rightarrow> qd_status (fail_row error retryable maxAttempts resume d) = Pending, docs'))"

subsection \<open>claimStranded and reap.ts\<close>

definition abandoned_error :: "nat \<Rightarrow> string" where
  "abandoned_error maxAttempts = ''Indexing was abandoned '' @ nat_str maxAttempts @
     '' times without completing. The worker did not report a failure, which means it stopped between claiming this document and finishing it.''"

definition stranded :: "nat \<Rightarrow> nat \<Rightarrow> QDoc \<Rightarrow> bool" where
  "stranded now leaseSeconds d \<longleftrightarrow>
     qd_status d \<in> {Parsing, Indexing} \<and>
     (case qd_claimed_at d of None \<Rightarrow> False | Some t \<Rightarrow> t + seconds leaseSeconds < now)"

definition reap_row :: "nat \<Rightarrow> QDoc \<Rightarrow> QDoc" where
  "reap_row maxAttempts d =
     d\<lparr>qd_attempts := qd_attempts d + 1,
       qd_status := (if qd_attempts d + 1 \<ge> maxAttempts then Failed else Pending),
       qd_claimed_at := None,
       qd_error := (if qd_attempts d + 1 \<ge> maxAttempts then Some (abandoned_error maxAttempts) else qd_error d)\<rparr>"

record Stranded =
  st_org :: string
  st_document :: string
  st_attempts :: nat

definition claimStranded :: "nat \<Rightarrow> string list \<Rightarrow> nat \<Rightarrow> nat \<Rightarrow> nat \<Rightarrow> table \<Rightarrow> Stranded list \<times> table" where
  "claimStranded now locked limit leaseSeconds maxAttempts docs =
     (let expired = take limit (sort_key (the \<circ> qd_claimed_at)
            (filter (\<lambda>d. stranded now leaseSeconds d \<and> qd_id d \<notin> set locked) docs))
      in (map (\<lambda>d. \<lparr>st_org = qd_org d, st_document = qd_id d, st_attempts = qd_attempts d + 1\<rparr>) expired,
          update_where (\<lambda>d. qd_id d \<in> qd_id ` set expired) (reap_row maxAttempts) docs))"

datatype PortError = BadBatch | BadLease | BadMaxAttempts | BadGrace

text \<open>\<open>reapOnce\<close>, with the port's rows; the answer counts what was requeued and what was failed.\<close>

definition reapOnce :: "(nat \<Rightarrow> nat \<Rightarrow> nat \<Rightarrow> 's \<Rightarrow> Stranded list \<times> 's) \<Rightarrow> nat \<Rightarrow> nat \<Rightarrow> nat \<Rightarrow> 's \<Rightarrow> PortError + (nat \<times> nat) \<times> 's" where
  "reapOnce claim batch leaseSeconds maxAttempts s =
     (if batch < 1 then Inl BadBatch
      else if leaseSeconds < 1 then Inl BadLease
      else if maxAttempts < 1 then Inl BadMaxAttempts
      else let (rows, s') = claim batch leaseSeconds maxAttempts s
           in Inr ((length (filter (\<lambda>r. \<not> st_attempts r \<ge> maxAttempts) rows),
                    length (filter (\<lambda>r. st_attempts r \<ge> maxAttempts) rows)), s'))"

subsection \<open>The API's statements on the row\<close>

text \<open>\<open>REQUEUE\<close>: when re-sending a document puts it back in the queue.\<close>

definition requeues :: "UpsertInput \<Rightarrow> QDoc \<Rightarrow> bool" where
  "requeues input d \<longleftrightarrow>
     qd_hash d \<noteq> ui_hash input \<or> qd_metadata d \<noteq> ui_metadata input \<or> qd_status d = Failed \<or> qd_deleted_at d \<noteq> None"

definition resend_row :: "UpsertInput \<Rightarrow> QDoc \<Rightarrow> QDoc" where
  "resend_row input d =
     (let again = requeues input d
      in d\<lparr>qd_hash := ui_hash input, qd_metadata := ui_metadata input,
           qd_status := (if again then Pending else qd_status d),
           qd_attempts := (if again then 0 else qd_attempts d),
           qd_error := (if again then None else qd_error d),
           qd_purged_at := (if again then None else qd_purged_at d),
           qd_sweep_claimed_at := (if again then None else qd_sweep_claimed_at d),
           qd_retry_after := (if again then None else qd_retry_after d),
           qd_claimed_at := (if again then None else qd_claimed_at d),
           qd_deleted_at := None\<rparr>)"

definition queue :: "string \<Rightarrow> nat \<Rightarrow> UpsertInput \<Rightarrow> table \<Rightarrow> table" where
  "queue newId now input docs =
     (case find (\<lambda>d. qd_layer d = ui_layer input \<and> qd_external d = ui_external input) docs of
        None \<Rightarrow> docs @ [(inserted_row newId now input Pending)\<lparr>qd_chunk_count := 0\<rparr>]
      | Some d \<Rightarrow> update_where (\<lambda>x. qd_id x = qd_id d) (resend_row input) docs)"

definition retry_row :: "QDoc \<Rightarrow> QDoc" where
  "retry_row d = d\<lparr>qd_status := Pending, qd_attempts := 0, qd_error := None, qd_retry_after := None, qd_claimed_at := None\<rparr>"

definition retry :: "string \<Rightarrow> string \<Rightarrow> table \<Rightarrow> bool \<times> table" where
  "retry orgId documentId docs =
     (let due = (\<lambda>d. qd_org d = orgId \<and> qd_id d = documentId \<and> qd_status d = Failed)
      in (\<exists>d \<in> set docs. due d, update_where due retry_row docs))"

definition tombstone :: "nat \<Rightarrow> string \<Rightarrow> string \<Rightarrow> table \<Rightarrow> table" where
  "tombstone now orgId documentId docs =
     update_where (\<lambda>d. qd_org d = orgId \<and> qd_id d = documentId) (\<lambda>d. d\<lparr>qd_deleted_at := Some now\<rparr>) docs"

definition retag :: "string \<Rightarrow> string \<Rightarrow> jsval \<Rightarrow> table \<Rightarrow> table" where
  "retag orgId documentId metadata docs =
     update_where (\<lambda>d. qd_org d = orgId \<and> qd_id d = documentId) (\<lambda>d. d\<lparr>qd_metadata := metadata\<rparr>) docs"

text \<open>The tombstone of every document of a removed layer.\<close>

definition tombstone_layer :: "nat \<Rightarrow> string \<Rightarrow> string \<Rightarrow> table \<Rightarrow> table" where
  "tombstone_layer now orgId layerId docs =
     update_where (\<lambda>d. qd_org d = orgId \<and> qd_layer d = layerId \<and> qd_deleted_at d = None) (\<lambda>d. d\<lparr>qd_deleted_at := Some now\<rparr>) docs"

subsection \<open>Requeueing many documents: rebuild.ts and the repair after a copy\<close>

definition rebuild_row :: "QDoc \<Rightarrow> QDoc" where
  "rebuild_row d = d\<lparr>qd_status := Pending, qd_claimed_at := None, qd_attempts := 0, qd_error := None\<rparr>"

text \<open>The answer is the row count.\<close>

definition requeueForRebuild :: "string \<Rightarrow> table \<Rightarrow> nat \<times> table" where
  "requeueForRebuild orgId docs =
     (let live = (\<lambda>d. qd_org d = orgId \<and> qd_deleted_at d = None)
      in (length (filter live docs), update_where live rebuild_row docs))"

definition repair_row :: "QDoc \<Rightarrow> QDoc" where
  "repair_row d = d\<lparr>qd_status := Pending, qd_attempts := 0, qd_error := None\<rparr>"

text \<open>
  \<open>touched\<close> are the rows with \<open>updated_at >= since\<close>. The answer is the number requeued and the ids of the
  tombstoned documents the caller tombstones again in the new collection.
\<close>

definition repairAfterCopy :: "(QDoc \<Rightarrow> bool) \<Rightarrow> nat \<Rightarrow> string \<Rightarrow> table \<Rightarrow> (nat \<times> string list) \<times> table" where
  "repairAfterCopy touched since orgId docs =
     (let stale = (\<lambda>d. qd_org d = orgId \<and> qd_deleted_at d = None \<and> qd_status d = Indexed \<and> touched d);
          docs1 = update_where stale repair_row docs;
          unswept = (\<lambda>d. qd_org d = orgId \<and>
            (case qd_deleted_at d of
               None \<Rightarrow> False
             | Some t \<Rightarrow> t \<ge> since \<or> (case qd_purged_at d of None \<Rightarrow> False | Some u \<Rightarrow> u \<ge> since)))
      in ((length (filter stale docs), map qd_id (filter unswept docs1)),
          update_where unswept (\<lambda>d. d\<lparr>qd_purged_at := None, qd_sweep_claimed_at := None\<rparr>) docs1))"

subsection \<open>The collector's statements\<close>

definition purgeable :: "nat \<Rightarrow> nat \<Rightarrow> nat \<Rightarrow> QDoc \<Rightarrow> bool" where
  "purgeable now graceSeconds leaseSeconds d \<longleftrightarrow>
     qd_purged_at d = None \<and>
     (case qd_deleted_at d of None \<Rightarrow> False | Some t \<Rightarrow> t + seconds graceSeconds < now) \<and>
     (case qd_sweep_claimed_at d of None \<Rightarrow> True | Some t \<Rightarrow> t + seconds leaseSeconds < now)"

definition claimPurgeable :: "nat \<Rightarrow> string list \<Rightarrow> nat \<Rightarrow> nat \<Rightarrow> nat \<Rightarrow> table \<Rightarrow> (string \<times> string) list \<times> table" where
  "claimPurgeable now locked limit graceSeconds leaseSeconds docs =
     (let claimed = take limit (sort_key (the \<circ> qd_deleted_at)
            (filter (\<lambda>d. purgeable now graceSeconds leaseSeconds d \<and> qd_id d \<notin> set locked) docs))
      in (map (\<lambda>d. (qd_org d, qd_id d)) claimed,
          update_where (\<lambda>d. qd_id d \<in> qd_id ` set claimed) (\<lambda>d. d\<lparr>qd_sweep_claimed_at := Some now\<rparr>) docs))"

definition stillDeleted :: "string \<Rightarrow> string \<Rightarrow> table \<Rightarrow> bool" where
  "stillDeleted orgId documentId docs =
     (case find (\<lambda>d. qd_org d = orgId \<and> qd_id d = documentId) docs of
        None \<Rightarrow> True | Some d \<Rightarrow> qd_deleted_at d \<noteq> None)"

definition markPurged :: "nat \<Rightarrow> string \<Rightarrow> string \<Rightarrow> table \<Rightarrow> table" where
  "markPurged now orgId documentId docs =
     update_where (\<lambda>d. qd_org d = orgId \<and> qd_id d = documentId \<and> qd_purged_at d = None \<and> qd_deleted_at d \<noteq> None)
       (\<lambda>d. d\<lparr>qd_purged_at := Some now, qd_sweep_claimed_at := None\<rparr>) docs"

subsection \<open>Interleavings\<close>

text \<open>
  The steps of the workers, the reaper, the collector, the API, the rebuild and the copy, in any order. A claim moves the
  clock: two claims never read the same instant. \<open>M\<close> is \<open>NACRE_INDEX_MAX_ATTEMPTS\<close>.
\<close>

inductive queue_step :: "nat \<Rightarrow> nat \<times> table \<Rightarrow> nat \<times> table \<Rightarrow> bool" for M where
  tick: "now \<le> later \<Longrightarrow> queue_step M (now, docs) (later, docs)"
| claim: "claimNext copying locked now docs = (r, docs') \<Longrightarrow> queue_step M (now, docs) (Suc now, docs')"
| finish: "newId \<notin> qd_id ` set docs \<Longrightarrow> upsert newId now input write docs = (r, docs') \<Longrightarrow> ui_claim input \<noteq> None \<Longrightarrow>
    queue_step M (now, docs) (now, docs')"
| fail: "recordFailure now c (Some (qc_claimedAt c)) e retryable M random docs = (r, docs') \<Longrightarrow>
    queue_step M (now, docs) (now, docs')"
| reap: "claimStranded now locked limit leaseSeconds M docs = (r, docs') \<Longrightarrow> queue_step M (now, docs) (now, docs')"
| resend: "newId \<notin> qd_id ` set docs \<Longrightarrow> queue_step M (now, docs) (now, queue newId now input docs)"
| retried: "retry orgId i docs = (r, docs') \<Longrightarrow> queue_step M (now, docs) (now, docs')"
| delete: "queue_step M (now, docs) (now, tombstone now orgId i docs)"
| retagged: "queue_step M (now, docs) (now, retag orgId i metadata docs)"
| sweep: "claimPurgeable now locked limit graceSeconds leaseSeconds docs = (r, docs') \<Longrightarrow> queue_step M (now, docs) (now, docs')"
| purged: "queue_step M (now, docs) (now, markPurged now orgId i docs)"
| layer_removed: "queue_step M (now, docs) (now, tombstone_layer now orgId l docs)"
| rebuilt: "requeueForRebuild orgId docs = (r, docs') \<Longrightarrow> queue_step M (now, docs) (now, docs')"
| repaired: "repairAfterCopy touched since orgId docs = (r, docs') \<Longrightarrow> queue_step M (now, docs) (now, docs')"

text \<open>The invariant of a row: a lease exactly while it is being worked on, and attempts within the bound.\<close>

definition row_ok :: "nat \<Rightarrow> nat \<Rightarrow> QDoc \<Rightarrow> bool" where
  "row_ok M now d \<longleftrightarrow>
     (qd_claimed_at d \<noteq> None \<longleftrightarrow> qd_status d = Parsing) \<and> qd_status d \<noteq> Indexing \<and>
     (\<forall>t. qd_claimed_at d = Some t \<longrightarrow> t < now) \<and>
     (qd_status d = Pending \<longrightarrow> qd_attempts d < M) \<and>
     (qd_status d = Parsing \<longrightarrow> 1 \<le> qd_attempts d \<and> qd_attempts d \<le> M)"

definition table_ok :: "nat \<Rightarrow> nat \<times> table \<Rightarrow> bool" where
  "table_ok M st \<longleftrightarrow> keyed (snd st) \<and> (\<forall>d \<in> set (snd st). row_ok M (fst st) d)"

text \<open>A claim is lost when no row of that id is fenced for it any more.\<close>

definition lost :: "nat \<Rightarrow> string \<Rightarrow> table \<Rightarrow> bool" where
  "lost t i docs \<longleftrightarrow> (\<forall>d \<in> set docs. qd_id d = i \<longrightarrow> \<not> fenced (Some t) d)"

lemmas row_updates = lease_def index_row_def fail_row_def reap_row_def resend_row_def retry_row_def inserted_row_def

lemma table_ok_update:
  assumes "table_ok M (now, docs)" and "now \<le> later"
    and "\<And>d. qd_id (f d) = qd_id d" "\<And>d. qd_layer (f d) = qd_layer d" "\<And>d. qd_external (f d) = qd_external d"
    and "\<And>d. d \<in> set docs \<Longrightarrow> P d \<Longrightarrow> row_ok M now d \<Longrightarrow> row_ok M later (f d)"
  shows "table_ok M (later, update_where P f docs)"
proof -
  have "row_ok M later d" if "row_ok M now d" for d
    using that assms(2) by (auto simp: row_ok_def)
  with assms(1,6) show ?thesis
    by (auto simp: table_ok_def keyed_update_where [of f, OF assms(3-5)] in_update_where)
qed

lemma lost_update:
  assumes "lost t i docs" and "\<And>d. qd_id (f d) = qd_id d"
    and "\<And>d. d \<in> set docs \<Longrightarrow> P d \<Longrightarrow> \<not> fenced (Some t) d \<Longrightarrow> \<not> fenced (Some t) (f d)"
  shows "lost t i (update_where P f docs)"
  using assms by (auto simp: lost_def in_update_where split: if_splits)

lemma claimNext_cases:
  assumes "claimNext copying locked now docs = (r, docs')"
  obtains (idle) "r = None" "docs' = docs"
  | (taken) row where "row \<in> set docs" "claimable copying locked now row"
      "\<And>d. d \<in> set docs \<Longrightarrow> claimable copying locked now d \<Longrightarrow> qd_created_at row \<le> qd_created_at d"
      "r = Some (claim_of now row)"
      "docs' = update_where (\<lambda>d. qd_id d = qd_id row) (lease now) docs"
proof (cases "sort_key qd_created_at (filter (claimable copying locked now) docs)")
  case Nil
  with assms show ?thesis by (intro idle) (simp_all add: claimNext_def)
next
  case (Cons row rest)
  have s: "set (row # rest) = set (filter (claimable copying locked now) docs)" by (metis Cons set_sort)
  have "sorted (map qd_created_at (row # rest))" by (metis Cons sorted_sort_key)
  then have "qd_created_at row \<le> qd_created_at d" if "d \<in> set docs" "claimable copying locked now d" for d
    using that s by (auto simp: set_eq_iff)
  moreover have "row \<in> set docs" "claimable copying locked now row" using s by (auto simp: set_eq_iff)
  ultimately show ?thesis using assms Cons by (intro taken) (auto simp: claimNext_def)
qed

lemma upsert_cases:
  assumes "upsert newId now input write docs = (r, docs')"
  obtains (refused) "docs' = docs" "\<exists>e. r = Inl e"
  | (inserted) "\<forall>d \<in> set docs. \<not> (qd_layer d = ui_layer input \<and> qd_external d = ui_external input)"
      "docs' = docs @ [inserted_row newId now input Indexed]" "r = Inr newId"
  | (indexed) d where "d \<in> set docs" "qd_layer d = ui_layer input" "qd_external d = ui_external input"
      "fenced (ui_claim input) d" "docs' = update_where (\<lambda>x. qd_id x = qd_id d) (index_row input) docs" "r = Inr (qd_id d)"
proof (cases "find (\<lambda>d. qd_layer d = ui_layer input \<and> qd_external d = ui_external input) docs")
  case None
  then have n: "\<forall>d \<in> set docs. \<not> (qd_layer d = ui_layer input \<and> qd_external d = ui_external input)"
    by (auto simp: find_None_iff)
  show ?thesis
  proof (cases "write newId")
    case (Inl e)
    with None assms show ?thesis by (intro refused) (auto simp: upsert_def upsert_statement_def)
  next
    case (Inr u)
    with None assms n show ?thesis by (intro inserted) (auto simp: upsert_def upsert_statement_def)
  qed
next
  case (Some d)
  then have d: "d \<in> set docs" "qd_layer d = ui_layer input" "qd_external d = ui_external input"
    by (auto simp: find_Some_iff)
  show ?thesis
  proof (cases "fenced (ui_claim input) d \<and> (\<exists>u. write (qd_id d) = Inr u)")
    case True
    with Some d assms show ?thesis by (intro indexed [of d]) (auto simp: upsert_def upsert_statement_def Let_def)
  next
    case False
    with Some assms show ?thesis by (intro refused) (auto simp: upsert_def upsert_statement_def Let_def split: if_splits sum.splits)
  qed
qed

lemma table_ok_append:
  assumes "table_ok M (now, docs)" and "qd_id d \<notin> qd_id ` set docs"
    and "\<forall>x \<in> set docs. \<not> (qd_layer x = qd_layer d \<and> qd_external x = qd_external d)" and "row_ok M now d"
  shows "table_ok M (now, docs @ [d])"
  using assms by (force simp: table_ok_def keyed_def)

lemma queue_cases:
  obtains (inserted) "\<forall>d \<in> set docs. \<not> (qd_layer d = ui_layer input \<and> qd_external d = ui_external input)"
      "queue newId now input docs = docs @ [(inserted_row newId now input Pending)\<lparr>qd_chunk_count := 0\<rparr>]"
  | (sent) d where "d \<in> set docs" "queue newId now input docs = update_where (\<lambda>x. qd_id x = qd_id d) (resend_row input) docs"
proof (cases "find (\<lambda>d. qd_layer d = ui_layer input \<and> qd_external d = ui_external input) docs")
  case None
  then have "\<forall>d \<in> set docs. \<not> (qd_layer d = ui_layer input \<and> qd_external d = ui_external input)"
    by (auto simp: find_None_iff)
  with None show ?thesis by (intro inserted) (simp_all add: queue_def)
next
  case (Some d)
  then have "d \<in> set docs" by (auto simp: find_Some_iff)
  with Some show ?thesis by (intro sent [of d]) (simp_all add: queue_def)
qed

lemma queue_step_ok:
  assumes "queue_step M st st'" and "0 < M" and "table_ok M st"
  shows "table_ok M st'"
  using assms(1,3)
proof (cases rule: queue_step.cases)
  case (tick now later docs)
  with assms(3) show ?thesis by (auto simp: table_ok_def row_ok_def)
next
  case (claim copying locked now docs r docs')
  from claim(3) show ?thesis
  proof (cases rule: claimNext_cases)
    case idle
    with claim assms(3) show ?thesis by (auto simp: table_ok_def row_ok_def less_Suc_eq)
  next
    case (taken row)
    have "row_ok M (Suc now) (lease now d)" if "d \<in> set docs" "qd_id d = qd_id row" "row_ok M now d" for d
    proof -
      have "d = row" using keyed_id [OF _ that(1) taken(1) that(2)] assms(3) claim by (simp add: table_ok_def)
      with taken(2) that(3) show ?thesis by (simp add: row_ok_def lease_def claimable_def)
    qed
    then show ?thesis
      unfolding claim(2) taken(5) using assms(3) claim
      by (intro table_ok_update [of M now]) (simp_all add: lease_def)
  qed
next
  case (finish newId docs now input wr r docs')
  from finish(4) show ?thesis
  proof (cases rule: upsert_cases)
    case refused
    with finish assms(3) show ?thesis by simp
  next
    case inserted
    with finish assms(3) show ?thesis
      by (auto intro!: table_ok_append simp: inserted_row_def row_ok_def)
  next
    case (indexed d)
    with finish assms(3) show ?thesis
      by (auto intro!: table_ok_update [of M now] simp: index_row_def row_ok_def)
  qed
next
  case (fail now c e retryable random docs r docs')
  then have "docs' = update_where (\<lambda>d. qd_org d = qc_org c \<and> qd_id d = qc_document c \<and> fenced (Some (qc_claimedAt c)) d)
      (fail_row e retryable M (now + nat (retryDelayMs (qc_attempts c) random) * 1000)) docs"
    by (simp add: recordFailure_def Let_def)
  with fail assms(3) show ?thesis
    by (auto intro!: table_ok_update [of M now] simp: fail_row_def row_ok_def)
next
  case (reap now locked limit leaseSeconds docs r docs')
  then obtain P where "docs' = update_where P (reap_row M) docs" by (auto simp: claimStranded_def Let_def)
  with reap assms(3) show ?thesis
    by (auto intro!: table_ok_update [of M now] simp: reap_row_def row_ok_def)
next
  case (resend newId docs now input)
  show ?thesis
  proof (rule queue_cases [of docs input newId now])
    assume "\<forall>d \<in> set docs. \<not> (qd_layer d = ui_layer input \<and> qd_external d = ui_external input)"
      "queue newId now input docs = docs @ [(inserted_row newId now input Pending)\<lparr>qd_chunk_count := 0\<rparr>]"
    with resend assms(2,3) show ?thesis
      by (auto intro!: table_ok_append simp: inserted_row_def row_ok_def)
  next
    fix d assume "d \<in> set docs" "queue newId now input docs = update_where (\<lambda>x. qd_id x = qd_id d) (resend_row input) docs"
    with resend assms(2,3) show ?thesis
      by (auto intro!: table_ok_update [of M now] simp: resend_row_def row_ok_def Let_def)
  qed
next
  case (retried orgId i docs r docs' now)
  then have "docs' = update_where (\<lambda>d. qd_org d = orgId \<and> qd_id d = i \<and> qd_status d = Failed) retry_row docs"
    by (simp add: retry_def Let_def)
  with retried assms(2,3) show ?thesis
    by (auto intro!: table_ok_update [of M now] simp: retry_row_def row_ok_def)
next
  case (delete now docs orgId i)
  with assms(3) show ?thesis
    by (auto intro!: table_ok_update [of M now] simp: tombstone_def row_ok_def)
next
  case (retagged now docs orgId i metadata)
  with assms(3) show ?thesis
    by (auto intro!: table_ok_update [of M now] simp: retag_def row_ok_def)
next
  case (sweep now locked limit graceSeconds leaseSeconds docs r docs')
  then obtain P where "docs' = update_where P (\<lambda>d. d\<lparr>qd_sweep_claimed_at := Some now\<rparr>) docs"
    by (auto simp: claimPurgeable_def Let_def)
  with sweep assms(3) show ?thesis
    by (auto intro!: table_ok_update [of M now] simp: row_ok_def)
next
  case (purged now docs orgId i)
  with assms(3) show ?thesis
    by (auto intro!: table_ok_update [of M now] simp: markPurged_def row_ok_def)
next
  case (layer_removed now docs orgId l)
  with assms(3) show ?thesis
    by (auto intro!: table_ok_update [of M now] simp: tombstone_layer_def row_ok_def)
next
  case (rebuilt orgId docs r docs' now)
  then obtain P where "docs' = update_where P rebuild_row docs" by (auto simp: requeueForRebuild_def Let_def)
  with rebuilt assms(2,3) show ?thesis
    by (auto intro!: table_ok_update [of M now] simp: rebuild_row_def row_ok_def)
next
  case (repaired touched since orgId docs r docs' now)
  then obtain P where docs': "docs' = update_where P (\<lambda>d. d\<lparr>qd_purged_at := None, qd_sweep_claimed_at := None\<rparr>)
      (update_where (\<lambda>d. qd_org d = orgId \<and> qd_deleted_at d = None \<and> qd_status d = Indexed \<and> touched d) repair_row docs)"
    by (auto simp: repairAfterCopy_def Let_def)
  have "table_ok M (now, update_where (\<lambda>d. qd_org d = orgId \<and> qd_deleted_at d = None \<and> qd_status d = Indexed \<and> touched d) repair_row docs)"
    using repaired assms(2,3) by (auto intro!: table_ok_update [of M now] simp: repair_row_def row_ok_def)
  with repaired show ?thesis
    unfolding docs' by (auto intro!: table_ok_update [of M now] simp: row_ok_def)
qed

lemma lost_append: "lost t i docs \<Longrightarrow> qd_claimed_at d = None \<Longrightarrow> lost t i (docs @ [d])"
  by (auto simp: lost_def fenced_def)

lemma queue_step_lost:
  assumes "queue_step M st st'" and "lost t i (snd st)" and "t < fst st"
  shows "lost t i (snd st') \<and> t < fst st'"
  using assms(1)
proof (cases rule: queue_step.cases)
  case (claim copying locked now docs r docs')
  from claim(3) show ?thesis
  proof (cases rule: claimNext_cases)
    case (taken row)
    then show ?thesis using claim assms(2,3)
      by (auto intro!: lost_update simp: lease_def fenced_def)
  qed (use claim assms(2,3) in simp)
next
  case (finish newId docs now input wr r docs')
  from finish(4) show ?thesis
  proof (cases rule: upsert_cases)
    case inserted
    with finish assms(2,3) show ?thesis by (auto intro!: lost_append simp: inserted_row_def)
  next
    case (indexed d)
    with finish assms(2,3) show ?thesis by (auto intro!: lost_update simp: index_row_def fenced_def)
  qed (use finish assms(2,3) in simp)
next
  case (fail now c e retryable random docs r docs')
  then have "docs' = update_where (\<lambda>d. qd_org d = qc_org c \<and> qd_id d = qc_document c \<and> fenced (Some (qc_claimedAt c)) d)
      (fail_row e retryable M (now + nat (retryDelayMs (qc_attempts c) random) * 1000)) docs"
    by (simp add: recordFailure_def Let_def)
  with fail assms(2,3) show ?thesis by (auto intro!: lost_update simp: fail_row_def fenced_def)
next
  case (reap now locked limit leaseSeconds docs r docs')
  then obtain P where "docs' = update_where P (reap_row M) docs" by (auto simp: claimStranded_def Let_def)
  with reap assms(2,3) show ?thesis by (auto intro!: lost_update simp: reap_row_def fenced_def)
next
  case (resend newId docs now input)
  show ?thesis
  proof (rule queue_cases [of docs input newId now])
    assume "queue newId now input docs = docs @ [(inserted_row newId now input Pending)\<lparr>qd_chunk_count := 0\<rparr>]"
    with resend assms(2,3) show ?thesis by (auto intro!: lost_append simp: inserted_row_def)
  next
    fix d assume "queue newId now input docs = update_where (\<lambda>x. qd_id x = qd_id d) (resend_row input) docs"
    with resend assms(2,3) show ?thesis
      by (auto intro!: lost_update simp: resend_row_def fenced_def Let_def requeues_def split: if_splits)
  qed
next
  case (retried orgId i' docs r docs' now)
  then have "docs' = update_where (\<lambda>d. qd_org d = orgId \<and> qd_id d = i' \<and> qd_status d = Failed) retry_row docs"
    by (simp add: retry_def Let_def)
  with retried assms(2,3) show ?thesis by (auto intro!: lost_update simp: retry_row_def fenced_def)
next
  case (delete now docs orgId i')
  with assms(2,3) show ?thesis by (auto intro!: lost_update simp: tombstone_def fenced_def)
next
  case (retagged now docs orgId i' metadata)
  with assms(2,3) show ?thesis by (auto intro!: lost_update simp: retag_def fenced_def)
next
  case (sweep now locked limit graceSeconds leaseSeconds docs r docs')
  then obtain P where "docs' = update_where P (\<lambda>d. d\<lparr>qd_sweep_claimed_at := Some now\<rparr>) docs"
    by (auto simp: claimPurgeable_def Let_def)
  with sweep assms(2,3) show ?thesis by (auto intro!: lost_update simp: fenced_def)
next
  case (purged now docs orgId i')
  with assms(2,3) show ?thesis by (auto intro!: lost_update simp: markPurged_def fenced_def)
next
  case (layer_removed now docs orgId l)
  with assms(2,3) show ?thesis by (auto intro!: lost_update simp: tombstone_layer_def fenced_def)
next
  case (rebuilt orgId docs r docs' now)
  then obtain P where "docs' = update_where P rebuild_row docs" by (auto simp: requeueForRebuild_def Let_def)
  with rebuilt assms(2,3) show ?thesis by (auto intro!: lost_update simp: rebuild_row_def fenced_def)
next
  case (repaired touched since orgId docs r docs' now)
  then obtain P Q where docs': "docs' = update_where P (\<lambda>d. d\<lparr>qd_purged_at := None, qd_sweep_claimed_at := None\<rparr>)
      (update_where Q repair_row docs)"
    by (auto simp: repairAfterCopy_def Let_def)
  have "lost t i (update_where Q repair_row docs)"
    using repaired assms(2) by (auto intro!: lost_update simp: repair_row_def fenced_def)
  with repaired assms(3) show ?thesis unfolding docs' by (auto intro!: lost_update simp: fenced_def)
qed (use assms(2,3) in auto)

lemma queue_steps_lost:
  "(queue_step M)\<^sup>*\<^sup>* st st' \<Longrightarrow> lost t i (snd st) \<Longrightarrow> t < fst st \<Longrightarrow> lost t i (snd st') \<and> t < fst st'"
  by (induction rule: rtranclp_induct) (auto dest: queue_step_lost)

lemma queue_steps_ok: "(queue_step M)\<^sup>*\<^sup>* st st' \<Longrightarrow> 0 < M \<Longrightarrow> table_ok M st \<Longrightarrow> table_ok M st'"
  by (induction rule: rtranclp_induct) (auto intro: queue_step_ok)

subsection \<open>The properties\<close>

text \<open>C40 - Through every interleaving of workers, reaper, collector, API, index rebuild and copy repair - every
  statement of the code that writes a column of the model - no two rows share an id or a layer and
  external id, a document carries a lease exactly while it is being parsed, is waiting only while
  attempts remain, and is never worked on more than the configured number of times; and no lease
  is dated ahead of the clock.\<close>

theorem queue_invariant:
  assumes "(queue_step M)\<^sup>*\<^sup>* (now, []) (later, docs)" and "0 < M"
  shows "distinct (map qd_id docs) \<and> distinct (map (\<lambda>d. (qd_layer d, qd_external d)) docs)
    \<and> (\<forall>d \<in> set docs. (qd_claimed_at d \<noteq> None \<longleftrightarrow> qd_status d = Parsing)
         \<and> (\<forall>t. qd_claimed_at d = Some t \<longrightarrow> t < later)
         \<and> (qd_status d = Pending \<longrightarrow> qd_attempts d < M)
         \<and> (qd_status d = Parsing \<longrightarrow> 1 \<le> qd_attempts d \<and> qd_attempts d \<le> M))"
proof -
  have "table_ok M (now, [])" by (simp add: table_ok_def keyed_def)
  from queue_steps_ok [OF assms this] show ?thesis by (auto simp: table_ok_def row_ok_def keyed_def)
qed

definition sample_doc :: "nat option \<Rightarrow> UpsertInput" where
  "sample_doc claim = \<lparr>ui_org = ''acme'', ui_layer = ''l1'', ui_external = ''e1'', ui_hash = ''h'', ui_metadata = JObj [],
     ui_chunks = 2, ui_claim = claim\<rparr>"

definition sample_queued :: table where
  "sample_queued = queue ''d1'' 0 (sample_doc None) []"

definition sample_claimed :: table where
  "sample_claimed = update_where (\<lambda>d. qd_id d = ''d1'') (lease 0) sample_queued"

definition sample_ticket :: QClaim where
  "sample_ticket = \<lparr>qc_org = ''acme'', qc_document = ''d1'', qc_layer = ''l1'', qc_external = ''e1'',
     qc_metadata = JObj [], qc_attempts = 1, qc_claimedAt = 0\<rparr>"

lemma sample_claim:
  "claimNext [] [] 0 sample_queued = (Some sample_ticket, sample_claimed)"
  by (simp add: sample_claimed_def sample_queued_def queue_def claimNext_def inserted_row_def sample_doc_def
      claimable_def claimable_now_def claim_of_def sample_ticket_def)

lemma sample_run: "(queue_step 3)\<^sup>*\<^sup>* (0, []) (Suc 0, sample_claimed)"
proof -
  have "queue_step 3 (0, []) (0, sample_queued)" unfolding sample_queued_def by (rule queue_step.resend) simp
  moreover have "queue_step 3 (0, sample_queued) (Suc 0, sample_claimed)" by (rule queue_step.claim [OF sample_claim])
  ultimately show ?thesis by (meson converse_rtranclp_into_rtranclp rtranclp.rtrancl_refl)
qed

theorem queue_invariant_witness:
  "\<exists>d \<in> set sample_claimed. qd_status d = Parsing \<and> 1 \<le> qd_attempts d \<and> qd_attempts d \<le> 3"
proof -
  obtain d where d: "d \<in> set sample_claimed" "qd_status d = Parsing"
    by (simp add: sample_claimed_def sample_queued_def queue_def inserted_row_def sample_doc_def update_where_def lease_def)
  from queue_invariant [OF sample_run] d show ?thesis by auto
qed

text \<open>A claim that is lost stays lost: once a document was reaped, re-sent, retried, deleted, failed, requeued
  by a rebuild or finished under a worker, no later interleaving lets that worker's claim write - its index pass
  ends in \<open>ClaimLost\<close> and its failure report changes nothing.\<close>

theorem lost_claim_never_writes:
  assumes "(queue_step M)\<^sup>*\<^sup>* (now, docs) (later, docs')" and "lost t i docs" and "t < now"
    and "find (\<lambda>d. qd_layer d = ui_layer input \<and> qd_external d = ui_external input) docs' = Some d" and "qd_id d = i"
    and "ui_claim input = Some t" and "qc_document c = i" and "qc_claimedAt c = t"
  shows "upsert newId later input write docs' = (Inl ClaimLost, docs')
    \<and> recordFailure later c (Some (qc_claimedAt c)) e retryable M random docs' = (False, docs')"
proof -
  have l: "lost t i docs'" using queue_steps_lost [OF assms(1)] assms(2,3) by simp
  have "d \<in> set docs'" using assms(4) by (auto simp: find_Some_iff)
  with l assms(5) have "\<not> fenced (ui_claim input) d" by (simp add: lost_def assms(6))
  then have "upsert newId later input write docs' = (Inl ClaimLost, docs')"
    by (simp add: upsert_def upsert_statement_def assms(4,6))
  moreover have "\<forall>x \<in> set docs'. \<not> (qd_org x = qc_org c \<and> qd_id x = qc_document c \<and> fenced (Some (qc_claimedAt c)) x)"
    using l assms(7,8) by (auto simp: lost_def)
  note none = update_where_none [OF this] and this
  then have "find (\<lambda>x. qd_org x = qc_org c \<and> qd_id x = qc_document c \<and> fenced (Some (qc_claimedAt c)) x) docs' = None"
    by (auto simp: find_None_iff)
  then have "recordFailure later c (Some (qc_claimedAt c)) e retryable M random docs' = (False, docs')"
    by (simp add: recordFailure_def Let_def none)
  ultimately show ?thesis by simp
qed

theorem lost_claim_never_writes_witness:
  "fst (upsert ''d2'' 1 (sample_doc (Some 0)) (\<lambda>i. Inr ()) (tombstone 1 ''acme'' ''d1'' sample_claimed)) = Inl ClaimLost"
proof -
  let ?t = "tombstone 1 ''acme'' ''d1'' sample_claimed"
  have lost: "lost 0 ''d1'' ?t"
    by (simp add: lost_def fenced_def tombstone_def sample_claimed_def sample_queued_def queue_def inserted_row_def
        sample_doc_def update_where_def lease_def)
  obtain d where d: "find (\<lambda>d. qd_layer d = ui_layer (sample_doc (Some 0)) \<and> qd_external d = ui_external (sample_doc (Some 0))) ?t = Some d"
    "qd_id d = ''d1''"
    by (simp add: tombstone_def sample_claimed_def sample_queued_def queue_def inserted_row_def
        sample_doc_def update_where_def lease_def)
  from lost_claim_never_writes [OF rtranclp.rtrancl_refl lost _ d, of 1
      "sample_ticket"]
  show ?thesis by (simp add: sample_doc_def sample_ticket_def)
qed

text \<open>\<open>claimNext\<close> takes the oldest document that is waiting, not deleted, past its backoff, in an
  organization not being copied and not locked elsewhere; it answers nothing only when there is
  none; and it leases that document alone.\<close>

theorem claimNext_oldest:
  assumes "claimNext copying locked now docs = (r, docs')"
  shows "case r of
    None \<Rightarrow> docs' = docs \<and> filter (claimable copying locked now) docs = []
  | Some c \<Rightarrow> (\<exists>row \<in> set docs. claimable copying locked now row \<and> qc_document c = qd_id row \<and> qc_attempts c = qd_attempts row + 1
      \<and> (\<forall>d \<in> set docs. claimable copying locked now d \<longrightarrow> qd_created_at row \<le> qd_created_at d)
      \<and> docs' = map (\<lambda>d. if qd_id d = qd_id row then d\<lparr>qd_status := Parsing, qd_claimed_at := Some (qc_claimedAt c),
             qd_attempts := qd_attempts d + 1\<rparr> else d) docs)"
  using assms
proof (cases rule: claimNext_cases)
  case idle
  then have "sort_key qd_created_at (filter (claimable copying locked now) docs) = []"
    using assms by (auto simp: claimNext_def split: list.splits)
  then have "set (filter (claimable copying locked now) docs) = {}" by (metis set_empty set_sort)
  with idle show ?thesis by simp
next
  case (taken row)
  then show ?thesis
    by (auto simp: update_where_def lease_def claim_of_def intro!: bexI [OF _ taken(1)])
qed

theorem claimNext_oldest_witness:
  "\<exists>row \<in> set sample_queued. qd_id row = ''d1'' \<and> claimable [] [] 0 row"
  using claimNext_oldest [OF sample_claim] by (auto simp: sample_ticket_def)

text \<open>The backoff is never negative, stays below a bound that doubles with every attempt from thirty
  seconds, and below fifteen minutes however many attempts were made.\<close>

theorem retry_delay_bounds:
  assumes "0 \<le> random" and "random < 1"
  shows "0 \<le> retryDelayMs attempts random
    \<and> retryDelayMs attempts random < 30000 * 2 ^ (attempts - 1) \<and> retryDelayMs attempts random < 900000"
proof -
  define c where "c = min RETRY_CAP_MS (RETRY_BASE_MS * 2 ^ (attempts - 1))"
  have c: "0 < c" "c \<le> 900000" "c \<le> 30000 * 2 ^ (attempts - 1)"
    by (simp_all add: c_def RETRY_CAP_MS_def RETRY_BASE_MS_def)
  have delay: "retryDelayMs attempts random = \<lfloor>random * of_int c\<rfloor>"
    by (simp add: retryDelayMs_def Let_def c_def)
  have "random * of_int c < of_int c" using assms(2) c(1) by (simp add: mult_less_cancel_right1)
  then have "retryDelayMs attempts random < c" by (simp add: delay floor_less_iff)
  moreover have "0 \<le> retryDelayMs attempts random" using assms(1) c(1) by (simp add: delay)
  ultimately show ?thesis using c by linarith
qed

theorem retry_delay_bounds_witness: "0 \<le> retryDelayMs 3 (1 / 2) \<and> retryDelayMs 3 (1 / 2) < 120000"
  using retry_delay_bounds [of "1 / 2" 3] by simp

definition abandon :: "nat \<Rightarrow> QDoc \<Rightarrow> QDoc" where
  "abandon M d = (if qd_status d = Pending then reap_row M (lease 0 d) else d)"

lemma abandon_run:
  assumes "qd_status d = Pending" and "qd_attempts d = 0" and "2 * k < M"
  shows "qd_status ((abandon M ^^ k) d) = Pending \<and> qd_attempts ((abandon M ^^ k) d) = 2 * k"
  using assms(3) by (induction k) (simp_all add: assms(1,2) abandon_def reap_row_def lease_def)

text \<open>A document whose workers keep dying is failed, never requeued for ever; but a claim and its
  reaping each count an attempt, so it fails after half as many abandonments as the message in
  its error column says: on the \<open>k\<close>-th one with \<open>2 * k\<close> at the bound.\<close>

theorem abandoned_fails_early:
  assumes "qd_status d = Pending" and "qd_attempts d = 0" and "2 * k < M" and "M \<le> 2 * (k + 1)"
  shows "qd_status ((abandon M ^^ (k + 1)) d) = Failed
    \<and> qd_error ((abandon M ^^ (k + 1)) d) = Some (abandoned_error M)"
  using abandon_run [OF assms(1-3)] assms(4) by (simp add: abandon_def reap_row_def lease_def)

theorem abandoned_fails_early_witness:
  "qd_status ((abandon 3 ^^ 2) (inserted_row ''d1'' 0 (sample_doc None) Pending)) = Failed
   \<and> qd_error ((abandon 3 ^^ 2) (inserted_row ''d1'' 0 (sample_doc None) Pending)) = Some (abandoned_error 3)"
  using abandoned_fails_early [of "inserted_row ''d1'' 0 (sample_doc None) Pending" 1 3]
  by (simp add: inserted_row_def numeral_2_eq_2)

end
