(* ===== verification/Chunker.thy ===== *)
theory Chunker
  imports Js_Text
begin

text \<open>
  \<open>packages/worker/src/chunk.ts\<close>: cutting a document into overlapping chunks that fit a
  character size and a token budget. The loop of \<open>chunk\<close> advances because every boundary it finds
  lies past the start; the lemmas show that each chunk is a contiguous piece of the normalized
  document within both bounds, and that together they lose nothing but white space.
\<close>

record ChunkConfig =
  cc_size :: int
  cc_overlap :: int
  cc_maxTokens :: "nat option"

definition DEFAULT_CHUNK_CONFIG :: ChunkConfig where
  "DEFAULT_CHUNK_CONFIG = \<lparr>cc_size = 800, cc_overlap = 120, cc_maxTokens = Some DEFAULT_EMBED_MAX_TOKENS\<rparr>"

record Chunk =
  ch_ordinal :: nat
  ch_text :: jstext

definition SEPARATORS :: "jstext list" where
  "SEPARATORS = [[10, 10], [10], [46, 32], [32]]"

text \<open>The walk of \<open>charactersWithinBudget\<close>, with costs and the budget in half tokens.\<close>

function budget_walk :: "jstext \<Rightarrow> nat \<Rightarrow> nat \<Rightarrow> nat \<Rightarrow> nat \<Rightarrow> nat" where
  "budget_walk t start budget cost pos =
     (if pos < length t
      then let code = codePointAt t pos;
               width = (if code > 0xFFFF then 2 else 1);
               spend = half_cost code
           in if cost + spend > budget \<and> pos > start then pos
              else budget_walk t start budget (cost + spend) (pos + width)
      else pos)"
  by pat_completeness auto
termination
  by (relation "measure (\<lambda>(t, start, budget, cost, pos). length t - pos)") auto

declare budget_walk.simps [simp del]

definition charactersWithinBudget :: "jstext \<Rightarrow> nat \<Rightarrow> nat \<Rightarrow> nat" where
  "charactersWithinBudget t start budget = max (budget_walk t start (2 * budget) 0 start - start) 1"

fun try_separators :: "jstext list \<Rightarrow> jstext \<Rightarrow> nat \<Rightarrow> nat \<Rightarrow> nat" where
  "try_separators [] t start limit = limit"
| "try_separators (sep # seps) t start limit =
     (case last_index_of t sep (limit - length sep) of
        Some k \<Rightarrow> if k > start then k + length sep else try_separators seps t start limit
      | None \<Rightarrow> try_separators seps t start limit)"

definition boundaryBefore :: "jstext \<Rightarrow> nat \<Rightarrow> nat \<Rightarrow> nat" where
  "boundaryBefore t start sz =
     (let limit = start + sz
      in if limit \<ge> length t then length t else try_separators SEPARATORS t start limit)"

definition overlapStart :: "jstext \<Rightarrow> nat \<Rightarrow> nat \<Rightarrow> int \<Rightarrow> nat" where
  "overlapStart t start fin overlap =
     (if overlap \<le> 0 \<or> int fin - int start \<le> overlap then fin
      else let from = fin - nat overlap
           in case search_space (slice t from fin) of
                None \<Rightarrow> fin
              | Some boundary \<Rightarrow> from + boundary + 1)"

definition chunk_end :: "jstext \<Rightarrow> nat \<Rightarrow> nat option \<Rightarrow> nat \<Rightarrow> nat" where
  "chunk_end t sz budget start =
     boundaryBefore t start
       (case budget of None \<Rightarrow> sz | Some b \<Rightarrow> min sz (charactersWithinBudget t start b))"

definition next_start :: "jstext \<Rightarrow> nat \<Rightarrow> nat \<Rightarrow> int \<Rightarrow> nat" where
  "next_start t start fin overlap =
     (let next = overlapStart t start fin overlap in if next > start then next else fin)"

subsection \<open>The loop advances\<close>

lemma try_separators_bounds:
  "start < limit \<Longrightarrow> limit \<le> length t \<Longrightarrow>
   start < try_separators seps t start limit \<and> try_separators seps t start limit \<le> limit"
proof (induction seps)
  case (Cons sep seps)
  show ?case
  proof (cases "last_index_of t sep (limit - length sep)")
    case (Some k)
    then have "k \<le> limit - length sep" by (blast dest: last_index_of_Some)
    with Some Cons show ?thesis by auto
  qed (use Cons in simp)
qed simp

lemma boundaryBefore_bounds:
  assumes "start < length t" and "0 < sz"
  shows "start < boundaryBefore t start sz"
    and "boundaryBefore t start sz \<le> length t"
    and "boundaryBefore t start sz \<le> start + sz"
proof -
  show "start < boundaryBefore t start sz"
    using assms try_separators_bounds [of start "start + sz" t SEPARATORS]
    by (simp add: boundaryBefore_def Let_def)
  show "boundaryBefore t start sz \<le> length t" "boundaryBefore t start sz \<le> start + sz"
    using assms try_separators_bounds [of start "start + sz" t SEPARATORS]
    by (auto simp: boundaryBefore_def Let_def)
qed

lemma charactersWithinBudget_pos: "0 < charactersWithinBudget t start b"
  by (simp add: charactersWithinBudget_def)

lemma chunk_end_bounds:
  assumes "start < length t" and "0 < sz"
  shows "start < chunk_end t sz budget start"
    and "chunk_end t sz budget start \<le> length t"
    and "chunk_end t sz budget start \<le> start + sz"
proof -
  let ?s = "case budget of None \<Rightarrow> sz | Some b \<Rightarrow> min sz (charactersWithinBudget t start b)"
  have s: "0 < ?s" "?s \<le> sz"
    using assms(2) charactersWithinBudget_pos by (simp_all split: option.splits)
  show "start < chunk_end t sz budget start" "chunk_end t sz budget start \<le> length t"
    using boundaryBefore_bounds [OF assms(1) s(1)] by (simp_all add: chunk_end_def)
  show "chunk_end t sz budget start \<le> start + sz"
    using boundaryBefore_bounds(3) [OF assms(1) s(1)] s(2) unfolding chunk_end_def by linarith
qed

lemma next_start_bounds:
  assumes "start < fin" and "fin \<le> length t"
  shows "start < next_start t start fin overlap" and "next_start t start fin overlap \<le> fin"
proof -
  have "overlapStart t start fin overlap \<le> fin"
  proof (cases "overlap \<le> 0 \<or> int fin - int start \<le> overlap")
    case False
    let ?from = "fin - nat overlap"
    have len: "length (slice t ?from fin) = fin - ?from" using assms(2) by (simp add: length_slice)
    show ?thesis
    proof (cases "search_space (slice t ?from fin)")
      case (Some b)
      then have "b < fin - ?from" using search_space_Some len by fastforce
      with False Some show ?thesis by (simp add: overlapStart_def Let_def)
    qed (use False in \<open>simp add: overlapStart_def Let_def\<close>)
  qed (simp add: overlapStart_def)
  then show "start < next_start t start fin overlap" "next_start t start fin overlap \<le> fin"
    using assms(1) by (simp_all add: next_start_def Let_def)
qed

text \<open>
  The loop of \<open>chunk\<close>. The guard \<open>0 < sz\<close> is the error \<open>chunk\<close> has already thrown for; it makes
  the recursion total.
\<close>

function chunk_loop :: "jstext \<Rightarrow> nat \<Rightarrow> int \<Rightarrow> nat option \<Rightarrow> nat \<Rightarrow> nat \<Rightarrow> Chunk list" where
  "chunk_loop t sz overlap budget start ordinal =
     (if start < length t \<and> 0 < sz
      then let fin = chunk_end t sz budget start;
               body = js_trim (slice t start fin);
               here = (if body = [] then [] else [\<lparr>ch_ordinal = ordinal, ch_text = body\<rparr>])
           in if fin \<ge> length t then here
              else here @ chunk_loop t sz overlap budget (next_start t start fin overlap) (ordinal + length here)
      else [])"
  by pat_completeness auto
termination
proof (relation "measure (\<lambda>(t, sz, overlap, budget, start, ordinal). length t - start)", goal_cases)
  case (2 t sz overlap budget start ordinal e body here)
  then have "start < e" "e \<le> length t" using chunk_end_bounds [of start t sz budget] by auto
  from next_start_bounds(1) [OF this, of overlap] 2 show ?case by auto
qed simp

declare chunk_loop.simps [simp del]

datatype ChunkError = OverlapNotSmaller | SizeNotPositive | NoTokenBudget

definition normalized :: "jstext \<Rightarrow> jstext" where
  "normalized t = js_trim (normalize_newlines t)"

definition chunk :: "jstext \<Rightarrow> ChunkConfig \<Rightarrow> ChunkError + Chunk list" where
  "chunk t config =
     (if cc_overlap config \<ge> cc_size config then Inl OverlapNotSmaller
      else if cc_size config \<le> 0 then Inl SizeNotPositive
      else if normalized t = [] then Inr []
      else case cc_maxTokens config of
             None \<Rightarrow> Inr (chunk_loop (normalized t) (nat (cc_size config)) (cc_overlap config) None 0 0)
           | Some maxTokens \<Rightarrow>
               (case tokenBudget maxTokens of
                  None \<Rightarrow> Inl NoTokenBudget
                | Some budget \<Rightarrow>
                    Inr (chunk_loop (normalized t) (nat (cc_size config)) (cc_overlap config) (Some budget) 0 0)))"


subsection \<open>What the walk spends\<close>

lemma half_tokens_subadd: "units (x @ y) \<Longrightarrow> half_tokens (x @ y) \<le> half_tokens x + half_tokens y"
proof (induction x rule: code_points.induct)
  case 1
  then show ?case by (simp add: half_tokens_def)
next
  case (2 u)
  show ?case
  proof (cases y)
    case (Cons v ys)
    show ?thesis
    proof (cases "is_high u \<and> is_low v")
      case True
      then have "half_cost u = 6" "half_cost v = 6" "\<not> is_high v"
        by (auto simp: half_cost_def is_high_def is_low_def)
      with True Cons show ?thesis
        by (cases ys) (auto simp: half_tokens_def half_cost_pair)
    next
      case False
      with Cons show ?thesis by (auto simp: half_tokens_def)
    qed
  qed (simp add: half_tokens_def)
next
  case (3 u v us)
  have "units (us @ y)" "units ((v # us) @ y)" using 3(3) by (simp_all add: units_def)
  with 3(1,2) show ?case by (auto simp: half_tokens_def)
qed

definition step_width :: "jstext \<Rightarrow> nat \<Rightarrow> nat" where
  "step_width t pos = (if codePointAt t pos > 0xFFFF then 2 else 1)"

lemma step_slice:
  assumes "units t" and "pos < length t"
  shows "pos + step_width t pos \<le> length t"
    and "half_tokens (slice t pos (pos + step_width t pos)) = half_cost (codePointAt t pos)"
proof -
  have u: "t ! pos < 0x10000" using assms by (simp add: units_def)
  show "pos + step_width t pos \<le> length t"
    using assms u by (auto simp: step_width_def codePointAt_def)
  show "half_tokens (slice t pos (pos + step_width t pos)) = half_cost (codePointAt t pos)"
  proof (cases "Suc pos < length t \<and> is_high (t ! pos) \<and> is_low (t ! Suc pos)")
    case True
    then have "step_width t pos = 2"
      using pair_point_ge [of "t ! pos" "t ! Suc pos"] by (simp add: step_width_def codePointAt_def)
    moreover have "slice t pos (pos + 2) = [t ! pos, t ! Suc pos]"
      using True by (simp add: slice_def take_Suc_conv_app_nth numeral_2_eq_2)
    ultimately show ?thesis using True by (simp add: half_tokens_def codePointAt_def)
  next
    case False
    then have "codePointAt t pos = t ! pos" by (auto simp: codePointAt_def)
    moreover from this u have "step_width t pos = 1" by (simp add: step_width_def)
    moreover have "slice t pos (pos + 1) = [t ! pos]"
      using assms(2) by (simp add: slice_def take_Suc_conv_app_nth)
    ultimately show ?thesis by (simp add: half_tokens_def)
  qed
qed

lemma slice_append:
  assumes "a \<le> b" and "b \<le> c" and "c \<le> length t"
  shows "slice t a c = slice t a b @ slice t b c"
proof -
  have "take c t = take b t @ drop b (take c t)"
    using assms by (metis append_take_drop_id min.absorb1 take_take)
  then have "drop a (take c t) = drop a (take b t @ drop b (take c t))" by simp
  then show ?thesis using assms by (simp add: slice_def)
qed

lemma budget_walk_spends:
  assumes "units t" and "start < length t" and "8 \<le> budget"
  shows "start \<le> pos \<Longrightarrow> pos \<le> length t \<Longrightarrow> half_tokens (slice t start pos) \<le> cost \<Longrightarrow>
    (pos = start \<longrightarrow> cost = 0) \<Longrightarrow> cost \<le> budget \<Longrightarrow>
    start < budget_walk t start budget cost pos \<and> budget_walk t start budget cost pos \<le> length t \<and>
    half_tokens (slice t start (budget_walk t start budget cost pos)) \<le> budget"
  using assms
proof (induction t start budget cost pos rule: budget_walk.induct)
  case (1 t start budget cost pos)
  show ?case
  proof (cases "pos < length t")
    case False
    then have "budget_walk t start budget cost pos = pos"
      by (simp add: budget_walk.simps [of t start budget cost pos])
    with False "1.prems" show ?thesis by simp
  next
    case True
    let ?code = "codePointAt t pos" and ?w = "step_width t pos"
    note step = step_slice [OF "1.prems"(6) True]
    show ?thesis
    proof (cases "cost + half_cost ?code > budget \<and> pos > start")
      case stop: True
      with True have "budget_walk t start budget cost pos = pos"
        by (simp add: budget_walk.simps [of t start budget cost pos] Let_def)
      with stop "1.prems" show ?thesis by auto
    next
      case go: False
      have walk: "budget_walk t start budget cost pos
          = budget_walk t start budget (cost + half_cost ?code) (pos + ?w)"
        using True go by (auto simp: budget_walk.simps [of t start budget cost pos] Let_def step_width_def)
      have "half_tokens (slice t start (pos + ?w))
          \<le> half_tokens (slice t start pos) + half_tokens (slice t pos (pos + ?w))"
        using half_tokens_subadd [of "slice t start pos" "slice t pos (pos + ?w)"]
          slice_append [OF "1.prems"(1) _ step(1)] units_slice [OF "1.prems"(6), of start "pos + ?w"]
        by simp
      then have spent: "half_tokens (slice t start (pos + ?w)) \<le> cost + half_cost ?code"
        using step(2) "1.prems"(3) by simp
      have "cost + half_cost ?code \<le> budget"
        using go "1.prems" half_cost_le [of ?code] by (cases "pos = start") auto
      with "1.IH" [OF True refl refl refl] go step(1) spent "1.prems" show ?thesis
        unfolding walk by (auto simp: step_width_def)
    qed
  qed
qed

lemma chunk_end_spends:
  assumes "units t" and "start < length t" and "0 < sz" and "4 \<le> b"
  shows "half_tokens (slice t start (chunk_end t sz (Some b) start)) \<le> 2 * b"
proof -
  define stop where "stop = budget_walk t start (2 * b) 0 start"
  have stop: "start < stop" "stop \<le> length t" "half_tokens (slice t start stop) \<le> 2 * b"
    using budget_walk_spends [OF assms(1,2), of "2 * b" start 0] assms
    by (auto simp: stop_def slice_def half_tokens_def)
  let ?s = "min sz (charactersWithinBudget t start b)"
  have "chunk_end t sz (Some b) start \<le> start + ?s"
    using boundaryBefore_bounds(3) [OF assms(2), of ?s] assms(3) charactersWithinBudget_pos
    by (simp add: chunk_end_def)
  moreover have "charactersWithinBudget t start b = stop - start"
    using stop(1) by (simp add: charactersWithinBudget_def stop_def)
  ultimately have le: "chunk_end t sz (Some b) start \<le> stop" using stop(1) by simp
  let ?e = "chunk_end t sz (Some b) start"
  have "slice t start ?e = take (?e - start) (slice t start stop)"
    using le chunk_end_bounds(1) [OF assms(2,3), of "Some b"] by (simp add: slice_def take_drop min_def)
  then show ?thesis
    using half_tokens_take [OF units_slice [OF assms(1)], of "?e - start" start stop] stop(3)
    by (metis order.trans)
qed

subsection \<open>Windows and the pieces trimmed out of them\<close>

text \<open>A trimmed window is again a window, and only white space lies outside it.\<close>

lemma trim_slice:
  assumes "a \<le> b" and "b \<le> length t"
  obtains a' b' where "a \<le> a'" "a' \<le> b'" "b' \<le> b" "js_trim (slice t a b) = slice t a' b'"
    and "\<And>p. a \<le> p \<Longrightarrow> p < b \<Longrightarrow> \<not> js_space (t ! p) \<Longrightarrow> a' \<le> p \<and> p < b'"
proof -
  let ?w = "slice t a b"
  obtain pre suf where p: "?w = pre @ js_trim ?w @ suf" "\<forall>u \<in> set pre \<union> set suf. js_space u"
    using js_trim_parts by blast
  have len: "length pre + length (js_trim ?w) + length suf = b - a"
    using p(1) length_slice [OF assms(2), of a] by (metis add.assoc length_append)
  let ?a = "a + length pre" and ?b = "a + length pre + length (js_trim ?w)"
  have "slice t ?a ?b = take (length (js_trim ?w)) (drop (length pre) ?w)"
    using len assms(1) by (simp add: slice_def take_drop drop_drop add.commute add.left_commute min_def)
  also have "\<dots> = js_trim ?w" by (subst p(1)) simp
  finally have eq: "js_trim ?w = slice t ?a ?b" by simp
  have inside: "?a \<le> q \<and> q < ?b" if "a \<le> q" "q < b" "\<not> js_space (t ! q)" for q
  proof -
    have wq: "?w ! (q - a) = t ! q" using that assms by (simp add: slice_def)
    have "\<not> q - a < length pre"
      using p that(3) wq by (metis UnI1 nth_append nth_mem)
    moreover have "q - a < length pre + length (js_trim ?w)"
    proof (rule ccontr)
      let ?i = "q - a - length pre - length (js_trim ?w)"
      assume far: "\<not> q - a < length pre + length (js_trim ?w)"
      then have "?w ! (q - a) = suf ! ?i"
        by (subst p(1)) (auto simp: nth_append)
      moreover have "?i < length suf" using far len that by simp
      ultimately show False using p(2) that(3) wq by (metis UnI2 nth_mem)
    qed
    ultimately show ?thesis using that(1) by linarith
  qed
  show thesis by (rule that [of ?a ?b]) (use eq inside len assms(1) in auto)
qed

definition emitted :: "jstext \<Rightarrow> nat \<Rightarrow> nat option \<Rightarrow> nat \<Rightarrow> nat \<Rightarrow> Chunk list" where
  "emitted t sz budget start ordinal =
     (let body = js_trim (slice t start (chunk_end t sz budget start))
      in if body = [] then [] else [\<lparr>ch_ordinal = ordinal, ch_text = body\<rparr>])"

lemma chunk_loop_step:
  assumes "start < length t" and "0 < sz"
  shows "chunk_loop t sz overlap budget start ordinal =
    (let fin = chunk_end t sz budget start; here = emitted t sz budget start ordinal
     in if length t \<le> fin then here
        else here @ chunk_loop t sz overlap budget (next_start t start fin overlap) (ordinal + length here))"
  using assms by (simp add: chunk_loop.simps [of t sz overlap budget start ordinal] emitted_def Let_def)

text \<open>What the loop emits: an ordinal sequence of trimmed windows.\<close>

lemma chunk_loop_windows:
  "c \<in> set (chunk_loop t sz overlap budget start ordinal) \<Longrightarrow>
   \<exists>a. start \<le> a \<and> a < length t \<and> 0 < sz \<and> ch_text c \<noteq> [] \<and>
     ch_text c = js_trim (slice t a (chunk_end t sz budget a))"
proof (induction t sz overlap budget start ordinal rule: chunk_loop.induct)
  case (1 t sz overlap budget start ordinal)
  from "1.prems" have on: "start < length t" "0 < sz"
    by (auto simp: chunk_loop.simps [of t sz overlap budget start ordinal] split: if_splits)
  let ?e = "chunk_end t sz budget start" and ?h = "emitted t sz budget start ordinal"
  let ?n = "next_start t start ?e overlap"
  note step = chunk_loop_step [OF on, of overlap budget ordinal]
  show ?case
  proof (cases "c \<in> set ?h")
    case True
    with on show ?thesis by (intro exI [of _ start]) (auto simp: emitted_def Let_def split: if_splits)
  next
    case False
    with "1.prems" on have more: "\<not> length t \<le> ?e"
      and rest: "c \<in> set (chunk_loop t sz overlap budget ?n (ordinal + length ?h))"
      by (auto simp: step Let_def split: if_splits)
    have "start < ?n" using next_start_bounds(1) chunk_end_bounds(1,2) [OF on] by simp
    moreover from "1.IH" [OF _ refl refl refl more] rest on
    obtain a where "?n \<le> a" "a < length t" "ch_text c \<noteq> []"
      "ch_text c = js_trim (slice t a (chunk_end t sz budget a))"
      unfolding emitted_def Let_def by blast
    ultimately show ?thesis using on(2) by (intro exI [of _ a]) simp
  qed
qed

lemma chunk_loop_ordinals:
  "map ch_ordinal (chunk_loop t sz overlap budget start ordinal)
     = [ordinal ..< ordinal + length (chunk_loop t sz overlap budget start ordinal)]"
proof (induction t sz overlap budget start ordinal rule: chunk_loop.induct)
  case (1 t sz overlap budget start ordinal)
  show ?case
  proof (cases "start < length t \<and> 0 < sz")
    case on: True
    let ?e = "chunk_end t sz budget start" and ?h = "emitted t sz budget start ordinal"
    note step = chunk_loop_step [OF conjunct1 [OF on] conjunct2 [OF on], of overlap budget ordinal]
    have here: "map ch_ordinal ?h = [ordinal ..< ordinal + length ?h]"
      by (simp add: emitted_def Let_def)
    show ?thesis
    proof (cases "length t \<le> ?e")
      case True
      with on here show ?thesis by (simp add: step Let_def)
    next
      case False
      let ?r = "chunk_loop t sz overlap budget (next_start t start ?e overlap) (ordinal + length ?h)"
      have rest: "map ch_ordinal ?r = [ordinal + length ?h ..< ordinal + length ?h + length ?r]"
        using "1.IH" [OF on refl refl refl False] by (simp add: emitted_def Let_def)
      have "chunk_loop t sz overlap budget start ordinal = ?h @ ?r"
        unfolding step Let_def using False by simp
      moreover have "[ordinal ..< ordinal + (length ?h + length ?r)]
          = [ordinal ..< ordinal + length ?h] @ [ordinal + length ?h ..< ordinal + length ?h + length ?r]"
        by (metis add.assoc le_add1 upt_add_eq_append)
      ultimately show ?thesis using here rest by (metis length_append map_append)
    qed
  qed (auto simp: chunk_loop.simps [of t sz overlap budget start ordinal])
qed

lemma chunk_loop_covers:
  "0 < sz \<Longrightarrow> start \<le> p \<Longrightarrow> p < length t \<Longrightarrow> \<not> js_space (t ! p) \<Longrightarrow>
   \<exists>c \<in> set (chunk_loop t sz overlap budget start ordinal). \<exists>a b. a \<le> p \<and> p < b \<and> b \<le> length t \<and> ch_text c = slice t a b"
proof (induction t sz overlap budget start ordinal rule: chunk_loop.induct)
  case (1 t sz overlap budget start ordinal)
  let ?e = "chunk_end t sz budget start" and ?b = "js_trim (slice t start (chunk_end t sz budget start))"
  let ?n = "next_start t start ?e overlap" and ?h = "emitted t sz budget start ordinal"
  have on: "start < length t" "0 < sz" using "1.prems" by auto
  note e = chunk_end_bounds [OF on, of budget] and step = chunk_loop_step [OF on, of overlap budget ordinal]
  show ?case
  proof (cases "p < ?e")
    case True
    obtain a b where w: "start \<le> a" "a \<le> b" "b \<le> ?e" "?b = slice t a b"
      and cover: "\<And>p. start \<le> p \<Longrightarrow> p < ?e \<Longrightarrow> \<not> js_space (t ! p) \<Longrightarrow> a \<le> p \<and> p < b"
      using trim_slice [of start ?e t] e by (metis less_imp_le)
    have p: "a \<le> p" "p < b" using cover [OF "1.prems"(2) True "1.prems"(4)] by auto
    then have "length ?b > 0" using w e(2) by (simp add: length_slice)
    then have "\<lparr>ch_ordinal = ordinal, ch_text = ?b\<rparr> \<in> set (chunk_loop t sz overlap budget start ordinal)"
      using on by (auto simp: step emitted_def Let_def)
    moreover have "b \<le> length t" using w(3) e(2) by simp
    ultimately show ?thesis using p w(4) by (metis Chunk.select_convs(2))
  next
    case False
    then have more: "\<not> length t \<le> ?e" using "1.prems"(3) by simp
    have "?n \<le> p" using next_start_bounds(2) [OF e(1,2), of overlap] False by simp
    from "1.IH" [OF _ refl refl refl more "1.prems"(1) this "1.prems"(3,4)] on
    obtain c a b where "c \<in> set (chunk_loop t sz overlap budget ?n (ordinal + length ?h))"
      "a \<le> p" "p < b" "b \<le> length t" "ch_text c = slice t a b" by (auto simp: emitted_def Let_def)
    with more on show ?thesis by (auto simp: step Let_def)
  qed
qed

text \<open>\<open>chunk\<close> on its successful branches is one run of the loop.\<close>

lemma chunk_Inr:
  assumes "chunk t config = Inr cs"
  obtains (empty) "normalized t = []" "cs = []"
  | (loop) budget where "0 < cc_size config" "cc_overlap config < cc_size config"
      "budget = (case cc_maxTokens config of None \<Rightarrow> None | Some m \<Rightarrow> tokenBudget m)"
      "cc_maxTokens config \<noteq> None \<longrightarrow> budget \<noteq> None"
      "cs = chunk_loop (normalized t) (nat (cc_size config)) (cc_overlap config) budget 0 0"
  using assms by (auto simp: chunk_def split: if_splits option.splits)

lemma units_normalized: "units t \<Longrightarrow> units (normalized t)"
proof -
  assume u: "units t"
  then have "units (normalize_newlines t)"
    by (induction t rule: normalize_newlines.induct) (auto simp: units_def)
  moreover obtain pre suf where "normalize_newlines t = pre @ normalized t @ suf"
    using js_trim_parts [of "normalize_newlines t"] by (auto simp: normalized_def)
  ultimately show ?thesis by (metis Un_iff set_append units_def)
qed

subsection \<open>The properties of chunk\<close>

lemma chunk_piece:
  assumes "chunk t config = Inr cs" and "c \<in> set cs"
  obtains a b budget where "a < b" "b \<le> length (normalized t)" "ch_text c = slice (normalized t) a b"
    and "int (b - a) \<le> cc_size config"
proof -
  from assms(1) show thesis
  proof (cases rule: chunk_Inr)
    case empty
    with assms(2) show thesis by simp
  next
    case (loop budget)
    let ?t = "normalized t" and ?s = "nat (cc_size config)"
    obtain a where a: "a < length ?t" "0 < ?s" "ch_text c \<noteq> []"
      "ch_text c = js_trim (slice ?t a (chunk_end ?t ?s budget a))"
      using chunk_loop_windows assms(2) unfolding loop(5) by blast
    note e = chunk_end_bounds [OF a(1,2), of budget]
    obtain a' b' where w: "a \<le> a'" "a' \<le> b'" "b' \<le> chunk_end ?t ?s budget a"
      "js_trim (slice ?t a (chunk_end ?t ?s budget a)) = slice ?t a' b'"
      using trim_slice [of a "chunk_end ?t ?s budget a" ?t] e by (metis less_imp_le)
    have "a' < b'" using a(3,4) w(2,4) by (cases "a' = b'") (auto simp: slice_def)
    then show thesis by (rule that) (use a w e loop(1) in auto)
  qed
qed

subsection \<open>A document chunked\<close>

definition sample_text :: jstext where
  "sample_text = [104, 105, 32, 13, 10, 116, 104, 101, 114, 101, 46, 32, 0xAC00, 0xAC01, 0xAC02, 32, 98, 121, 101]"

definition sample_config :: ChunkConfig where
  "sample_config = \<lparr>cc_size = 8, cc_overlap = 3, cc_maxTokens = Some 10\<rparr>"

lemma last_index_of_numeral [simp]:
  "last_index_of t sep (numeral k) =
     (if occurs_at sep t (numeral k) then Some (numeral k) else last_index_of t sep (pred_numeral k))"
  by (simp add: numeral_eq_Suc)

lemma last_index_of_one [simp]:
  "last_index_of t sep (Suc 0) =
     (if occurs_at sep t 1 then Some 1 else last_index_of t sep 0)"
  by simp

lemmas chunk_eval =
  chunk_def normalized_def js_trim_def js_space_def tokenBudget_def TOKEN_RESERVE_def
  chunk_loop.simps chunk_end_def charactersWithinBudget_def budget_walk.simps codePointAt_def half_cost_def is_high_def is_low_def
  boundaryBefore_def SEPARATORS_def occurs_at_def slice_def next_start_def overlapStart_def

lemma sample_chunks:
  "chunk sample_text sample_config =
     Inr [\<lparr>ch_ordinal = 0, ch_text = [104, 105]\<rparr>, \<lparr>ch_ordinal = 1, ch_text = [116, 104, 101, 114, 101, 46]\<rparr>,
          \<lparr>ch_ordinal = 2, ch_text = [0xAC00, 0xAC01]\<rparr>, \<lparr>ch_ordinal = 3, ch_text = [0xAC02, 32, 98, 121, 101]\<rparr>]"
  by (simp add: chunk_eval sample_text_def sample_config_def)

subsection \<open>The properties of chunk\<close>

text \<open>Every chunk is a non-empty contiguous substring of the normalized document, no longer
  than the configured size.\<close>

theorem chunk_contiguous:
  assumes "chunk t config = Inr cs" and "c \<in> set cs"
  shows "\<exists>a b. a < b \<and> b \<le> length (normalized t) \<and> ch_text c = slice (normalized t) a b
    \<and> int (length (ch_text c)) \<le> cc_size config"
  using assms by (rule chunk_piece) (auto simp: length_slice)

theorem chunk_contiguous_witness:
  "\<exists>a b. a < b \<and> b \<le> length (normalized sample_text) \<and> [0xAC00, 0xAC01] = slice (normalized sample_text) a b"
  using chunk_contiguous [OF sample_chunks, of "\<lparr>ch_ordinal = 2, ch_text = [0xAC00, 0xAC01]\<rparr>"] by auto

text \<open>C38 - With a token budget of at least four (a maximum of eight tokens), no chunk's estimated
  token count exceeds the maximum less the reserve, whatever scripts the document mixes.\<close>

theorem chunk_within_budget:
  assumes "chunk t config = Inr cs" and "c \<in> set cs" and "units t"
    and "cc_maxTokens config = Some m" and "8 \<le> m"
  shows "estimateTokens (ch_text c) \<le> m - TOKEN_RESERVE"
  using assms(1)
proof (cases rule: chunk_Inr)
  case empty
  with assms(2) show ?thesis by simp
next
  case (loop budget)
  let ?t = "normalized t" and ?s = "nat (cc_size config)" and ?b = "m - TOKEN_RESERVE"
  have b: "budget = Some ?b" "4 \<le> ?b"
    using loop(3) assms(4,5) by (simp_all add: tokenBudget_def TOKEN_RESERVE_def)
  obtain a where a: "a < length ?t" "0 < ?s" "ch_text c = js_trim (slice ?t a (chunk_end ?t ?s budget a))"
    using chunk_loop_windows assms(2) unfolding loop(5) by blast
  have u: "units ?t" using assms(3) by (rule units_normalized)
  have "half_tokens (ch_text c) \<le> 2 * ?b"
    using half_tokens_trim [OF units_slice [OF u]] chunk_end_spends [OF u a(1,2) b(2)]
    unfolding a(3) b(1) by (rule order.trans)
  then show ?thesis by (simp add: estimate_le_budget)
qed

theorem chunk_within_budget_witness: "estimateTokens [0xAC00, 0xAC01] \<le> 6"
  using chunk_within_budget [OF sample_chunks, of "\<lparr>ch_ordinal = 2, ch_text = [0xAC00, 0xAC01]\<rparr>" 10]
  by (simp add: sample_config_def sample_text_def units_def TOKEN_RESERVE_def)

text \<open>Nothing is lost: every position of the normalized document that is not white space lies
  inside a chunk, and the ordinals count the chunks from zero without a gap.\<close>

theorem chunk_covers:
  assumes "chunk t config = Inr cs"
  shows "map ch_ordinal cs = [0 ..< length cs] \<and>
    (\<forall>p. p < length (normalized t) \<longrightarrow> \<not> js_space (normalized t ! p) \<longrightarrow>
       (\<exists>c \<in> set cs. \<exists>a b. a \<le> p \<and> p < b \<and> b \<le> length (normalized t) \<and> ch_text c = slice (normalized t) a b))"
  using assms
proof (cases rule: chunk_Inr)
  case (loop budget)
  have "map ch_ordinal cs = [0 ..< length cs]"
    using chunk_loop_ordinals [of "normalized t" "nat (cc_size config)" "cc_overlap config" budget 0 0]
    by (simp add: loop(5))
  moreover have "\<exists>c \<in> set cs. \<exists>a b. a \<le> p \<and> p < b \<and> b \<le> length (normalized t) \<and> ch_text c = slice (normalized t) a b"
    if "p < length (normalized t)" "\<not> js_space (normalized t ! p)" for p
    using chunk_loop_covers [of "nat (cc_size config)" 0 p "normalized t"] that loop(1) by (simp add: loop(5))
  ultimately show ?thesis by blast
qed simp

theorem chunk_covers_witness:
  "\<exists>(c :: Chunk) a b. a \<le> 13 \<and> 13 < b \<and> ch_text c = slice (normalized sample_text) a b"
proof -
  have n: "normalized sample_text = [104, 105, 32, 10, 116, 104, 101, 114, 101, 46, 32, 0xAC00, 0xAC01, 0xAC02, 32, 98, 121, 101]"
    by (simp add: sample_text_def chunk_eval)
  have p: "13 < length (normalized sample_text)" "\<not> js_space (normalized sample_text ! 13)"
    by (simp_all add: n js_space_def)
  show ?thesis
    by (rule bexE [OF mp [OF mp [OF spec [OF conjunct2 [OF chunk_covers [OF sample_chunks]]] p(1)] p(2)]])
       (elim exE conjE, intro exI conjI, assumption+)
qed

text \<open>\<open>chunk\<close> throws exactly on the configurations it names, and returns for every other; a
  document of white space alone has no chunks, before the token budget is even computed.\<close>

theorem chunk_throws:
  "chunk t config = Inl e \<longleftrightarrow>
     e = OverlapNotSmaller \<and> cc_size config \<le> cc_overlap config \<or>
     e = SizeNotPositive \<and> cc_overlap config < cc_size config \<and> cc_size config \<le> 0 \<or>
     e = NoTokenBudget \<and> cc_overlap config < cc_size config \<and> 0 < cc_size config
       \<and> (\<exists>u \<in> set t. \<not> js_space u) \<and> (\<exists>m. cc_maxTokens config = Some m \<and> m \<le> TOKEN_RESERVE)"
proof -
  have "normalized t = [] \<longleftrightarrow> (\<forall>u \<in> set t. js_space u)"
    by (simp add: normalized_def js_trim_Nil normalize_newlines_space)
  then show ?thesis by (auto simp: chunk_def tokenBudget_def split: option.splits)
qed

end
