(* ===== verification/Ingest.thy ===== *)
theory Ingest
  imports Points Queue Chunker
begin

text \<open>
  \<open>ingest\<close> of \<open>packages/worker/src/ingest.ts\<close>: parse, chunk, embed - chunking smaller when the
  embedder refuses for length - then write the row, its chunks and its points, with the document
  store (\<open>find\<close>, \<open>upsert\<close>) of \<open>packages/worker/src/adapters.ts\<close> on a world of tables and an index. The
  parser, the embedder, the hash and the id generator are the ports of the source.
\<close>

subsection \<open>Refusals\<close>

fun after :: "string \<Rightarrow> string \<Rightarrow> string list" where
  "after needle [] = (if needle = [] then [[]] else [])"
| "after needle (c # cs) =
     (if take (length needle) (c # cs) = needle then [drop (length needle) (c # cs)] else []) @ after needle cs"

text \<open>The four alternatives of the regular expression, on the message in lower case.\<close>

definition refusedForLength :: "string \<Rightarrow> bool" where
  "refusedForLength message =
     (let text = lower message
      in (\<exists>rest \<in> set (after ''must have less than '' text).
            takeWhile digit rest \<noteq> [] \<and> take 7 (dropWhile digit rest) = '' tokens'')
         \<or> contains ''too long'' text
         \<or> (\<exists>v \<in> set [''exceed '', ''exceeds '']. \<exists>a \<in> set ['''', ''the '']. \<exists>b \<in> set ['''', ''input ''].
              contains (v @ a @ ''maximum '' @ b @ ''length'') text)
         \<or> contains ''context length'' text)"

datatype IngestFailureReason = TooLong | Unreadable | Unavailable | Quota | Internal

definition isRetryable :: "IngestFailureReason \<Rightarrow> bool" where
  "isRetryable reason \<longleftrightarrow> reason = Unavailable \<or> reason = Internal"

text \<open>The order of the tests decides: the first that matches gives the reason.\<close>

definition failure_reason :: "string \<Rightarrow> IngestFailureReason" where
  "failure_reason raw =
     (let text = lower raw; mentions = (\<lambda>ps. \<exists>p \<in> set ps. contains p text)
      in if (\<exists>rest \<in> set (after ''must have less than '' text).
               takeWhile digit rest \<noteq> [] \<and> take 7 (dropWhile digit rest) = '' tokens'')
            \<or> mentions [''too long'', ''maximum length'', ''maximum input length'', ''context length''] then TooLong
         else if mentions [''quota'', ''max_documents'', ''limit reached'', ''too many documents''] then Quota
         else if mentions [''econnrefused'', ''enotfound'', ''etimedout'', ''timeout'', ''fetch failed'', ''socket'',
                           ''unavailable'', ''network'']
            \<or> (\<exists>rest \<in> set (after ''answered 5'' text). length rest \<ge> 2 \<and> digit (rest ! 0) \<and> digit (rest ! 1)) then Unavailable
         else if mentions [''parse'', ''unsupported'', ''not a pdf'', ''%pdf'', ''decode'', ''extract''] then Unreadable
         else Internal)"

subsection \<open>The ports and the world\<close>

datatype ParseSource = FromBytes "nat list" string | FromContent jstext | FromUrl string

record ParsedDocument =
  pd_text :: jstext
  pd_metadata :: "(string \<times> jsval) list"

text \<open>
  The \<open>k\<close>-th embedding request of a pass may be answered differently from the last; \<open>po_newId\<close> is the
  \<open>k\<close>-th identifier drawn.
\<close>

record IngestPorts =
  po_parse :: "ParseSource \<Rightarrow> string + ParsedDocument"
  po_embed :: "nat \<Rightarrow> jstext list \<Rightarrow> string + rat list list"
  po_hash_text :: "jstext \<Rightarrow> string"
  po_hash_bytes :: "nat list \<Rightarrow> string"
  po_newId :: "nat \<Rightarrow> string"
  po_unicode :: Unicode

record StoredChunk =
  sc_org :: string
  sc_document :: string
  sc_ordinal :: nat
  sc_text :: jstext
  sc_point :: string

record 's World =
  wd_docs :: table
  wd_chunks :: "StoredChunk list"
  wd_index :: "Indexer \<times> 's"

record IngestRequest =
  ir_org :: string
  ir_collection :: string
  ir_layer :: string
  ir_vectorName :: string
  ir_external :: string
  ir_metadata :: "(string \<times> jsval) list"
  ir_content :: "jstext option"
  ir_url :: "string option"
  ir_bytes :: "nat list option"
  ir_contentType :: "string option"
  ir_chunkConfig :: "ChunkConfig option"
  ir_claim :: "nat option"

record IngestResult =
  re_documentId :: string
  re_chunkCount :: nat
  re_unchanged :: bool

datatype IngestError =
    NotOneSource | NoContentType | ParseFailed string | ChunkFailed ChunkError | EmbedFailed string
  | VectorCount nat nat | StoreFailed UpsertError

subsection \<open>The document store\<close>

definition findDocument :: "string \<Rightarrow> string \<Rightarrow> string \<Rightarrow> table \<Rightarrow> QDoc option" where
  "findDocument orgId layerId externalId docs =
     find (\<lambda>d. qd_org d = orgId \<and> qd_layer d = layerId \<and> qd_external d = externalId \<and> qd_deleted_at d = None) docs"

fun write_message :: "WriteError \<Rightarrow> string" where
  "write_message (UpsertRejected collection cause) = ''upsert into '' @ collection @ '' rejected: '' @ cause"
| "write_message (SweepRejected collection cause) = ''sweep of '' @ collection @ '' rejected: '' @ cause"

text \<open>
  The transaction of \<open>upsert\<close>: the row, its chunks replaced, and the points written before it commits.
  A write that throws rolls the tables back and leaves the index as the write left it.
\<close>

definition upsertDocument :: "string \<Rightarrow> nat \<Rightarrow> UpsertInput \<Rightarrow> (nat \<times> jstext \<times> string) list
    \<Rightarrow> (string \<Rightarrow> Indexer \<times> 's \<Rightarrow> (WriteError + unit) \<times> (Indexer \<times> 's)) \<Rightarrow> 's World \<Rightarrow> (UpsertError + string) \<times> 's World" where
  "upsertDocument newId now input chunks wr w =
     (case upsert_statement newId now input (wd_docs w) of
        (None, _) \<Rightarrow> (Inl (if ui_claim input \<noteq> None then ClaimLost else NoId), w)
      | (Some i, docs') \<Rightarrow>
          (case wr i (wd_index w) of
             (Inl e, ix) \<Rightarrow> (Inl (WriteFailed (write_message e)), w\<lparr>wd_index := ix\<rparr>)
           | (Inr _, ix) \<Rightarrow>
               (Inr i, w\<lparr>wd_docs := docs',
                  wd_chunks := filter (\<lambda>c. \<not> (sc_org c = ui_org input \<and> sc_document c = i)) (wd_chunks w) @
                    map (\<lambda>(ordinal, text, point). \<lparr>sc_org = ui_org input, sc_document = i, sc_ordinal = ordinal,
                           sc_text = text, sc_point = point\<rparr>) chunks,
                  wd_index := ix\<rparr>)))"

subsection \<open>Embedding\<close>

definition EMBED_SPLIT_ATTEMPTS :: nat where "EMBED_SPLIT_ATTEMPTS = 3"

definition MIN_EMBED_TOKENS :: nat where "MIN_EMBED_TOKENS = 64"

definition next_budget :: "nat \<Rightarrow> nat" where
  "next_budget budget = max (budget div 2) MIN_EMBED_TOKENS"

function embed_loop :: "IngestPorts \<Rightarrow> jstext \<Rightarrow> ChunkConfig \<Rightarrow> nat \<Rightarrow> nat \<Rightarrow> Chunk list
    \<Rightarrow> IngestError + Chunk list \<times> rat list list" where
  "embed_loop ports t config attempt budget chunks =
     (case po_embed ports attempt (map ch_text chunks) of
        Inr vectors \<Rightarrow> Inr (chunks, vectors)
      | Inl error \<Rightarrow>
          if attempt \<ge> EMBED_SPLIT_ATTEMPTS \<or> \<not> refusedForLength error then Inl (EmbedFailed error)
          else (case chunk t (config\<lparr>cc_maxTokens := Some (next_budget budget)\<rparr>) of
                  Inl e \<Rightarrow> Inl (ChunkFailed e)
                | Inr smaller \<Rightarrow> embed_loop ports t config (attempt + 1) (next_budget budget) smaller))"
  by pat_completeness auto
termination by (relation "measure (\<lambda>(ports, t, config, attempt, budget, chunks). EMBED_SPLIT_ATTEMPTS - attempt)") auto

declare embed_loop.simps [simp del]

subsection \<open>ingest\<close>

definition parse_source :: "IngestRequest \<Rightarrow> ParseSource" where
  "parse_source request =
     (case ir_bytes request of
        Some bytes \<Rightarrow> FromBytes bytes (the (ir_contentType request))
      | None \<Rightarrow> (case ir_content request of
                   Some content \<Rightarrow> FromContent content
                 | None \<Rightarrow> FromUrl (the (ir_url request))))"

definition source_count :: "IngestRequest \<Rightarrow> nat" where
  "source_count request =
     (if ir_content request \<noteq> None then 1 else 0) + (if ir_url request \<noteq> None then 1 else 0)
     + (if ir_bytes request \<noteq> None then 1 else 0)"

definition pass_hash :: "IngestPorts \<Rightarrow> IngestRequest \<Rightarrow> ParsedDocument \<Rightarrow> string" where
  "pass_hash ports request parsed =
     (case ir_bytes request of
        Some bytes \<Rightarrow> ''sha256:'' @ po_hash_bytes ports bytes
      | None \<Rightarrow> ''sha256:'' @ po_hash_text ports (pd_text parsed))"

definition config_of :: "IngestRequest \<Rightarrow> ChunkConfig" where
  "config_of request = (case ir_chunkConfig request of Some c \<Rightarrow> c | None \<Rightarrow> DEFAULT_CHUNK_CONFIG)"

definition upsert_input :: "IngestRequest \<Rightarrow> ParsedDocument \<Rightarrow> string \<Rightarrow> nat \<Rightarrow> UpsertInput" where
  "upsert_input request parsed digest n =
     \<lparr>ui_org = ir_org request, ui_layer = ir_layer request, ui_external = ir_external request, ui_hash = digest,
      ui_metadata = JObj (pd_metadata parsed), ui_chunks = n, ui_claim = ir_claim request\<rparr>"

definition write_input :: "IngestRequest \<Rightarrow> IngestPoint list \<Rightarrow> string \<Rightarrow> WriteInput" where
  "write_input request points documentId =
     \<lparr>wi_org = ir_org request, wi_collection = ir_collection request, wi_layer = ir_layer request,
      wi_document = documentId, wi_vectorName = ir_vectorName request, wi_metadata = ir_metadata request,
      wi_points = points\<rparr>"

text \<open>\<open>withPoints\<close> and the points written for them: the \<open>i\<close>-th chunk, its id, its vector, its terms.\<close>

definition with_points :: "IngestPorts \<Rightarrow> Chunk list \<Rightarrow> (nat \<times> jstext \<times> string) list" where
  "with_points ports chunks = map (\<lambda>(k, c). (ch_ordinal c, ch_text c, po_newId ports k)) (List.enumerate 0 chunks)"

definition ingest_points :: "IngestPorts \<Rightarrow> (nat \<times> jstext \<times> string) list \<Rightarrow> rat list list \<Rightarrow> IngestPoint list" where
  "ingest_points ports withPoints vectors =
     map (\<lambda>((ordinal, text, point), v). \<lparr>ip_id = point, ip_ordinal = ordinal, ip_vector = v,
            ip_sparse = encodeDocument (po_unicode ports) text\<rparr>) (zip withPoints vectors)"

definition store_pass :: "'s QdrantClient \<Rightarrow> string \<Rightarrow> nat \<Rightarrow> IngestRequest \<Rightarrow> IngestPorts \<Rightarrow> ParsedDocument \<Rightarrow> string
    \<Rightarrow> Chunk list \<Rightarrow> rat list list \<Rightarrow> 's World \<Rightarrow> (IngestError + IngestResult) \<times> 's World" where
  "store_pass client newDoc now request ports parsed digest chunks vectors w =
     (let withPoints = with_points ports chunks;
          points = ingest_points ports withPoints vectors
      in case upsertDocument newDoc now (upsert_input request parsed digest (length chunks)) withPoints
                (\<lambda>i ix. write_points client (write_input request points i) ix) w of
           (Inl e, w') \<Rightarrow> (Inl (StoreFailed e), w')
         | (Inr i, w') \<Rightarrow> (Inr \<lparr>re_documentId = i, re_chunkCount = length chunks, re_unchanged = False\<rparr>, w'))"

text \<open>What follows the parse: nothing when this content is indexed already, else chunk, embed and store.\<close>

definition plan_chunks :: "IngestPorts \<Rightarrow> IngestRequest \<Rightarrow> ParsedDocument \<Rightarrow> IngestError + Chunk list \<times> rat list list" where
  "plan_chunks ports request parsed =
     (case chunk (pd_text parsed) (config_of request) of
        Inl e \<Rightarrow> Inl (ChunkFailed e)
      | Inr planned \<Rightarrow>
          if planned = [] then Inr ([], [])
          else (case embed_loop ports (pd_text parsed) (config_of request) 0
                      (case cc_maxTokens (config_of request) of Some m \<Rightarrow> m | None \<Rightarrow> DEFAULT_EMBED_MAX_TOKENS) planned of
                  Inl e \<Rightarrow> Inl e
                | Inr (chunks, vectors) \<Rightarrow>
                    if length vectors \<noteq> length chunks then Inl (VectorCount (length vectors) (length chunks))
                    else Inr (chunks, vectors)))"

definition index_parsed :: "'s QdrantClient \<Rightarrow> string \<Rightarrow> nat \<Rightarrow> IngestRequest \<Rightarrow> IngestPorts \<Rightarrow> ParsedDocument \<Rightarrow> 's World
    \<Rightarrow> (IngestError + IngestResult) \<times> 's World" where
  "index_parsed client newDoc now request ports parsed w =
     (let digest = pass_hash ports request parsed;
          existing = findDocument (ir_org request) (ir_layer request) (ir_external request) (wd_docs w)
      in if (case existing of Some d \<Rightarrow> qd_hash d = digest \<and> qd_status d = Indexed | None \<Rightarrow> False)
         then (Inr \<lparr>re_documentId = qd_id (the existing), re_chunkCount = qd_chunk_count (the existing),
                    re_unchanged = True\<rparr>, w)
         else case plan_chunks ports request parsed of
                Inl e \<Rightarrow> (Inl e, w)
              | Inr (chunks, vectors) \<Rightarrow> store_pass client newDoc now request ports parsed digest chunks vectors w)"

definition ingest :: "'s QdrantClient \<Rightarrow> string \<Rightarrow> nat \<Rightarrow> IngestRequest \<Rightarrow> IngestPorts \<Rightarrow> 's World
    \<Rightarrow> (IngestError + IngestResult) \<times> 's World" where
  "ingest client newDoc now request ports w =
     (if source_count request \<noteq> 1 then (Inl NotOneSource, w)
      else if ir_bytes request \<noteq> None \<and> ir_contentType request = None then (Inl NoContentType, w)
      else case po_parse ports (parse_source request) of
             Inl e \<Rightarrow> (Inl (ParseFailed e), w)
           | Inr parsed \<Rightarrow> index_parsed client newDoc now request ports parsed w)"

subsection \<open>What a pass leaves behind\<close>

lemma next_budget_bounds: "MIN_EMBED_TOKENS \<le> next_budget b" "next_budget b \<le> max b MIN_EMBED_TOKENS"
  by (auto simp: next_budget_def)

lemma embed_loop_Inr:
  assumes "embed_loop ports t config attempt budget chunks = Inr (cs, vs)"
  shows "(\<exists>k. po_embed ports k (map ch_text cs) = Inr vs) \<and>
    (cs = chunks \<or> (\<exists>m. MIN_EMBED_TOKENS \<le> m \<and> m \<le> max budget MIN_EMBED_TOKENS
       \<and> chunk t (config\<lparr>cc_maxTokens := Some m\<rparr>) = Inr cs))"
  using assms
proof (induction ports t config attempt budget chunks rule: embed_loop.induct)
  case (1 ports t config attempt budget chunks)
  show ?case
  proof (cases "po_embed ports attempt (map ch_text chunks)")
    case (Inr vectors)
    with 1(2) show ?thesis by (auto simp: embed_loop.simps [of ports t config attempt])
  next
    case (Inl e)
    let ?c = "config\<lparr>cc_maxTokens := Some (next_budget budget)\<rparr>"
    have go: "\<not> (attempt \<ge> EMBED_SPLIT_ATTEMPTS \<or> \<not> refusedForLength e)"
      using 1(2) Inl by (auto simp: embed_loop.simps [of ports t config attempt] split: if_splits)
    obtain smaller where sm: "chunk t ?c = Inr smaller"
      "embed_loop ports t config (attempt + 1) (next_budget budget) smaller = Inr (cs, vs)"
      using 1(2) Inl go by (auto simp: embed_loop.simps [of ports t config attempt] split: if_splits sum.splits)
    have bound: "max (next_budget budget) MIN_EMBED_TOKENS \<le> max budget MIN_EMBED_TOKENS"
      using next_budget_bounds [of budget] by simp
    from 1(1) [OF Inl go sm] show ?thesis
    proof (elim conjE disjE exE, goal_cases)
      case (1 k)
      with sm(1) next_budget_bounds [of budget] show ?case by blast
    next
      case (2 k m)
      with bound have "m \<le> max budget MIN_EMBED_TOKENS" by linarith
      with 2 show ?case by blast
    qed
  qed
qed

lemma chunk_ordinals: "chunk t config = Inr cs \<Longrightarrow> map ch_ordinal cs = [0 ..< length cs]"
  by (erule chunk_Inr) (simp_all add: chunk_loop_ordinals)

definition chunk_point :: "IngestPorts \<Rightarrow> Chunk list \<Rightarrow> rat list list \<Rightarrow> nat \<Rightarrow> IngestPoint" where
  "chunk_point ports cs vs j =
     \<lparr>ip_id = po_newId ports j, ip_ordinal = j, ip_vector = vs ! j,
      ip_sparse = encodeDocument (po_unicode ports) (ch_text (cs ! j))\<rparr>"

lemma with_points_nth:
  assumes "map ch_ordinal cs = [0 ..< length cs]"
  shows "with_points ports cs = map (\<lambda>j. (j, ch_text (cs ! j), po_newId ports j)) [0 ..< length cs]"
proof (rule nth_equalityI)
  fix j assume "j < length (with_points ports cs)"
  then have "j < length cs" by (simp add: with_points_def)
  moreover from this have "ch_ordinal (cs ! j) = j" using assms by (metis add_0 nth_map nth_upt)
  ultimately show "with_points ports cs ! j = map (\<lambda>j. (j, ch_text (cs ! j), po_newId ports j)) [0 ..< length cs] ! j"
    by (simp add: with_points_def nth_enumerate_eq)
qed (simp add: with_points_def)

lemma ingest_points_nth:
  assumes "map ch_ordinal cs = [0 ..< length cs]" and "length vs = length cs"
  shows "ingest_points ports (with_points ports cs) vs = map (chunk_point ports cs vs) [0 ..< length cs]"
  by (rule nth_equalityI)
     (simp_all add: ingest_points_def with_points_nth [OF assms(1)] assms(2) chunk_point_def)

text \<open>
  The specification of an indexed document: its row says so, its chunk rows are the chunks in
  order, and the points of the collection that carry its id are one for each chunk, with that
  chunk's vector and that chunk's terms.
\<close>

definition indexed_exactly :: "('s \<Rightarrow> string \<Rightarrow> string \<rightharpoonup> Point) \<Rightarrow> IngestRequest \<Rightarrow> IngestPorts \<Rightarrow> string \<Rightarrow> Chunk list
    \<Rightarrow> rat list list \<Rightarrow> string \<Rightarrow> 's World \<Rightarrow> bool" where
  "indexed_exactly view request ports digest cs vs i w \<longleftrightarrow>
     (\<exists>d \<in> set (wd_docs w). qd_id d = i \<and> qd_status d = Indexed \<and> qd_hash d = digest \<and> qd_chunk_count d = length cs) \<and>
     filter (\<lambda>c. sc_org c = ir_org request \<and> sc_document c = i) (wd_chunks w) =
       map (\<lambda>j. \<lparr>sc_org = ir_org request, sc_document = i, sc_ordinal = j, sc_text = ch_text (cs ! j),
                 sc_point = po_newId ports j\<rparr>) [0 ..< length cs] \<and>
     (\<forall>j < length cs. view (snd (wd_index w)) (ir_collection request) (po_newId ports j)
        = Some (point_of (write_input request [] i) (chunk_point ports cs vs j))) \<and>
     (\<forall>x p. view (snd (wd_index w)) (ir_collection request) x = Some p \<longrightarrow> map_of (pt_payload p) ''doc_id'' = Some (JStr i) \<longrightarrow>
        x \<in> po_newId ports ` {..< length cs})"

lemma write_input_simps [simp]:
  "wi_org (write_input request ps i) = ir_org request" "wi_collection (write_input request ps i) = ir_collection request"
  "wi_layer (write_input request ps i) = ir_layer request" "wi_document (write_input request ps i) = i"
  "wi_metadata (write_input request ps i) = ir_metadata request" "wi_points (write_input request ps i) = ps"
  by (simp_all add: write_input_def)

lemma point_of_write_input: "point_of (write_input request ps i) = point_of (write_input request [] i)"
  by (rule ext) (simp add: point_of_def write_input_def)

lemma upsert_statement_row:
  assumes "upsert_statement newId now input docs = (Some i, docs')"
  shows "\<exists>d \<in> set docs'. qd_id d = i \<and> qd_status d = Indexed \<and> qd_hash d = ui_hash input \<and> qd_chunk_count d = ui_chunks input"
proof (cases "find (\<lambda>d. qd_layer d = ui_layer input \<and> qd_external d = ui_external input) docs")
  case None
  with assms show ?thesis by (auto simp: upsert_statement_def inserted_row_def)
next
  case (Some d)
  then have "d \<in> set docs" by (auto simp: find_Some_iff)
  then have "index_row input d \<in> set (update_where (\<lambda>x. qd_id x = qd_id d) (index_row input) docs)"
    by (auto simp: in_update_where)
  with Some assms show ?thesis
    by (intro bexI [of _ "index_row input d"]) (auto simp: upsert_statement_def index_row_def split: if_splits)
qed

lemma store_pass_indexes:
  assumes q: "qdrant_store client view" and ids: "inj (po_newId ports)"
    and cs: "map ch_ordinal cs = [0 ..< length cs]" "length vs = length cs"
    and run: "store_pass client newDoc now request ports parsed digest cs vs w = (Inr res, w')"
  shows "indexed_exactly view request ports digest cs vs (re_documentId res) w' \<and> re_chunkCount res = length cs"
proof -
  let ?i = "re_documentId res" and ?ps = "map (chunk_point ports cs vs) [0 ..< length cs]"
  let ?in = "write_input request ?ps ?i"
  obtain docs' ix where st: "upsert_statement newDoc now (upsert_input request parsed digest (length cs)) (wd_docs w) = (Some ?i, docs')"
    and wr: "write_points client ?in (wd_index w) = (Inr (), ix)"
    and w': "wd_docs w' = docs'" "wd_index w' = ix"
      "wd_chunks w' = filter (\<lambda>c. \<not> (sc_org c = ir_org request \<and> sc_document c = ?i)) (wd_chunks w) @
         map (\<lambda>j. \<lparr>sc_org = ir_org request, sc_document = ?i, sc_ordinal = j, sc_text = ch_text (cs ! j),
                 sc_point = po_newId ports j\<rparr>) [0 ..< length cs]"
    and n: "re_chunkCount res = length cs"
    using run
    by (auto simp: store_pass_def upsertDocument_def upsert_input_def ingest_points_nth [OF cs, unfolded with_points_nth [OF cs(1)]] with_points_nth [OF cs(1)]
          Let_def comp_def
        split: prod.splits sum.splits option.splits)
  have d: "distinct (map ip_id (wi_points ?in))"
    using ids by (auto simp: chunk_point_def distinct_map inj_on_def)
  have v: "view (snd ix) (ir_collection request) x =
      (case map_of (map (\<lambda>p. (ip_id p, point_of ?in p)) ?ps) x of Some p \<Rightarrow> Some p
       | None \<Rightarrow> (case view (snd (wd_index w)) (ir_collection request) x of
           Some p \<Rightarrow> if map_of (pt_payload p) ''doc_id'' = Some (JStr ?i) then None else Some p | None \<Rightarrow> None))" for x
    using write_points_view [OF q wr d, where c = "ir_collection request" and i = x]
    unfolding write_input_simps by simp
  have m: "map_of (map (\<lambda>p. (ip_id p, point_of ?in p)) ?ps) (po_newId ports j)
      = Some (point_of ?in (chunk_point ports cs vs j))" if "j < length cs" for j
    using that d by (intro map_of_is_SomeI) (auto simp: comp_def chunk_point_def)
  have "x \<in> po_newId ports ` {..< length cs}"
    if "view (snd ix) (ir_collection request) x = Some p" "map_of (pt_payload p) ''doc_id'' = Some (JStr ?i)" for x p
  proof (rule ccontr)
    assume "x \<notin> po_newId ports ` {..< length cs}"
    then have "map_of (map (\<lambda>p. (ip_id p, point_of ?in p)) ?ps) x = None"
      by (auto simp: map_of_eq_None_iff chunk_point_def)
    with that v [of x] show False by (auto split: option.splits if_splits)
  qed
  moreover have "view (snd ix) (ir_collection request) (po_newId ports j)
      = Some (point_of (write_input request [] ?i) (chunk_point ports cs vs j))" if "j < length cs" for j
    using v [of "po_newId ports j"] m [OF that] by (simp add: point_of_write_input [of _ ?ps])
  moreover have "\<exists>d \<in> set docs'. qd_id d = ?i \<and> qd_status d = Indexed \<and> qd_hash d = digest \<and> qd_chunk_count d = length cs"
    using upsert_statement_row [OF st] by (simp add: upsert_input_def)
  ultimately show ?thesis unfolding indexed_exactly_def w' by (simp add: n filter_False comp_def)
qed

lemma store_pass_failed:
  assumes "store_pass client newDoc now request ports parsed digest cs vs w = (Inl e, w')"
  shows "wd_docs w' = wd_docs w \<and> wd_chunks w' = wd_chunks w \<and> (w' = w \<or> (\<exists>m. e = StoreFailed (WriteFailed m)))"
  using assms
  by (auto simp: store_pass_def upsertDocument_def Let_def split: prod.splits sum.splits option.splits)

lemma plan_chunks_Inr:
  assumes "plan_chunks ports request parsed = Inr (cs, vs)"
  shows "chunk (pd_text parsed) (config_of request) = Inr cs \<or>
      (\<exists>m. MIN_EMBED_TOKENS \<le> m \<and> chunk (pd_text parsed) ((config_of request)\<lparr>cc_maxTokens := Some m\<rparr>) = Inr cs)"
    and "length vs = length cs" and "cs = [] \<or> (\<exists>k. po_embed ports k (map ch_text cs) = Inr vs)"
  using assms by (auto simp: plan_chunks_def dest!: embed_loop_Inr split: sum.splits if_splits)

lemma ingest_cases:
  assumes "ingest client newDoc now request ports w = (r, w')"
  obtains (refused) e where "r = Inl e" "w' = w"
  | (unchanged) parsed d where "po_parse ports (parse_source request) = Inr parsed" "d \<in> set (wd_docs w)"
      "qd_layer d = ir_layer request" "qd_external d = ir_external request"
      "qd_status d = Indexed" "qd_deleted_at d = None" "qd_hash d = pass_hash ports request parsed" "w' = w"
      "r = Inr \<lparr>re_documentId = qd_id d, re_chunkCount = qd_chunk_count d, re_unchanged = True\<rparr>"
  | (stored) parsed cs vs where "po_parse ports (parse_source request) = Inr parsed"
      "chunk (pd_text parsed) (config_of request) = Inr cs \<or>
         (\<exists>m. MIN_EMBED_TOKENS \<le> m \<and> chunk (pd_text parsed) ((config_of request)\<lparr>cc_maxTokens := Some m\<rparr>) = Inr cs)"
      "length vs = length cs" "cs = [] \<or> (\<exists>k. po_embed ports k (map ch_text cs) = Inr vs)"
      "store_pass client newDoc now request ports parsed (pass_hash ports request parsed) cs vs w = (r, w')"
proof (cases "source_count request \<noteq> 1 \<or> ir_bytes request \<noteq> None \<and> ir_contentType request = None
      \<or> (\<exists>e. po_parse ports (parse_source request) = Inl e)")
  case True
  with assms refused show ?thesis by (auto simp: ingest_def split: if_splits sum.splits)
next
  case False
  then obtain parsed where parsed: "po_parse ports (parse_source request) = Inr parsed"
    "index_parsed client newDoc now request ports parsed w = (r, w')"
    using assms by (auto simp: ingest_def split: sum.splits)
  let ?h = "pass_hash ports request parsed"
  let ?e = "findDocument (ir_org request) (ir_layer request) (ir_external request) (wd_docs w)"
  show ?thesis
  proof (cases "case ?e of Some d \<Rightarrow> qd_hash d = ?h \<and> qd_status d = Indexed | None \<Rightarrow> False")
    case True
    then obtain d where d: "?e = Some d" "qd_hash d = ?h" "qd_status d = Indexed" by (auto split: option.splits)
    moreover from d(1) have "d \<in> set (wd_docs w)" "qd_layer d = ir_layer request" "qd_external d = ir_external request"
      "qd_deleted_at d = None"
      by (auto simp: findDocument_def find_Some_iff)
    ultimately show ?thesis using True parsed by (intro unchanged [of parsed d]) (auto simp: index_parsed_def Let_def)
  next
    case new: False
    show ?thesis
    proof (cases "plan_chunks ports request parsed")
      case (Inl e)
      with new parsed refused show ?thesis by (auto simp: index_parsed_def Let_def)
    next
      case (Inr cv)
      obtain cs vs where cv: "cv = (cs, vs)" by (cases cv)
      note p = plan_chunks_Inr [OF Inr [unfolded cv]]
      have "store_pass client newDoc now request ports parsed ?h cs vs w = (r, w')"
        using new parsed(2) Inr cv by (simp add: index_parsed_def Let_def)
      with parsed(1) p show ?thesis by (rule stored)
    qed
  qed
qed

subsection \<open>The properties of ingest\<close>

text \<open>C4 - An indexing pass that succeeds has indexed the document exactly: the row, the chunk rows and the
  points of the document are those of one chunking of the parsed text - with the configured token
  maximum or, after a refusal for length, one of at least 64 - every point has the vector the
  embedder returned for its chunk and the terms of its chunk, and no other point of the document is
  left. A pass that finds the content indexed already changes nothing, and a pass that fails leaves
  the tables as they were.\<close>

theorem ingest_indexes:
  assumes "qdrant_store client view" and "inj (po_newId ports)"
    and "ingest client newDoc now request ports w = (r, w')"
  shows "case r of
      Inl e \<Rightarrow> wd_docs w' = wd_docs w \<and> wd_chunks w' = wd_chunks w \<and> (w' = w \<or> (\<exists>m. e = StoreFailed (WriteFailed m)))
    | Inr res \<Rightarrow> \<exists>parsed. po_parse ports (parse_source request) = Inr parsed \<and>
        (if re_unchanged res
         then w' = w \<and> (\<exists>d \<in> set (wd_docs w). qd_id d = re_documentId res \<and> qd_status d = Indexed
           \<and> qd_hash d = pass_hash ports request parsed \<and> qd_deleted_at d = None)
         else \<exists>cs vs. (chunk (pd_text parsed) (config_of request) = Inr cs \<or>
             (\<exists>m \<ge> 64. chunk (pd_text parsed) ((config_of request)\<lparr>cc_maxTokens := Some m\<rparr>) = Inr cs))
           \<and> length vs = length cs \<and> (cs = [] \<or> (\<exists>k. po_embed ports k (map ch_text cs) = Inr vs))
           \<and> re_chunkCount res = length cs
           \<and> indexed_exactly view request ports (pass_hash ports request parsed) cs vs (re_documentId res) w')"
  using assms(3)
proof (cases rule: ingest_cases)
  case (refused e)
  then show ?thesis by simp
next
  case (unchanged parsed d)
  then show ?thesis by auto
next
  case (stored parsed cs vs)
  have ord: "map ch_ordinal cs = [0 ..< length cs]" using stored(2) chunk_ordinals by blast
  show ?thesis
  proof (cases r)
    case (Inl e)
    with store_pass_failed [OF stored(5) [unfolded Inl]] show ?thesis by simp
  next
    case (Inr res)
    have "\<not> re_unchanged res"
      using stored(5) Inr by (auto simp: store_pass_def Let_def split: prod.splits sum.splits)
    moreover note store_pass_indexes [OF assms(1,2) ord stored(3) stored(5) [unfolded Inr]]
    ultimately show ?thesis using stored(1-4) Inr by (auto simp: MIN_EMBED_TOKENS_def)
  qed
qed

definition sample_request :: IngestRequest where
  "sample_request = \<lparr>ir_org = ''acme'', ir_collection = ''org_acme'', ir_layer = ''l1'', ir_vectorName = ''v'',
     ir_external = ''e1'', ir_metadata = [], ir_content = Some sample_text, ir_url = None, ir_bytes = None,
     ir_contentType = None, ir_chunkConfig = Some sample_config, ir_claim = Some 0\<rparr>"

definition sample_ports :: IngestPorts where
  "sample_ports = \<lparr>po_parse = (\<lambda>s. Inr \<lparr>pd_text = sample_text, pd_metadata = []\<rparr>),
     po_embed = (\<lambda>k texts. Inr (map (\<lambda>t. [of_nat (length t)]) texts)), po_hash_text = (\<lambda>t. ''h''),
     po_hash_bytes = (\<lambda>b. ''h''), po_newId = (\<lambda>k. replicate (Suc k) (CHR ''p'')), po_unicode = ascii\<rparr>"

definition sample_world :: "memory World" where
  "sample_world = \<lparr>wd_docs = sample_claimed, wd_chunks = [], wd_index = (\<lparr>ix_known = [], ix_atLimit = []\<rparr>, sample_index)\<rparr>"

lemma sample_statement:
  "\<exists>docs'. upsert_statement n now (upsert_input sample_request parsed digest k) sample_claimed = (Some ''d1'', docs')"
  by (simp add: upsert_statement_def upsert_input_def sample_request_def sample_claimed_def sample_queued_def queue_def
      update_where_def lease_def inserted_row_def sample_doc_def fenced_def)

lemma sample_plan:
  "\<exists>cs vs. plan_chunks sample_ports sample_request \<lparr>pd_text = sample_text, pd_metadata = []\<rparr> = Inr (cs, vs) \<and> length cs = 4"
  by (simp add: plan_chunks_def config_of_def sample_request_def sample_chunks embed_loop.simps sample_ports_def)

lemma sample_ingested:
  "\<exists>w'. ingest memory_client ''d9'' 1 sample_request sample_ports sample_world
     = (Inr \<lparr>re_documentId = ''d1'', re_chunkCount = 4, re_unchanged = False\<rparr>, w')"
proof -
  let ?parsed = "\<lparr>pd_text = sample_text, pd_metadata = []\<rparr> :: ParsedDocument"
  obtain cs vs where p: "plan_chunks sample_ports sample_request ?parsed = Inr (cs, vs)" "length cs = 4"
    using sample_plan by blast
  obtain docs' where u: "upsert_statement ''d9'' 1 (upsert_input sample_request ?parsed (pass_hash sample_ports sample_request ?parsed) 4)
      sample_claimed = (Some ''d1'', docs')"
    using sample_statement by blast
  have "fst (write_points memory_client input st) = Inr ()" for input st
    by (simp add: write_points_def memory_client_def upsertPoints_def sweep_def split: prod.splits)
  then have w: "\<exists>ix. write_points memory_client input st = (Inr (), ix)" for input st by (metis prod.collapse)
  have f: "findDocument (ir_org sample_request) (ir_layer sample_request) (ir_external sample_request) sample_claimed
      = Some d \<Longrightarrow> qd_status d \<noteq> Indexed" for d
    by (auto simp: findDocument_def sample_request_def sample_claimed_def sample_queued_def queue_def update_where_def
        lease_def inserted_row_def sample_doc_def split: if_splits)
  have "ingest memory_client ''d9'' 1 sample_request sample_ports sample_world
      = store_pass memory_client ''d9'' 1 sample_request sample_ports ?parsed (pass_hash sample_ports sample_request ?parsed) cs vs sample_world"
    using f p(1)
    by (auto simp: ingest_def index_parsed_def source_count_def sample_world_def Let_def sample_request_def sample_ports_def split: option.splits)
  moreover obtain ix where "write_points memory_client (write_input sample_request
      (ingest_points sample_ports (with_points sample_ports cs) vs) ''d1'') (\<lparr>ix_known = [], ix_atLimit = []\<rparr>, sample_index) = (Inr (), ix)"
    using w by blast
  ultimately show ?thesis
    using u p(2) by (simp add: store_pass_def upsertDocument_def sample_world_def Let_def)
qed

theorem ingest_indexes_witness:
  "\<exists>(w' :: memory World) cs vs. length cs = 4
     \<and> indexed_exactly memory_view sample_request sample_ports ''sha256:h'' cs vs ''d1'' w'"
proof -
  obtain w' where run: "ingest memory_client ''d9'' 1 sample_request sample_ports sample_world
     = (Inr \<lparr>re_documentId = ''d1'', re_chunkCount = 4, re_unchanged = False\<rparr>, w')"
    using sample_ingested by blast
  have inj: "inj (po_newId sample_ports)" by (auto simp: inj_def sample_ports_def)
  have h: "pass_hash sample_ports sample_request parsed = ''sha256:h''" for parsed
    by (simp add: pass_hash_def sample_request_def sample_ports_def)
  from ingest_indexes [OF memory_store inj run] obtain cs vs where "length cs = 4"
    "indexed_exactly memory_view sample_request sample_ports ''sha256:h'' cs vs ''d1'' w'"
    by (auto simp: h)
  then show ?thesis by (intro exI [of _ w'] exI [of _ cs] exI [of _ vs] conjI)
qed

text \<open>
  The token maximum may be configured as low as sixteen. Below 64 the halving is undone by its
  floor: a document refused for length is chunked larger, not smaller.
\<close>

theorem rechunk_may_grow:
  "budget < MIN_EMBED_TOKENS \<Longrightarrow> budget < next_budget budget"
  by (simp add: next_budget_def)

end
