(* ===== verification/Pipeline.thy ===== *)
theory Pipeline
  imports Ingest
begin

text \<open>
  The tables and the index together. The delete (\<open>NacreIngest.remove\<close>) and the retag
  (\<open>PostgresDocuments.updateMetadata\<close>) of \<open>packages/api/src/adapters.ts\<close>, the collector of
  \<open>packages/worker/src/collect.ts\<close> and the indexing pass interleave with the queue's statements in
  \<open>world_step\<close>, which also has the crash between a write to the index and the commit it belongs to.
  Its invariant: what the index would answer with is a live document, in its own place.
\<close>

subsection \<open>Deleting and retagging\<close>

text \<open>
  \<open>permitted\<close> is the decision on the row's layer that stands between the \<open>SELECT ... FOR UPDATE\<close> and
  the writes. The index first, then the row. \<open>uuid_in\<close> is the database's reading of a \<open>uuid\<close> parameter:
  the id a text denotes, or none where the cast fails. The statements compare what the text denotes;
  the index is handed the text itself.
\<close>

definition bad_uuid :: string where
  "bad_uuid = ''invalid input syntax for type uuid''"

definition live_row :: "string \<Rightarrow> string \<Rightarrow> table \<Rightarrow> QDoc option" where
  "live_row orgId i docs = find (\<lambda>d. qd_org d = orgId \<and> qd_id d = i \<and> qd_deleted_at d = None) docs"

definition remove_document :: "'s QdrantClient \<Rightarrow> (string \<Rightarrow> string option) \<Rightarrow> string \<Rightarrow> nat \<Rightarrow> string \<Rightarrow> string \<Rightarrow> (string \<Rightarrow> bool) \<Rightarrow> 's World
    \<Rightarrow> (string + bool) \<times> 's World" where
  "remove_document client uuid_in coll now orgId i permitted w =
     (case uuid_in i of None \<Rightarrow> (Inl bad_uuid, w) | Some c \<Rightarrow>
      case live_row orgId c (wd_docs w) of
        None \<Rightarrow> (Inr False, w)
      | Some d \<Rightarrow>
          if \<not> permitted (qd_layer d) then (Inr False, w)
          else (case tombstone_points client coll i (snd (wd_index w)) of
                  (Inl e, s) \<Rightarrow> (Inl e, w\<lparr>wd_index := (fst (wd_index w), s)\<rparr>)
                | (Inr _, s) \<Rightarrow> (Inr True, w\<lparr>wd_docs := tombstone now orgId c (wd_docs w),
                                              wd_index := (fst (wd_index w), s)\<rparr>)))"

definition retag_document :: "'s QdrantClient \<Rightarrow> (string \<Rightarrow> string option) \<Rightarrow> string \<Rightarrow> string \<Rightarrow> string \<Rightarrow> (string \<Rightarrow> bool) \<Rightarrow> (string \<times> jsval) list
    \<Rightarrow> 's World \<Rightarrow> (string + bool) \<times> 's World" where
  "retag_document client uuid_in coll orgId i permitted metadata w =
     (case uuid_in i of None \<Rightarrow> (Inl bad_uuid, w) | Some c \<Rightarrow>
      case live_row orgId c (wd_docs w) of
        None \<Rightarrow> (Inr False, w)
      | Some d \<Rightarrow>
          if \<not> permitted (qd_layer d) then (Inr False, w)
          else (case setMetadata client coll i metadata (wd_index w) of
                  (Inl e, ix) \<Rightarrow> (Inl e, w\<lparr>wd_index := ix\<rparr>)
                | (Inr _, ix) \<Rightarrow> (Inr True, w\<lparr>wd_docs := retag orgId c (JObj metadata) (wd_docs w), wd_index := ix\<rparr>)))"

subsection \<open>Interleavings\<close>

text \<open>
  \<open>col\<close> is the collection of an organization. The second component of a state is the claims handed
  out so far: a pass works from one of them. \<open>fresh\<close> is what random identifiers are relied on for.
  Deletes and retags name their document by its canonical id, \<open>uuid_in i = Some i\<close>: the index compares
  the ids of its \<open>uuid\<close> fields by its own reading of them, which is outside the model.
\<close>

definition fresh :: "('s \<Rightarrow> string \<Rightarrow> string \<rightharpoonup> Point) \<Rightarrow> IngestPorts \<Rightarrow> 's World \<Rightarrow> bool" where
  "fresh view ports w \<longleftrightarrow>
     (\<forall>k coll. view (snd (wd_index w)) coll (po_newId ports k) = None) \<and>
     (\<forall>k. po_newId ports k \<notin> sc_point ` set (wd_chunks w))"

definition request_for :: "(string \<Rightarrow> string) \<Rightarrow> QClaim \<Rightarrow> IngestRequest \<Rightarrow> bool" where
  "request_for col c request \<longleftrightarrow>
     ir_org request = qc_org c \<and> ir_collection request = col (qc_org c) \<and> ir_layer request = qc_layer c \<and>
     ir_external request = qc_external c \<and> JObj (ir_metadata request) = qc_metadata c \<and>
     ir_claim request = Some (qc_claimedAt c)"

inductive world_step :: "'s QdrantClient \<Rightarrow> (string \<Rightarrow> string option) \<Rightarrow> ('s \<Rightarrow> string \<Rightarrow> string \<rightharpoonup> Point) \<Rightarrow> (string \<Rightarrow> string) \<Rightarrow> nat
    \<Rightarrow> nat \<times> QClaim list \<times> 's World \<Rightarrow> nat \<times> QClaim list \<times> 's World \<Rightarrow> bool" for client uuid_in view col M where
  tick: "now \<le> later \<Longrightarrow> world_step client uuid_in view col M (now, cs, w) (later, cs, w)"
| claim: "claimNext copying locked now (wd_docs w) = (Some c, docs') \<Longrightarrow>
    world_step client uuid_in view col M (now, cs, w) (Suc now, c # cs, w\<lparr>wd_docs := docs'\<rparr>)"
| pass: "c \<in> set cs \<Longrightarrow> request_for col c request \<Longrightarrow> fresh view ports w \<Longrightarrow> newDoc \<notin> qd_id ` set (wd_docs w) \<Longrightarrow>
    map ch_ordinal chunks = [0 ..< length chunks] \<Longrightarrow> length vectors = length chunks \<Longrightarrow>
    store_pass client newDoc now request ports parsed digest chunks vectors w = (r, w') \<Longrightarrow>
    world_step client uuid_in view col M (now, cs, w) (now, cs, w')"
| pass_uncommitted: "c \<in> set cs \<Longrightarrow> request_for col c request \<Longrightarrow> fresh view ports w \<Longrightarrow> newDoc \<notin> qd_id ` set (wd_docs w) \<Longrightarrow>
    map ch_ordinal chunks = [0 ..< length chunks] \<Longrightarrow> length vectors = length chunks \<Longrightarrow>
    store_pass client newDoc now request ports parsed digest chunks vectors w = (r, w') \<Longrightarrow>
    world_step client uuid_in view col M (now, cs, w) (now, cs, w\<lparr>wd_index := wd_index w'\<rparr>)"
| fail: "recordFailure now c (Some (qc_claimedAt c)) e retryable M random (wd_docs w) = (r, docs') \<Longrightarrow>
    world_step client uuid_in view col M (now, cs, w) (now, cs, w\<lparr>wd_docs := docs'\<rparr>)"
| reap: "claimStranded now locked limit leaseSeconds M (wd_docs w) = (r, docs') \<Longrightarrow>
    world_step client uuid_in view col M (now, cs, w) (now, cs, w\<lparr>wd_docs := docs'\<rparr>)"
| resend: "newId \<notin> qd_id ` set (wd_docs w) \<Longrightarrow>
    world_step client uuid_in view col M (now, cs, w) (now, cs, w\<lparr>wd_docs := queue newId now input (wd_docs w)\<rparr>)"
| retried: "retry orgId i (wd_docs w) = (b, docs') \<Longrightarrow>
    world_step client uuid_in view col M (now, cs, w) (now, cs, w\<lparr>wd_docs := docs'\<rparr>)"
| remove: "uuid_in i = Some i \<Longrightarrow> remove_document client uuid_in (col orgId) now orgId i permitted w = (q, w') \<Longrightarrow>
    world_step client uuid_in view col M (now, cs, w) (now, cs, w')"
| remove_uncommitted: "uuid_in i = Some i \<Longrightarrow> remove_document client uuid_in (col orgId) now orgId i permitted w = (q, w') \<Longrightarrow>
    world_step client uuid_in view col M (now, cs, w) (now, cs, w\<lparr>wd_index := wd_index w'\<rparr>)"
| retag: "uuid_in i = Some i \<Longrightarrow> retag_document client uuid_in (col orgId) orgId i permitted metadata w = (q, w') \<Longrightarrow>
    world_step client uuid_in view col M (now, cs, w) (now, cs, w')"
| sweep: "claimPurgeable now locked limit graceSeconds leaseSeconds (wd_docs w) = (ts, docs') \<Longrightarrow>
    world_step client uuid_in view col M (now, cs, w) (now, cs, w\<lparr>wd_docs := docs'\<rparr>)"
| purge: "purge client coll i (snd (wd_index w)) = (u, s') \<Longrightarrow>
    world_step client uuid_in view col M (now, cs, w) (now, cs, w\<lparr>wd_index := (fst (wd_index w), s')\<rparr>)"
| mark: "world_step client uuid_in view col M (now, cs, w) (now, cs, w\<lparr>wd_docs := markPurged now orgId i (wd_docs w)\<rparr>)"

subsection \<open>The invariant\<close>

text \<open>A point's own place: the row it belongs to, and flagged unless that row is live.\<close>

definition placed :: "(string \<Rightarrow> string) \<Rightarrow> table \<Rightarrow> string \<Rightarrow> Point \<Rightarrow> bool" where
  "placed col docs coll p \<longleftrightarrow>
     (\<exists>d \<in> set docs. \<exists>deleted. point_payload (pt_payload p) (qd_org d) deleted (qd_id d) (qd_layer d)
        \<and> map_of (pt_payload p) ''chunk_id'' = Some (JStr (pt_id p))
        \<and> coll = col (qd_org d) \<and> (deleted \<or> qd_deleted_at d = None))"

definition chunk_of :: "StoredChunk \<Rightarrow> Point \<Rightarrow> bool" where
  "chunk_of k p \<longleftrightarrow> doc_of p = Some (JStr (sc_document k)) \<and> map_of (pt_payload p) ''org_id'' = Some (JStr (sc_org k))"

definition world_ok :: "('s \<Rightarrow> string \<Rightarrow> string \<rightharpoonup> Point) \<Rightarrow> (string \<Rightarrow> string) \<Rightarrow> nat \<Rightarrow> nat \<times> QClaim list \<times> 's World \<Rightarrow> bool" where
  "world_ok view col M = (\<lambda>(now, cs, w).
     table_ok M (now, wd_docs w) \<and>
     (\<forall>c \<in> set cs. \<exists>d \<in> set (wd_docs w). qd_id d = qc_document c \<and> qd_org d = qc_org c \<and> qd_layer d = qc_layer c
        \<and> qd_external d = qc_external c) \<and>
     (\<forall>coll i p. view (snd (wd_index w)) coll i = Some p \<longrightarrow> placed col (wd_docs w) coll p) \<and>
     (\<forall>k \<in> set (wd_chunks w). \<forall>coll p. view (snd (wd_index w)) coll (sc_point k) = Some p \<longrightarrow>
        chunk_of k p))"

text \<open>Rows never disappear, never move, and are deleted by the delete alone.\<close>

definition rows_kept :: "table \<Rightarrow> table \<Rightarrow> bool" where
  "rows_kept docs docs' \<longleftrightarrow>
     (\<forall>d \<in> set docs. \<exists>e \<in> set docs'. qd_id e = qd_id d \<and> qd_org e = qd_org d \<and> qd_layer e = qd_layer d
        \<and> qd_external e = qd_external d \<and> (qd_deleted_at d = None \<longrightarrow> qd_deleted_at e = None))"

lemma rows_kept_refl [simp]: "rows_kept docs docs"
  by (auto simp: rows_kept_def)

lemma rows_kept_update:
  assumes "\<And>d. qd_id (f d) = qd_id d \<and> qd_org (f d) = qd_org d \<and> qd_layer (f d) = qd_layer d
      \<and> qd_external (f d) = qd_external d \<and> (qd_deleted_at d = None \<longrightarrow> qd_deleted_at (f d) = None)"
  shows "rows_kept docs (update_where P f docs)"
  unfolding rows_kept_def
proof
  fix d assume d: "d \<in> set docs"
  then have "(if P d then f d else d) \<in> set (update_where P f docs)" by (auto simp: in_update_where)
  with assms [of d] show "\<exists>e \<in> set (update_where P f docs). qd_id e = qd_id d \<and> qd_org e = qd_org d \<and> qd_layer e = qd_layer d
        \<and> qd_external e = qd_external d \<and> (qd_deleted_at d = None \<longrightarrow> qd_deleted_at e = None)"
    by (rule_tac bexI) auto
qed

lemma rows_kept_append: "rows_kept docs (docs @ ds)"
  by (auto simp: rows_kept_def)

lemma placed_kept: "rows_kept docs docs' \<Longrightarrow> placed col docs coll p \<Longrightarrow> placed col docs' coll p"
  unfolding placed_def rows_kept_def by (elim bexE exE) (metis (no_types, lifting))

subsection \<open>The parts of a step\<close>

lemma store_pass_cases:
  assumes "store_pass client newDoc now request ports parsed digest cs vs w = (r, w')"
  obtains (lost) "w' = w"
  | (written) i docs' rw where
      "upsert_statement newDoc now (upsert_input request parsed digest (length cs)) (wd_docs w) = (Some i, docs')"
      "write_points client (write_input request (ingest_points ports (with_points ports cs) vs) i) (wd_index w) = (rw, wd_index w')"
      "wd_docs w' = (if rw = Inr () then docs' else wd_docs w)"
      "wd_chunks w' = (if rw = Inr () then
         filter (\<lambda>c. \<not> (sc_org c = ir_org request \<and> sc_document c = i)) (wd_chunks w) @
         map (\<lambda>(ordinal, text, point). \<lparr>sc_org = ir_org request, sc_document = i, sc_ordinal = ordinal,
                sc_text = text, sc_point = point\<rparr>) (with_points ports cs) else wd_chunks w)"
proof -
  let ?ps = "ingest_points ports (with_points ports cs) vs"
  obtain ret docs' where u: "upsert_statement newDoc now (upsert_input request parsed digest (length cs)) (wd_docs w) = (ret, docs')"
    by (cases "upsert_statement newDoc now (upsert_input request parsed digest (length cs)) (wd_docs w)")
  show thesis
  proof (cases ret)
    case None
    with u assms lost show ?thesis by (simp add: store_pass_def upsertDocument_def Let_def split: if_splits)
  next
    case (Some i)
    obtain rw ix where wr: "write_points client (write_input request ?ps i) (wd_index w) = (rw, ix)" by (meson surj_pair)
    from Some u wr assms show ?thesis
      by (intro written [of i docs' rw]; cases rw) (auto simp: store_pass_def upsertDocument_def upsert_input_def Let_def)
  qed
qed

lemma store_pass_table:
  assumes "store_pass client newDoc now request ports parsed digest cs vs w = (r, w')"
    and "newDoc \<notin> qd_id ` set (wd_docs w)" and "ir_claim request \<noteq> None"
  shows "queue_step M (now, wd_docs w) (now, wd_docs w')"
  using assms(1)
proof (cases rule: store_pass_cases)
  case lost
  then show ?thesis by (simp add: queue_step.tick)
next
  case (written i docs' rw)
  have "upsert newDoc now (upsert_input request parsed digest (length cs))
      (\<lambda>j. case rw of Inl e \<Rightarrow> Inl (write_message e) | Inr u \<Rightarrow> Inr ()) (wd_docs w)
      = (case rw of Inl e \<Rightarrow> Inl (WriteFailed (write_message e)) | Inr u \<Rightarrow> Inr i, wd_docs w')"
    using written(1,3) by (cases rw) (simp_all add: upsert_def)
  then show ?thesis by (rule queue_step.finish [OF assms(2)]) (simp add: upsert_input_def assms(3))
qed

lemma remove_cases:
  assumes "remove_document client uuid_in coll now orgId i permitted w = (q, w')" and "uuid_in i = Some i"
  obtains (refused) "w' = w"
  | (flagged) rt s' where "tombstone_points client coll i (snd (wd_index w)) = (rt, s')" "snd (wd_index w') = s'"
      "wd_chunks w' = wd_chunks w" "wd_docs w' = (if rt = Inr () then tombstone now orgId i (wd_docs w) else wd_docs w)"
  using assms by (auto simp: remove_document_def split: option.splits if_splits prod.splits sum.splits)

lemma retag_cases:
  assumes "retag_document client uuid_in coll orgId i permitted metadata w = (q, w')" and "uuid_in i = Some i"
  obtains (refused) "w' = w"
  | (tagged) rt where "setMetadata client coll i metadata (wd_index w) = (rt, wd_index w')"
      "wd_chunks w' = wd_chunks w" "wd_docs w' = (if rt = Inr () then retag orgId i (JObj metadata) (wd_docs w) else wd_docs w)"
  using assms by (auto simp: retag_document_def split: option.splits if_splits prod.splits sum.splits)

text \<open>On the tables alone, a step of the world is a step of the queue.\<close>

lemma world_step_queue:
  assumes "world_step client uuid_in view col M (now, cs, w) (later, cs', w')"
  shows "queue_step M (now, wd_docs w) (later, wd_docs w')"
  using assms
proof (cases rule: world_step.cases)
  case (pass c request ports newDoc chunks vectors parsed digest r)
  then show ?thesis by (auto intro: store_pass_table simp: request_for_def)
next
  case (remove i orgId permitted q)
  from remove(4,3) show ?thesis
    by (cases rule: remove_cases) (auto simp: remove(1) intro: queue_step.tick queue_step.delete)
next
  case (retag i orgId permitted metadata q)
  from retag(4,3) show ?thesis
    by (cases rule: retag_cases) (auto simp: retag(1) intro: queue_step.tick queue_step.retagged)
qed (auto intro: queue_step.intros)

lemma rows_kept_statements:
  "claimNext copying locked now docs = (r, docs') \<Longrightarrow> rows_kept docs docs'"
  "upsert_statement newId now input docs = (ret, docs') \<Longrightarrow> rows_kept docs docs'"
  "recordFailure now c fence e retryable M random docs = (b, docs') \<Longrightarrow> rows_kept docs docs'"
  "claimStranded now locked limit leaseSeconds M docs = (ss, docs') \<Longrightarrow> rows_kept docs docs'"
  "rows_kept docs (queue newId now input docs)"
  "retry orgId i docs = (b, docs') \<Longrightarrow> rows_kept docs docs'"
  "rows_kept docs (retag orgId i m docs)"
  "claimPurgeable now locked limit graceSeconds leaseSeconds docs = (ts, docs') \<Longrightarrow> rows_kept docs docs'"
  "rows_kept docs (markPurged now orgId i docs)"
  by (auto simp: claimNext_def upsert_statement_def recordFailure_def claimStranded_def queue_def retry_def retag_def
      claimPurgeable_def markPurged_def row_updates Let_def split: list.splits option.splits if_splits
      intro!: rows_kept_update rows_kept_append)

text \<open>What the writes other than a pass make of a point.\<close>

definition milder :: "Point \<Rightarrow> Point \<Rightarrow> bool" where
  "milder old p \<longleftrightarrow> p = old \<or> p = set_fields [(''deleted'', JBool True)] old \<or> (\<exists>m. p = set_fields [(METADATA_PREFIX, m)] old)"

lemma milder_chunk: "milder old p \<Longrightarrow> chunk_of k p = chunk_of k old"
  by (auto simp: milder_def chunk_of_def doc_of_def set_fields_at METADATA_PREFIX_def)

lemma placed_milder:
  assumes "placed col docs coll old" and "milder old p"
  shows "placed col docs coll p"
proof -
  from assms(1) obtain d deleted where d: "d \<in> set docs" "point_payload (pt_payload old) (qd_org d) deleted (qd_id d) (qd_layer d)"
    "map_of (pt_payload old) ''chunk_id'' = Some (JStr (pt_id old))" "coll = col (qd_org d)" "deleted \<or> qd_deleted_at d = None"
    unfolding placed_def by blast
  have "\<exists>deleted'. point_payload (pt_payload p) (qd_org d) deleted' (qd_id d) (qd_layer d) \<and> (deleted \<longrightarrow> deleted')"
    using assms(2) d(2) by (auto simp: milder_def point_payload_def set_fields_at METADATA_PREFIX_def)
  moreover have "map_of (pt_payload p) ''chunk_id'' = Some (JStr (pt_id p))"
    using assms(2) d(3) by (auto simp: milder_def set_fields_at METADATA_PREFIX_def)
  ultimately show ?thesis unfolding placed_def using d by blast
qed

lemma world_okD:
  assumes "world_ok view col M (now, cs, w)"
  shows "table_ok M (now, wd_docs w)"
    and "c \<in> set cs \<Longrightarrow> \<exists>d \<in> set (wd_docs w). qd_id d = qc_document c \<and> qd_org d = qc_org c \<and> qd_layer d = qc_layer c
        \<and> qd_external d = qc_external c"
    and "view (snd (wd_index w)) coll i = Some p \<Longrightarrow> placed col (wd_docs w) coll p"
    and "k \<in> set (wd_chunks w) \<Longrightarrow> view (snd (wd_index w)) coll (sc_point k) = Some p \<Longrightarrow> chunk_of k p"
  using assms unfolding world_ok_def by auto

lemma world_okI:
  assumes "table_ok M (now, wd_docs w)"
    and "\<And>c. c \<in> set cs \<Longrightarrow> \<exists>d \<in> set (wd_docs w). qd_id d = qc_document c \<and> qd_org d = qc_org c \<and> qd_layer d = qc_layer c
        \<and> qd_external d = qc_external c"
    and "\<And>coll i p. view (snd (wd_index w)) coll i = Some p \<Longrightarrow> placed col (wd_docs w) coll p"
    and "\<And>k coll p. k \<in> set (wd_chunks w) \<Longrightarrow> view (snd (wd_index w)) coll (sc_point k) = Some p \<Longrightarrow>
        chunk_of k p"
  shows "world_ok view col M (now, cs, w)"
  using assms unfolding world_ok_def by auto

lemma claims_kept:
  assumes "rows_kept docs docs'" and "\<exists>d \<in> set docs. qd_id d = i \<and> qd_org d = org \<and> qd_layer d = l \<and> qd_external d = x"
  shows "\<exists>d \<in> set docs'. qd_id d = i \<and> qd_org d = org \<and> qd_layer d = l \<and> qd_external d = x"
  using assms unfolding rows_kept_def by metis

lemma world_ok_table:
  assumes ok: "world_ok view col M (now, cs, w)" and "table_ok M (later, docs')" and kept: "rows_kept (wd_docs w) docs'"
  shows "world_ok view col M (later, cs, w\<lparr>wd_docs := docs'\<rparr>)"
  using assms(2) world_okD(4) [OF ok]
  by (intro world_okI) (auto intro: claims_kept [OF kept world_okD(2) [OF ok]] placed_kept [OF kept world_okD(3) [OF ok]])

lemma world_ok_index:
  assumes ok: "world_ok view col M (now, cs, w)"
    and "\<And>coll i p. view (snd ix) coll i = Some p \<Longrightarrow> \<exists>old. view (snd (wd_index w)) coll i = Some old \<and> milder old p"
  shows "world_ok view col M (now, cs, w\<lparr>wd_index := ix\<rparr>)"
proof (rule world_okI)
  fix coll i p assume "view (snd (wd_index (w\<lparr>wd_index := ix\<rparr>))) coll i = Some p"
  then show "placed col (wd_docs (w\<lparr>wd_index := ix\<rparr>)) coll p"
    using assms(2) [of coll i p] placed_milder world_okD(3) [OF ok] by fastforce
next
  fix k coll p assume "k \<in> set (wd_chunks (w\<lparr>wd_index := ix\<rparr>))" "view (snd (wd_index (w\<lparr>wd_index := ix\<rparr>))) coll (sc_point k) = Some p"
  then show "chunk_of k p"
    using assms(2) [of coll "sc_point k" p] milder_chunk world_okD(4) [OF ok, of k coll] by fastforce
qed (use world_okD(1,2) [OF ok] in auto)

lemma minted:
  "ip \<in> set (ingest_points ports (with_points ports cs) vs) \<Longrightarrow> \<exists>j. ip_id ip = po_newId ports j"
  "(ordinal, text, point) \<in> set (with_points ports cs) \<Longrightarrow> \<exists>j. point = po_newId ports j"
  by (auto simp: ingest_points_def with_points_def dest!: set_zip_leftD)

lemma claimed_statement:
  assumes ok: "world_ok view col M (now, cs, w)" and c: "c \<in> set cs" "request_for col c request"
    and u: "upsert_statement newDoc now (upsert_input request parsed digest n) (wd_docs w) = (Some i, docs')"
  obtains d where "d \<in> set (wd_docs w)" "qd_id d = i" "qd_org d = ir_org request" "qd_layer d = ir_layer request"
    "qd_deleted_at d = None"
proof -
  obtain e where e: "e \<in> set (wd_docs w)" "qd_org e = ir_org request" "qd_layer e = ir_layer request" "qd_external e = ir_external request"
    using world_okD(2) [OF ok c(1)] c(2) by (auto simp: request_for_def)
  obtain d where f: "find (\<lambda>d. qd_layer d = ir_layer request \<and> qd_external d = ir_external request) (wd_docs w) = Some d"
    using e by (cases "find (\<lambda>d. qd_layer d = ir_layer request \<and> qd_external d = ir_external request) (wd_docs w)")
      (auto simp: find_None_iff)
  then have d: "d \<in> set (wd_docs w)" "qd_layer d = ir_layer request" "qd_external d = ir_external request"
    by (auto simp: find_Some_iff)
  have "keyed (wd_docs w)" using world_okD(1) [OF ok] by (simp add: table_ok_def)
  with d e have "d = e" by (auto simp: keyed_def distinct_map inj_on_def)
  moreover have "fenced (ir_claim request) d" "qd_id d = i"
    using u f by (auto simp: upsert_statement_def upsert_input_def split: if_splits)
  ultimately show thesis
    using that d e c(2) by (auto simp: fenced_def request_for_def)
qed

lemma world_ok_pass:
  assumes q: "qdrant_store client view" and ok: "world_ok view col M (now, cs, w)"
    and c: "c \<in> set cs" "request_for col c request" and fr: "fresh view ports w"
    and table: "table_ok M (now, wd_docs w')"
    and run: "store_pass client newDoc now request ports parsed digest chunks vectors w = (r, w')"
  shows "world_ok view col M (now, cs, w')" and "world_ok view col M (now, cs, w\<lparr>wd_index := wd_index w'\<rparr>)"
proof (atomize (full), use run in \<open>cases rule: store_pass_cases\<close>)
  case lost
  with ok show "world_ok view col M (now, cs, w') \<and> world_ok view col M (now, cs, w\<lparr>wd_index := wd_index w'\<rparr>)" by simp
next
  case (written i docs' rw)
  let ?ps = "ingest_points ports (with_points ports chunks) vectors"
  let ?in = "write_input request ?ps i" and ?v = "view (snd (wd_index w))" and ?v' = "view (snd (wd_index w'))"
  obtain d where d: "d \<in> set (wd_docs w)" "qd_id d = i" "qd_org d = ir_org request" "qd_layer d = ir_layer request"
    "qd_deleted_at d = None"
    by (rule claimed_statement [OF ok c written(1)])
  have new: "?v coll x = Some p \<or> coll = ir_collection request \<and> p \<in> point_of ?in ` set ?ps" if "?v' coll x = Some p" for coll x p
    using write_view [OF q written(2) that] by simp
  have col: "ir_collection request = col (qd_org d)" using c(2) d(3) by (simp add: request_for_def)
  have points: "placed col (wd_docs w) coll p" if "?v' coll x = Some p" for coll x p
    using new [OF that] world_okD(3) [OF ok]
  proof (elim disjE conjE)
    assume "coll = ir_collection request" "p \<in> point_of ?in ` set ?ps"
    then obtain ip where p: "p = point_of ?in ip" by blast
    have "point_payload (pt_payload p) (qd_org d) False (qd_id d) (qd_layer d)"
      using point_of_simps(3) [of ?in ip] d by (simp add: p)
    moreover have "map_of (pt_payload p) ''chunk_id'' = Some (JStr (pt_id p))" by (simp add: p point_of_def)
    ultimately show ?thesis unfolding placed_def using d col \<open>coll = _\<close> by blast
  qed
  have old: "chunk_of k p" if "k \<in> set (wd_chunks w)" "?v' coll (sc_point k) = Some p" for k coll p
    using new [OF that(2)]
  proof (elim disjE conjE)
    assume "p \<in> point_of ?in ` set ?ps"
    then obtain j where "pt_id p = po_newId ports j" using minted(1) by fastforce
    moreover have "pt_id p = sc_point k" using qdrantS(5) [OF q that(2)] .
    ultimately show ?thesis using fr that(1) unfolding fresh_def by (metis image_eqI)
  qed (use world_okD(4) [OF ok that(1)] in blast)
  have docs: "rows_kept (wd_docs w) (wd_docs w')"
    using written(3) rows_kept_statements(2) [OF written(1)] by simp
  have chunks: "chunk_of k p" if here: "k \<in> set (wd_chunks w')" and vw: "?v' coll (sc_point k) = Some p" for k coll p
  proof (cases "k \<in> set (wd_chunks w)")
    case False
    with here written(4) obtain ordinal body point where "(ordinal, body, point) \<in> set (with_points ports chunks)"
      "sc_document k = i" "sc_org k = ir_org request" "sc_point k = point"
      by (auto split: if_splits)
    with minted(2) obtain j where k: "sc_document k = i" "sc_org k = ir_org request" "sc_point k = po_newId ports j" by blast
    then have "?v coll (sc_point k) = None" using fr by (simp add: fresh_def)
    with new [OF vw] obtain ip where "p = point_of ?in ip" by auto
    with k show ?thesis using point_of_simps(3) [of ?in ip] by (simp add: chunk_of_def point_payload_def)
  qed (use old vw in blast)
  have "world_ok view col M (now, cs, w')"
    using table claims_kept [OF docs world_okD(2) [OF ok]] placed_kept [OF docs points] chunks by (rule world_okI)
  moreover have "world_ok view col M (now, cs, w\<lparr>wd_index := wd_index w'\<rparr>)"
    using world_okD(1,2) [OF ok] points old by (intro world_okI) auto
  ultimately show "world_ok view col M (now, cs, w') \<and> world_ok view col M (now, cs, w\<lparr>wd_index := wd_index w'\<rparr>)" by simp
qed

lemma claims_tombstone:
  assumes "\<exists>d \<in> set docs. qd_id d = j \<and> qd_org d = org \<and> qd_layer d = l \<and> qd_external d = x"
  shows "\<exists>d \<in> set (tombstone now orgId i docs). qd_id d = j \<and> qd_org d = org \<and> qd_layer d = l \<and> qd_external d = x"
proof -
  from assms obtain d where d: "d \<in> set docs" "qd_id d = j" "qd_org d = org" "qd_layer d = l" "qd_external d = x" by blast
  then have "(if qd_org d = orgId \<and> qd_id d = i then d\<lparr>qd_deleted_at := Some now\<rparr> else d) \<in> set (tombstone now orgId i docs)"
    by (auto simp: tombstone_def in_update_where)
  with d(2-) show ?thesis by (rule_tac bexI) auto
qed

lemma world_ok_remove:
  assumes q: "qdrant_store client view" and ok: "world_ok view col M (now, cs, w)"
    and table: "table_ok M (now, wd_docs w')"
    and canon: "uuid_in i = Some i" and run: "remove_document client uuid_in (col orgId) now orgId i permitted w = (r, w')"
  shows "world_ok view col M (now, cs, w')" and "world_ok view col M (now, cs, w\<lparr>wd_index := wd_index w'\<rparr>)"
proof (atomize (full), use run canon in \<open>cases rule: remove_cases\<close>)
  case refused
  with ok show "world_ok view col M (now, cs, w') \<and> world_ok view col M (now, cs, w\<lparr>wd_index := wd_index w'\<rparr>)" by simp
next
  case (flagged rt s')
  note tv = tombstone_view [OF q flagged(1)]
  have index: "world_ok view col M (now, cs, w\<lparr>wd_index := wd_index w'\<rparr>)"
  proof (rule world_ok_index [OF ok])
    fix coll x p assume "view (snd (wd_index w')) coll x = Some p"
    then show "\<exists>old. view (snd (wd_index w)) coll x = Some old \<and> milder old p"
      using tv(1) [of coll x p] unfolding flagged(2) milder_def by blast
  qed
  note iok = world_okD [OF index, simplified]
  have "world_ok view col M (now, cs, w')"
  proof (cases "rt = Inr ()")
    case True
    let ?docs = "tombstone now orgId i (wd_docs w)"
    have docs: "wd_docs w' = ?docs" using True flagged(4) by simp
    have "placed col ?docs coll p" if p: "view (snd (wd_index w')) coll x = Some p" for coll x p
    proof -
      obtain d deleted where d: "d \<in> set (wd_docs w)" "point_payload (pt_payload p) (qd_org d) deleted (qd_id d) (qd_layer d)"
        "map_of (pt_payload p) ''chunk_id'' = Some (JStr (pt_id p))" "coll = col (qd_org d)" "deleted \<or> qd_deleted_at d = None"
        using iok(3) [OF p] unfolding placed_def by blast
      define e where "e = (if qd_org d = orgId \<and> qd_id d = i then d\<lparr>qd_deleted_at := Some now\<rparr> else d)"
      have "e \<in> set ?docs" using d(1) by (auto simp: e_def tombstone_def in_update_where)
      moreover have "deleted \<or> qd_deleted_at e = None"
      proof (cases "qd_org d = orgId \<and> qd_id d = i")
        case here: True
        then have "map_of (pt_payload p) ''deleted'' = Some (JBool True)"
          using tv(2) [of coll x p] True p d(2,4) by (simp add: flagged(2) doc_of_def point_payload_def)
        with d(2) show ?thesis by (simp add: point_payload_def)
      qed (use d(5) in \<open>auto simp: e_def\<close>)
      moreover have "qd_org e = qd_org d" "qd_id e = qd_id d" "qd_layer e = qd_layer d" by (simp_all add: e_def)
      ultimately show ?thesis unfolding placed_def using d by metis
    qed
    then show ?thesis
      using table iok(4) claims_tombstone [OF world_okD(2) [OF ok]] by (intro world_okI) (auto simp: docs flagged(3))
  next
    case False
    then have "w' = w\<lparr>wd_index := wd_index w'\<rparr>" using flagged(3,4) by simp
    with index show ?thesis by simp
  qed
  with index show "world_ok view col M (now, cs, w') \<and> world_ok view col M (now, cs, w\<lparr>wd_index := wd_index w'\<rparr>)" by simp
qed

lemma world_step_ok:
  assumes q: "qdrant_store client view" and M: "0 < M" and ok: "world_ok view col M (now, cs, w)"
    and step: "world_step client uuid_in view col M (now, cs, w) (later, cs', w')"
  shows "world_ok view col M (later, cs', w')"
proof -
  have table: "table_ok M (later, wd_docs w')"
    by (rule queue_step_ok [OF world_step_queue [OF step] M world_okD(1) [OF ok]])
  show ?thesis
    using step
  proof (cases rule: world_step.cases)
    case tick
    with ok table show ?thesis by (auto simp: world_ok_def)
  next
    case (claim copying locked c docs')
    have "world_ok view col M (later, cs, w')"
      using world_ok_table [OF ok, of later docs'] table rows_kept_statements(1) [OF claim(4)] by (simp add: claim(3))
    moreover have "\<exists>d \<in> set (wd_docs w'). qd_id d = qc_document c \<and> qd_org d = qc_org c \<and> qd_layer d = qc_layer c
        \<and> qd_external d = qc_external c"
      using claim(4)
    proof (cases rule: claimNext_cases)
      case (taken row)
      then have "lease now row \<in> set docs'" by (auto simp: in_update_where)
      with taken claim(3) show ?thesis by (intro bexI [of _ "lease now row"]) (auto simp: claim_of_def lease_def)
    qed simp
    ultimately show ?thesis by (auto simp: world_ok_def claim(2))
  next
    case (pass c request ports newDoc chunks vectors parsed digest r)
    with world_ok_pass(1) [OF q ok] table show ?thesis by blast
  next
    case (pass_uncommitted c request ports newDoc chunks vectors parsed digest r v')
    have "table_ok M (now, wd_docs v')"
      using pass_uncommitted
      by (intro queue_step_ok [OF store_pass_table [OF pass_uncommitted(10)] M world_okD(1) [OF ok]]) (auto simp: request_for_def)
    with world_ok_pass(2) [OF q ok] pass_uncommitted show ?thesis by blast
  next
    case (remove i orgId permitted r)
    with world_ok_remove(1) [OF q ok] table show ?thesis by blast
  next
    case (remove_uncommitted i orgId permitted r v')
    have "world_step client uuid_in view col M (now, cs, w) (now, cs, v')" by (rule world_step.remove [where col = col and orgId = orgId, OF remove_uncommitted(4,5)])
    from queue_step_ok [OF world_step_queue [OF this] M world_okD(1) [OF ok]]
    show ?thesis using world_ok_remove(2) [OF q ok] remove_uncommitted by blast
  next
    case (retag i orgId permitted metadata r)
    from retag(4,3) show ?thesis
    proof (cases rule: retag_cases)
      case (tagged rt)
      have "world_ok view col M (now, cs, w\<lparr>wd_index := wd_index w'\<rparr>)"
        by (rule world_ok_index [OF ok]) (use setMetadata_view [OF q tagged(1)] in \<open>fastforce simp: milder_def\<close>)
      from world_ok_table [OF this, of now "wd_docs w'"] table retag(1,2) tagged(3) rows_kept_statements(7)
      have "world_ok view col M (now, cs, w\<lparr>wd_index := wd_index w', wd_docs := wd_docs w'\<rparr>)" by (simp split: if_splits)
      also have "w\<lparr>wd_index := wd_index w', wd_docs := wd_docs w'\<rparr> = w'" using tagged(2) by simp
      finally show ?thesis using retag(1,2) by simp
    qed (use ok retag in simp)
  next
    case (purge coll i u s')
    have "world_ok view col M (now, cs, w\<lparr>wd_index := (fst (wd_index w), s')\<rparr>)"
      by (rule world_ok_index [OF ok]) (use purge_view [OF q purge(4)] in \<open>auto simp: milder_def\<close>)
    with purge show ?thesis by simp
  qed (use world_ok_table [OF ok] table rows_kept_statements in \<open>auto 4 3\<close>)
qed

subsection \<open>The properties\<close>

definition empty_world :: "('s \<Rightarrow> string \<Rightarrow> string \<rightharpoonup> Point) \<Rightarrow> 's World \<Rightarrow> bool" where
  "empty_world view w \<longleftrightarrow> wd_docs w = [] \<and> wd_chunks w = [] \<and> (\<forall>coll i. view (snd (wd_index w)) coll i = None)"

lemma world_steps_ok:
  assumes "(world_step client uuid_in view col M)\<^sup>*\<^sup>* (now, [], w) st" and "qdrant_store client view" and "0 < M" and "empty_world view w"
  shows "world_ok view col M st"
  using assms(1)
proof (induction rule: rtranclp_induct)
  case base
  with assms(4) show ?case by (auto intro!: world_okI simp: empty_world_def table_ok_def keyed_def)
next
  case (step st st')
  then show ?case using world_step_ok [OF assms(2,3)] by (metis prod_cases3)
qed

text \<open>C2 - A deleted document is out of every answer from the moment its delete succeeds. Through any
  interleaving of ingests, indexing passes, retries, deletes, retags and sweeps - with a crash allowed
  between any write to the index and its commit, and with index calls that fail half way - every
  point the index would still return (not flagged deleted) belongs to a document whose row is live,
  and carries that row's organization and layer, in that organization's collection.\<close>

theorem deleted_never_visible:
  assumes "qdrant_store client view" and "0 < M" and "empty_world view w"
    and "(world_step client uuid_in view col M)\<^sup>*\<^sup>* (now, [], w) (later, cs, w')"
    and "view (snd (wd_index w')) coll i = Some p" and "map_of (pt_payload p) ''deleted'' \<noteq> Some (JBool True)"
  shows "\<exists>d \<in> set (wd_docs w'). qd_deleted_at d = None \<and> coll = col (qd_org d)
    \<and> point_payload (pt_payload p) (qd_org d) False (qd_id d) (qd_layer d)"
proof -
  from world_okD(3) [OF world_steps_ok [OF assms(4,1,2,3)] assms(5)]
  obtain d deleted where "d \<in> set (wd_docs w')" "point_payload (pt_payload p) (qd_org d) deleted (qd_id d) (qd_layer d)"
    "coll = col (qd_org d)" "deleted \<or> qd_deleted_at d = None"
    unfolding placed_def by blast
  moreover from this assms(6) have "\<not> deleted" by (auto simp: point_payload_def)
  ultimately show ?thesis by auto
qed

definition start_world :: "memory World" where
  "start_world = \<lparr>wd_docs = [], wd_chunks = [], wd_index = (\<lparr>ix_known = [], ix_atLimit = []\<rparr>, \<lambda>_. Map.empty)\<rparr>"

definition sample_col :: "string \<Rightarrow> string" where
  "sample_col org = ''org_acme''"

definition sample_chunk :: Chunk where
  "sample_chunk = \<lparr>ch_ordinal = 0, ch_text = [104, 105]\<rparr>"

text \<open>The database's reading on ids that are all digits, letters and hyphens: case does not matter.\<close>

definition lower_uuid :: "string \<Rightarrow> string option" where
  "lower_uuid i = Some (map to_lower i)"

abbreviation "sample_step \<equiv> world_step memory_client lower_uuid memory_view sample_col 3"

lemma start_empty: "empty_world memory_view start_world"
  by (simp add: empty_world_def start_world_def memory_view_def)

lemma claimed_run: "sample_step\<^sup>*\<^sup>* (0, [], start_world) (Suc 0, [sample_ticket], start_world\<lparr>wd_docs := sample_claimed\<rparr>)"
proof -
  have "sample_step (0, [], start_world) (0, [], start_world\<lparr>wd_docs := sample_queued\<rparr>)"
    using world_step.resend [where newId = "''d1''" and now = 0 and input = "sample_doc None" and w = start_world and cs = "[]"]
    by (simp add: start_world_def sample_queued_def)
  moreover have "sample_step (0, [], start_world\<lparr>wd_docs := sample_queued\<rparr>)
      (Suc 0, [sample_ticket], start_world\<lparr>wd_docs := sample_claimed\<rparr>)"
    using world_step.claim [where w = "start_world\<lparr>wd_docs := sample_queued\<rparr>" and now = 0 and cs = "[]"] sample_claim
    by (simp add: start_world_def)
  ultimately show ?thesis by (meson converse_rtranclp_into_rtranclp rtranclp.rtrancl_refl)
qed

text \<open>A pass over one chunk, from any world where the sample claim still holds and nothing is indexed.\<close>

lemma pass_run:
  assumes "\<exists>docs'. upsert_statement ''d9'' now (upsert_input sample_request parsed digest 1) (wd_docs w) = (Some ''d1'', docs')"
    and "wd_chunks w = []" and "\<And>coll i. memory_view (snd (wd_index w)) coll i = None" and "''d9'' \<notin> qd_id ` set (wd_docs w)"
  obtains w' where "sample_step (now, [sample_ticket], w) (now, [sample_ticket], w')"
    "indexed_exactly memory_view sample_request sample_ports digest [sample_chunk] [[1]] ''d1'' w'"
    "\<exists>docs'. upsert_statement ''d9'' now (upsert_input sample_request parsed digest 1) (wd_docs w) = (Some ''d1'', docs') \<and> wd_docs w' = docs'"
proof -
  let ?run = "store_pass memory_client ''d9'' now sample_request sample_ports parsed digest [sample_chunk] [[1]] w"
  have "fst (write_points memory_client input st) = Inr ()" for input st
    by (simp add: write_points_def memory_client_def upsertPoints_def sweep_def split: prod.splits)
  then obtain ix where wr: "write_points memory_client (write_input sample_request
      (ingest_points sample_ports (with_points sample_ports [sample_chunk]) [[1]]) ''d1'') (wd_index w) = (Inr (), ix)"
    by (metis prod.collapse)
  obtain docs' where u: "upsert_statement ''d9'' now (upsert_input sample_request parsed digest 1) (wd_docs w) = (Some ''d1'', docs')"
    using assms(1) by blast
  have "\<exists>w'. ?run = (Inr \<lparr>re_documentId = ''d1'', re_chunkCount = 1, re_unchanged = False\<rparr>, w') \<and> wd_docs w' = docs'"
    using u by (simp add: store_pass_def upsertDocument_def Let_def wr)
  then obtain w' where w': "?run = (Inr \<lparr>re_documentId = ''d1'', re_chunkCount = 1, re_unchanged = False\<rparr>, w')" "wd_docs w' = docs'"
    by blast
  have ord: "map ch_ordinal [sample_chunk] = [0 ..< length [sample_chunk]]" by (simp add: sample_chunk_def)
  have "sample_step (now, [sample_ticket], w) (now, [sample_ticket], w')"
    by (rule world_step.pass [where c = sample_ticket, OF _ _ _ assms(4) ord _ w'(1)])
       (simp_all add: request_for_def sample_request_def sample_ticket_def sample_col_def fresh_def assms(2,3))
  moreover have "inj (po_newId sample_ports)" by (auto simp: inj_def sample_ports_def)
  ultimately show thesis
    using that store_pass_indexes [OF memory_store _ ord _ w'(1)] w'(2) u by simp
qed

lemma start_fresh: "memory_view (snd (wd_index start_world)) coll i = None"
  using start_empty by (simp add: empty_world_def)

lemma indexed_run:
  "\<exists>w'. sample_step\<^sup>*\<^sup>* (0, [], start_world) (Suc 0, [sample_ticket], w')
     \<and> indexed_exactly memory_view sample_request sample_ports ''h'' [sample_chunk] [[1]] ''d1'' w'"
proof -
  obtain w' where "sample_step (Suc 0, [sample_ticket], start_world\<lparr>wd_docs := sample_claimed\<rparr>) (Suc 0, [sample_ticket], w')"
    "indexed_exactly memory_view sample_request sample_ports ''h'' [sample_chunk] [[1]] ''d1'' w'"
    by (rule pass_run [of "Suc 0" "\<lparr>pd_text = [], pd_metadata = []\<rparr>" "''h''" "start_world\<lparr>wd_docs := sample_claimed\<rparr>"])
       (use sample_statement start_fresh in \<open>auto simp: start_world_def sample_claimed_def sample_queued_def queue_def
          update_where_def lease_def inserted_row_def\<close>)
  with claimed_run show ?thesis by (meson rtranclp.rtrancl_into_rtrancl)
qed

lemma indexed_point:
  assumes "indexed_exactly memory_view sample_request sample_ports ''h'' [sample_chunk] [[1]] ''d1'' w'"
  shows "memory_view (snd (wd_index w')) ''org_acme'' ''p'' =
    Some (point_of (write_input sample_request [] ''d1'') (chunk_point sample_ports [sample_chunk] [[1]] 0))"
  using assms by (simp add: indexed_exactly_def sample_request_def sample_ports_def)

theorem deleted_never_visible_witness:
  "\<exists>(w' :: memory World) cs p. sample_step\<^sup>*\<^sup>* (0, [], start_world) (Suc 0, cs, w')
     \<and> memory_view (snd (wd_index w')) ''org_acme'' ''p'' = Some p
     \<and> (\<exists>d \<in> set (wd_docs w'). qd_deleted_at d = None \<and> point_payload (pt_payload p) (qd_org d) False (qd_id d) (qd_layer d))"
proof -
  obtain w' where w': "sample_step\<^sup>*\<^sup>* (0, [], start_world) (Suc 0, [sample_ticket], w')"
    "indexed_exactly memory_view sample_request sample_ports ''h'' [sample_chunk] [[1]] ''d1'' w'"
    using indexed_run by blast
  let ?p = "point_of (write_input sample_request [] ''d1'') (chunk_point sample_ports [sample_chunk] [[1]] 0)"
  have "map_of (pt_payload ?p) ''deleted'' \<noteq> Some (JBool True)" by (simp add: point_of_def)
  with w'(1) indexed_point [OF w'(2)] show ?thesis
    using deleted_never_visible [where view = memory_view, OF memory_store _ start_empty w'(1) indexed_point [OF w'(2)]] by auto
qed

text \<open>
  A retag is not fenced against a pass that was claimed before it: the pass writes the metadata its
  claim carried. The document ends indexed, with the new metadata in its row and the old in its
  points, and nothing is queued to repair it.
\<close>

definition tagged :: table where
  "tagged = retag ''acme'' ''d1'' (JObj [(''team'', JStr ''legal'')]) sample_claimed"

lemma retag_run:
  "\<exists>ix. sample_step (Suc 0, [sample_ticket], start_world\<lparr>wd_docs := sample_claimed\<rparr>)
     (Suc 0, [sample_ticket], start_world\<lparr>wd_docs := tagged, wd_index := ix\<rparr>) \<and> (\<forall>coll i. memory_view (snd ix) coll i = None)"
proof -
  let ?w = "start_world\<lparr>wd_docs := sample_claimed\<rparr>" and ?m = "[(''team'', JStr ''legal'')]"
  let ?set = "setMetadata memory_client (sample_col ''acme'') ''d1'' ?m (wd_index ?w)"
  have ok: "fst ?set = Inr ()" by (simp add: setMetadata_def memory_client_def split: prod.splits)
  then have s: "?set = (Inr (), snd ?set)" by (metis prod.collapse)
  have "\<exists>d. live_row ''acme'' ''d1'' sample_claimed = Some d"
    by (simp add: live_row_def sample_claimed_def sample_queued_def queue_def update_where_def lease_def inserted_row_def sample_doc_def)
  then have "retag_document memory_client lower_uuid (sample_col ''acme'') ''acme'' ''d1'' (\<lambda>l. True) ?m ?w
      = (Inr True, start_world\<lparr>wd_docs := tagged, wd_index := snd ?set\<rparr>)"
    using s by (auto simp: retag_document_def tagged_def lower_uuid_def to_lower_def split: prod.splits sum.splits)
  then have "sample_step (Suc 0, [sample_ticket], ?w) (Suc 0, [sample_ticket], start_world\<lparr>wd_docs := tagged, wd_index := snd ?set\<rparr>)"
    by (rule world_step.retag [where col = sample_col and orgId = "''acme''", rotated]) (simp add: lower_uuid_def to_lower_def)
  moreover have "memory_view (snd (snd ?set)) coll i = None" for coll i
    using setMetadata_view [OF memory_store s, of coll i] start_fresh by fastforce
  ultimately show ?thesis by blast
qed

theorem retag_lost_to_pass:
  "\<exists>(w :: memory World) cs. sample_step\<^sup>*\<^sup>* (0, [], start_world) (Suc 0, cs, w)
     \<and> (\<exists>d \<in> set (wd_docs w). qd_id d = ''d1'' \<and> qd_status d = Indexed \<and> qd_metadata d = JObj [(''team'', JStr ''legal'')])
     \<and> (\<exists>p. memory_view (snd (wd_index w)) ''org_acme'' ''p'' = Some p \<and> map_of (pt_payload p) ''meta'' = Some (JObj []))"
proof -
  obtain ix where r: "sample_step (Suc 0, [sample_ticket], start_world\<lparr>wd_docs := sample_claimed\<rparr>)
     (Suc 0, [sample_ticket], start_world\<lparr>wd_docs := tagged, wd_index := ix\<rparr>)" "\<forall>coll i. memory_view (snd ix) coll i = None"
    using retag_run by blast
  let ?u = "upsert_input sample_request \<lparr>pd_text = [], pd_metadata = []\<rparr> ''h'' 1"
  have st: "upsert_statement ''d9'' (Suc 0) ?u tagged = (Some ''d1'', map (index_row ?u) tagged)"
    by (simp add: upsert_statement_def upsert_input_def sample_request_def tagged_def retag_def sample_claimed_def sample_queued_def
        queue_def update_where_def lease_def inserted_row_def sample_doc_def fenced_def)
  obtain w' where w': "sample_step (Suc 0, [sample_ticket], start_world\<lparr>wd_docs := tagged, wd_index := ix\<rparr>) (Suc 0, [sample_ticket], w')"
    "indexed_exactly memory_view sample_request sample_ports ''h'' [sample_chunk] [[1]] ''d1'' w'" "wd_docs w' = map (index_row ?u) tagged"
    by (rule pass_run [of "Suc 0" "\<lparr>pd_text = [], pd_metadata = []\<rparr>" "''h''" "start_world\<lparr>wd_docs := tagged, wd_index := ix\<rparr>"])
       (use st r(2) in \<open>auto simp: start_world_def tagged_def retag_def sample_claimed_def sample_queued_def queue_def
          update_where_def lease_def inserted_row_def\<close>)
  have "sample_step\<^sup>*\<^sup>* (0, [], start_world) (Suc 0, [sample_ticket], w')"
    using claimed_run r(1) w'(1) by (meson rtranclp.rtrancl_into_rtrancl)
  moreover have "\<exists>d \<in> set (wd_docs w'). qd_id d = ''d1'' \<and> qd_status d = Indexed \<and> qd_metadata d = JObj [(''team'', JStr ''legal'')]"
    by (simp add: w'(3) tagged_def retag_def sample_claimed_def sample_queued_def queue_def update_where_def lease_def
        inserted_row_def sample_doc_def index_row_def)
  moreover have "\<exists>p. memory_view (snd (wd_index w')) ''org_acme'' ''p'' = Some p \<and> map_of (pt_payload p) ''meta'' = Some (JObj [])"
    using w'(2) by (simp add: indexed_exactly_def sample_request_def sample_ports_def point_of_def write_input_def METADATA_PREFIX_def)
  ultimately show ?thesis by blast
qed

end
