(* ===== verification/Principals.thy ===== *)
theory Principals
  imports Authz_Types
begin

text \<open>
  \<open>packages/core/authz/principals.ts\<close>: the principal plus every group it belongs to,
  transitively, by a worklist loop that has to end on a membership graph with cycles. The
  interface \<open>GroupGraph\<close> is the locale \<open>group_graph\<close>; its two providers are the in-memory graph
  of the same file and the one \<open>store.ts\<close> loads from the database.
\<close>

text \<open>Both graphs hold a \<open>Map\<close> from a principal reference to the group ids it is directly in.\<close>

type_synonym GroupGraph = "(string \<times> string list) list"

definition directGroups :: "GroupGraph \<Rightarrow> string \<Rightarrow> string list" where
  "directGroups graph pr = (case map_of graph pr of None \<Rightarrow> [] | Some gs \<Rightarrow> gs)"

definition MemoryGroupGraph :: "(string \<times> string list) list \<Rightarrow> GroupGraph" where
  "MemoryGroupGraph membership = map_from membership"

definition group_ref :: "string \<Rightarrow> string" where
  "group_ref g = ''group:'' @ g"

text \<open>The body of the inner loop: a group not seen yet is recorded and queued.\<close>

definition visit :: "string \<Rightarrow> string list \<times> string list \<Rightarrow> string list \<times> string list" where
  "visit g acc =
     (case acc of (seen, queue) \<Rightarrow>
        if group_ref g \<in> set seen then (seen, queue)
        else (seen @ [group_ref g], queue @ [group_ref g]))"

lemma visit_pair:
  "visit g (seen, queue) =
     (if group_ref g \<in> set seen then (seen, queue) else (seen @ [group_ref g], queue @ [group_ref g]))"
  by (simp add: visit_def)

definition known_groups :: "GroupGraph \<Rightarrow> string set" where
  "known_groups graph = group_ref ` (\<Union>e \<in> set graph. set (snd e))"

lemma finite_known_groups [simp]: "finite (known_groups graph)"
  by (simp add: known_groups_def)

lemma directGroups_known: "g \<in> set (directGroups graph p) \<Longrightarrow> group_ref g \<in> known_groups graph"
proof -
  assume "g \<in> set (directGroups graph p)"
  then obtain gs where "map_of graph p = Some gs" and g: "g \<in> set gs"
    by (cases "map_of graph p") (simp_all add: directGroups_def)
  then have "(p, gs) \<in> set graph" by (simp add: map_of_SomeD)
  with g show ?thesis by (force simp: known_groups_def)
qed

text \<open>What visiting a list of groups does to the two lists.\<close>

lemma visit_fold:
  assumes "fold visit gs (seen, queue) = (seen', queue')"
  shows "set seen' = set seen \<union> group_ref ` set gs"
    and "\<exists>new. seen' = seen @ new \<and> queue' = queue @ new \<and> set new \<inter> set seen = {} \<and> distinct new"
proof -
  have "set seen' = set seen \<union> group_ref ` set gs \<and>
      (\<exists>new. seen' = seen @ new \<and> queue' = queue @ new \<and> set new \<inter> set seen = {} \<and> distinct new)"
    using assms
  proof (induction gs arbitrary: seen queue)
    case Nil
    then show ?case by simp
  next
    case (Cons g gs)
    show ?case
    proof (cases "group_ref g \<in> set seen")
      case True
      with Cons.prems Cons.IH [of seen queue] show ?thesis by (auto simp: visit_pair)
    next
      case False
      with Cons.prems Cons.IH [of "seen @ [group_ref g]" "queue @ [group_ref g]"]
      show ?thesis by (auto simp: visit_pair)
    qed
  qed
  then show "set seen' = set seen \<union> group_ref ` set gs"
    and "\<exists>new. seen' = seen @ new \<and> queue' = queue @ new \<and> set new \<inter> set seen = {} \<and> distinct new"
    by simp_all
qed

text \<open>The loop: the queue is popped at its end, as \<open>queue.pop()\<close> does.\<close>

function principals_loop :: "GroupGraph \<Rightarrow> string list \<Rightarrow> string list \<Rightarrow> string list" where
  "principals_loop graph seen queue =
     (if queue = [] then seen
      else let (seen', queue') = fold visit (directGroups graph (last queue)) (seen, butlast queue)
           in principals_loop graph seen' queue')"
  by pat_completeness auto
termination
proof (relation "measures [\<lambda>(graph, seen, queue). card (known_groups graph - set seen),
    \<lambda>(graph, seen, queue). length queue]", goal_cases)
  case 1
  then show ?case by simp
next
  case (2 graph seen queue acc seen' queue')
  let ?gs = "directGroups graph (last queue)"
  have step: "fold visit ?gs (seen, butlast queue) = (seen', queue')" using 2(2,3) by simp
  obtain new where new: "seen' = seen @ new" "queue' = butlast queue @ new" "set new \<inter> set seen = {}" "distinct new"
    using visit_fold(2) [OF step] by blast
  show ?case
  proof (cases "new = []")
    case True
    with new 2(1) show ?thesis by (simp add: length_greater_0_conv)
  next
    case False
    then obtain r where r: "r \<in> set new" by (meson last_in_set)
    then have "r \<in> group_ref ` set ?gs" and out: "r \<notin> set seen"
      using new visit_fold(1) [OF step] by auto
    then have "r \<in> known_groups graph - set seen"
      using directGroups_known by blast
    then have "known_groups graph - set seen' \<subset> known_groups graph - set seen"
      using r new by auto
    then have "card (known_groups graph - set seen') < card (known_groups graph - set seen)"
      by (intro psubset_card_mono) simp_all
    then show ?thesis by simp
  qed
qed

declare principals_loop.simps [simp del]

lemma principals_loop_Nil [simp]: "principals_loop graph seen [] = seen"
  by (subst principals_loop.simps) simp

definition effectivePrincipals :: "Principal \<Rightarrow> GroupGraph \<Rightarrow> string list" where
  "effectivePrincipals pr graph =
     (let self = principalRef pr in principals_loop graph [self] [self])"

subsection \<open>The loop computes reachability\<close>

definition member_edge :: "GroupGraph \<Rightarrow> (string \<times> string) set" where
  "member_edge graph = {(a, group_ref g) | a g. g \<in> set (directGroups graph a)}"

text \<open>
  The worklist invariant: what is queued has been seen, and everything seen and no longer
  queued has its direct groups seen too.
\<close>

definition loop_inv :: "GroupGraph \<Rightarrow> string \<Rightarrow> string list \<Rightarrow> string list \<Rightarrow> bool" where
  "loop_inv graph self seen queue \<longleftrightarrow>
     self \<in> set seen \<and> set queue \<subseteq> set seen \<and> distinct seen \<and>
     set seen \<subseteq> {r. (self, r) \<in> (member_edge graph)\<^sup>*} \<and>
     (\<forall>a \<in> set seen - set queue. \<forall>b. (a, b) \<in> member_edge graph \<longrightarrow> b \<in> set seen)"

lemma loop_inv_step:
  assumes inv: "loop_inv graph self seen queue" and "queue \<noteq> []"
    and step: "fold visit (directGroups graph (last queue)) (seen, butlast queue) = (seen', queue')"
  shows "loop_inv graph self seen' queue'"
proof -
  let ?c = "last queue"
  obtain new where new: "seen' = seen @ new" "queue' = butlast queue @ new" "set new \<inter> set seen = {}" "distinct new"
    using visit_fold(2) [OF step] by blast
  have q: "set queue = insert ?c (set (butlast queue))"
    using \<open>queue \<noteq> []\<close> by (metis append_butlast_last_id list.set(1) list.set(2) set_append Un_insert_right sup_bot.right_neutral)
  have s: "set seen' = set seen \<union> group_ref ` set (directGroups graph ?c)"
    by (rule visit_fold(1) [OF step])
  have c: "(self, ?c) \<in> (member_edge graph)\<^sup>*"
    using inv q by (auto simp: loop_inv_def)
  then have reach: "set seen' \<subseteq> {r. (self, r) \<in> (member_edge graph)\<^sup>*}"
    using inv by (auto simp: s loop_inv_def member_edge_def intro: rtrancl_into_rtrancl)
  have closed: "b \<in> set seen'" if "a \<in> set seen' - set queue'" "(a, b) \<in> member_edge graph" for a b
  proof (cases "a = ?c")
    case True
    with that show ?thesis by (auto simp: s member_edge_def)
  next
    case False
    with that(1) q new have "a \<in> set seen - set queue" by auto
    with inv that(2) have "b \<in> set seen" unfolding loop_inv_def by blast
    with s show ?thesis by blast
  qed
  have "distinct seen'"
    using inv new by (auto simp: loop_inv_def)
  moreover have "self \<in> set seen'" "set queue' \<subseteq> set seen'"
    using inv q new by (auto simp: loop_inv_def)
  ultimately show ?thesis
    using reach closed by (simp add: loop_inv_def)
qed


lemma loop_inv_done:
  assumes "loop_inv graph self seen []"
  shows "set seen = {r. (self, r) \<in> (member_edge graph)\<^sup>*}"
proof -
  have "r \<in> set seen" if "(self, r) \<in> (member_edge graph)\<^sup>*" for r
    using that
  proof (induction rule: rtrancl_induct)
    case base
    with assms show ?case by (simp add: loop_inv_def)
  next
    case (step a b)
    with assms show ?case unfolding loop_inv_def by simp
  qed
  moreover have "set seen \<subseteq> {r. (self, r) \<in> (member_edge graph)\<^sup>*}"
    using assms by (simp add: loop_inv_def)
  ultimately show ?thesis by blast
qed

lemma principals_loop_reach:
  "loop_inv graph self seen queue \<Longrightarrow>
   distinct (principals_loop graph seen queue) \<and>
   set (principals_loop graph seen queue) = {r. (self, r) \<in> (member_edge graph)\<^sup>*}"
proof (induction graph seen queue rule: principals_loop.induct)
  case (1 graph seen queue)
  show ?case
  proof (cases "queue = []")
    case True
    with "1.prems" have "loop_inv graph self seen []" by simp
    then have "set seen = {r. (self, r) \<in> (member_edge graph)\<^sup>*}" and "distinct seen"
      by (rule loop_inv_done) (use \<open>loop_inv graph self seen []\<close> in \<open>unfold loop_inv_def, blast\<close>)
    with True show ?thesis by simp
  next
    case False
    obtain seen' queue' where step:
      "fold visit (directGroups graph (last queue)) (seen, butlast queue) = (seen', queue')"
      by force
    have "loop_inv graph self seen' queue'"
      using "1.prems" False step by (rule loop_inv_step)
    with "1.IH" [OF False step [symmetric] refl] show ?thesis
      by (simp only: principals_loop.simps [of graph seen queue] False if_False Let_def step prod.case)
  qed
qed

lemma effectivePrincipals_reach:
  "set (effectivePrincipals p graph) = {r. (principalRef p, r) \<in> (member_edge graph)\<^sup>*}"
  "distinct (effectivePrincipals p graph)"
proof -
  have "loop_inv graph (principalRef p) [principalRef p] [principalRef p]"
    by (simp add: loop_inv_def)
  from principals_loop_reach [OF this]
  show "set (effectivePrincipals p graph) = {r. (principalRef p, r) \<in> (member_edge graph)\<^sup>*}"
    and "distinct (effectivePrincipals p graph)"
    by (simp_all add: effectivePrincipals_def Let_def)
qed

lemma effective_colon: "r \<in> set (effectivePrincipals p graph) \<Longrightarrow> \<exists>q. r = principalRef q"
proof -
  assume "r \<in> set (effectivePrincipals p graph)"
  then have "(principalRef p, r) \<in> (member_edge graph)\<^sup>*" by (simp add: effectivePrincipals_reach)
  then show ?thesis
  proof (cases rule: rtrancl.cases)
    case rtrancl_refl
    then show ?thesis by blast
  next
    case (rtrancl_into_rtrancl b)
    then obtain g where "r = group_ref g" by (auto simp: member_edge_def)
    then have "r = principalRef \<lparr>ptype = Group, pid = g\<rparr>"
      by (simp add: group_ref_def principalRef_def)
    then show ?thesis by blast
  qed
qed

subsection \<open>The GroupGraph interface\<close>

text \<open>
  What a provider promises: a group is among a principal's direct groups exactly when the data
  the graph was loaded from says so.
\<close>

locale group_graph =
  fixes load :: "'d \<Rightarrow> GroupGraph" and member :: "'d \<Rightarrow> string \<Rightarrow> string \<Rightarrow> bool"
  assumes direct: "g \<in> set (directGroups (load d) p) \<longleftrightarrow> member d p g"
begin

lemma effective_iff:
  "r \<in> set (effectivePrincipals p (load d)) \<longleftrightarrow>
     (\<lambda>a b. \<exists>g. b = group_ref g \<and> member d a g)\<^sup>*\<^sup>* (principalRef p) r"
proof -
  have "member_edge (load d) = {(a, b). \<exists>g. b = group_ref g \<and> member d a g}"
    by (auto simp: member_edge_def direct)
  then show ?thesis
    by (simp add: effectivePrincipals_reach rtranclp_rtrancl_eq)
qed

end

interpretation memory_graph: group_graph MemoryGroupGraph
  "\<lambda>membership p g. \<exists>gs. map_of (rev membership) p = Some gs \<and> g \<in> set gs"
proof
  fix g d p
  show "g \<in> set (directGroups (MemoryGroupGraph d) p)
      \<longleftrightarrow> (\<exists>gs. map_of (rev d) p = Some gs \<and> g \<in> set gs)"
    by (cases "map_of (rev d) p") (simp_all add: directGroups_def MemoryGroupGraph_def map_of_map_from)
qed

end
