(* ===== verification/Principals_Cache.thy ===== *)
theory Principals_Cache
  imports Principals Js_Values
begin

text \<open>
  \<open>packages/core/authz/cache.ts\<close>: effective principals behind a key that carries the
  organization's \<open>groups_version\<close>. The interface \<open>CacheStore\<close> is a record of two operations that
  may fail; its contract is the locale \<open>cache_store\<close>, interpreted on \<open>MemoryCache\<close>. The lemmas show
  that a cache filled through this function never answers with another version's groups.
\<close>

subsection \<open>The CacheStore interface and MemoryCache\<close>

text \<open>A failing call is \<open>Inl\<close>; it may still have changed the store.\<close>

record 'c CacheStore =
  cs_get :: "'c \<Rightarrow> string \<Rightarrow> (string + json_text option) \<times> 'c"
  cs_set :: "'c \<Rightarrow> string \<Rightarrow> json_text \<Rightarrow> nat \<Rightarrow> (string + unit) \<times> 'c"

text \<open>The in-process store: entries with their expiry, and the clock \<open>Date.now()\<close> reads, in ms.\<close>

record CacheEntry =
  ce_value :: json_text
  ce_expires :: nat

record MemoryCache =
  mc_entries :: "(string \<times> CacheEntry) list"
  mc_now :: nat

definition memory_get :: "MemoryCache \<Rightarrow> string \<Rightarrow> (string + json_text option) \<times> MemoryCache" where
  "memory_get c key =
     (case map_of (mc_entries c) key of
        None \<Rightarrow> (Inr None, c)
      | Some entry \<Rightarrow>
          if ce_expires entry \<le> mc_now c
          then (Inr None, c\<lparr>mc_entries := AList.delete key (mc_entries c)\<rparr>)
          else (Inr (Some (ce_value entry)), c))"

definition memory_set :: "MemoryCache \<Rightarrow> string \<Rightarrow> json_text \<Rightarrow> nat \<Rightarrow> (string + unit) \<times> MemoryCache" where
  "memory_set c key v ttlSeconds =
     (Inr (), c\<lparr>mc_entries :=
        AList.update key \<lparr>ce_value = v, ce_expires = mc_now c + ttlSeconds * 1000\<rparr> (mc_entries c)\<rparr>)"

definition MemoryCache_store :: "MemoryCache CacheStore" where
  "MemoryCache_store = \<lparr>cs_get = memory_get, cs_set = memory_set\<rparr>"

subsection \<open>The key and the cached computation\<close>

definition principalsCacheKey :: "string \<Rightarrow> Principal \<Rightarrow> nat \<Rightarrow> string" where
  "principalsCacheKey orgId p groupsVersion =
     ''acl:principals:'' @ orgId @ '':'' @ principalTypeName (ptype p) @ '':'' @ pid p
       @ '':v'' @ nat_str groupsVersion"

record CachedPrincipalsOptions =
  cp_orgId :: string
  cp_principal :: Principal
  cp_groupsVersion :: nat
  cp_ttlSeconds :: nat

text \<open>What the \<open>try\<close> block returns from a read: a string array, or nothing to fall through on.\<close>

fun cache_hit :: "string + json_text option \<Rightarrow> string list option" where
  "cache_hit (Inr (Some (Some v))) = map_option set_of (string_array v)"
| "cache_hit _ = None"

definition cachedEffectivePrincipals ::
  "CachedPrincipalsOptions \<Rightarrow> 'c CacheStore \<Rightarrow> GroupGraph \<Rightarrow> 'c \<Rightarrow> string list \<times> 'c" where
  "cachedEffectivePrincipals options store graph c =
     (let key = principalsCacheKey (cp_orgId options) (cp_principal options) (cp_groupsVersion options);
          (reply, c1) = cs_get store c key
      in case cache_hit reply of
           Some principals \<Rightarrow> (principals, c1)
         | None \<Rightarrow>
             let principals = effectivePrincipals (cp_principal options) graph;
                 (_, c2) = cs_set store c1 key (Some (JArr (map JStr principals))) (cp_ttlSeconds options)
             in (principals, c2))"

subsection \<open>The key separates organizations, principals and versions\<close>

lemma append_v_inj:
  assumes "a @ '':v'' @ nat_str m = b @ '':v'' @ nat_str n"
  shows "a = b \<and> m = n"
proof -
  have split: "CHR '':'' \<notin> set (rev (''v'' @ nat_str k))" for k by simp
  have "rev (''v'' @ nat_str m) @ '':'' @ rev a = rev (''v'' @ nat_str n) @ '':'' @ rev b"
    using arg_cong [OF assms, of rev] by simp
  then have "rev (''v'' @ nat_str m) = rev (''v'' @ nat_str n) \<and> rev a = rev b"
    by (rule colon_join_inj [OF split split])
  then show ?thesis by simp
qed

lemma principalsCacheKey_inj:
  assumes "CHR '':'' \<notin> set o1" and "CHR '':'' \<notin> set o2"
    and "principalsCacheKey o1 p1 v1 = principalsCacheKey o2 p2 v2"
  shows "o1 = o2 \<and> p1 = p2 \<and> v1 = v2"
proof -
  have "(o1 @ '':'' @ principalRef p1) @ '':v'' @ nat_str v1 = (o2 @ '':'' @ principalRef p2) @ '':v'' @ nat_str v2"
    using assms(3) by (simp add: principalsCacheKey_def principalRef_def)
  from append_v_inj [OF this] have v: "v1 = v2" and "o1 @ '':'' @ principalRef p1 = o2 @ '':'' @ principalRef p2"
    by simp_all
  with colon_join_inj [OF assms(1,2)] have "o1 = o2" and "principalRef p1 = principalRef p2" by blast+
  with v show ?thesis by simp
qed

subsection \<open>The contract of a cache store\<close>

text \<open>
  \<open>entry c k\<close> is what the store could answer for \<open>k\<close>. A read answers only that, a write adds only
  its own value under its own key, and either may lose entries or fail.
\<close>

locale cache_store =
  fixes store :: "'c CacheStore" and entry :: "'c \<Rightarrow> string \<Rightarrow> json_text option"
  assumes get_sound: "cs_get store c k = (Inr (Some v), c') \<Longrightarrow> entry c k = Some v"
    and get_frame: "cs_get store c k = (r, c') \<Longrightarrow> entry c' j = Some w \<Longrightarrow> entry c j = Some w"
    and set_frame: "cs_set store c k v ttl = (u, c') \<Longrightarrow> entry c' j = Some w \<Longrightarrow>
      (j = k \<and> w = v) \<or> entry c j = Some w"
begin

text \<open>
  \<open>faithful h c\<close>: under each key the store holds, if anything, the groups that version of the
  organization gave, where \<open>h org version\<close> is the membership graph of that version.
\<close>

definition faithful :: "(string \<Rightarrow> nat \<Rightarrow> GroupGraph) \<Rightarrow> 'c \<Rightarrow> bool" where
  "faithful h c \<longleftrightarrow>
     (\<forall>org p v xs. CHR '':'' \<notin> set org \<longrightarrow> entry c (principalsCacheKey org p v) = Some (Some (JArr (map JStr xs)))
        \<longrightarrow> set xs = set (effectivePrincipals p (h org v))) \<and>
     (\<forall>k t. entry c k = Some t \<longrightarrow> (\<exists>xs. t = Some (JArr (map JStr xs))))"

lemma faithful_frame:
  assumes "faithful h c" and "\<And>j w. entry c' j = Some w \<Longrightarrow> entry c j = Some w"
  shows "faithful h c'"
  using assms unfolding faithful_def by blast

lemma faithful_set:
  assumes f: "faithful h c" and org: "CHR '':'' \<notin> set org"
    and s: "cs_set store c (principalsCacheKey org p v)
        (Some (JArr (map JStr (effectivePrincipals p (h org v))))) ttl = (r, c')"
  shows "faithful h c'"
  unfolding faithful_def
proof (intro conjI allI impI)
  fix org' q v' xs
  assume o: "CHR '':'' \<notin> set org'" and e: "entry c' (principalsCacheKey org' q v') = Some (Some (JArr (map JStr xs)))"
  from set_frame [OF s e]
  show "set xs = set (effectivePrincipals q (h org' v'))"
  proof
    assume "principalsCacheKey org' q v' = principalsCacheKey org p v \<and>
      Some (JArr (map JStr xs)) = Some (JArr (map JStr (effectivePrincipals p (h org v))))"
    then have "org' = org \<and> q = p \<and> v' = v" and "map JStr xs = map JStr (effectivePrincipals p (h org v))"
      using principalsCacheKey_inj [OF o org] by auto
    moreover from this(2) have "xs = effectivePrincipals p (h org v)"
      by (simp add: map_JStr_inj)
    ultimately show ?thesis by simp
  next
    assume "entry c (principalsCacheKey org' q v') = Some (Some (JArr (map JStr xs)))"
    with f o show ?thesis unfolding faithful_def by blast
  qed
next
  fix k t
  assume "entry c' k = Some t"
  from set_frame [OF s this] f show "\<exists>xs. t = Some (JArr (map JStr xs))"
    unfolding faithful_def by blast
qed

lemma cached_fresh:
  assumes f: "faithful h c" and org: "CHR '':'' \<notin> set (cp_orgId o')"
    and g: "graph = h (cp_orgId o') (cp_groupsVersion o')"
    and run: "cachedEffectivePrincipals o' store graph c = (ps, c')"
  shows "set ps = set (effectivePrincipals (cp_principal o') graph) \<and> faithful h c'"
proof -
  let ?k = "principalsCacheKey (cp_orgId o') (cp_principal o') (cp_groupsVersion o')"
  obtain reply c1 where get: "cs_get store c ?k = (reply, c1)" by force
  have f1: "faithful h c1"
    by (rule faithful_frame [OF f get_frame [OF get]])
  show ?thesis
  proof (cases "cache_hit reply")
    case (Some hit)
    then obtain v where v: "reply = Inr (Some (Some v))" and sa: "map_option set_of (string_array v) = Some hit"
      by (cases reply rule: cache_hit.cases) simp_all
    have e: "entry c ?k = Some (Some v)" using get_sound get v by simp
    then obtain xs where "Some v = Some (JArr (map JStr xs))" using f unfolding faithful_def by blast
    then have xs: "v = JArr (map JStr xs)" by simp
    with e f org g have "set xs = set (effectivePrincipals (cp_principal o') graph)"
      unfolding faithful_def by blast
    moreover have "hit = set_of xs" using sa xs by simp
    moreover have "ps = hit \<and> c' = c1"
      using run Some get by (simp add: cachedEffectivePrincipals_def)
    ultimately show ?thesis using f1 by (metis set_set_of)
  next
    case None
    let ?ps = "effectivePrincipals (cp_principal o') graph"
    obtain r c2 where s: "cs_set store c1 ?k (Some (JArr (map JStr ?ps))) (cp_ttlSeconds o') = (r, c2)" by force
    have "ps = ?ps \<and> c' = c2"
      using run None s get by (simp add: cachedEffectivePrincipals_def Let_def)
    moreover have "faithful h c2"
      by (rule faithful_set [OF f1 org]) (use s g in simp)
    ultimately show ?thesis by simp
  qed
qed

end

definition memory_entry :: "MemoryCache \<Rightarrow> string \<Rightarrow> json_text option" where
  "memory_entry c k = map_option ce_value (map_of (mc_entries c) k)"

interpretation memory_cache: cache_store MemoryCache_store memory_entry
proof
  show "cs_get MemoryCache_store c k = (Inr (Some v), c') \<Longrightarrow> memory_entry c k = Some v" for c k v c'
    by (auto simp: MemoryCache_store_def memory_get_def memory_entry_def split: option.splits if_splits)
  show "cs_get MemoryCache_store c k = (r, c') \<Longrightarrow> memory_entry c' j = Some w \<Longrightarrow> memory_entry c j = Some w"
    for c k r c' j w
    by (auto simp: MemoryCache_store_def memory_get_def memory_entry_def delete_conv'
        split: option.splits if_splits)
  show "cs_set MemoryCache_store c k v ttl = (r, c') \<Longrightarrow> memory_entry c' j = Some w \<Longrightarrow>
      (j = k \<and> w = v) \<or> memory_entry c j = Some w" for c k v ttl r c' j w
    by (auto simp: MemoryCache_store_def memory_set_def memory_entry_def update_conv' split: if_splits)
qed

subsection \<open>Runs of an organization's cache\<close>

text \<open>
  The states an in-process cache passes through: it starts empty, the clock moves, and requests look
  principals up under the group graph of the version they read, \<open>h org version\<close>.
\<close>

inductive cache_run :: "(string \<Rightarrow> nat \<Rightarrow> GroupGraph) \<Rightarrow> MemoryCache \<Rightarrow> bool"
  for h where
  empty: "cache_run h \<lparr>mc_entries = [], mc_now = t\<rparr>"
| tick: "cache_run h c \<Longrightarrow> cache_run h (c\<lparr>mc_now := t\<rparr>)"
| request: "cache_run h c \<Longrightarrow> CHR '':'' \<notin> set (cp_orgId options) \<Longrightarrow>
    cachedEffectivePrincipals options MemoryCache_store (h (cp_orgId options) (cp_groupsVersion options)) c = (ps, c')
    \<Longrightarrow> cache_run h c'"

lemma cache_run_faithful: "cache_run h c \<Longrightarrow> memory_cache.faithful h c"
proof (induction rule: cache_run.induct)
  case (empty t)
  then show ?case unfolding memory_cache.faithful_def by (simp add: memory_entry_def)
next
  case (tick c t)
  from tick.IH show ?case by (rule memory_cache.faithful_frame) (simp add: memory_entry_def)
next
  case (request c options ps c')
  from memory_cache.cached_fresh [OF request.IH request.hyps(2) refl request.hyps(3)] show ?case by simp
qed

text \<open>C35 - Through any run of requests of any organizations, principals and group versions, with the clock
  moving as it will, a cached answer is exactly the groups of the version asked for: no entry of an
  older version, another organization or another principal is ever served.\<close>

theorem cache_never_stale:
  assumes "cache_run h c" and "CHR '':'' \<notin> set (cp_orgId options)"
    and "cachedEffectivePrincipals options MemoryCache_store (h (cp_orgId options) (cp_groupsVersion options)) c = (ps, c')"
  shows "set ps = set (effectivePrincipals (cp_principal options) (h (cp_orgId options) (cp_groupsVersion options)))"
  using memory_cache.cached_fresh [OF cache_run_faithful [OF assms(1)] assms(2) refl assms(3)] by simp

definition sample_history :: "string \<Rightarrow> nat \<Rightarrow> GroupGraph" where
  "sample_history org v = (if v = 1 then [(''user:ada'', [''g1''])] else [(''user:ada'', [''g2''])])"

definition sample_request :: "nat \<Rightarrow> CachedPrincipalsOptions" where
  "sample_request v = \<lparr>cp_orgId = ''acme'', cp_principal = \<lparr>ptype = User, pid = ''ada''\<rparr>, cp_groupsVersion = v, cp_ttlSeconds = 60\<rparr>"

definition after_request :: "nat \<Rightarrow> MemoryCache \<Rightarrow> string list \<times> MemoryCache" where
  "after_request v c = cachedEffectivePrincipals (sample_request v) MemoryCache_store (sample_history ''acme'' v) c"

theorem cache_never_stale_witness:
  "set (fst (after_request 2 (snd (after_request 1 \<lparr>mc_entries = [], mc_now = 0\<rparr>)))) = {''user:ada'', ''group:g2''}"
proof -
  let ?c = "snd (after_request 1 \<lparr>mc_entries = [], mc_now = 0\<rparr>)"
  have "cache_run sample_history ?c"
    by (rule cache_run.request [where options = "sample_request 1" and ps = "fst (after_request 1 \<lparr>mc_entries = [], mc_now = 0\<rparr>)",
          OF cache_run.empty [of _ 0]])
       (simp_all add: after_request_def sample_request_def)
  from cache_never_stale [OF this, of "sample_request 2" "fst (after_request 2 ?c)" "snd (after_request 2 ?c)"]
  have "set (fst (after_request 2 ?c)) = set (effectivePrincipals \<lparr>ptype = User, pid = ''ada''\<rparr> (sample_history ''acme'' 2))"
    by (simp add: after_request_def sample_request_def)
  also have "\<dots> = {''user:ada'', ''group:g2''}" by code_simp
  finally show ?thesis .
qed

end
