(* ===== verification/Store.thy ===== *)
theory Store
  imports Resolver Principals_Cache Auth
begin

text \<open>
  \<open>packages/core/authz/store.ts\<close> - the grants, the scope tree and the group graph as the database
  holds them - and \<open>principalsFor\<close> and \<open>contextFor\<close> of \<open>packages/api/src/adapters.ts\<close>, which compose
  them into the input of one request's resolver. Tables are lists of rows; a row's id is a primary
  key, which \<open>wf_db\<close> states. The last lemma carries the resolver's equivalence with the rules from
  trees to the database: what a request reaches is what the rules say of the organization's whole tree.
\<close>

subsection \<open>The tables\<close>

record LayerRow =
  ly_id :: string
  ly_org :: string
  ly_workspace :: string
  ly_slug :: string
  ly_deleted :: bool
  ly_vector_name :: string
  ly_provider :: string

record DocumentRow =
  dc_id :: string
  dc_org :: string
  dc_layer :: string
  dc_deleted :: bool
  dc_title :: "string option"

record GroupMemberRow =
  gm_org :: string
  gm_group :: string
  gm_member_user :: "string option"
  gm_member_group :: "string option"

record Db =
  db_grants :: "Grant list"
  db_layers :: "LayerRow list"
  db_documents :: "DocumentRow list"
  db_group_members :: "GroupMemberRow list"
  db_groups_version :: "string \<rightharpoonup> nat"

definition wf_db :: "Db \<Rightarrow> bool" where
  "wf_db db \<longleftrightarrow> distinct (map ly_id (db_layers db)) \<and> distinct (map dc_id (db_documents db))"

subsection \<open>loadGrants\<close>

text \<open>\<open>ref.slice(0, sep)\<close> and \<open>ref.slice(sep + 1)\<close>; with \<open>sep = -1\<close> the first drops the last character.\<close>

definition split_ref :: "string \<Rightarrow> string \<times> string" where
  "split_ref ref =
     (case index_of (CHR '':'') ref of
        Some sep \<Rightarrow> (take sep ref, drop (Suc sep) ref)
      | None \<Rightarrow> (butlast ref, ref))"

definition loadGrants :: "Db \<Rightarrow> string \<Rightarrow> string list \<Rightarrow> Grant list" where
  "loadGrants db orgId refs =
     (if refs = [] then []
      else let pairs = map split_ref refs
           in filter (\<lambda>g. grant_org g = orgId \<and>
                (principalTypeName (ptype (grant_principal g)), pid (grant_principal g)) \<in> set pairs)
                (db_grants db))"

lemma split_ref_principalRef [simp]: "split_ref (principalRef p) = (principalTypeName (ptype p), pid p)"
  using index_of_append [of "CHR '':''" "principalTypeName (ptype p)" "pid p"]
  by (simp add: split_ref_def principalRef_def)

lemma loadGrants_iff:
  assumes "\<forall>r \<in> set refs. \<exists>p. r = principalRef p"
  shows "g \<in> set (loadGrants db orgId refs) \<longleftrightarrow>
    g \<in> set (db_grants db) \<and> grant_org g = orgId \<and> principalRef (grant_principal g) \<in> set refs"
proof -
  have "(principalTypeName (ptype q), pid q) \<in> split_ref ` set refs \<longleftrightarrow> principalRef q \<in> set refs" for q
  proof
    assume "(principalTypeName (ptype q), pid q) \<in> split_ref ` set refs"
    then obtain r where r: "r \<in> set refs" "split_ref r = (principalTypeName (ptype q), pid q)" by force
    then obtain p where "r = principalRef p" using assms by blast
    with r have "p = q" by simp
    with r \<open>r = principalRef p\<close> show "principalRef q \<in> set refs" by simp
  next
    assume "principalRef q \<in> set refs"
    then have "split_ref (principalRef q) \<in> split_ref ` set refs" by blast
    then show "(principalTypeName (ptype q), pid q) \<in> split_ref ` set refs" by simp
  qed
  then show ?thesis by (auto simp: loadGrants_def)
qed

subsection \<open>loadScopeTree\<close>

definition live_layers :: "Db \<Rightarrow> string \<Rightarrow> LayerRow list" where
  "live_layers db orgId = filter (\<lambda>r. ly_org r = orgId \<and> \<not> ly_deleted r) (db_layers db)"

definition live_documents :: "Db \<Rightarrow> string \<Rightarrow> DocumentRow list" where
  "live_documents db orgId = filter (\<lambda>r. dc_org r = orgId \<and> \<not> dc_deleted r) (db_documents db)"

definition scope_tree_data :: "Db \<Rightarrow> string \<Rightarrow> string list \<Rightarrow> ScopeTreeData" where
  "scope_tree_data db orgId documentIds =
     \<lparr>data_layers = group_pairs (map (\<lambda>r. (ly_workspace r, ly_id r)) (live_layers db orgId)),
      data_documents =
        (if documentIds = [] then []
         else map_from (map (\<lambda>r. (dc_id r, dc_layer r))
                (filter (\<lambda>r. dc_id r \<in> set documentIds) (live_documents db orgId))))\<rparr>"

definition loadScopeTree :: "Db \<Rightarrow> string \<Rightarrow> string list \<Rightarrow> ScopeTree" where
  "loadScopeTree db orgId documentIds = MemoryScopeTree (scope_tree_data db orgId documentIds)"

text \<open>The organization's whole tree: every live document placed.\<close>

definition fullTree :: "Db \<Rightarrow> string \<Rightarrow> ScopeTree" where
  "fullTree db orgId = loadScopeTree db orgId (map dc_id (live_documents db orgId))"

lemma distinct_map_filter_inj:
  "distinct (map f xs) \<Longrightarrow> x \<in> set xs \<Longrightarrow> y \<in> set xs \<Longrightarrow> f x = f y \<Longrightarrow> x = y"
  by (simp add: distinct_map inj_on_def)

lemma tree_placed_once: "wf_db db \<Longrightarrow> placed_once (scope_tree_data db orgId ids)"
proof -
  assume wf: "wf_db db"
  let ?es = "map (\<lambda>r. (ly_workspace r, ly_id r)) (live_layers db orgId)"
  have row: "w = v" if "(w, l) \<in> set ?es" "(v, l) \<in> set ?es" for w v l
  proof -
    from that obtain r s where "r \<in> set (live_layers db orgId)" "w = ly_workspace r" "l = ly_id r"
      and "s \<in> set (live_layers db orgId)" "v = ly_workspace s" "l = ly_id s" by auto
    moreover from this wf have "r = s"
      by (intro distinct_map_filter_inj [of ly_id "db_layers db"]) (auto simp: wf_db_def live_layers_def)
    ultimately show ?thesis by simp
  qed
  have "layers_once (group_pairs ?es)"
    unfolding layers_once_def
  proof (intro ballI impI)
    fix e f l
    assume e: "e \<in> set (group_pairs ?es)" and f: "f \<in> set (group_pairs ?es)"
      and l: "l \<in> set (snd e)" "l \<in> set (snd f)"
    have "snd e = values_at (fst e) ?es" "snd f = values_at (fst f) ?es"
      using e f in_group_pairs [of "fst e" "snd e" ?es] in_group_pairs [of "fst f" "snd f" ?es] by simp_all
    with l have "(fst e, l) \<in> set ?es" "(fst f, l) \<in> set ?es" by (metis in_values_at)+
    then show "fst e = fst f" by (rule row)
  qed
  then show ?thesis by (simp add: placed_once_def scope_tree_data_def)
qed

lemma layerOf_loaded:
  assumes wf: "wf_db db"
  shows "layerOf (loadScopeTree db orgId ids) d = Some l \<longleftrightarrow>
    d \<in> set ids \<and> (\<exists>r \<in> set (live_documents db orgId). dc_id r = d \<and> dc_layer r = l)"
proof -
  let ?rows = "filter (\<lambda>r. dc_id r \<in> set ids) (live_documents db orgId)"
  let ?es = "map (\<lambda>r. (dc_id r, dc_layer r)) ?rows"
  have "distinct (map dc_id (live_documents db orgId))"
    using wf by (simp add: wf_db_def live_documents_def distinct_map_filter)
  then have "distinct (map dc_id ?rows)" by (rule distinct_map_filter)
  then have es: "distinct (map fst ?es)" by (simp add: comp_def)
  show ?thesis
  proof (cases "ids = []")
    case True
    then show ?thesis
      by (simp add: loadScopeTree_def scope_tree_data_def MemoryScopeTree_def Let_def map_from_def)
  next
    case False
    then have "layerOf (loadScopeTree db orgId ids) d = map_of ?es d"
      using es by (simp add: loadScopeTree_def scope_tree_data_def MemoryScopeTree_def Let_def)
    moreover have "map_of ?es d = Some l \<longleftrightarrow> (d, l) \<in> set ?es"
      using es by simp
    ultimately show ?thesis by auto
  qed
qed

lemma loadScopeTree_layers:
  "layersOf (loadScopeTree db orgId ids) = layersOf (loadScopeTree db orgId ids')"
  "workspaceOf (loadScopeTree db orgId ids) = workspaceOf (loadScopeTree db orgId ids')"
  by (simp_all add: loadScopeTree_def scope_tree_data_def MemoryScopeTree_def Let_def)

lemma layerOf_full:
  "wf_db db \<Longrightarrow> layerOf (fullTree db orgId) d = Some l \<longleftrightarrow>
     (\<exists>r \<in> set (live_documents db orgId). dc_id r = d \<and> dc_layer r = l)"
  by (auto simp: fullTree_def layerOf_loaded)

lemma loaded_agrees_full:
  assumes wf: "wf_db db"
    and named: "\<forall>g \<in> set gs. stype (grant_scope g) = Document \<longrightarrow> sid (grant_scope g) \<in> set ids"
  shows "agrees_on gs (loadScopeTree db orgId ids) (fullTree db orgId)"
proof -
  have "layerOf (loadScopeTree db orgId ids) d = layerOf (fullTree db orgId) d" if "d \<in> set ids" for d
  proof (cases "layerOf (fullTree db orgId) d")
    case None
    then have "layerOf (loadScopeTree db orgId ids) d \<noteq> Some l" for l
      using layerOf_loaded [OF wf] layerOf_full [OF wf] by (metis option.distinct(1))
    then have "layerOf (loadScopeTree db orgId ids) d = None" by (meson option.exhaust)
    with None show ?thesis by simp
  next
    case (Some l)
    with that show ?thesis using layerOf_loaded [OF wf] layerOf_full [OF wf] by metis
  qed
  with named show ?thesis
    by (auto simp: agrees_on_def fullTree_def loadScopeTree_layers [of db orgId ids])
qed

subsection \<open>PostgresGroupGraph\<close>

text \<open>A column's value is truthy when it is present and not empty.\<close>

definition truthy :: "string option \<Rightarrow> string option" where
  "truthy v = (case v of Some s \<Rightarrow> if s = [] then None else Some s | None \<Rightarrow> None)"

definition member_ref :: "GroupMemberRow \<Rightarrow> string option" where
  "member_ref row =
     (case truthy (gm_member_user row) of
        Some u \<Rightarrow> Some (''user:'' @ u)
      | None \<Rightarrow> (case truthy (gm_member_group row) of Some g \<Rightarrow> Some (''group:'' @ g) | None \<Rightarrow> None))"

definition membership_pairs :: "Db \<Rightarrow> string \<Rightarrow> (string \<times> string) list" where
  "membership_pairs db orgId =
     List.map_filter (\<lambda>row. map_option (\<lambda>m. (m, gm_group row)) (member_ref row))
       (filter (\<lambda>row. gm_org row = orgId) (db_group_members db))"

definition PostgresGroupGraph_load :: "Db \<times> string \<Rightarrow> GroupGraph" where
  "PostgresGroupGraph_load src = (case src of (db, orgId) \<Rightarrow> group_pairs (membership_pairs db orgId))"

definition member_row :: "Db \<times> string \<Rightarrow> string \<Rightarrow> string \<Rightarrow> bool" where
  "member_row src p g \<longleftrightarrow>
     (\<exists>row \<in> set (db_group_members (fst src)). gm_org row = snd src \<and> member_ref row = Some p \<and> gm_group row = g)"

interpretation postgres_graph: group_graph PostgresGroupGraph_load member_row
proof
  fix g p and d :: "Db \<times> string"
  obtain db orgId where d: "d = (db, orgId)" by force
  have "g \<in> set (directGroups (PostgresGroupGraph_load d) p) \<longleftrightarrow> g \<in> set (values_at p (membership_pairs db orgId))"
    by (simp add: directGroups_def PostgresGroupGraph_load_def d map_of_group_pairs del: in_values_at)
  also have "\<dots> \<longleftrightarrow> member_row d p g"
    by (force simp: membership_pairs_def map_filter_def member_row_def d image_iff)
  finally show "g \<in> set (directGroups (PostgresGroupGraph_load d) p) \<longleftrightarrow> member_row d p g" .
qed

definition loadGroupsVersion :: "Db \<Rightarrow> string \<Rightarrow> nat" where
  "loadGroupsVersion db orgId = (case db_groups_version db orgId of None \<Rightarrow> 0 | Some v \<Rightarrow> v)"

subsection \<open>principalsFor and contextFor\<close>

record 'c PrincipalsCache =
  pc_store :: "'c CacheStore"
  pc_ttlSeconds :: nat

definition principalsFor :: "Db \<Rightarrow> AuthContext \<Rightarrow> 'c PrincipalsCache option \<Rightarrow> 'c \<Rightarrow> string list \<times> 'c" where
  "principalsFor db auth cache c =
     (let graph = PostgresGroupGraph_load (db, au_orgId auth)
      in case cache of
           None \<Rightarrow> (effectivePrincipals (au_principal auth) graph, c)
         | Some pc \<Rightarrow>
             cachedEffectivePrincipals
               \<lparr>cp_orgId = au_orgId auth, cp_principal = au_principal auth,
                cp_groupsVersion = loadGroupsVersion db (au_orgId auth), cp_ttlSeconds = pc_ttlSeconds pc\<rparr>
               (pc_store pc) graph c)"

definition named_documents :: "Grant list \<Rightarrow> string list" where
  "named_documents grants = map (sid \<circ> grant_scope) (filter (\<lambda>g. stype (grant_scope g) = Document) grants)"

definition request_context :: "Db \<Rightarrow> AuthContext \<Rightarrow> string list \<Rightarrow> ResolveInput" where
  "request_context db auth principals =
     (let grants = loadGrants db (au_orgId auth) principals
      in \<lparr>ri_orgId = au_orgId auth, ri_role = au_role auth, ri_principals = principals, ri_grants = grants,
          ri_tree = loadScopeTree db (au_orgId auth) (named_documents grants),
          ri_ceiling = ceilingOf auth\<rparr>)"

definition contextFor :: "Db \<Rightarrow> AuthContext \<Rightarrow> 'c PrincipalsCache option \<Rightarrow> 'c \<Rightarrow> ResolveInput \<times> 'c" where
  "contextFor db auth cache c =
     (let (principals, c') = principalsFor db auth cache c in (request_context db auth principals, c'))"

subsection \<open>The rules, read off the database\<close>

text \<open>
  The specification of a request's reach: the eight rules, applied to every grant of the database,
  to the caller's groups as reachability over the membership rows, and to the organization's whole tree.
\<close>

definition rules_input :: "Db \<Rightarrow> AuthContext \<Rightarrow> ResolveInput" where
  "rules_input db auth =
     \<lparr>ri_orgId = au_orgId auth, ri_role = au_role auth,
      ri_principals = effectivePrincipals (au_principal auth) (PostgresGroupGraph_load (db, au_orgId auth)),
      ri_grants = db_grants db, ri_tree = fullTree db (au_orgId auth), ri_ceiling = ceilingOf auth\<rparr>"

definition rules_allow :: "Db \<Rightarrow> AuthContext \<Rightarrow> Permission \<Rightarrow> string \<Rightarrow> bool" where
  "rules_allow db auth p d = referenceAllows (rules_input db auth) \<lparr>stype = Document, sid = d\<rparr> p"

lemma referenceAllows_cong:
  assumes "ri_orgId i = ri_orgId j" "ri_role i = ri_role j" "ancestry s (ri_tree i) = ancestry s (ri_tree j)" "ri_ceiling i = ri_ceiling j"
    and "\<And>g. g \<in> set (ri_grants i) \<and> grant_org g = ri_orgId i \<and> principalRef (grant_principal g) \<in> set (ri_principals i)
      \<longleftrightarrow> g \<in> set (ri_grants j) \<and> grant_org g = ri_orgId j \<and> principalRef (grant_principal g) \<in> set (ri_principals j)"
  shows "referenceAllows i s p = referenceAllows j s p"
proof -
  have "set (filter (\<lambda>g. grant_org g = ri_orgId i \<and> principalRef (grant_principal g) \<in> set (ri_principals i)) (ri_grants i))
      = set (filter (\<lambda>g. grant_org g = ri_orgId j \<and> principalRef (grant_principal g) \<in> set (ri_principals j)) (ri_grants j))"
    using assms(5) by auto
  then show ?thesis
    unfolding referenceAllows_def assms(2-4) Let_def set_filter by (simp add: set_eq_iff) metis
qed

lemma loaded_rules:
  assumes ps: "set principals = set (effectivePrincipals (au_principal auth) (PostgresGroupGraph_load (db, au_orgId auth)))"
    and "ancestry s t = ancestry s (fullTree db (au_orgId auth))"
  shows "referenceAllows ((request_context db auth principals)\<lparr>ri_tree := t\<rparr>) s p \<longleftrightarrow> referenceAllows (rules_input db auth) s p"
proof (rule referenceAllows_cong)
  fix g
  let ?ctx = "(request_context db auth principals)\<lparr>ri_tree := t\<rparr>"
  have refs: "\<forall>x \<in> set principals. \<exists>q. x = principalRef q"
    using effective_colon ps by blast
  show "g \<in> set (ri_grants ?ctx) \<and> grant_org g = ri_orgId ?ctx \<and> principalRef (grant_principal g) \<in> set (ri_principals ?ctx)
    \<longleftrightarrow> g \<in> set (ri_grants (rules_input db auth)) \<and> grant_org g = ri_orgId (rules_input db auth) \<and>
      principalRef (grant_principal g) \<in> set (ri_principals (rules_input db auth))"
    by (auto simp: request_context_def rules_input_def Let_def loadGrants_iff [OF refs] ps)
qed (simp_all add: request_context_def rules_input_def Let_def assms(2))

text \<open>
  A request's context over any part of the tree that places the document in question: the paths that
  decide about one document load that document alone.
\<close>

lemma context_tree_reaches:
  assumes wf: "wf_db db" and doc: "r \<in> set (live_documents db (au_orgId auth))"
    and ps: "set principals = set (effectivePrincipals (au_principal auth) (PostgresGroupGraph_load (db, au_orgId auth)))"
    and ids: "dc_id r \<in> set ids \<or> dc_id r \<notin> set (named_documents (loadGrants db (au_orgId auth) principals))"
  shows "plan_reaches (resolve ((request_context db auth principals)\<lparr>ri_tree := loadScopeTree db (au_orgId auth) ids\<rparr>) p) (dc_id r) (dc_layer r)
    \<longleftrightarrow> rules_allow db auth p (dc_id r)"
proof -
  let ?ctx = "request_context db auth principals" and ?org = "au_orgId auth"
  let ?full = "fullTree db ?org"
  have g: "ri_grants ?ctx = loadGrants db ?org principals" by (simp add: request_context_def Let_def)
  have full: "layerOf ?full (dc_id r) = Some (dc_layer r)" using doc layerOf_full [OF wf] by blast
  have here: "\<forall>g \<in> set (ri_grants ?ctx). grant_scope g = \<lparr>stype = Document, sid = dc_id r\<rparr> \<longrightarrow>
      layerOf (MemoryScopeTree (scope_tree_data db ?org ids)) (dc_id r) = layerOf ?full (dc_id r)"
  proof (intro ballI impI)
    fix x assume "x \<in> set (ri_grants ?ctx)" "grant_scope x = \<lparr>stype = Document, sid = dc_id r\<rparr>"
    then have "dc_id r \<in> set (named_documents (loadGrants db ?org principals))"
      by (force simp: named_documents_def g)
    with ids have "dc_id r \<in> set ids" by blast
    with doc full layerOf_loaded [OF wf, of ?org ids "dc_id r" "dc_layer r"]
    show "layerOf (MemoryScopeTree (scope_tree_data db ?org ids)) (dc_id r) = layerOf ?full (dc_id r)"
      by (auto simp: loadScopeTree_def)
  qed
  have "plan_reaches (resolve (?ctx\<lparr>ri_tree := loadScopeTree db ?org ids\<rparr>) p) (dc_id r) (dc_layer r)
      \<longleftrightarrow> referenceAllows (?ctx\<lparr>ri_tree := ?full\<rparr>) \<lparr>stype = Document, sid = dc_id r\<rparr> p"
    unfolding loadScopeTree_def
    using memory_tree.resolve_agrees_at [OF tree_placed_once [OF wf], of ?full ?org ids ?ctx "dc_id r" "dc_layer r" p]
      here full loadScopeTree_layers [of db ?org ids "map dc_id (live_documents db ?org)"]
    by (simp add: fullTree_def loadScopeTree_def)
  also have "\<dots> \<longleftrightarrow> rules_allow db auth p (dc_id r)"
    unfolding rules_allow_def by (rule loaded_rules [OF ps]) simp
  finally show ?thesis .
qed

lemma context_reaches:
  assumes "wf_db db" and "r \<in> set (live_documents db (au_orgId auth))"
    and "set principals = set (effectivePrincipals (au_principal auth) (PostgresGroupGraph_load (db, au_orgId auth)))"
  shows "plan_reaches (resolve (request_context db auth principals) p) (dc_id r) (dc_layer r)
    \<longleftrightarrow> rules_allow db auth p (dc_id r)"
proof -
  let ?ids = "named_documents (loadGrants db (au_orgId auth) principals)"
  have "(request_context db auth principals)\<lparr>ri_tree := loadScopeTree db (au_orgId auth) ?ids\<rparr> = request_context db auth principals"
    by (simp add: request_context_def Let_def)
  with context_tree_reaches [OF assms, of ?ids p] show ?thesis by auto
qed

text \<open>The same for a layer: a path that names one finds it in the plan exactly when the rules allow it.\<close>

definition layer_allowed :: "Db \<Rightarrow> AuthContext \<Rightarrow> Permission \<Rightarrow> string \<Rightarrow> bool" where
  "layer_allowed db auth p l = referenceAllows (rules_input db auth) \<lparr>stype = Layer, sid = l\<rparr> p"

definition plan_has_layer :: "AccessPlan \<Rightarrow> string \<Rightarrow> bool" where
  "plan_has_layer plan l = (case plan of PlanNone \<Rightarrow> False | PlanAll \<Rightarrow> True | PlanScoped ls _ _ \<Rightarrow> l \<in> set ls)"

lemma layer_ancestry:
  "ancestry \<lparr>stype = Layer, sid = l\<rparr> (loadScopeTree db orgId ids) = ancestry \<lparr>stype = Layer, sid = l\<rparr> (fullTree db orgId)"
  unfolding fullTree_def ancestry.simps [of "\<lparr>stype = Layer, sid = l\<rparr>"]
  by (simp add: loadScopeTree_layers(2) [of db orgId ids "map dc_id (live_documents db orgId)"])

lemma context_reaches_layer:
  assumes "wf_db db"
    and "set principals = set (effectivePrincipals (au_principal auth) (PostgresGroupGraph_load (db, au_orgId auth)))"
  shows "plan_has_layer (resolve ((request_context db auth principals)\<lparr>ri_tree := loadScopeTree db (au_orgId auth) ids\<rparr>) p) l
    \<longleftrightarrow> layer_allowed db auth p l"
proof -
  from loaded_rules [OF assms(2) layer_ancestry] show ?thesis
    using memory_tree.resolve_layers_reference [OF tree_placed_once [OF assms(1), of "au_orgId auth" ids],
      where input = "request_context db auth principals" and p = p and l = l]
    by (simp add: plan_has_layer_def layer_allowed_def loadScopeTree_def)
qed

lemma context_plan_layer:
  assumes "wf_db db"
    and "set principals = set (effectivePrincipals (au_principal auth) (PostgresGroupGraph_load (db, au_orgId auth)))"
  shows "plan_has_layer (resolve (request_context db auth principals) p) l \<longleftrightarrow> layer_allowed db auth p l"
proof -
  let ?ids = "named_documents (loadGrants db (au_orgId auth) principals)"
  have "(request_context db auth principals)\<lparr>ri_tree := loadScopeTree db (au_orgId auth) ?ids\<rparr> = request_context db auth principals"
    by (simp add: request_context_def Let_def)
  with context_reaches_layer [OF assms, of ?ids p l] show ?thesis by simp
qed

text \<open>A text no document-scoped grant names is decided by the layer alone.\<close>

lemma unnamed_reaches:
  assumes "\<forall>g \<in> set (ri_grants input). grant_scope g \<noteq> \<lparr>stype = Document, sid = j\<rparr>"
  shows "plan_reaches (resolve input p) j l \<longleftrightarrow> plan_has_layer (resolve input p) l"
proof (cases "within_ceiling (ri_ceiling input) p \<and> ri_role input = Member")
  case False
  then show ?thesis by (cases "ri_role input") (auto simp: resolve_def plan_reaches_def plan_has_layer_def)
next
  case True
  have "j \<notin> hits input p e Document" for e
  proof
    assume "j \<in> hits input p e Document"
    then obtain g where "g \<in> set (ri_grants input)" "stype (grant_scope g) = Document" "sid (grant_scope g) = j"
      using hits_named by blast
    moreover from this have "grant_scope g = \<lparr>stype = Document, sid = j\<rparr>" by (simp add: Scope.equality)
    ultimately show False using assms by blast
  qed
  with True resolve_member [of input p j l] layers_of_plan [of input p l] show ?thesis
    by (simp add: plan_has_layer_def extra_hit_def)
qed

subsection \<open>The properties\<close>

text \<open>The principals a request acts as are exactly the ones reachable through the organization's
  membership rows, groups inside groups included, on cyclic memberships as well.\<close>

theorem effective_principals_rows:
  "r \<in> set (effectivePrincipals p (PostgresGroupGraph_load (db, orgId))) \<longleftrightarrow>
     (\<lambda>a b. \<exists>g. b = group_ref g \<and> member_row (db, orgId) a g)\<^sup>*\<^sup>* (principalRef p) r"
  by (rule postgres_graph.effective_iff)

text \<open>C34 - A delegation never widens: whatever a delegated caller is allowed, the same user is allowed
  without the delegation; and a permission outside the ceiling is refused to everyone, an
  organization's administrator included.\<close>

theorem delegation_never_widens:
  "(rules_allow db auth p d \<longrightarrow> rules_allow db (auth\<lparr>au_delegation := None\<rparr>) p d)
   \<and> (\<not> delegationPermits auth p \<longrightarrow> \<not> rules_allow db auth p d \<and> resolve (request_context db auth ps) p = PlanNone)"
proof -
  have drop: "rules_input db (auth\<lparr>au_delegation := None\<rparr>) = (rules_input db auth)\<lparr>ri_ceiling := None\<rparr>"
    by (simp add: rules_input_def ceilingOf_def auth_permissions_def)
  have c: "within_ceiling (ceilingOf auth) p = delegationPermits auth p"
    using ceilingOf_permits [where auth = auth and p = p] by (simp add: within_ceiling_def)
  have "rules_allow db (auth\<lparr>au_delegation := None\<rparr>) p d" if "rules_allow db auth p d"
    using that unfolding rules_allow_def drop
    by (auto simp: referenceAllows_def within_ceiling_def Let_def split: if_splits)
  moreover have "\<not> rules_allow db auth p d" "resolve (request_context db auth ps) p = PlanNone"
    if "\<not> delegationPermits auth p"
    using that c by (simp_all add: rules_allow_def referenceAllows_def rules_input_def resolve_def request_context_def Let_def)
  ultimately show ?thesis by blast
qed

definition sample_admin :: AuthContext where
  "sample_admin = \<lparr>au_orgId = ''acme'', au_principal = \<lparr>ptype = User, pid = ''ada''\<rparr>, au_role = OrgAdmin,
     au_delegation = Some \<lparr>dg_id = ''d7'', dg_admin = False, dg_layers = None, dg_permissions = Some [CPerm Read, CSkill]\<rparr>\<rparr>"

definition empty_db :: Db where
  "empty_db = \<lparr>db_grants = [], db_layers = [], db_documents = [], db_group_members = [], db_groups_version = Map.empty\<rparr>"

theorem delegation_never_widens_witness:
  "\<not> rules_allow empty_db sample_admin Write ''d1'' \<and> rules_allow empty_db (sample_admin\<lparr>au_delegation := None\<rparr>) Read ''d1''"
proof -
  have "\<not> delegationPermits sample_admin Write" by (simp add: sample_admin_def delegationPermits_def auth_permissions_def)
  moreover have "rules_allow empty_db sample_admin Read ''d1''"
    by (simp add: rules_allow_def referenceAllows_def rules_input_def within_ceiling_def sample_admin_def ceilingOf_def
        auth_permissions_def)
  ultimately show ?thesis
    using delegation_never_widens [where db = empty_db and auth = sample_admin and p = Write and d = "''d1''"]
      delegation_never_widens [where db = empty_db and auth = sample_admin and p = Read and d = "''d1''"] by blast
qed

lemma principalsFor_run:
  assumes "cache_run h c" and "CHR '':'' \<notin> set (au_orgId auth)"
    and "h (au_orgId auth) (loadGroupsVersion db (au_orgId auth)) = PostgresGroupGraph_load (db, au_orgId auth)"
    and "principalsFor db auth (Some \<lparr>pc_store = MemoryCache_store, pc_ttlSeconds = ttl\<rparr>) c = (ps, c')"
  shows "set ps = set (effectivePrincipals (au_principal auth) (PostgresGroupGraph_load (db, au_orgId auth)))"
    and "cache_run h c'"
proof -
  let ?o = "\<lparr>cp_orgId = au_orgId auth, cp_principal = au_principal auth,
      cp_groupsVersion = loadGroupsVersion db (au_orgId auth), cp_ttlSeconds = ttl\<rparr>"
  have run: "cachedEffectivePrincipals ?o MemoryCache_store (h (cp_orgId ?o) (cp_groupsVersion ?o)) c = (ps, c')"
    using assms(3,4) by (simp add: principalsFor_def)
  have "memory_cache.faithful h c" by (rule cache_run_faithful [OF assms(1)])
  from memory_cache.cached_fresh [OF this _ refl run] assms(2,3)
  show "set ps = set (effectivePrincipals (au_principal auth) (PostgresGroupGraph_load (db, au_orgId auth)))"
    by simp
  show "cache_run h c'" by (rule cache_run.request [OF assms(1) _ run]) (use assms(2) in simp)
qed

text \<open>C33 - End to end, from the tables: the plan a request resolves - its principals from the cache, its
  grants and its partial scope tree from the database - reaches a live document exactly when the
  eight rules, applied to all grants, the membership rows and the organization's whole tree, allow
  it. \<open>h\<close> is the history of group graphs by version; the database's counter names its current one.\<close>

theorem request_reach_exact:
  assumes "wf_db db" and "r \<in> set (live_documents db (au_orgId auth))"
    and "cache_run h c" and "CHR '':'' \<notin> set (au_orgId auth)"
    and "h (au_orgId auth) (loadGroupsVersion db (au_orgId auth)) = PostgresGroupGraph_load (db, au_orgId auth)"
    and "contextFor db auth (Some \<lparr>pc_store = MemoryCache_store, pc_ttlSeconds = ttl\<rparr>) c = (ctx, c')"
  shows "(plan_reaches (resolve ctx p) (dc_id r) (dc_layer r) \<longleftrightarrow> rules_allow db auth p (dc_id r)) \<and> cache_run h c'"
proof -
  obtain ps where ps: "principalsFor db auth (Some \<lparr>pc_store = MemoryCache_store, pc_ttlSeconds = ttl\<rparr>) c = (ps, c')"
    and ctx: "ctx = request_context db auth ps"
    using assms(6) by (auto simp: contextFor_def split: prod.splits)
  note p = principalsFor_run [OF assms(3-5) ps]
  show ?thesis using context_reaches [OF assms(1,2) p(1)] p(2) by (simp add: ctx)
qed

definition sample_layer :: LayerRow where
  "sample_layer = \<lparr>ly_id = ''l1'', ly_org = ''acme'', ly_workspace = ''w'', ly_slug = ''notes'', ly_deleted = False,
     ly_vector_name = ''v_m_3'', ly_provider = ''p1''\<rparr>"

definition sample_doc :: "string \<Rightarrow> DocumentRow" where
  "sample_doc d = \<lparr>dc_id = d, dc_org = ''acme'', dc_layer = ''l1'', dc_deleted = False, dc_title = None\<rparr>"

definition sample_db :: Db where
  "sample_db = \<lparr>
     db_grants = [\<lparr>grant_org = ''acme'', grant_principal = \<lparr>ptype = Group, pid = ''g''\<rparr>,
                    grant_scope = \<lparr>stype = Document, sid = ''d1''\<rparr>, grant_permission = Read, grant_effect = Allow\<rparr>],
     db_layers = [sample_layer], db_documents = [sample_doc ''d1'', sample_doc ''d2''],
     db_group_members = [\<lparr>gm_org = ''acme'', gm_group = ''g'', gm_member_user = Some ''ada'', gm_member_group = None\<rparr>],
     db_groups_version = [''acme'' \<mapsto> 4]\<rparr>"

definition sample_auth :: AuthContext where
  "sample_auth = \<lparr>au_orgId = ''acme'', au_principal = \<lparr>ptype = User, pid = ''ada''\<rparr>, au_role = Member, au_delegation = None\<rparr>"

definition sample_context :: "ResolveInput \<times> MemoryCache" where
  "sample_context = contextFor sample_db sample_auth (Some \<lparr>pc_store = MemoryCache_store, pc_ttlSeconds = 60\<rparr>)
     \<lparr>mc_entries = [], mc_now = 0\<rparr>"

theorem request_reach_exact_witness:
  "plan_reaches (resolve (fst sample_context) Read) ''d1'' ''l1'' \<and> rules_allow sample_db sample_auth Read ''d1''
   \<and> \<not> plan_reaches (resolve (fst sample_context) Read) ''d2'' ''l1'' \<and> \<not> rules_allow sample_db sample_auth Read ''d2''"
proof -
  let ?h = "\<lambda>org (v :: nat). PostgresGroupGraph_load (sample_db, org)"
  have wf: "wf_db sample_db" by (simp add: wf_db_def sample_db_def sample_doc_def)
  have live: "sample_doc d \<in> set (live_documents sample_db (au_orgId sample_auth))" if "d = ''d1'' \<or> d = ''d2''" for d
    using that by (auto simp: live_documents_def sample_db_def sample_auth_def sample_doc_def)
  have org: "CHR '':'' \<notin> set (au_orgId sample_auth)" by (simp add: sample_auth_def)
  have "contextFor sample_db sample_auth (Some \<lparr>pc_store = MemoryCache_store, pc_ttlSeconds = 60\<rparr>)
      \<lparr>mc_entries = [], mc_now = 0\<rparr> = (fst sample_context, snd sample_context)"
    by (simp add: sample_context_def)
  note reach = request_reach_exact [where h = ?h, OF wf live cache_run.empty org refl this]
  have "rules_allow sample_db sample_auth Read ''d1''" "\<not> rules_allow sample_db sample_auth Read ''d2''"
    by code_simp+
  with reach [of "''d1''"] reach [of "''d2''"] show ?thesis by (simp add: sample_doc_def)
qed

end
