(* ===== verification/Access.thy ===== *)
theory Access
  imports Pipeline Store
begin

text \<open>
  The operations of \<open>packages/api/src/adapters.ts\<close> that name one document or one layer:
  \<open>PostgresDocuments.read\<close>, \<open>retry\<close> and \<open>updateMetadata\<close>, \<open>NacreIngest.remove\<close>, \<open>writableLayer\<close> and
  \<open>writable\<close>, and \<open>narrowingAdmits\<close>. Each resolves a plan, reads the row, applies the delegation and then
  the plan; the properties say that together these are the rules on the row, no more and no less.
  \<open>uuid_in\<close> is the database's reading of a \<open>uuid\<close> parameter, \<open>withoutHosts\<close> the redaction of an error text.
\<close>

subsection \<open>Rows\<close>

text \<open>The documents table as the permission tables see it; \<open>titles\<close> is its title column.\<close>

definition row_of :: "(string \<Rightarrow> string option) \<Rightarrow> QDoc \<Rightarrow> DocumentRow" where
  "row_of titles d = \<lparr>dc_id = qd_id d, dc_org = qd_org d, dc_layer = qd_layer d, dc_deleted = (qd_deleted_at d \<noteq> None),
     dc_title = titles (qd_id d)\<rparr>"

definition reading :: "(string \<Rightarrow> string option) \<Rightarrow> table \<Rightarrow> Db \<Rightarrow> Db" where
  "reading titles docs db = db\<lparr>db_documents := map (row_of titles) docs\<rparr>"

subsection \<open>PostgresDocuments.read\<close>

record DocColumns =
  dx_source_type :: string
  dx_source_ref :: "string option"
  dx_updated_at :: nat

record DocumentView =
  dv_document_id :: string
  dv_external_id :: string
  dv_layer :: string
  dv_title :: "string option"
  dv_status :: Status
  dv_chunk_count :: nat
  dv_updated_at :: nat
  dv_metadata :: jsval
  dv_error :: "string option"
  dv_source_url :: "string option"

record ReadDeps =
  rd_titles :: "string \<Rightarrow> string option"
  rd_columns :: "string \<Rightarrow> DocColumns"
  rd_presign :: "(string \<Rightarrow> string) option"
  rd_withoutHosts :: "string \<Rightarrow> string"

text \<open>The join with \<open>layers\<close>, whose tombstone the statement does not ask about.\<close>

definition layer_slug :: "Db \<Rightarrow> QDoc \<Rightarrow> string option" where
  "layer_slug db d = map_option ly_slug (find (\<lambda>l. ly_id l = qd_layer d \<and> ly_org l = qd_org d) (db_layers db))"

definition view_of :: "ReadDeps \<Rightarrow> QDoc \<Rightarrow> string \<Rightarrow> DocumentView" where
  "view_of deps d slug =
     \<lparr>dv_document_id = qd_id d, dv_external_id = qd_external d, dv_layer = slug, dv_title = rd_titles deps (qd_id d),
      dv_status = qd_status d, dv_chunk_count = qd_chunk_count d,
      dv_updated_at = dx_updated_at (rd_columns deps (qd_id d)),
      dv_metadata = (if qd_metadata d = JNull then JObj [] else qd_metadata d),
      dv_error = (if qd_status d = Failed then map_option (rd_withoutHosts deps) (qd_error d) else None),
      dv_source_url =
        (case (rd_presign deps, dx_source_ref (rd_columns deps (qd_id d))) of
           (Some url, Some ref) \<Rightarrow> if dx_source_type (rd_columns deps (qd_id d)) = ''s3'' then Some (url ref) else None
         | _ \<Rightarrow> None)\<rparr>"

definition readDocument :: "ReadDeps \<Rightarrow> (string \<Rightarrow> string option) \<Rightarrow> Db \<Rightarrow> AuthContext \<Rightarrow> 'c PrincipalsCache option \<Rightarrow> string
    \<Rightarrow> table \<Rightarrow> 'c \<Rightarrow> (string + DocumentView option) \<times> 'c" where
  "readDocument deps uuid_in db auth cache documentId docs c =
     (if \<not> uuid_shaped documentId then (Inr None, c)
      else let (ctx, c') = contextFor (reading (rd_titles deps) docs db) auth cache c;
               plan = resolve ctx Read
           in (if plan = PlanNone then Inr None
               else case uuid_in documentId of
                 None \<Rightarrow> Inl bad_uuid
               | Some i \<Rightarrow>
                   (case live_row (au_orgId auth) i docs of
                      None \<Rightarrow> Inr None
                    | Some d \<Rightarrow>
                        (case layer_slug db d of
                           None \<Rightarrow> Inr None
                         | Some slug \<Rightarrow>
                             if \<not> withinDelegation auth (qd_layer d) Read then Inr None
                             else if \<not> plan_reaches plan documentId (qd_layer d) then Inr None
                             else Inr (Some (view_of deps d slug)))), c'))"

subsection \<open>PostgresDocuments.retry, updateMetadata, NacreIngest.remove\<close>

datatype RetryOutcome = Requeued | NotFailed | Unreachable

definition retryDocument :: "(string \<Rightarrow> string option) \<Rightarrow> (string \<Rightarrow> string option) \<Rightarrow> Db \<Rightarrow> AuthContext \<Rightarrow> 'c PrincipalsCache option
    \<Rightarrow> string \<Rightarrow> table \<Rightarrow> 'c \<Rightarrow> (string + RetryOutcome) \<times> table \<times> 'c" where
  "retryDocument titles uuid_in db auth cache documentId docs c =
     (if \<not> uuid_shaped documentId then (Inr Unreachable, docs, c)
      else let (ctx, c') = contextFor (reading titles docs db) auth cache c;
               plan = resolve ctx Write
           in if plan = PlanNone then (Inr Unreachable, docs, c')
              else case uuid_in documentId of
                None \<Rightarrow> (Inl bad_uuid, docs, c')
              | Some i \<Rightarrow>
                  (case live_row (au_orgId auth) i docs of
                     None \<Rightarrow> (Inr Unreachable, docs, c')
                   | Some d \<Rightarrow>
                       if \<not> withinDelegation auth (qd_layer d) Write then (Inr Unreachable, docs, c')
                       else if \<not> plan_reaches plan documentId (qd_layer d) then (Inr Unreachable, docs, c')
                       else (case retry (au_orgId auth) i docs of
                               (changed, docs') \<Rightarrow> (Inr (if changed then Requeued else NotFailed), docs', c'))))"

text \<open>The decision both writes to the index make on the row's layer.\<close>

definition may_write :: "AuthContext \<Rightarrow> AccessPlan \<Rightarrow> string \<Rightarrow> string \<Rightarrow> bool" where
  "may_write auth plan documentId layerId \<longleftrightarrow> withinDelegation auth layerId Write \<and> plan_reaches plan documentId layerId"

definition updateMetadata :: "'s QdrantClient \<Rightarrow> (string \<Rightarrow> string option) \<Rightarrow> (string \<Rightarrow> string option) \<Rightarrow> (string \<rightharpoonup> string) \<Rightarrow> Db \<Rightarrow> AuthContext
    \<Rightarrow> 'c PrincipalsCache option \<Rightarrow> string \<Rightarrow> (string \<times> jsval) list \<Rightarrow> 's World \<Rightarrow> 'c \<Rightarrow> ((string + bool) \<times> 's World) \<times> 'c" where
  "updateMetadata client titles uuid_in collections db auth cache documentId metadata w c =
     (if \<not> uuid_shaped documentId then ((Inr False, w), c)
      else case collections (au_orgId auth) of
        None \<Rightarrow> ((Inr False, w), c)
      | Some collection \<Rightarrow>
          (let (ctx, c') = contextFor (reading titles (wd_docs w) db) auth cache c;
               plan = resolve ctx Write
           in (if plan = PlanNone then (Inr False, w)
               else (retag_document client uuid_in collection (au_orgId auth) documentId
                      (may_write auth plan documentId) metadata w), c')))"

text \<open>The delete places the one document it names: its tree holds that document alone.\<close>

definition removeDocument :: "'s QdrantClient \<Rightarrow> (string \<Rightarrow> string option) \<Rightarrow> (string \<Rightarrow> string option) \<Rightarrow> (string \<rightharpoonup> string) \<Rightarrow> Db \<Rightarrow> AuthContext
    \<Rightarrow> 'c PrincipalsCache option \<Rightarrow> nat \<Rightarrow> string \<Rightarrow> 's World \<Rightarrow> 'c \<Rightarrow> ((string + bool) \<times> 's World) \<times> 'c" where
  "removeDocument client titles uuid_in collections db auth cache now documentId w c =
     (if \<not> uuid_shaped documentId then ((Inr False, w), c)
      else case collections (au_orgId auth) of
        None \<Rightarrow> ((Inr False, w), c)
      | Some collection \<Rightarrow>
          (let d = reading titles (wd_docs w) db;
               (principals, c') = principalsFor d auth cache c
           in (case uuid_in documentId of
                 None \<Rightarrow> (Inl bad_uuid, w)
               | Some i \<Rightarrow>
                   (let plan = resolve ((request_context d auth principals)\<lparr>ri_tree := loadScopeTree d (au_orgId auth) [i]\<rparr>) Write
                    in if plan = PlanNone then (Inr False, w)
                       else (remove_document client uuid_in collection now (au_orgId auth) documentId
                              (may_write auth plan documentId) w)), c')))"

subsection \<open>NacreIngest.writableLayer\<close>

text \<open>\<open>slug\<close> is \<open>citext\<close>: it compares without case.\<close>

definition writableLayer :: "Db \<Rightarrow> AuthContext \<Rightarrow> 'c PrincipalsCache option \<Rightarrow> string \<Rightarrow> 'c \<Rightarrow> string option \<times> 'c" where
  "writableLayer db auth cache layerSlug c =
     (let (ctx, c') = contextFor db auth cache c;
          plan = resolve ctx Write
      in (if plan = PlanNone then None
          else case find (\<lambda>r. map to_lower (ly_slug r) = map to_lower layerSlug) (live_layers db (au_orgId auth)) of
            None \<Rightarrow> None
          | Some r \<Rightarrow>
              if \<not> withinDelegation auth (ly_id r) Write then None
              else (case plan of
                      PlanAll \<Rightarrow> Some (ly_id r)
                    | PlanScoped layers _ _ \<Rightarrow> if ly_id r \<in> set layers then Some (ly_id r) else None
                    | PlanNone \<Rightarrow> None), c'))"

definition writable :: "Db \<Rightarrow> AuthContext \<Rightarrow> 'c PrincipalsCache option \<Rightarrow> string \<Rightarrow> 'c \<Rightarrow> bool" where
  "writable db auth cache layerSlug c \<longleftrightarrow> fst (writableLayer db auth cache layerSlug c) \<noteq> None"

subsection \<open>narrowingAdmits\<close>

text \<open>The documents are read without asking whether they are deleted; the ids of scopes are the database's own.\<close>

definition narrowingAdmits :: "Db \<Rightarrow> AuthContext \<Rightarrow> Scope list \<Rightarrow> Permission \<Rightarrow> Scope \<Rightarrow> bool" where
  "narrowingAdmits db auth scopes permission =
     (case delegatedLayers auth permission of
        None \<Rightarrow> (\<lambda>_. True)
      | Some only \<Rightarrow>
          (let documentIds = map sid (filter (\<lambda>s. stype s = Document) scopes);
               at_layer = map_from (map (\<lambda>r. (dc_id r, dc_layer r))
                 (filter (\<lambda>r. dc_org r = au_orgId auth \<and> dc_id r \<in> set documentIds) (db_documents db)))
           in (\<lambda>s. case stype s of
                     Layer \<Rightarrow> sid s \<in> set only
                   | Document \<Rightarrow> (case map_of at_layer (sid s) of None \<Rightarrow> False | Some l \<Rightarrow> l \<in> set only)
                   | _ \<Rightarrow> False)))"

subsection \<open>The decisions are the rules\<close>

lemma live_row_iff:
  assumes "keyed docs"
  shows "live_row orgId i docs = Some d \<longleftrightarrow> d \<in> set docs \<and> qd_org d = orgId \<and> qd_id d = i \<and> qd_deleted_at d = None"
proof
  assume "live_row orgId i docs = Some d"
  then show "d \<in> set docs \<and> qd_org d = orgId \<and> qd_id d = i \<and> qd_deleted_at d = None"
    by (auto simp: live_row_def find_Some_iff)
next
  assume d: "d \<in> set docs \<and> qd_org d = orgId \<and> qd_id d = i \<and> qd_deleted_at d = None"
  then obtain e where e: "live_row orgId i docs = Some e"
    by (cases "live_row orgId i docs") (auto simp: live_row_def find_None_iff)
  then have "e \<in> set docs" "qd_id e = i" by (auto simp: live_row_def find_Some_iff)
  with keyed_id [OF assms] d have "e = d" by blast
  with e show "live_row orgId i docs = Some d" by simp
qed

lemma reading_wf:
  assumes "keyed docs" and "wf_db db"
  shows "wf_db (reading titles docs db)"
  using assms by (simp add: wf_db_def reading_def keyed_def row_of_def comp_def)

lemma reading_live:
  assumes "live_row orgId i docs = Some d"
  shows "row_of titles d \<in> set (live_documents (reading titles docs db) orgId)"
  using assms by (auto simp: live_documents_def reading_def row_of_def live_row_def find_Some_iff)

text \<open>The plan and the delegation on a live row, against the rules; \<open>ids\<close> as each path loads its tree.\<close>

lemma row_decision:
  assumes "keyed docs" and "wf_db db" and live: "live_row (au_orgId auth) i docs = Some d"
    and "set principals = set (effectivePrincipals (au_principal auth) (PostgresGroupGraph_load (reading titles docs db, au_orgId auth)))"
  shows "plan_reaches (resolve (request_context (reading titles docs db) auth principals) p) i (qd_layer d)
      \<longleftrightarrow> rules_allow (reading titles docs db) auth p i"
    and "plan_reaches (resolve ((request_context (reading titles docs db) auth principals)
           \<lparr>ri_tree := loadScopeTree (reading titles docs db) (au_orgId auth) [i]\<rparr>) p) i (qd_layer d)
      \<longleftrightarrow> rules_allow (reading titles docs db) auth p i"
proof -
  note r = reading_wf [OF assms(1,2)] reading_live [OF live] assms(4)
  have "i = qd_id d" using live by (auto simp: live_row_def find_Some_iff)
  then show "plan_reaches (resolve (request_context (reading titles docs db) auth principals) p) i (qd_layer d)
      \<longleftrightarrow> rules_allow (reading titles docs db) auth p i"
    "plan_reaches (resolve ((request_context (reading titles docs db) auth principals)
           \<lparr>ri_tree := loadScopeTree (reading titles docs db) (au_orgId auth) [i]\<rparr>) p) i (qd_layer d)
      \<longleftrightarrow> rules_allow (reading titles docs db) auth p i"
    using context_reaches [OF r, of p] context_tree_reaches [OF r, of "[i]" p] by (simp_all add: row_of_def)
qed

text \<open>
  A request whose principals come through the shared cache: the cache's entries were written by earlier
  requests, and the counter names the membership rows as they are.
\<close>

definition cached_request :: "(string \<Rightarrow> nat \<Rightarrow> GroupGraph) \<Rightarrow> Db \<Rightarrow> AuthContext \<Rightarrow> MemoryCache \<Rightarrow> bool" where
  "cached_request h db auth c \<longleftrightarrow> cache_run h c \<and> CHR '':'' \<notin> set (au_orgId auth)
     \<and> h (au_orgId auth) (loadGroupsVersion db (au_orgId auth)) = PostgresGroupGraph_load (db, au_orgId auth)"

abbreviation shared_cache :: "nat \<Rightarrow> MemoryCache PrincipalsCache option" where
  "shared_cache ttl \<equiv> Some \<lparr>pc_store = MemoryCache_store, pc_ttlSeconds = ttl\<rparr>"

lemma cached_principals:
  assumes "cached_request h db auth c"
  obtains ps c' where "principalsFor db auth (shared_cache ttl) c = (ps, c')"
    "contextFor db auth (shared_cache ttl) c = (request_context db auth ps, c')"
    "set ps = set (effectivePrincipals (au_principal auth) (PostgresGroupGraph_load (db, au_orgId auth)))"
proof -
  obtain ps c' where "principalsFor db auth (shared_cache ttl) c = (ps, c')" by (meson surj_pair)
  with principalsFor_run(1) [of h c auth db ttl ps c'] assms that show thesis
    by (simp add: cached_request_def contextFor_def)
qed

definition may :: "Db \<Rightarrow> AuthContext \<Rightarrow> Permission \<Rightarrow> QDoc \<Rightarrow> bool" where
  "may db auth p d \<longleftrightarrow> rules_allow db auth p (qd_id d) \<and> withinDelegation auth (qd_layer d) p"

lemma decided:
  assumes "keyed docs" and "wf_db db" and "live_row (au_orgId auth) i docs = Some d"
    and "set ps = set (effectivePrincipals (au_principal auth) (PostgresGroupGraph_load (reading titles docs db, au_orgId auth)))"
    and "plan = resolve (request_context (reading titles docs db) auth ps) p
      \<or> plan = resolve ((request_context (reading titles docs db) auth ps)
           \<lparr>ri_tree := loadScopeTree (reading titles docs db) (au_orgId auth) [i]\<rparr>) p"
  shows "withinDelegation auth (qd_layer d) p \<and> plan_reaches plan i (qd_layer d) \<longleftrightarrow> may (reading titles docs db) auth p d"
    and "plan = PlanNone \<Longrightarrow> \<not> may (reading titles docs db) auth p d"
proof -
  have i: "qd_id d = i" using assms(3) by (auto simp: live_row_def find_Some_iff)
  show here: "withinDelegation auth (qd_layer d) p \<and> plan_reaches plan i (qd_layer d) \<longleftrightarrow> may (reading titles docs db) auth p d"
    using row_decision [OF assms(1-4)] assms(5) by (auto simp: may_def i)
  show "\<not> may (reading titles docs db) auth p d" if none: "plan = PlanNone"
    using here unfolding none by (simp add: plan_reaches_def)
qed

text \<open>C8 - Fetching a document by id answers exactly what the rules allow: for a canonical id, the view of the
  live row when the caller's effective principals may read it and the delegation admits its layer, and
  the same \<open>undefined\<close> for a document that is absent, deleted, another organization's, denied or narrowed away.\<close>

theorem read_exact:
  assumes "keyed docs" and "wf_db db" and "cached_request h (reading (rd_titles deps) docs db) auth c"
    and "uuid_shaped i" and "uuid_in i = Some i"
  shows "fst (readDocument deps uuid_in db auth (shared_cache ttl) i docs c) =
    Inr (case live_row (au_orgId auth) i docs of
           None \<Rightarrow> None
         | Some d \<Rightarrow> if may (reading (rd_titles deps) docs db) auth Read d then map_option (view_of deps d) (layer_slug db d) else None)"
proof -
  obtain ps c' where ps: "contextFor (reading (rd_titles deps) docs db) auth (shared_cache ttl) c
      = (request_context (reading (rd_titles deps) docs db) auth ps, c')"
    "set ps = set (effectivePrincipals (au_principal auth) (PostgresGroupGraph_load (reading (rd_titles deps) docs db, au_orgId auth)))"
    using cached_principals [OF assms(3)] by metis
  show ?thesis
  proof (cases "live_row (au_orgId auth) i docs")
    case None
    then show ?thesis by (simp add: readDocument_def Let_def assms(4,5) ps(1))
  next
    case (Some d)
    note here = decided [OF assms(1,2) Some ps(2), of "resolve (request_context (reading (rd_titles deps) docs db) auth ps) Read" Read]
    show ?thesis
      using here by (auto simp: readDocument_def Let_def assms(4,5) ps(1) Some split: option.splits)
  qed
qed

lemma retry_decision:
  assumes "keyed docs" and "wf_db db" and "cached_request h (reading titles docs db) auth c"
    and "uuid_shaped i" and "uuid_in i = Some i"
  shows "(\<lambda>(r, docs', _). (r, docs')) (retryDocument titles uuid_in db auth (shared_cache ttl) i docs c) =
    (case live_row (au_orgId auth) i docs of
       None \<Rightarrow> (Inr Unreachable, docs)
     | Some d \<Rightarrow> if \<not> may (reading titles docs db) auth Write d then (Inr Unreachable, docs)
                 else if qd_status d = Failed then (Inr Requeued, update_where (\<lambda>e. qd_id e = i) retry_row docs)
                 else (Inr NotFailed, docs))"
proof -
  obtain ps c' where ps: "contextFor (reading titles docs db) auth (shared_cache ttl) c
      = (request_context (reading titles docs db) auth ps, c')"
    "set ps = set (effectivePrincipals (au_principal auth) (PostgresGroupGraph_load (reading titles docs db, au_orgId auth)))"
    using cached_principals [OF assms(3)] by metis
  show ?thesis
  proof (cases "live_row (au_orgId auth) i docs")
    case None
    then show ?thesis by (simp add: retryDocument_def Let_def assms(4,5) ps(1))
  next
    case (Some d)
    then have d: "d \<in> set docs" "qd_org d = au_orgId auth" "qd_id d = i" by (auto simp: live_row_def find_Some_iff)
    have only: "qd_org e = au_orgId auth \<and> qd_id e = i \<and> qd_status e = Failed \<longleftrightarrow> qd_id e = i \<and> qd_status d = Failed"
      if "e \<in> set docs" for e
      using keyed_id [OF assms(1) that d(1)] d by auto
    have changed: "fst (retry (au_orgId auth) i docs) \<longleftrightarrow> qd_status d = Failed"
      using d only by (auto simp: retry_def)
    have table: "snd (retry (au_orgId auth) i docs) = (if qd_status d = Failed then update_where (\<lambda>e. qd_id e = i) retry_row docs else docs)"
      using only by (auto simp: retry_def update_where_def intro!: map_idI)
    note here = decided [OF assms(1,2) Some ps(2), of "resolve (request_context (reading titles docs db) auth ps) Write" Write]
    show ?thesis
      using here changed table by (auto simp: retryDocument_def Let_def assms(4,5) ps(1) Some split: prod.splits)
  qed
qed

lemma index_decision:
  assumes "keyed (wd_docs w)" and "wf_db db" and "cached_request h (reading titles (wd_docs w) db) auth c"
    and "uuid_shaped i" and "uuid_in i = Some i" and "collections (au_orgId auth) = Some coll"
  shows "fst (updateMetadata client titles uuid_in collections db auth (shared_cache ttl) i metadata w c) =
      retag_document client uuid_in coll (au_orgId auth) i
        (\<lambda>_. \<exists>d. live_row (au_orgId auth) i (wd_docs w) = Some d \<and> may (reading titles (wd_docs w) db) auth Write d) metadata w"
    and "fst (removeDocument client titles uuid_in collections db auth (shared_cache ttl) now i w c) =
      remove_document client uuid_in coll now (au_orgId auth) i
        (\<lambda>_. \<exists>d. live_row (au_orgId auth) i (wd_docs w) = Some d \<and> may (reading titles (wd_docs w) db) auth Write d) w"
proof -
  obtain ps c' where ps: "principalsFor (reading titles (wd_docs w) db) auth (shared_cache ttl) c = (ps, c')"
    "contextFor (reading titles (wd_docs w) db) auth (shared_cache ttl) c = (request_context (reading titles (wd_docs w) db) auth ps, c')"
    "set ps = set (effectivePrincipals (au_principal auth) (PostgresGroupGraph_load (reading titles (wd_docs w) db, au_orgId auth)))"
    using cached_principals [OF assms(3)] by metis
  show "fst (updateMetadata client titles uuid_in collections db auth (shared_cache ttl) i metadata w c) =
      retag_document client uuid_in coll (au_orgId auth) i
        (\<lambda>_. \<exists>d. live_row (au_orgId auth) i (wd_docs w) = Some d \<and> may (reading titles (wd_docs w) db) auth Write d) metadata w"
  proof (cases "live_row (au_orgId auth) i (wd_docs w)")
    case (Some d)
    note here = decided [OF assms(1,2) Some ps(3), of "resolve (request_context (reading titles (wd_docs w) db) auth ps) Write" Write]
    then show ?thesis
      by (simp add: updateMetadata_def Let_def assms(4-6) ps(2) Some retag_document_def may_write_def)
  qed (simp add: updateMetadata_def Let_def assms(4-6) ps(2) retag_document_def)
  show "fst (removeDocument client titles uuid_in collections db auth (shared_cache ttl) now i w c) =
      remove_document client uuid_in coll now (au_orgId auth) i
        (\<lambda>_. \<exists>d. live_row (au_orgId auth) i (wd_docs w) = Some d \<and> may (reading titles (wd_docs w) db) auth Write d) w"
  proof (cases "live_row (au_orgId auth) i (wd_docs w)")
    case (Some d)
    note here = decided [OF assms(1,2) Some ps(3), of "resolve ((request_context (reading titles (wd_docs w) db) auth ps)
           \<lparr>ri_tree := loadScopeTree (reading titles (wd_docs w) db) (au_orgId auth) [i]\<rparr>) Write" Write]
    then show ?thesis
      by (simp add: removeDocument_def Let_def assms(4-6) ps(1) Some remove_document_def may_write_def)
  qed (simp add: removeDocument_def Let_def assms(4-6) ps(1) remove_document_def)
qed

text \<open>C10 - Every write that names a document decides by the same rules. For a canonical id, a retry, a retag and a
  delete go ahead exactly when the live row may be written by the caller - its effective principals by
  the rules on the organization's whole tree, its layer by the delegation - and otherwise leave the
  tables and the index untouched. A permitted retry requeues a failed document and changes no other.\<close>

theorem write_paths_exact:
  assumes "keyed (wd_docs w)" and "wf_db db" and "cached_request h (reading titles (wd_docs w) db) auth c"
    and "uuid_shaped i" and "uuid_in i = Some i" and "collections (au_orgId auth) = Some coll"
  defines "permitted \<equiv> \<lambda>_. \<exists>d. live_row (au_orgId auth) i (wd_docs w) = Some d \<and> may (reading titles (wd_docs w) db) auth Write d"
  shows "fst (removeDocument client titles uuid_in collections db auth (shared_cache ttl) now i w c)
      = remove_document client uuid_in coll now (au_orgId auth) i permitted w
    \<and> fst (updateMetadata client titles uuid_in collections db auth (shared_cache ttl) i metadata w c)
      = retag_document client uuid_in coll (au_orgId auth) i permitted metadata w
    \<and> (\<lambda>(r, docs', _). (r, docs')) (retryDocument titles uuid_in db auth (shared_cache ttl) i (wd_docs w) c) =
      (case live_row (au_orgId auth) i (wd_docs w) of
         None \<Rightarrow> (Inr Unreachable, wd_docs w)
       | Some d \<Rightarrow> if \<not> may (reading titles (wd_docs w) db) auth Write d then (Inr Unreachable, wd_docs w)
                   else if qd_status d = Failed then (Inr Requeued, update_where (\<lambda>e. qd_id e = i) retry_row (wd_docs w))
                   else (Inr NotFailed, wd_docs w))"
  using index_decision(1) [where client = client and metadata = metadata and collections = collections and uuid_in = uuid_in, OF assms(1-6)]
    index_decision(2) [where client = client and now = now and collections = collections and uuid_in = uuid_in, OF assms(1-6)]
    retry_decision [where uuid_in = uuid_in, OF assms(1-5)]
  unfolding permitted_def by blast

text \<open>A slug names a layer a caller may write to exactly when the first live layer with that slug is
  admitted by the delegation and allowed by the rules; a layer that does not exist and one that may
  not be written are one answer.\<close>

theorem writable_exact:
  assumes "wf_db db" and "cached_request h db auth c"
  shows "fst (writableLayer db auth (shared_cache ttl) slug c) =
    (case find (\<lambda>r. map to_lower (ly_slug r) = map to_lower slug) (live_layers db (au_orgId auth)) of
       None \<Rightarrow> None
     | Some r \<Rightarrow> if withinDelegation auth (ly_id r) Write \<and> layer_allowed db auth Write (ly_id r) then Some (ly_id r) else None)"
proof -
  obtain ps c' where ps: "contextFor db auth (shared_cache ttl) c = (request_context db auth ps, c')"
    "set ps = set (effectivePrincipals (au_principal auth) (PostgresGroupGraph_load (db, au_orgId auth)))"
    using cached_principals [OF assms(2)] by metis
  show ?thesis
    using context_plan_layer [OF assms(1) ps(2), of Write, symmetric]
    by (cases "resolve (request_context db auth ps) Write")
       (auto simp: writableLayer_def Let_def ps(1) plan_has_layer_def split: option.splits)
qed

subsection \<open>A denied document under another spelling of its id\<close>


text \<open>
  The plan's lists hold canonical ids and are searched for the text of the request, while the row is
  found by what that text denotes. The exactness above is for the canonical id; under any other
  spelling no document-level grant is found, a deny included.
\<close>

text \<open>C9 - A document asked for under a spelling of its id other than the canonical one - capital letters, say - is
  decided by its layer alone: the caller reads it exactly when the rules allow them the layer and the
  delegation admits it, whatever the grants on the document itself say. A document-level deny is not applied.\<close>

theorem spelled_read_by_layer:
  assumes "keyed docs" and "wf_db db" and "cached_request h (reading (rd_titles deps) docs db) auth c"
    and "uuid_shaped j" and "uuid_in j = Some i" and "live_row (au_orgId auth) i docs = Some d"
    and "\<forall>g \<in> set (db_grants db). grant_scope g \<noteq> \<lparr>stype = Document, sid = j\<rparr>"
  shows "fst (readDocument deps uuid_in db auth (shared_cache ttl) j docs c) =
    Inr (if layer_allowed (reading (rd_titles deps) docs db) auth Read (qd_layer d) \<and> withinDelegation auth (qd_layer d) Read
         then map_option (view_of deps d) (layer_slug db d) else None)"
proof -
  let ?db = "reading (rd_titles deps) docs db"
  obtain ps c' where ps: "contextFor ?db auth (shared_cache ttl) c = (request_context ?db auth ps, c')"
    "set ps = set (effectivePrincipals (au_principal auth) (PostgresGroupGraph_load (?db, au_orgId auth)))"
    using cached_principals [OF assms(3)] by metis
  have "\<forall>g \<in> set (ri_grants (request_context ?db auth ps)). grant_scope g \<noteq> \<lparr>stype = Document, sid = j\<rparr>"
    using assms(7) by (auto simp: request_context_def Let_def loadGrants_def reading_def split: if_splits)
  from unnamed_reaches [OF this, of Read "qd_layer d"] context_plan_layer [OF reading_wf [OF assms(1,2)] ps(2), of Read "qd_layer d"]
  have here: "plan_reaches (resolve (request_context ?db auth ps) Read) j (qd_layer d) \<longleftrightarrow> layer_allowed ?db auth Read (qd_layer d)"
    by simp
  then show ?thesis
    by (auto simp: readDocument_def Let_def assms(4-6) ps(1) plan_reaches_def split: option.splits)
qed

definition deny_id :: string where
  "deny_id = ''ab3c4d5e-0000-4000-8000-0123456789ab''"

definition deny_spelled :: string where
  "deny_spelled = ''AB3C4D5E-0000-4000-8000-0123456789AB''"

definition deny_db :: Db where
  "deny_db = empty_db\<lparr>
     db_grants := [\<lparr>grant_org = ''acme'', grant_principal = \<lparr>ptype = User, pid = ''ada''\<rparr>,
                     grant_scope = \<lparr>stype = Layer, sid = ''l1''\<rparr>, grant_permission = Read, grant_effect = Allow\<rparr>,
                    \<lparr>grant_org = ''acme'', grant_principal = \<lparr>ptype = User, pid = ''ada''\<rparr>,
                     grant_scope = \<lparr>stype = Document, sid = deny_id\<rparr>, grant_permission = Read, grant_effect = Deny\<rparr>],
     db_layers := [sample_layer]\<rparr>"

definition deny_row :: QDoc where
  "deny_row = (inserted_row deny_id 0 (Queue.sample_doc None) Indexed)\<lparr>qd_layer := ''l1''\<rparr>"

definition plain_deps :: ReadDeps where
  "plain_deps = \<lparr>rd_titles = (\<lambda>_. None), rd_columns = (\<lambda>_. \<lparr>dx_source_type = ''inline'', dx_source_ref = None, dx_updated_at = 0\<rparr>),
     rd_presign = None, rd_withoutHosts = (\<lambda>e. e)\<rparr>"

definition no_cache :: MemoryCache where
  "no_cache = \<lparr>mc_entries = [], mc_now = 0\<rparr>"

lemma deny_setting:
  "keyed [deny_row]" "wf_db deny_db" "uuid_shaped deny_id" "uuid_shaped deny_spelled"
  "lower_uuid deny_id = Some deny_id" "lower_uuid deny_spelled = Some deny_id"
  "live_row (au_orgId sample_auth) deny_id [deny_row] = Some deny_row" "layer_slug deny_db deny_row = Some ''notes''"
  by code_simp+

lemma deny_cached:
  "cached_request (\<lambda>org v. PostgresGroupGraph_load (reading (rd_titles plain_deps) [deny_row] deny_db, org))
     (reading (rd_titles plain_deps) [deny_row] deny_db) sample_auth no_cache"
  by (simp add: cached_request_def no_cache_def cache_run.empty sample_auth_def)

lemma deny_rules:
  "layer_allowed (reading (rd_titles plain_deps) [deny_row] deny_db) sample_auth Read (qd_layer deny_row)"
  "\<not> may (reading (rd_titles plain_deps) [deny_row] deny_db) sample_auth Read deny_row"
  "withinDelegation sample_auth (qd_layer deny_row) Read"
  by code_simp+

theorem spelled_read_by_layer_witness:
  "fst (readDocument plain_deps lower_uuid deny_db sample_auth (shared_cache 60) deny_spelled [deny_row] no_cache)
     = Inr (Some (view_of plain_deps deny_row ''notes''))
   \<and> \<not> may (reading (rd_titles plain_deps) [deny_row] deny_db) sample_auth Read deny_row"
proof -
  have "grant_scope g \<noteq> \<lparr>stype = Document, sid = deny_spelled\<rparr>" if "g \<in> set (db_grants deny_db)" for g
    using that by (auto simp: deny_db_def deny_id_def deny_spelled_def)
  with spelled_read_by_layer [where uuid_in = lower_uuid, OF deny_setting(1,2) deny_cached deny_setting(4,6,7), of 60] deny_rules deny_setting(8)
  show ?thesis by simp
qed

theorem read_exact_witness:
  "fst (readDocument plain_deps lower_uuid deny_db sample_auth (shared_cache 60) deny_id [deny_row] no_cache) = Inr None"
  using read_exact [where uuid_in = lower_uuid, OF deny_setting(1,2) deny_cached deny_setting(3,5), of 60] deny_rules deny_setting(7)
  by simp

definition chief :: AuthContext where
  "chief = sample_auth\<lparr>au_role := OrgAdmin\<rparr>"

definition one_world :: "memory World" where
  "one_world = start_world\<lparr>wd_docs := [deny_row]\<rparr>"

lemma chief_cached:
  "wd_docs one_world = [deny_row]"
  "cached_request (\<lambda>org v. PostgresGroupGraph_load (db, org)) db chief no_cache"
  "may (reading (\<lambda>_. None) [deny_row] deny_db) chief Write deny_row"
  "live_row (au_orgId chief) deny_id [deny_row] = Some deny_row"
  by (simp add: one_world_def, simp add: cached_request_def no_cache_def cache_run.empty chief_def sample_auth_def, code_simp+)

theorem write_paths_exact_witness:
  "fst (fst (removeDocument memory_client (\<lambda>_. None) lower_uuid [''acme'' \<mapsto> ''org_acme''] deny_db chief (shared_cache 60) 7 deny_id one_world no_cache)) = Inr True
   \<and> fst (retryDocument (\<lambda>_. None) lower_uuid deny_db chief (shared_cache 60) deny_id [deny_row] no_cache) = Inr NotFailed"
proof -
  have org: "[''acme'' \<mapsto> ''org_acme''] (au_orgId chief) = Some ''org_acme''" by (simp add: chief_def sample_auth_def)
  have "qd_status deny_row \<noteq> Failed" by (simp add: deny_row_def inserted_row_def)
  moreover have "fst (tombstone_points memory_client ''org_acme'' deny_id (snd (wd_index one_world))) = Inr ()"
    by (simp add: tombstone_points_def memory_client_def)
  then have "fst (remove_document memory_client lower_uuid ''org_acme'' 7 (au_orgId chief) deny_id (\<lambda>_. True) one_world) = Inr True"
    using chief_cached(4) deny_setting(5) by (auto simp: remove_document_def chief_cached(1) split: prod.splits sum.splits)
  ultimately show ?thesis
    using write_paths_exact [where w = one_world and uuid_in = lower_uuid and collections = "[''acme'' \<mapsto> ''org_acme'']" and ttl = 60
        and titles = "\<lambda>_. None" and client = memory_client and now = 7 and metadata = "[]",
        unfolded chief_cached(1), OF deny_setting(1,2) chief_cached(2) deny_setting(3,5) org]
      chief_cached(3,4)
    by (auto split: prod.splits)
qed

theorem writable_exact_witness: "fst (writableLayer deny_db chief (shared_cache 60) ''Notes'' no_cache) = Some ''l1''"
proof -
  have "layer_allowed deny_db chief Write ''l1''" "withinDelegation chief ''l1'' Write"
    "find (\<lambda>r. map to_lower (ly_slug r) = map to_lower ''Notes'') (live_layers deny_db (au_orgId chief)) = Some sample_layer"
    "ly_id sample_layer = ''l1''"
    by code_simp+
  then show ?thesis
    using writable_exact [OF deny_setting(2) chief_cached(2), of 60 "''Notes''"] by simp
qed

end
