(* ===== verification/Pagination.thy ===== *)
theory Pagination
  imports Complex_Main Prelude "HOL-Library.Product_Lexorder"
begin

text \<open>
  \<open>packages/api/src/pagination.ts\<close>: the opaque cursor and its base64url text, \<open>readPage\<close> and \<open>pageOf\<close>,
  and the contract every paged listing of \<open>adapters.ts\<close> keeps (\<open>paged_listing\<close>), from which walking a
  listing to its end is proved once. Texts are their UTF-8 bytes; the cursors the API issues are ASCII.
  \<open>date_ok\<close> is whether \<open>Date.parse\<close> accepts a text, \<open>number\<close> is \<open>Number\<close> on one (none for \<open>NaN\<close> and the
  infinities). \<open>Casts\<close> gathers what is relied on of texts: \<open>date_ok\<close>, the database's \<open>timestamptz\<close> as text
  and back, and its reading of a \<open>uuid\<close>.
\<close>

subsection \<open>base64url\<close>

definition BASE64URL :: string where
  "BASE64URL = ''ABCDEFGHIJKLMNOPQRSTUVWXYZabcdefghijklmnopqrstuvwxyz0123456789-_''"

definition sextet_char :: "nat \<Rightarrow> char" where
  "sextet_char n = BASE64URL ! n"

text \<open>\<open>Buffer.from\<close> reads both alphabets and passes over what is in neither.\<close>

definition char_sextet :: "char \<Rightarrow> nat option" where
  "char_sextet c = (if c = CHR ''+'' then Some 62 else if c = CHR ''/'' then Some 63 else index_of c BASE64URL)"

fun sextets :: "nat list \<Rightarrow> nat list" where
  "sextets [] = []"
| "sextets [a] = [a div 4, a mod 4 * 16]"
| "sextets [a, b] = [a div 4, a mod 4 * 16 + b div 16, b mod 16 * 4]"
| "sextets (a # b # c # r) = (a div 4) # (a mod 4 * 16 + b div 16) # (b mod 16 * 4 + c div 64) # (c mod 64) # sextets r"

fun octets :: "nat list \<Rightarrow> nat list" where
  "octets (s # t # u # v # r) = (s * 4 + t div 16) # (t mod 16 * 16 + u div 4) # (u mod 4 * 64 + v) # octets r"
| "octets [s, t, u] = [s * 4 + t div 16, t mod 16 * 16 + u div 4]"
| "octets [s, t] = [s * 4 + t div 16]"
| "octets [s] = []"
| "octets [] = []"

definition toBase64url :: "string \<Rightarrow> string" where
  "toBase64url bytes = map sextet_char (sextets (map of_char bytes))"

definition fromBase64url :: "string \<Rightarrow> string" where
  "fromBase64url coded = map char_of (octets (List.map_filter char_sextet coded))"

lemma octets_sextets: "\<forall>a \<in> set bs. a < 256 \<Longrightarrow> octets (sextets bs) = bs"
proof (induction bs rule: sextets.induct)
  case (4 a b c r)
  then have "b div 16 < 16" "c div 64 < 4" by auto
  with 4 show ?case by simp
qed auto

lemma sextets_bound: "\<forall>a \<in> set bs. a < 256 \<Longrightarrow> \<forall>s \<in> set (sextets bs). s < 64"
proof (induction bs rule: sextets.induct)
  case (3 a b)
  then have "b div 16 < 16" "a mod 4 < 4" "b mod 16 < 16" by auto
  then have "a mod 4 * 16 + b div 16 < 64" "b mod 16 * 4 < 64" by linarith+
  with 3 show ?case by auto
next
  case (4 a b c r)
  then have "b div 16 < 16" "c div 64 < 4" "a mod 4 < 4" "b mod 16 < 16" by auto
  then have "a mod 4 * 16 + b div 16 < 64" "b mod 16 * 4 + c div 64 < 64" by linarith+
  with 4 show ?case by auto
qed auto

lemma char_sextet_char: "s < 64 \<Longrightarrow> char_sextet (sextet_char s) = Some s"
proof -
  have "\<forall>s \<in> set [0 ..< 64]. char_sextet (sextet_char s) = Some s" by code_simp
  then show "s < 64 \<Longrightarrow> char_sextet (sextet_char s) = Some s" by (metis atLeast0LessThan atLeastLessThan_upt lessThan_iff)
qed

lemma base64url_roundtrip [simp]: "fromBase64url (toBase64url bytes) = bytes"
proof -
  let ?bs = "map of_char bytes :: nat list"
  have b: "\<forall>a \<in> set ?bs. a < 256" by auto
  have "List.map_filter char_sextet (map sextet_char ss) = ss" if "\<forall>s \<in> set ss. s < 64" for ss
    using that by (induction ss) (simp_all add: List.map_filter_def char_sextet_char)
  then show ?thesis
    unfolding fromBase64url_def toBase64url_def
    using sextets_bound [OF b] octets_sextets [OF b] by (simp add: comp_def)
qed

subsection \<open>Cursors\<close>

definition MAX_LIMIT :: int where "MAX_LIMIT = 200"

definition DEFAULT_LIMIT :: int where "DEFAULT_LIMIT = 50"

record Position =
  ps_createdAt :: string
  ps_id :: string

record Page =
  pg_limit :: nat
  pg_after :: "Position option"

definition encodeCursor :: "Position \<Rightarrow> string" where
  "encodeCursor position = toBase64url (ps_createdAt position @ ''|'' @ ps_id position)"

datatype CursorIdShape = Uuid | Sequence

definition js_digit :: "char \<Rightarrow> bool" where
  "js_digit c \<longleftrightarrow> c \<in> set ''0123456789''"

text \<open>\<open>/^[0-9a-f-]{36}$/i\<close> and \<open>/^\d{1,19}$/\<close>.\<close>

definition id_shaped :: "CursorIdShape \<Rightarrow> string \<Rightarrow> bool" where
  "id_shaped idShape i =
     (case idShape of
        Uuid \<Rightarrow> uuid_shaped i
      | Sequence \<Rightarrow> 1 \<le> length i \<and> length i \<le> 19 \<and> list_all js_digit i)"

text \<open>\<open>lastIndexOf('|')\<close>: the first one of the text reversed.\<close>

definition decodeCursor :: "(string \<Rightarrow> bool) \<Rightarrow> string \<Rightarrow> CursorIdShape \<Rightarrow> Position option" where
  "decodeCursor date_ok cursor idShape =
     (let decoded = fromBase64url cursor
      in case index_of (CHR ''|'') (rev decoded) of
           None \<Rightarrow> None
         | Some k \<Rightarrow>
             (let createdAt = take (length decoded - k - 1) decoded;
                  i = drop (length decoded - k) decoded
              in if \<not> date_ok createdAt then None
                 else if \<not> id_shaped idShape i then None
                 else Some \<lparr>ps_createdAt = createdAt, ps_id = i\<rparr>))"

lemma no_bar: "id_shaped idShape i \<Longrightarrow> CHR ''|'' \<notin> set i"
proof -
  assume ok: "id_shaped idShape i"
  have "\<not> hex_or_hyphen (CHR ''|'')" by code_simp
  moreover have "\<not> js_digit (CHR ''|'')" by code_simp
  ultimately show ?thesis
    using ok unfolding id_shaped_def uuid_shaped_def list_all_iff by (cases idShape) auto
qed

lemma cursor_roundtrip:
  assumes "date_ok (ps_createdAt p)" and "id_shaped idShape (ps_id p)"
  shows "decodeCursor date_ok (encodeCursor p) idShape = Some p"
proof -
  have "index_of (CHR ''|'') (rev (ps_id p) @ CHR ''|'' # rev (ps_createdAt p)) = Some (length (ps_id p))"
    using index_of_append [of "CHR ''|''" "rev (ps_id p)" "rev (ps_createdAt p)"] no_bar [OF assms(2)] by simp
  with assms show ?thesis by (simp add: decodeCursor_def encodeCursor_def Let_def)
qed

subsection \<open>readPage\<close>

datatype PageProblem = OffsetUnsupported | BadLimit | BadCursor

definition is_integer :: "rat \<Rightarrow> bool" where
  "is_integer q \<longleftrightarrow> of_int \<lfloor>q\<rfloor> = q"

definition read_limit :: "(string \<Rightarrow> rat option) \<Rightarrow> string option \<Rightarrow> PageProblem + nat" where
  "read_limit number raw =
     (case raw of
        None \<Rightarrow> Inr (nat DEFAULT_LIMIT)
      | Some r \<Rightarrow>
          (case number r of
             None \<Rightarrow> Inl BadLimit
           | Some v \<Rightarrow> if \<not> is_integer v \<or> v < 1 \<or> v > of_int MAX_LIMIT then Inl BadLimit else Inr (nat \<lfloor>v\<rfloor>)))"

definition readPage :: "(string \<Rightarrow> rat option) \<Rightarrow> (string \<Rightarrow> bool) \<Rightarrow> (string \<times> string) list \<Rightarrow> CursorIdShape \<Rightarrow> PageProblem + Page" where
  "readPage number date_ok params idShape =
     (if map_of params ''offset'' \<noteq> None then Inl OffsetUnsupported
      else case read_limit number (map_of params ''limit'') of
        Inl e \<Rightarrow> Inl e
      | Inr limit \<Rightarrow>
          (case map_of params ''cursor'' of
             None \<Rightarrow> Inr \<lparr>pg_limit = limit, pg_after = None\<rparr>
           | Some cursor \<Rightarrow>
               if cursor = [] then Inr \<lparr>pg_limit = limit, pg_after = None\<rparr>
               else (case decodeCursor date_ok cursor idShape of
                       None \<Rightarrow> Inl BadCursor
                     | Some position \<Rightarrow> Inr \<lparr>pg_limit = limit, pg_after = Some position\<rparr>)))"

subsection \<open>pageOf\<close>

record 'i PageResult =
  pr_items :: "'i list"
  pr_nextCursor :: "string option"

definition pageOf :: "'i list \<Rightarrow> Page option \<Rightarrow> ('i \<Rightarrow> nat \<Rightarrow> Position) \<Rightarrow> 'i PageResult" where
  "pageOf rows page positionOf =
     (case page of
        None \<Rightarrow> \<lparr>pr_items = rows, pr_nextCursor = None\<rparr>
      | Some p \<Rightarrow>
          if length rows < pg_limit p then \<lparr>pr_items = rows, pr_nextCursor = None\<rparr>
          else \<lparr>pr_items = rows,
                pr_nextCursor = (if rows = [] then None else Some (encodeCursor (positionOf (last rows) (length rows - 1))))\<rparr>)"

subsection \<open>Walking a listing\<close>

text \<open>
  The bound of a seek: \<open>$n::timestamptz\<close> and \<open>$m::uuid\<close>, where a text that does not cast is an error of
  the statement.
\<close>

record Casts =
  ca_date_ok :: "string \<Rightarrow> bool"
  ca_ts_text :: "nat \<Rightarrow> string"
  ca_ts_cast :: "string \<Rightarrow> nat option"
  ca_uuid_in :: "string \<Rightarrow> string option"

definition cast_position :: "Casts \<Rightarrow> Position \<Rightarrow> (nat \<times> string) option" where
  "cast_position casts p =
     (case (ca_ts_cast casts (ps_createdAt p), ca_uuid_in casts (ps_id p)) of (Some t, Some i) \<Rightarrow> Some (t, i) | _ \<Rightarrow> None)"

text \<open>What is relied on: a timestamp's text casts back to it, and \<open>Date.parse\<close> accepts it.\<close>

definition casts_ok :: "Casts \<Rightarrow> bool" where
  "casts_ok casts \<longleftrightarrow> (\<forall>t. ca_ts_cast casts (ca_ts_text casts t) = Some t \<and> ca_date_ok casts (ca_ts_text casts t))"

definition canonical :: "Casts \<Rightarrow> string \<Rightarrow> bool" where
  "canonical casts i \<longleftrightarrow> uuid_shaped i \<and> ca_uuid_in casts i = Some i"

text \<open>The bound of a page, or the statement's error; and its \<open>LIMIT\<close>, with so many rows more.\<close>

definition bound_of :: "Casts \<Rightarrow> Page option \<Rightarrow> string + (nat \<times> string) option" where
  "bound_of casts page =
     (case Option.bind page pg_after of
        None \<Rightarrow> Inr None
      | Some p \<Rightarrow> (case cast_position casts p of None \<Rightarrow> Inl ''invalid input syntax'' | Some b \<Rightarrow> Inr (Some b)))"

definition capped :: "Page option \<Rightarrow> nat \<Rightarrow> 'r list \<Rightarrow> 'r list" where
  "capped page extra rows = (case page of None \<Rightarrow> rows | Some p \<Rightarrow> take (pg_limit p + extra) rows)"

text \<open>\<open>(created_at, id) > (bound)\<close> on rows ordered by that key.\<close>

definition seek :: "('r \<Rightarrow> nat \<times> string) \<Rightarrow> (nat \<times> string) option \<Rightarrow> 'r list \<Rightarrow> 'r list" where
  "seek key bound rows = (case bound of None \<Rightarrow> rows | Some k \<Rightarrow> filter (\<lambda>r. k < key r) rows)"

lemma set_seek: "r \<in> set (seek key bound rows) \<Longrightarrow> r \<in> set rows"
  by (cases bound) (simp_all add: seek_def)

definition ordered_by :: "('r \<Rightarrow> nat \<times> string) \<Rightarrow> 'r list \<Rightarrow> bool" where
  "ordered_by key rows \<longleftrightarrow> sorted_wrt (\<lambda>a b. key a < key b) rows"

lemma seek_nth:
  assumes "ordered_by key rows" and "0 < m" and "m \<le> length rest" and "rest = seek key bound rows"
  shows "seek key (Some (key (rest ! (m - 1)))) rows = drop m rest"
proof -
  have step: "filter (\<lambda>r. key (xs ! (m - 1)) < key r) xs = drop m xs"
    if "sorted_wrt (\<lambda>a b. key a < key b) xs" "0 < m" "m \<le> length xs" for xs
  proof -
    have "filter (\<lambda>r. key (xs ! (m - 1)) < key r) (take m xs @ drop m xs) = drop m xs"
    proof -
      have "\<not> key (xs ! (m - 1)) < key r" if "r \<in> set (take m xs)" for r
      proof -
        obtain k where k: "k < m" "k < length xs" "r = xs ! k" using \<open>r \<in> set (take m xs)\<close> by (auto simp: in_set_conv_nth)
        have "key (xs ! k) < key (xs ! (m - 1))" if "k \<noteq> m - 1"
          by (rule sorted_wrt_nth_less [OF \<open>sorted_wrt _ xs\<close>]) (use k \<open>m \<le> length xs\<close> that in auto)
        with k(3) show ?thesis by (cases "k = m - 1") (auto dest: less_not_sym)
      qed
      moreover have "key (xs ! (m - 1)) < key r" if "r \<in> set (drop m xs)" for r
      proof -
        obtain k where "k < length xs - m" "r = xs ! (m + k)" using \<open>r \<in> set (drop m xs)\<close> by (auto simp: in_set_conv_nth)
        then show ?thesis
          using sorted_wrt_nth_less [OF \<open>sorted_wrt _ xs\<close>, of "m - 1" "m + k"] \<open>0 < m\<close> by auto
      qed
      ultimately show ?thesis unfolding filter_append by (simp add: filter_empty_conv)
    qed
    then show ?thesis by simp
  qed
  show ?thesis
  proof (cases bound)
    case None
    with assms step [of rows] show ?thesis by (simp add: seek_def ordered_by_def)
  next
    case (Some k)
    have r: "rest = filter (\<lambda>r. k < key r) rows" using Some assms(4) by (simp add: seek_def)
    have "sorted_wrt (\<lambda>a b. key a < key b) rest" using assms(1) by (simp add: r ordered_by_def sorted_wrt_filter)
    from step [OF this assms(2,3)] have "filter (\<lambda>r. key (rest ! (m - 1)) < key r) rest = drop m rest" .
    moreover have "k < key (rest ! (m - 1))" using assms(2,3) nth_mem [of "m - 1" rest] by (simp add: r)
    then have "filter (\<lambda>r. key (rest ! (m - 1)) < key r) rest = filter (\<lambda>r. key (rest ! (m - 1)) < key r) rows"
      unfolding r by (auto simp: filter_filter intro!: filter_cong)
    ultimately show ?thesis by (simp add: seek_def)
  qed
qed

text \<open>
  A client that follows \<open>next_cursor\<close>: every page's items, or nothing when a request fails or the
  requests run out.
\<close>

fun walk :: "nat \<Rightarrow> (string option \<Rightarrow> string + 'i PageResult) \<Rightarrow> string option \<Rightarrow> 'i list option" where
  "walk 0 request cursor = None"
| "walk (Suc n) request cursor =
     (case request cursor of
        Inl e \<Rightarrow> None
      | Inr page \<Rightarrow>
          (case pr_nextCursor page of
             None \<Rightarrow> Some (pr_items page)
           | Some c \<Rightarrow> map_option ((@) (pr_items page)) (walk n request (Some c))))"

text \<open>A request with \<open>?cursor=\<close>, through \<open>decodeCursor\<close>.\<close>

definition with_cursor :: "(string \<Rightarrow> bool) \<Rightarrow> CursorIdShape \<Rightarrow> (Position option \<Rightarrow> string + 'i PageResult) \<Rightarrow> string option
    \<Rightarrow> string + 'i PageResult" where
  "with_cursor date_ok idShape list_page cursor =
     (case cursor of
        None \<Rightarrow> list_page None
      | Some c \<Rightarrow> (case decodeCursor date_ok c idShape of None \<Rightarrow> Inl ''cursor'' | Some p \<Rightarrow> list_page (Some p)))"

text \<open>
  The contract of a listing: over rows ordered by \<open>(created_at, id)\<close>, a page takes some of the rows
  after its bound, shows those that pass \<open>keep\<close>, and either says it was the last - and then it took all -
  or took at least one and names the last row it took.
\<close>

locale paged_listing =
  fixes valid :: "'s \<Rightarrow> bool" and casts :: "'s \<Rightarrow> Casts" and rows :: "'s \<Rightarrow> 'r list"
    and stamp :: "'r \<Rightarrow> nat" and ident :: "'r \<Rightarrow> string" and keep :: "'s \<Rightarrow> 'r \<Rightarrow> bool" and item :: "'s \<Rightarrow> 'r \<Rightarrow> 'i"
    and list_page :: "'s \<Rightarrow> Position option \<Rightarrow> string + 'i PageResult"
  assumes ordered: "valid s \<Longrightarrow> ordered_by (\<lambda>r. (stamp r, ident r)) (rows s)"
    and stamps: "valid s \<Longrightarrow> casts_ok (casts s)"
    and idents: "valid s \<Longrightarrow> r \<in> set (rows s) \<Longrightarrow> canonical (casts s) (ident r)"
    and page: "valid s \<Longrightarrow> after = None \<or> cast_position (casts s) (the after) \<noteq> None \<Longrightarrow>
      rest = seek (\<lambda>r. (stamp r, ident r)) (Option.bind after (cast_position (casts s))) (rows s) \<Longrightarrow>
      \<exists>m result. list_page s after = Inr result \<and> pr_items result = map (item s) (filter (keep s) (take m rest)) \<and>
        (pr_nextCursor result = None \<and> length rest \<le> m \<or>
         0 < m \<and> m \<le> length rest \<and> pr_nextCursor result =
           Some (encodeCursor \<lparr>ps_createdAt = ca_ts_text (casts s) (stamp (rest ! (m - 1))), ps_id = ident (rest ! (m - 1))\<rparr>))"
begin

lemma walk_rest:
  assumes ok: "valid s"
    and "rest = seek (\<lambda>r. (stamp r, ident r)) (Option.bind after (cast_position (casts s))) (rows s)"
    and "after = None \<or> cast_position (casts s) (the after) \<noteq> None"
    and "length rest < n" and "with_cursor (ca_date_ok (casts s)) Uuid (list_page s) cursor = list_page s after"
  shows "walk n (with_cursor (ca_date_ok (casts s)) Uuid (list_page s)) cursor = Some (map (item s) (filter (keep s) rest))"
  using assms(2-)
proof (induction n arbitrary: rest after cursor)
  case (Suc n)
  let ?request = "with_cursor (ca_date_ok (casts s)) Uuid (list_page s)"
  from page [OF ok Suc.prems(2,1)] obtain m result where res: "list_page s after = Inr result"
    "pr_items result = map (item s) (filter (keep s) (take m rest))"
    and next_page: "pr_nextCursor result = None \<and> length rest \<le> m \<or>
         0 < m \<and> m \<le> length rest \<and> pr_nextCursor result =
           Some (encodeCursor \<lparr>ps_createdAt = ca_ts_text (casts s) (stamp (rest ! (m - 1))), ps_id = ident (rest ! (m - 1))\<rparr>)"
    by blast
  from next_page show ?case
  proof (elim disjE conjE)
    assume "pr_nextCursor result = None" "length rest \<le> m"
    with res Suc.prems(4) show ?thesis by simp
  next
    let ?r = "rest ! (m - 1)"
    let ?p = "\<lparr>ps_createdAt = ca_ts_text (casts s) (stamp ?r), ps_id = ident ?r\<rparr>"
    assume m: "0 < m" "m \<le> length rest" and c: "pr_nextCursor result = Some (encodeCursor ?p)"
    have "?r \<in> set rest" using m by simp
    then have "?r \<in> set (rows s)" unfolding Suc.prems(1) by (rule set_seek)
    then have r: "uuid_shaped (ident ?r)" "ca_uuid_in (casts s) (ident ?r) = Some (ident ?r)"
      using idents [OF ok] by (auto simp: canonical_def)
    have t: "ca_ts_cast (casts s) (ca_ts_text (casts s) x) = Some x" "ca_date_ok (casts s) (ca_ts_text (casts s) x)" for x
      using stamps [OF ok] by (simp_all add: casts_ok_def)
    have cast: "cast_position (casts s) ?p = Some (stamp ?r, ident ?r)" using r(2) t(1) by (simp add: cast_position_def)
    have "?request (Some (encodeCursor ?p)) = list_page s (Some ?p)"
      using cursor_roundtrip [of "ca_date_ok (casts s)" ?p Uuid] t(2) r(1) by (simp add: with_cursor_def id_shaped_def)
    moreover have "drop m rest = seek (\<lambda>r. (stamp r, ident r)) (Option.bind (Some ?p) (cast_position (casts s))) (rows s)"
      unfolding Option.bind.simps cast using seek_nth [OF ordered [OF ok] m Suc.prems(1)] by simp
    moreover have "length (drop m rest) < n" using m Suc.prems(3) by simp
    ultimately have "walk n ?request (Some (encodeCursor ?p)) = Some (map (item s) (filter (keep s) (drop m rest)))"
      using Suc.IH [of "drop m rest" "Some ?p"] cast by simp
    then have "walk (Suc n) ?request cursor = Some (map (item s) (filter (keep s) (take m rest) @ filter (keep s) (drop m rest)))"
      using res c Suc.prems(4) by simp
    then show ?thesis by (metis append_take_drop_id filter_append)
  qed
qed simp

text \<open>From the first page on, every row that passes is seen once, in order, within one request per row and one more.\<close>

lemma walk_all:
  assumes "valid s"
  shows "walk (Suc (length (rows s))) (with_cursor (ca_date_ok (casts s)) Uuid (list_page s)) None = Some (map (item s) (filter (keep s) (rows s)))"
  by (rule walk_rest [OF assms, of "rows s" None]) (simp_all add: seek_def with_cursor_def)

end

subsection \<open>What the listings share\<close>

lemma ordered_sort:
  assumes "distinct (map key xs)"
  shows "ordered_by key (sort_key key xs)"
proof -
  have "distinct (map key (sort_key key xs))" using assms by (simp add: distinct_map)
  then have "sorted_wrt (<) (map key (sort_key key xs))" by (simp add: strict_sorted_iff)
  then show ?thesis by (simp add: ordered_by_def sorted_wrt_map)
qed

lemma bound_cast:
  assumes "after = None \<or> cast_position casts (the after) \<noteq> None"
  shows "bound_of casts (Some \<lparr>pg_limit = n, pg_after = after\<rparr>) = Inr (Option.bind after (cast_position casts))"
  using assms by (cases after) (auto simp: bound_of_def)

text \<open>A full page through \<open>pageOf\<close>, and one that fetches \<open>extra\<close> rows beyond its limit and filters.\<close>

lemma last_take:
  assumes "0 < n" and "n \<le> length xs"
  shows "last (take n xs) = xs ! (n - 1)"
proof -
  have "take n xs \<noteq> []" using assms by auto
  then show ?thesis using assms by (simp add: last_conv_nth min_def)
qed

lemma pageOf_contract:
  assumes "0 < n" and "\<And>k. k < n \<Longrightarrow> k < length rest \<Longrightarrow> positionOf (item (rest ! k)) k = pos (rest ! k)"
    and result_def: "result = pageOf (map item (take n rest)) (Some \<lparr>pg_limit = n, pg_after = after\<rparr>) positionOf"
  shows "\<exists>m. pr_items result = map item (take m rest) \<and>
    (pr_nextCursor result = None \<and> length rest \<le> m \<or>
     0 < m \<and> m \<le> length rest \<and> pr_nextCursor result = Some (encodeCursor (pos (rest ! (m - 1)))))"
proof (cases "length rest < n")
  case True
  then show ?thesis by (intro exI [of _ n]) (simp add: result_def pageOf_def)
next
  case False
  have nonempty: "rest \<noteq> []" using False assms(1) by auto
  then have "last (map item (take n rest)) = item (rest ! (n - 1))"
    using False assms(1) last_take [of n rest] by (simp add: last_map)
  moreover note nonempty
  ultimately show ?thesis
    using False assms(1) assms(2) [of "n - 1"] by (intro exI [of _ n]) (simp add: result_def pageOf_def)
qed

subsection \<open>The properties\<close>

text \<open>C14 - A cursor is read back as it was issued: passed as \<open>?cursor=\<close>, the text of a position - any timestamp
  text \<open>Date.parse\<close> accepts, any id of the collection's shape - is that position, bit for bit.\<close>

theorem cursor_read_back:
  assumes "date_ok (ps_createdAt p)" and "id_shaped idShape (ps_id p)"
  shows "readPage number date_ok [(''cursor'', encodeCursor p)] idShape = Inr \<lparr>pg_limit = 50, pg_after = Some p\<rparr>"
proof -
  have "encodeCursor p \<noteq> []"
  proof
    assume "encodeCursor p = []"
    then have "fromBase64url (encodeCursor p) = fromBase64url []" by simp
    then show False unfolding encodeCursor_def base64url_roundtrip by (simp add: fromBase64url_def List.map_filter_def)
  qed
  then show ?thesis
    using cursor_roundtrip [where date_ok = date_ok and p = p, OF assms] by (simp add: readPage_def read_limit_def DEFAULT_LIMIT_def)
qed

theorem cursor_read_back_witness:
  "readPage (\<lambda>_. None) (\<lambda>_. True) [(''cursor'', encodeCursor \<lparr>ps_createdAt = ''2026-07-01 10:00:00.123456+00'', ps_id = ''42''\<rparr>)] Sequence
     = Inr \<lparr>pg_limit = 50, pg_after = Some \<lparr>ps_createdAt = ''2026-07-01 10:00:00.123456+00'', ps_id = ''42''\<rparr>\<rparr>"
proof -
  have "id_shaped Sequence ''42''" by code_simp
  then show ?thesis
    using cursor_read_back [of "\<lambda>_. True" "\<lparr>ps_createdAt = ''2026-07-01 10:00:00.123456+00'', ps_id = ''42''\<rparr>" Sequence] by simp
qed

text \<open>Whatever the query string says, a page that is served has a limit from 1 to 200 and a bound that is a
  parsable timestamp with an id of the collection's own shape; \<open>?offset=\<close> is refused.\<close>

theorem readPage_bounds:
  assumes "readPage number date_ok params idShape = Inr page"
  shows "1 \<le> pg_limit page \<and> pg_limit page \<le> 200 \<and> map_of params ''offset'' = None
    \<and> (case pg_after page of None \<Rightarrow> True | Some p \<Rightarrow> date_ok (ps_createdAt p) \<and> id_shaped idShape (ps_id p))"
proof -
  obtain limit where limit: "read_limit number (map_of params ''limit'') = Inr limit" "pg_limit page = limit"
    using assms by (auto simp: readPage_def split: if_splits sum.splits option.splits)
  have "1 \<le> limit \<and> limit \<le> 200"
  proof (cases "map_of params ''limit''")
    case None
    with limit(1) show ?thesis by (simp add: read_limit_def DEFAULT_LIMIT_def)
  next
    case (Some r)
    with limit(1)  obtain v :: rat where v: "1 \<le> v" "v \<le> of_int MAX_LIMIT" "limit = nat \<lfloor>v\<rfloor>"
      by (auto simp: read_limit_def not_less split: option.splits if_splits)
    then have "1 \<le> \<lfloor>v\<rfloor>" "\<lfloor>v\<rfloor> \<le> 200"
      by (simp_all add: MAX_LIMIT_def le_floor_iff floor_le_iff)
    with v(3) show ?thesis by linarith
  qed
  moreover have "map_of params ''offset'' = None" using assms by (auto simp: readPage_def split: if_splits)
  moreover have "decodeCursor date_ok c idShape = Some p \<Longrightarrow> date_ok (ps_createdAt p) \<and> id_shaped idShape (ps_id p)" for c p
    by (auto simp: decodeCursor_def Let_def split: option.splits if_splits)
  ultimately show ?thesis
    using assms limit(2) by (auto simp: readPage_def split: if_splits sum.splits option.splits)
qed

theorem readPage_bounds_witness:
  "\<exists>page. readPage (\<lambda>r. if r = ''7'' then Some 7 else None) (\<lambda>_. True) [(''limit'', ''7'')] Uuid = Inr page
     \<and> 1 \<le> pg_limit page \<and> pg_limit page \<le> 200"
proof -
  let ?n = "\<lambda>r. if r = ''7'' then Some 7 else (None :: rat option)"
  have "readPage ?n (\<lambda>_. True) [(''limit'', ''7'')] Uuid = Inr \<lparr>pg_limit = 7, pg_after = None\<rparr>"
    by (simp add: readPage_def read_limit_def is_integer_def MAX_LIMIT_def)
  with readPage_bounds [OF this] show ?thesis by simp
qed

end
