(* ===== verification/Catalog.thy ===== *)
theory Catalog
  imports Access Pagination
begin

text \<open>
  The catalog of \<open>packages/api/src/adapters.ts\<close>: \<open>PostgresLayers\<close> (list, create, rename, remove),
  \<open>PostgresWorkspaces\<close> (list, create) and \<open>PostgresGrants\<close> (list, issue, revoke). The three listings keep
  the contract of \<open>paged_listing\<close>, so a client that follows \<open>next_cursor\<close> sees exactly the rows the rules
  let it see. The unique constraints and the trigger on \<open>grants\<close> are the migrations'.
\<close>

subsection \<open>The tables\<close>

record CatalogLayer = LayerRow +
  cl_name :: string
  cl_description :: string
  cl_created :: nat
  cl_copying :: "(string \<times> string) option"

record WorkspaceRow =
  wk_id :: string
  wk_org :: string
  wk_slug :: string
  wk_name :: string
  wk_deleted :: bool
  wk_created :: nat

record GrantRow =
  gr_id :: string
  gr_grant :: Grant
  gr_source :: string
  gr_created :: nat

record ProviderEntry =
  pe_id :: string
  pe_org :: "string option"
  pe_model :: string
  pe_dimensions :: nat

text \<open>\<open>ct_accounts\<close> are the service accounts that are not revoked.\<close>

record Catalog =
  ct_collections :: "string \<rightharpoonup> string"
  ct_workspaces :: "WorkspaceRow list"
  ct_layers :: "CatalogLayer list"
  ct_grants :: "GrantRow list"
  ct_docs :: table
  ct_members :: "GroupMemberRow list"
  ct_groups_version :: "string \<rightharpoonup> nat"
  ct_providers :: "ProviderEntry list"
  ct_users :: "(string \<times> string) list"
  ct_groups :: "(string \<times> string) list"
  ct_accounts :: "(string \<times> string) list"

definition db_of :: "Catalog \<Rightarrow> Db" where
  "db_of cat =
     \<lparr>db_grants = map gr_grant (ct_grants cat), db_layers = map LayerRow.truncate (ct_layers cat),
      db_documents = map (row_of (\<lambda>_. None)) (ct_docs cat), db_group_members = ct_members cat,
      db_groups_version = ct_groups_version cat\<rparr>"

text \<open>The trigger on \<open>grants\<close>: \<open>n\<close> rows touched move the organization's counter by \<open>n\<close>.\<close>

definition bump :: "string \<Rightarrow> nat \<Rightarrow> Catalog \<Rightarrow> Catalog" where
  "bump orgId n cat = cat\<lparr>ct_groups_version :=
     (\<lambda>org. if org = orgId then map_option (\<lambda>v. v + n) (ct_groups_version cat org) else ct_groups_version cat org)\<rparr>"

definition same_text :: "string \<Rightarrow> string \<Rightarrow> bool" where
  "same_text a b \<longleftrightarrow> map to_lower a = map to_lower b"

subsection \<open>PostgresLayers.list\<close>

record Layer =
  lv_id :: string
  lv_slug :: string
  lv_name :: string
  lv_workspaceId :: string
  lv_description :: string
  lv_documentCount :: nat
  lv_failedCount :: nat
  lv_permissions :: "Permission list"
  lv_createdAt :: nat

definition holds :: "AuthContext \<Rightarrow> (Permission \<Rightarrow> AccessPlan) \<Rightarrow> string \<Rightarrow> Permission list" where
  "holds auth plans layerId = filter (\<lambda>p. plan_has_layer (plans p) layerId \<and> withinDelegation auth layerId p) [Read, Write, Admin]"

definition layer_view :: "Catalog \<Rightarrow> AuthContext \<Rightarrow> (Permission \<Rightarrow> AccessPlan) \<Rightarrow> CatalogLayer \<Rightarrow> Layer" where
  "layer_view cat auth plans l =
     (let denied = (case plans Read of PlanScoped _ _ d \<Rightarrow> d | _ \<Rightarrow> []);
          docs = filter (\<lambda>d. qd_layer d = ly_id l \<and> qd_deleted_at d = None \<and> qd_id d \<notin> set denied) (ct_docs cat)
      in \<lparr>lv_id = ly_id l, lv_slug = ly_slug l, lv_name = cl_name l, lv_workspaceId = ly_workspace l,
          lv_description = cl_description l, lv_documentCount = length docs,
          lv_failedCount = length (filter (\<lambda>d. qd_status d = Failed) docs),
          lv_permissions = holds auth plans (ly_id l), lv_createdAt = cl_created l\<rparr>)"

definition layer_key :: "CatalogLayer \<Rightarrow> nat \<times> string" where
  "layer_key l = (cl_created l, ly_id l)"

text \<open>The ids the statement is confined to; none of them is no confinement.\<close>

definition listed_ids :: "AuthContext \<Rightarrow> AccessPlan \<Rightarrow> string list option" where
  "listed_ids auth plan =
     (case (delegatedLayers auth Read, plan) of
        (None, PlanScoped ls _ _) \<Rightarrow> Some ls
      | (None, _) \<Rightarrow> None
      | (Some n, PlanScoped ls _ _) \<Rightarrow> Some (filter (\<lambda>i. i \<in> set n) ls)
      | (Some n, _) \<Rightarrow> Some n)"

definition empty_page :: "'i PageResult" where
  "empty_page = \<lparr>pr_items = [], pr_nextCursor = None\<rparr>"

definition layers_list :: "Casts \<Rightarrow> Catalog \<Rightarrow> AuthContext \<Rightarrow> 'c PrincipalsCache option \<Rightarrow> Page option \<Rightarrow> 'c
    \<Rightarrow> (string + Layer PageResult) \<times> 'c" where
  "layers_list casts cat auth cache page c =
     (let (ctx, c') = contextFor (db_of cat) auth cache c;
          plans = resolve ctx;
          ids = listed_ids auth (plans Read)
      in (if plans Read = PlanNone \<or> ids = Some [] then Inr empty_page
          else case bound_of casts page of
            Inl e \<Rightarrow> Inl e
          | Inr bound \<Rightarrow>
              (let rows = capped page 0 (seek layer_key bound (sort_key layer_key
                     (filter (\<lambda>l. ly_org l = au_orgId auth \<and> \<not> ly_deleted l
                                \<and> (case ids of None \<Rightarrow> True | Some is \<Rightarrow> ly_id l \<in> set is)) (ct_layers cat))))
               in Inr (pageOf (map (layer_view cat auth plans) rows) page
                    (\<lambda>l k. \<lparr>ps_createdAt = ca_ts_text casts (cl_created (rows ! k)), ps_id = lv_id l\<rparr>))), c'))"

subsection \<open>PostgresLayers.update, create\<close>

definition find_layer :: "Casts \<Rightarrow> string \<Rightarrow> string \<Rightarrow> Catalog \<Rightarrow> string + CatalogLayer option" where
  "find_layer casts orgId layerId cat =
     (case ca_uuid_in casts layerId of
        None \<Rightarrow> Inl bad_uuid
      | Some i \<Rightarrow> Inr (find (\<lambda>l. ly_org l = orgId \<and> ly_id l = i \<and> \<not> ly_deleted l) (ct_layers cat)))"

abbreviation workspace_scope :: "string \<Rightarrow> Scope" where
  "workspace_scope w \<equiv> \<lparr>stype = Workspace, sid = w\<rparr>"

text \<open>Whoever administers the layer's workspace and is admitted to the layer.\<close>

definition administers_layer :: "ResolveInput \<Rightarrow> AuthContext \<Rightarrow> string \<Rightarrow> CatalogLayer \<Rightarrow> bool" where
  "administers_layer ctx auth layerId l \<longleftrightarrow>
     referenceAllows ctx (workspace_scope (ly_workspace l)) Admin \<and> withinDelegation auth layerId Admin"

definition update_layers :: "(CatalogLayer \<Rightarrow> bool) \<Rightarrow> (CatalogLayer \<Rightarrow> CatalogLayer) \<Rightarrow> Catalog \<Rightarrow> Catalog" where
  "update_layers P f cat = cat\<lparr>ct_layers := map (\<lambda>l. if P l then f l else l) (ct_layers cat)\<rparr>"

definition updateLayer :: "Casts \<Rightarrow> AuthContext \<Rightarrow> 'c PrincipalsCache option \<Rightarrow> string \<Rightarrow> string option \<Rightarrow> string option \<Rightarrow> Catalog \<Rightarrow> 'c
    \<Rightarrow> (string + bool) \<times> Catalog" where
  "updateLayer casts auth cache layerId name description cat c =
     (if \<not> uuid_shaped layerId then (Inr False, cat)
      else if name = None \<and> description = None then (Inr False, cat)
      else let ctx = fst (contextFor (db_of cat) auth cache c)
           in case find_layer casts (au_orgId auth) layerId cat of
                Inl e \<Rightarrow> (Inl e, cat)
              | Inr None \<Rightarrow> (Inr False, cat)
              | Inr (Some l) \<Rightarrow>
                  if \<not> administers_layer ctx auth layerId l then (Inr False, cat)
                  else (Inr True, update_layers (\<lambda>m. ly_org m = au_orgId auth \<and> ly_id m = ly_id l)
                         (\<lambda>m. m\<lparr>cl_name := (case name of None \<Rightarrow> cl_name m | Some n \<Rightarrow> n),
                                cl_description := (case description of None \<Rightarrow> cl_description m | Some t \<Rightarrow> t)\<rparr>) cat))"

datatype LayerOutcome = LayerDenied | LayerProvider string | LayerConflict | LayerCreated Layer

record LayerInput =
  li_workspaceId :: string
  li_slug :: string
  li_name :: string
  li_providerId :: "string option"

text \<open>\<open>ORDER BY org_id NULLS LAST, id\<close> over the organization's providers and the global ones.\<close>

definition provider_rows :: "Catalog \<Rightarrow> string \<Rightarrow> string option \<Rightarrow> ProviderEntry list" where
  "provider_rows cat orgId wanted =
     (let mine = (\<lambda>p. wanted = None \<or> wanted = Some (pe_id p))
      in sort_key pe_id (filter (\<lambda>p. pe_org p = Some orgId \<and> mine p) (ct_providers cat))
         @ sort_key pe_id (filter (\<lambda>p. pe_org p = None \<and> mine p) (ct_providers cat)))"

text \<open>\<open>UNIQUE (workspace_id, slug)\<close> over all rows, and \<open>(org_id, slug)\<close> over the live ones.\<close>

definition slug_taken :: "Catalog \<Rightarrow> string \<Rightarrow> string \<Rightarrow> string \<Rightarrow> bool" where
  "slug_taken cat orgId workspaceId slug \<longleftrightarrow>
     (\<exists>l \<in> set (ct_layers cat). same_text (ly_slug l) slug \<and>
        (ly_workspace l = workspaceId \<or> ly_org l = orgId \<and> \<not> ly_deleted l))"

definition no_provider :: string where
  "no_provider = ''No embedding provider with that id is available to this organization.''"

definition many_providers :: "nat \<Rightarrow> string" where
  "many_providers n = ''This organization has '' @ nat_str n @ '' embedding providers, so which one a layer ''
     @ ''is indexed with is not implied. Name it with 'provider_id'.''"

definition choose_provider :: "Catalog \<Rightarrow> string \<Rightarrow> string option \<Rightarrow> (string + LayerOutcome) + ProviderEntry" where
  "choose_provider cat orgId wanted =
     (let providers = provider_rows cat orgId wanted;
          own = filter (\<lambda>p. pe_org p \<noteq> None) providers
      in if wanted \<noteq> None \<and> providers = [] then Inl (Inr (LayerProvider no_provider))
         else if wanted = None \<and> 1 < length own then Inl (Inr (LayerProvider (many_providers (length own))))
         else case own @ providers of
           [] \<Rightarrow> Inl (Inl ''no embedding provider is configured; a layer cannot be created without one'')
         | p # _ \<Rightarrow> Inr p)"

text \<open>
  \<open>present\<close> are the named vectors of the collection. A layer whose vector is not among them starts with a
  copy in flight, \<open>(shadowVector, providerId)\<close> with nothing counted yet.
\<close>

definition insert_layer :: "string \<Rightarrow> nat \<Rightarrow> AuthContext \<Rightarrow> LayerInput \<Rightarrow> string \<Rightarrow> ProviderEntry \<Rightarrow> (string \<times> nat) list \<Rightarrow> Catalog
    \<Rightarrow> LayerOutcome \<times> Catalog" where
  "insert_layer newId now auth input w p present cat =
     (if slug_taken cat (au_orgId auth) w (li_slug input) then (LayerConflict, cat)
      else let vector = vectorName (pe_model p) (pe_dimensions p);
               row = \<lparr>ly_id = newId, ly_org = au_orgId auth, ly_workspace = w, ly_slug = li_slug input,
                      ly_deleted = False, ly_vector_name = vector, ly_provider = pe_id p,
                      cl_name = li_name input, cl_description = [], cl_created = now,
                      cl_copying = (if map_of present vector \<noteq> None then None else Some (vector, pe_id p))\<rparr>
           in (LayerCreated \<lparr>lv_id = newId, lv_slug = li_slug input, lv_name = li_name input,
                 lv_workspaceId = w, lv_description = [], lv_documentCount = 0, lv_failedCount = 0,
                 lv_permissions = filter (\<lambda>q. delegationPermits auth q \<and> withinDelegation auth newId q) [Read, Write, Admin],
                 lv_createdAt = now\<rparr>,
               cat\<lparr>ct_layers := ct_layers cat @ [row]\<rparr>))"

text \<open>\<open>vectorsOf\<close> is the index's answer on a collection: its named vectors and their sizes.\<close>

definition createLayer :: "Casts \<Rightarrow> (string \<Rightarrow> string + (string \<times> nat) list) \<Rightarrow> string \<Rightarrow> nat \<Rightarrow> AuthContext \<Rightarrow> 'c PrincipalsCache option
    \<Rightarrow> LayerInput \<Rightarrow> Catalog \<Rightarrow> 'c \<Rightarrow> (string + LayerOutcome) \<times> Catalog" where
  "createLayer casts vectorsOf newId now auth cache input cat c =
     (if \<not> uuid_shaped (li_workspaceId input) then (Inr LayerDenied, cat)
      else let ctx = fst (contextFor (db_of cat) auth cache c)
           in if \<not> referenceAllows ctx (workspace_scope (li_workspaceId input)) Admin then (Inr LayerDenied, cat)
              else if delegatedLayers auth Admin \<noteq> None then (Inr LayerDenied, cat)
              else case ca_uuid_in casts (li_workspaceId input) of
                None \<Rightarrow> (Inl bad_uuid, cat)
              | Some w \<Rightarrow>
                  if \<not> (\<exists>k \<in> set (ct_workspaces cat). wk_org k = au_orgId auth \<and> wk_id k = w \<and> \<not> wk_deleted k) then (Inr LayerDenied, cat)
                  else (case choose_provider cat (au_orgId auth) (li_providerId input) of
                          Inl refused \<Rightarrow> (refused, cat)
                        | Inr p \<Rightarrow>
                            (case ct_collections cat (au_orgId auth) of
                               None \<Rightarrow> (Inr LayerDenied, cat)
                             | Some collection \<Rightarrow>
                                 (case vectorsOf collection of
                                    Inl e \<Rightarrow> (Inl e, cat)
                                  | Inr present \<Rightarrow>
                                      (case insert_layer newId now auth input w p present cat of (r, cat') \<Rightarrow> (Inr r, cat'))))))"

subsection \<open>PostgresLayers.remove\<close>

text \<open>The index first, then the rows: the documents, the layer, and the grants that name it.\<close>

definition removeLayer :: "'s QdrantClient \<Rightarrow> Casts \<Rightarrow> nat \<Rightarrow> AuthContext \<Rightarrow> 'c PrincipalsCache option \<Rightarrow> string \<Rightarrow> Catalog \<times> 's \<Rightarrow> 'c
    \<Rightarrow> (string + bool) \<times> Catalog \<times> 's" where
  "removeLayer client casts now auth cache layerId st c =
     (let (cat, s) = st
      in if \<not> uuid_shaped layerId then (Inr False, st)
         else case ct_collections cat (au_orgId auth) of
           None \<Rightarrow> (Inr False, st)
         | Some collection \<Rightarrow>
             (let ctx = fst (contextFor (db_of cat) auth cache c)
              in case find_layer casts (au_orgId auth) layerId cat of
                   Inl e \<Rightarrow> (Inl e, st)
                 | Inr None \<Rightarrow> (Inr False, st)
                 | Inr (Some l) \<Rightarrow>
                     if \<not> administers_layer ctx auth layerId l then (Inr False, st)
                     else (case tombstoneLayer client collection layerId s of
                             (Inl e, s') \<Rightarrow> (Inl e, cat, s')
                           | (Inr _, s') \<Rightarrow>
                               (let named = (\<lambda>g. grant_org (gr_grant g) = au_orgId auth \<and> stype (grant_scope (gr_grant g)) = ScopeType.Layer
                                      \<and> sid (grant_scope (gr_grant g)) = ly_id l);
                                    cat' = update_layers (\<lambda>m. ly_org m = au_orgId auth \<and> ly_id m = ly_id l) (\<lambda>m. m\<lparr>ly_deleted := True\<rparr>)
                                      (cat\<lparr>ct_docs := update_where (\<lambda>d. qd_org d = au_orgId auth \<and> qd_layer d = ly_id l \<and> qd_deleted_at d = None)
                                         (\<lambda>d. d\<lparr>qd_deleted_at := Some now\<rparr>) (ct_docs cat)\<rparr>)
                                in (Inr True, bump (au_orgId auth) (length (filter named (ct_grants cat)))
                                      (cat'\<lparr>ct_grants := filter (\<lambda>g. \<not> named g) (ct_grants cat)\<rparr>), s')))))"

subsection \<open>PostgresWorkspaces\<close>

record WorkspaceView =
  wv_id :: string
  wv_slug :: string
  wv_name :: string
  wv_layerCount :: nat
  wv_createdAt :: nat
  wv_permissions :: "Permission list"

definition workspace_key :: "WorkspaceRow \<Rightarrow> nat \<times> string" where
  "workspace_key k = (wk_created k, wk_id k)"

definition layer_ids :: "Catalog \<Rightarrow> WorkspaceRow \<Rightarrow> string list" where
  "layer_ids cat k = map ly_id (filter (\<lambda>l. ly_workspace l = wk_id k \<and> \<not> ly_deleted l) (ct_layers cat))"

definition visible_layers :: "AuthContext \<Rightarrow> string list \<Rightarrow> string list" where
  "visible_layers auth ids = filter (\<lambda>i. case delegatedLayers auth Read of None \<Rightarrow> True | Some n \<Rightarrow> i \<in> set n) ids"

definition workspace_reachable :: "ResolveInput \<Rightarrow> AuthContext \<Rightarrow> Catalog \<Rightarrow> WorkspaceRow \<Rightarrow> bool" where
  "workspace_reachable ctx auth cat k =
     (let plan = resolve ctx Read; ids = layer_ids cat k
      in if delegatedLayers auth Read \<noteq> None then \<exists>i \<in> set (visible_layers auth ids). plan_has_layer plan i
         else if plan = PlanAll then True
         else if plan \<noteq> PlanNone \<and> (\<exists>i \<in> set ids. plan_has_layer plan i) then True
         else referenceAllows ctx (workspace_scope (wk_id k)) Read)"

definition permissionsOn :: "ResolveInput \<Rightarrow> AuthContext \<Rightarrow> WorkspaceRow \<Rightarrow> Permission list" where
  "permissionsOn ctx auth k =
     (if delegatedLayers auth Read \<noteq> None then [Read]
      else Read # filter (referenceAllows ctx (workspace_scope (wk_id k))) [Write, Admin])"

definition workspace_view :: "ResolveInput \<Rightarrow> AuthContext \<Rightarrow> Catalog \<Rightarrow> WorkspaceRow \<Rightarrow> WorkspaceView" where
  "workspace_view ctx auth cat k =
     \<lparr>wv_id = wk_id k, wv_slug = wk_slug k, wv_name = wk_name k,
      wv_layerCount = (if delegatedLayers auth Read = None then length (layer_ids cat k) else length (visible_layers auth (layer_ids cat k))),
      wv_createdAt = wk_created k, wv_permissions = permissionsOn ctx auth k\<rparr>"

definition workspaces_list :: "Casts \<Rightarrow> Catalog \<Rightarrow> AuthContext \<Rightarrow> 'c PrincipalsCache option \<Rightarrow> Page option \<Rightarrow> 'c
    \<Rightarrow> (string + WorkspaceView PageResult) \<times> 'c" where
  "workspaces_list casts cat auth cache page c =
     (let (ctx, c') = contextFor (db_of cat) auth cache c
      in (case bound_of casts page of
            Inl e \<Rightarrow> Inl e
          | Inr bound \<Rightarrow>
              (let rows = capped page 1 (seek workspace_key bound (sort_key workspace_key
                     (filter (\<lambda>k. wk_org k = au_orgId auth \<and> \<not> wk_deleted k) (ct_workspaces cat))));
                   reachable = filter (workspace_reachable ctx auth cat) rows;
                   fetched = capped page 0 rows
               in Inr \<lparr>pr_items = map (workspace_view ctx auth cat) (filter (\<lambda>k. \<exists>f \<in> set fetched. wk_id f = wk_id k) reachable),
                       pr_nextCursor =
                         (case page of None \<Rightarrow> None
                          | Some p \<Rightarrow> if pg_limit p < length rows \<and> fetched \<noteq> []
                                      then Some (encodeCursor \<lparr>ps_createdAt = ca_ts_text casts (wk_created (last fetched)), ps_id = wk_id (last fetched)\<rparr>)
                                      else None)\<rparr>), c'))"

datatype WorkspaceOutcome = WorkspaceDenied | WorkspaceConflict | WorkspaceCreated WorkspaceView

text \<open>\<open>UNIQUE (org_id, slug)\<close>, deleted rows included.\<close>

definition createWorkspace :: "string \<Rightarrow> nat \<Rightarrow> AuthContext \<Rightarrow> string \<Rightarrow> string \<Rightarrow> Catalog \<Rightarrow> WorkspaceOutcome \<times> Catalog" where
  "createWorkspace newId now auth slug name cat =
     (if \<not> administers auth then (WorkspaceDenied, cat)
      else if \<exists>k \<in> set (ct_workspaces cat). wk_org k = au_orgId auth \<and> same_text (wk_slug k) slug then (WorkspaceConflict, cat)
      else (WorkspaceCreated \<lparr>wv_id = newId, wv_slug = slug, wv_name = name, wv_layerCount = 0, wv_createdAt = now, wv_permissions = [Read, Write, Admin]\<rparr>,
            cat\<lparr>ct_workspaces := ct_workspaces cat @ [\<lparr>wk_id = newId, wk_org = au_orgId auth, wk_slug = slug, wk_name = name,
              wk_deleted = False, wk_created = now\<rparr>]\<rparr>))"

subsection \<open>The listings keep the contract\<close>

definition wf_catalog :: "Catalog \<Rightarrow> bool" where
  "wf_catalog cat \<longleftrightarrow> distinct (map ly_id (ct_layers cat)) \<and> keyed (ct_docs cat)
     \<and> distinct (map wk_id (ct_workspaces cat)) \<and> distinct (map gr_id (ct_grants cat))"

lemma catalog_wf: "wf_catalog cat \<Longrightarrow> wf_db (db_of cat)"
proof -
  have "ly_id \<circ> LayerRow.truncate = (ly_id :: CatalogLayer \<Rightarrow> string)" by (auto simp: LayerRow.truncate_def)
  then show "wf_catalog cat \<Longrightarrow> wf_db (db_of cat)"
    by (simp add: wf_catalog_def wf_db_def db_of_def keyed_def row_of_def comp_def)
qed

text \<open>One walk: the tables, the caller, the shared cache and the page size stay as they are.\<close>

record ListArgs =
  la_casts :: Casts
  la_cat :: Catalog
  la_auth :: AuthContext
  la_ttl :: nat
  la_cache :: MemoryCache
  la_limit :: nat

definition la_db :: "ListArgs \<Rightarrow> Db" where
  "la_db s = db_of (la_cat s)"

definition la_context :: "ListArgs \<Rightarrow> ResolveInput" where
  "la_context s = fst (contextFor (la_db s) (la_auth s) (shared_cache (la_ttl s)) (la_cache s))"

definition listing_ok :: "ListArgs \<Rightarrow> bool" where
  "listing_ok s \<longleftrightarrow> casts_ok (la_casts s) \<and> wf_catalog (la_cat s) \<and> 0 < la_limit s
     \<and> (\<exists>h. cached_request h (la_db s) (la_auth s) (la_cache s))
     \<and> (\<forall>i \<in> ly_id ` set (ct_layers (la_cat s)) \<union> wk_id ` set (ct_workspaces (la_cat s)) \<union> gr_id ` set (ct_grants (la_cat s)).
          canonical (la_casts s) i)"

lemma listing_context:
  assumes "listing_ok s"
  obtains ps c' where "contextFor (la_db s) (la_auth s) (shared_cache (la_ttl s)) (la_cache s) = (la_context s, c')"
    "la_context s = request_context (la_db s) (la_auth s) ps"
    "set ps = set (effectivePrincipals (au_principal (la_auth s)) (PostgresGroupGraph_load (la_db s, au_orgId (la_auth s))))"
  using assms cached_principals [of _ "la_db s" "la_auth s" "la_cache s" "la_ttl s" thesis]
  unfolding listing_ok_def la_context_def by (metis fst_conv)

lemma context_layer:
  assumes "listing_ok s"
  shows "plan_has_layer (resolve (la_context s) p) l \<longleftrightarrow> layer_allowed (la_db s) (la_auth s) p l"
proof -
  obtain ps c' where "la_context s = request_context (la_db s) (la_auth s) ps"
    "set ps = set (effectivePrincipals (au_principal (la_auth s)) (PostgresGroupGraph_load (la_db s, au_orgId (la_auth s))))"
    using listing_context [OF assms] by metis
  moreover have "wf_db (la_db s)" using assms catalog_wf by (simp add: listing_ok_def la_db_def)
  ultimately show ?thesis using context_plan_layer [of "la_db s" ps "la_auth s" p l] by simp
qed

lemma listed_ids_iff:
  "plan \<noteq> PlanNone \<Longrightarrow>
   (case listed_ids auth plan of None \<Rightarrow> True | Some is \<Rightarrow> i \<in> set is) \<longleftrightarrow> plan_has_layer plan i \<and> withinDelegation auth i Read"
  by (cases plan; cases "delegatedLayers auth Read") (auto simp: listed_ids_def plan_has_layer_def withinDelegation_def)

lemma listed_none:
  "plan = PlanNone \<or> listed_ids auth plan = Some [] \<Longrightarrow> \<not> (plan_has_layer plan i \<and> withinDelegation auth i Read)"
  using listed_ids_iff [where plan = plan and auth = auth and i = i] by (cases "plan = PlanNone") (auto simp: plan_has_layer_def)

definition layer_shown :: "ListArgs \<Rightarrow> CatalogLayer \<Rightarrow> bool" where
  "layer_shown s l \<longleftrightarrow> ly_org l = au_orgId (la_auth s) \<and> \<not> ly_deleted l
     \<and> layer_allowed (la_db s) (la_auth s) Read (ly_id l) \<and> withinDelegation (la_auth s) (ly_id l) Read"

definition layer_rows :: "ListArgs \<Rightarrow> CatalogLayer list" where
  "layer_rows s = sort_key layer_key (filter (layer_shown s) (ct_layers (la_cat s)))"

definition layer_item :: "ListArgs \<Rightarrow> CatalogLayer \<Rightarrow> Layer" where
  "layer_item s = layer_view (la_cat s) (la_auth s) (resolve (la_context s))"

definition layers_page :: "ListArgs \<Rightarrow> Position option \<Rightarrow> string + Layer PageResult" where
  "layers_page s aft = fst (layers_list (la_casts s) (la_cat s) (la_auth s) (shared_cache (la_ttl s))
     (Some \<lparr>pg_limit = la_limit s, pg_after = aft\<rparr>) (la_cache s))"

lemma layers_page_rows:
  assumes ok: "listing_ok s" and "aft = None \<or> cast_position (la_casts s) (the aft) \<noteq> None"
    and rest: "rest = seek layer_key (Option.bind aft (cast_position (la_casts s))) (layer_rows s)"
  shows "layers_page s aft = Inr (pageOf (map (layer_item s) (take (la_limit s) rest)) (Some \<lparr>pg_limit = la_limit s, pg_after = aft\<rparr>)
      (\<lambda>l k. \<lparr>ps_createdAt = ca_ts_text (la_casts s) (cl_created (take (la_limit s) rest ! k)), ps_id = lv_id l\<rparr>))"
proof -
  obtain ps c' where ctx: "contextFor (la_db s) (la_auth s) (shared_cache (la_ttl s)) (la_cache s) = (la_context s, c')"
    using listing_context [OF ok] by metis
  let ?plan = "resolve (la_context s) Read"
  let ?ids = "listed_ids (la_auth s) ?plan"
  show ?thesis
  proof (cases "?plan = PlanNone \<or> ?ids = Some []")
    case True
    then have "layer_rows s = []"
      using listed_none context_layer [OF ok] by (auto simp: layer_rows_def layer_shown_def filter_empty_conv)
    then have "rest = []" using rest by (simp add: seek_def split: option.splits)
    with True ok show ?thesis
      by (simp add: layers_page_def layers_list_def Let_def ctx [unfolded la_db_def] pageOf_def empty_page_def listing_ok_def)
  next
    case False
    have "filter (\<lambda>l. ly_org l = au_orgId (la_auth s) \<and> \<not> ly_deleted l
        \<and> (case ?ids of None \<Rightarrow> True | Some is \<Rightarrow> ly_id l \<in> set is)) (ct_layers (la_cat s)) = filter (layer_shown s) (ct_layers (la_cat s))"
      by (rule filter_cong [OF refl]) (use False listed_ids_iff context_layer [OF ok] in \<open>auto simp: layer_shown_def\<close>)
    with False bound_cast [OF assms(2), of "la_limit s"] show ?thesis
      by (simp add: layers_page_def layers_list_def Let_def ctx [unfolded la_db_def] rest layer_rows_def capped_def layer_item_def)
  qed
qed

lemma ordered_rows:
  assumes "distinct (map ident (filter P xs))"
  shows "ordered_by (\<lambda>r. (stamp r, ident r)) (sort_key (\<lambda>r. (stamp r, ident r)) (filter P xs))"
  by (rule ordered_sort) (use assms in \<open>auto simp: distinct_map inj_on_def\<close>)

interpretation layer_pages: paged_listing listing_ok la_casts layer_rows cl_created ly_id "\<lambda>s l. True" layer_item layers_page
proof
  fix s :: ListArgs assume ok: "listing_ok s"
  show "casts_ok (la_casts s)" using ok by (simp add: listing_ok_def)
  show "ordered_by (\<lambda>l. (cl_created l, ly_id l)) (layer_rows s)"
    unfolding layer_rows_def layer_key_def
    by (rule ordered_rows) (use ok in \<open>simp add: listing_ok_def wf_catalog_def distinct_map_filter\<close>)
  fix l assume "l \<in> set (layer_rows s)"
  then show "canonical (la_casts s) (ly_id l)" using ok by (simp add: layer_rows_def listing_ok_def)
next
  fix s :: ListArgs and aft rest
  assume ok: "listing_ok s" and bound: "aft = None \<or> cast_position (la_casts s) (the aft) \<noteq> None"
    and rest: "rest = seek (\<lambda>l. (cl_created l, ly_id l)) (Option.bind aft (cast_position (la_casts s))) (layer_rows s)"
  note page = layers_page_rows [OF ok bound rest [folded layer_key_def]]
  show "\<exists>m result. layers_page s aft = Inr result \<and> pr_items result = map (layer_item s) (filter (\<lambda>l. True) (take m rest)) \<and>
        (pr_nextCursor result = None \<and> length rest \<le> m \<or>
         0 < m \<and> m \<le> length rest \<and> pr_nextCursor result =
           Some (encodeCursor \<lparr>ps_createdAt = ca_ts_text (la_casts s) (cl_created (rest ! (m - 1))), ps_id = ly_id (rest ! (m - 1))\<rparr>))"
    unfolding page
    using pageOf_contract [where n = "la_limit s" and rest = rest and item = "layer_item s" and after = aft
        and pos = "\<lambda>l. \<lparr>ps_createdAt = ca_ts_text (la_casts s) (cl_created l), ps_id = ly_id l\<rparr>"
        and positionOf = "\<lambda>l k. \<lparr>ps_createdAt = ca_ts_text (la_casts s) (cl_created (take (la_limit s) rest ! k)), ps_id = lv_id l\<rparr>", OF _ _ refl] ok
    by (auto simp: listing_ok_def layer_item_def layer_view_def Let_def)
qed

text \<open>Workspaces: through a layer the caller may read, or - unless narrowed - through the workspace itself.\<close>

definition workspace_allowed :: "Db \<Rightarrow> AuthContext \<Rightarrow> Permission \<Rightarrow> string \<Rightarrow> bool" where
  "workspace_allowed db auth p k = referenceAllows (rules_input db auth) (workspace_scope k) p"

definition workspace_shown :: "ListArgs \<Rightarrow> WorkspaceRow \<Rightarrow> bool" where
  "workspace_shown s k \<longleftrightarrow>
     (\<exists>i \<in> set (layer_ids (la_cat s) k). layer_allowed (la_db s) (la_auth s) Read i \<and> withinDelegation (la_auth s) i Read)
     \<or> delegatedLayers (la_auth s) Read = None \<and> workspace_allowed (la_db s) (la_auth s) Read (wk_id k)"

definition workspace_rows :: "ListArgs \<Rightarrow> WorkspaceRow list" where
  "workspace_rows s = sort_key workspace_key
     (filter (\<lambda>k. wk_org k = au_orgId (la_auth s) \<and> \<not> wk_deleted k) (ct_workspaces (la_cat s)))"

definition workspace_item :: "ListArgs \<Rightarrow> WorkspaceRow \<Rightarrow> WorkspaceView" where
  "workspace_item s = workspace_view (la_context s) (la_auth s) (la_cat s)"

definition workspaces_page :: "ListArgs \<Rightarrow> Position option \<Rightarrow> string + WorkspaceView PageResult" where
  "workspaces_page s aft = fst (workspaces_list (la_casts s) (la_cat s) (la_auth s) (shared_cache (la_ttl s))
     (Some \<lparr>pg_limit = la_limit s, pg_after = aft\<rparr>) (la_cache s))"

lemma context_scope:
  assumes "set ps = set (effectivePrincipals (au_principal auth) (PostgresGroupGraph_load (db, au_orgId auth)))"
    and "ancestry scope (ri_tree (request_context db auth ps)) = ancestry scope (fullTree db (au_orgId auth))"
  shows "referenceAllows (request_context db auth ps) scope p \<longleftrightarrow> referenceAllows (rules_input db auth) scope p"
  using loaded_rules [OF assms, of p] by simp

lemma context_workspace:
  assumes "listing_ok s"
  shows "referenceAllows (la_context s) (workspace_scope k) p \<longleftrightarrow> workspace_allowed (la_db s) (la_auth s) p k"
  using listing_context [OF assms] context_scope unfolding workspace_allowed_def by (metis ancestry_workspace)

lemma resolve_all:
  "resolve ctx p = PlanAll \<Longrightarrow> referenceAllows ctx scope p"
  by (cases "ri_role ctx") (auto simp: resolve_def referenceAllows_def Let_def split: if_splits prod.splits)

lemma workspace_reachable_iff:
  assumes ok: "listing_ok s"
  shows "workspace_reachable (la_context s) (la_auth s) (la_cat s) k \<longleftrightarrow> workspace_shown s k"
proof -
  have none: "\<not> plan_has_layer PlanNone i" for i by (simp add: plan_has_layer_def)
  show ?thesis
  proof (cases "delegatedLayers (la_auth s) Read")
    case None
    then show ?thesis
      using context_layer [OF ok, of Read] resolve_all [of "la_context s" Read "workspace_scope (wk_id k)"] none
      by (auto simp: workspace_reachable_def workspace_shown_def withinDelegation_def Let_def context_workspace [OF ok])
  next
    case (Some n)
    then show ?thesis
      using context_layer [OF ok, of Read]
      by (auto simp: workspace_reachable_def workspace_shown_def visible_layers_def withinDelegation_def Let_def)
  qed
qed

lemma filter_fetched:
  assumes "distinct (map f rest)"
  shows "filter (\<lambda>k. \<exists>x \<in> set (take n rest). f x = f k) (filter P (take (n + 1) rest)) = filter P (take n rest)"
proof -
  have split: "take (n + 1) rest = take n rest @ take 1 (drop n rest)" by (rule take_add)
  have "f x \<noteq> f y" if "x \<in> set (take n rest)" "y \<in> set (take 1 (drop n rest))" for x y
  proof -
    have "distinct (map f (take n rest) @ map f (drop n rest))" using assms by (metis append_take_drop_id map_append)
    moreover have "y \<in> set (drop n rest)" using that(2) by (meson in_set_takeD)
    ultimately show ?thesis using that(1) by (auto simp: disjoint_iff)
  qed
  then have "filter (\<lambda>k. \<exists>x \<in> set (take n rest). f x = f k) (filter P (take 1 (drop n rest))) = []"
    by (auto simp: filter_empty_conv)
  moreover have "filter (\<lambda>k. \<exists>x \<in> set (take n rest). f x = f k) (filter P (take n rest)) = filter P (take n rest)"
    unfolding filter_filter by (rule filter_cong [OF refl]) auto
  ultimately show ?thesis unfolding split filter_append by simp
qed

interpretation workspace_pages: paged_listing listing_ok la_casts workspace_rows wk_created wk_id workspace_shown workspace_item workspaces_page
proof
  fix s :: ListArgs assume ok: "listing_ok s"
  show "casts_ok (la_casts s)" using ok by (simp add: listing_ok_def)
  show "ordered_by (\<lambda>k. (wk_created k, wk_id k)) (workspace_rows s)"
    unfolding workspace_rows_def workspace_key_def
    by (rule ordered_rows) (use ok in \<open>simp add: listing_ok_def wf_catalog_def distinct_map_filter\<close>)
  fix k assume "k \<in> set (workspace_rows s)"
  then show "canonical (la_casts s) (wk_id k)" using ok by (simp add: workspace_rows_def listing_ok_def)
next
  fix s :: ListArgs and aft rest
  assume ok: "listing_ok s" and bound: "aft = None \<or> cast_position (la_casts s) (the aft) \<noteq> None"
    and rest: "rest = seek (\<lambda>k. (wk_created k, wk_id k)) (Option.bind aft (cast_position (la_casts s))) (workspace_rows s)"
  obtain ps c' where ctx: "contextFor (la_db s) (la_auth s) (shared_cache (la_ttl s)) (la_cache s) = (la_context s, c')"
    using listing_context [OF ok] by metis
  let ?n = "la_limit s"
  have n: "0 < ?n" using ok by (simp add: listing_ok_def)
  have "distinct (map wk_id (workspace_rows s))"
    using ok by (auto simp: workspace_rows_def listing_ok_def wf_catalog_def distinct_map intro: inj_on_subset)
  then have d: "distinct (map wk_id rest)"
    unfolding rest by (cases "Option.bind aft (cast_position (la_casts s))") (simp_all add: seek_def distinct_map_filter)
  let ?fetched = "take ?n rest"
  define result where "result = \<lparr>pr_items = map (workspace_item s) (filter (workspace_shown s) ?fetched),
     pr_nextCursor = (if ?n < length rest then Some (encodeCursor \<lparr>ps_createdAt = ca_ts_text (la_casts s) (wk_created (last ?fetched)),
         ps_id = wk_id (last ?fetched)\<rparr>) else None)\<rparr>"
  have reach: "workspace_reachable (la_context s) (la_auth s) (la_cat s) = workspace_shown s"
    using workspace_reachable_iff [OF ok] by blast
  have "take ?n (take (?n + 1) rest) = ?fetched" "?n < length (take (?n + 1) rest) \<and> ?fetched \<noteq> [] \<longleftrightarrow> ?n < length rest"
    using n by (auto simp: min_def)
  moreover have "rest = seek workspace_key (Option.bind aft (cast_position (la_casts s))) (sort_key workspace_key
      (filter (\<lambda>k. wk_org k = au_orgId (la_auth s) \<and> \<not> wk_deleted k) (ct_workspaces (la_cat s))))"
    unfolding rest workspace_rows_def workspace_key_def ..
  ultimately have "workspaces_page s aft = Inr \<lparr>pr_items = map (workspace_item s)
        (filter (\<lambda>k. \<exists>f \<in> set ?fetched. wk_id f = wk_id k) (filter (workspace_shown s) (take (?n + 1) rest))),
      pr_nextCursor = pr_nextCursor result\<rparr>"
    unfolding workspaces_page_def workspaces_list_def Let_def ctx [unfolded la_db_def] prod.case bound_cast [OF bound] sum.case fst_conv
      capped_def option.case result_def reach workspace_item_def [symmetric]
    by simp
  then have "workspaces_page s aft = Inr result"
    unfolding filter_fetched [OF d] by (simp add: result_def)
  then show "\<exists>m result. workspaces_page s aft = Inr result \<and> pr_items result = map (workspace_item s) (filter (workspace_shown s) (take m rest)) \<and>
        (pr_nextCursor result = None \<and> length rest \<le> m \<or>
         0 < m \<and> m \<le> length rest \<and> pr_nextCursor result =
           Some (encodeCursor \<lparr>ps_createdAt = ca_ts_text (la_casts s) (wk_created (rest ! (m - 1))), ps_id = wk_id (rest ! (m - 1))\<rparr>))"
    using n last_take [of ?n rest] by (intro exI [of _ ?n] exI [of _ result]) (auto simp: result_def)
qed

subsection \<open>The properties\<close>

text \<open>C13 - A client that follows \<open>next_cursor\<close> through \<open>GET /v1/layers\<close> reaches the end, after at most one request per
  layer and one more, and has then been shown exactly the live layers of its organization that the
  rules let it read and the delegation admits, each once, in order of creation.\<close>

theorem layers_walk:
  assumes "listing_ok s"
  shows "walk (Suc (length (layer_rows s))) (with_cursor (ca_date_ok (la_casts s)) Uuid (layers_page s)) None
      = Some (map (layer_item s) (layer_rows s))"
  using layer_pages.walk_all [OF assms] by simp

text \<open>The same of \<open>GET /v1/workspaces\<close>, whose pages are filtered after they are fetched: the walk ends and shows
  exactly the workspaces that hold a layer the caller may read, or - where nothing is narrowed - that
  the caller may read themselves, an empty workspace included.\<close>

theorem workspaces_walk:
  assumes "listing_ok s"
  shows "walk (Suc (length (workspace_rows s))) (with_cursor (ca_date_ok (la_casts s)) Uuid (workspaces_page s)) None
      = Some (map (workspace_item s) (filter (workspace_shown s) (workspace_rows s)))"
  by (rule workspace_pages.walk_all [OF assms])

definition uid :: "char \<Rightarrow> string" where
  "uid c = ''00000000-0000-4000-8000-00000000000'' @ [c]"

definition sample_casts :: Casts where
  "sample_casts = \<lparr>ca_date_ok = (\<lambda>_. True), ca_ts_text = (\<lambda>t. replicate t CHR ''x''), ca_ts_cast = (\<lambda>x. Some (length x)),
     ca_uuid_in = lower_uuid\<rparr>"

definition catalog_layer :: "char \<Rightarrow> CatalogLayer" where
  "catalog_layer c = \<lparr>ly_id = uid c, ly_org = ''acme'', ly_workspace = uid CHR ''a'', ly_slug = [c], ly_deleted = False,
     ly_vector_name = ''v_m_3'', ly_provider = ''p1'', cl_name = [c], cl_description = [], cl_created = 5, cl_copying = None\<rparr>"

definition sample_cat :: Catalog where
  "sample_cat = \<lparr>ct_collections = [''acme'' \<mapsto> ''org_acme''],
     ct_workspaces = [\<lparr>wk_id = uid CHR ''a'', wk_org = ''acme'', wk_slug = ''docs'', wk_name = ''Docs'', wk_deleted = False, wk_created = 3\<rparr>,
                      \<lparr>wk_id = uid CHR ''b'', wk_org = ''acme'', wk_slug = ''hr'', wk_name = ''HR'', wk_deleted = False, wk_created = 4\<rparr>],
     ct_layers = [catalog_layer CHR ''2'', catalog_layer CHR ''1''],
     ct_grants = [\<lparr>gr_id = uid CHR ''c'', gr_grant = \<lparr>grant_org = ''acme'', grant_principal = \<lparr>ptype = User, pid = ''ada''\<rparr>,
                    grant_scope = workspace_scope (uid CHR ''a''), grant_permission = Admin, grant_effect = Allow\<rparr>,
                    gr_source = ''manual'', gr_created = 1\<rparr>],
     ct_docs = [], ct_members = [], ct_groups_version = [''acme'' \<mapsto> 1], ct_providers = [], ct_users = [(''acme'', uid CHR ''d'')],
     ct_groups = [], ct_accounts = []\<rparr>"

definition sample_list :: ListArgs where
  "sample_list = \<lparr>la_casts = sample_casts, la_cat = sample_cat, la_auth = sample_auth, la_ttl = 60, la_cache = no_cache, la_limit = 1\<rparr>"

lemma sample_cached: "cached_request (\<lambda>org v. PostgresGroupGraph_load (db, org)) db sample_auth no_cache"
  by (simp add: cached_request_def no_cache_def cache_run.empty sample_auth_def)

lemma sample_canonical:
  "canonical sample_casts (uid CHR ''a'')" "canonical sample_casts (uid CHR ''b'')" "canonical sample_casts (uid CHR ''c'')"
  "canonical sample_casts (uid CHR ''d'')" "canonical sample_casts (uid CHR ''e'')" "canonical sample_casts (uid CHR ''1'')" "canonical sample_casts (uid CHR ''2'')"
  by code_simp+

lemma sample_wf: "wf_catalog sample_cat"
  by code_simp

lemma sample_listing: "listing_ok sample_list"
  unfolding listing_ok_def
proof (intro conjI exI)
  show "casts_ok (la_casts sample_list)" by (simp add: casts_ok_def sample_list_def sample_casts_def)
  show "wf_catalog (la_cat sample_list)" using sample_wf by (simp add: sample_list_def)
  show "cached_request (\<lambda>org v. PostgresGroupGraph_load (la_db sample_list, org)) (la_db sample_list) (la_auth sample_list) (la_cache sample_list)"
    using sample_cached by (simp add: sample_list_def)
qed (simp_all add: sample_list_def sample_cat_def catalog_layer_def sample_canonical)

theorem layers_walk_witness:
  "map_option (map lv_id) (walk 3 (with_cursor (\<lambda>_. True) Uuid (layers_page sample_list)) None) = Some [uid CHR ''1'', uid CHR ''2'']"
proof -
  have rows: "layer_rows sample_list = [catalog_layer CHR ''1'', catalog_layer CHR ''2'']" by code_simp
  have "lv_id (layer_item sample_list l) = ly_id l" for l by (simp add: layer_item_def layer_view_def Let_def)
  moreover have "ca_date_ok (la_casts sample_list) = (\<lambda>_. True)" by (simp add: sample_list_def sample_casts_def)
  ultimately show ?thesis
    using layers_walk [OF sample_listing] by (simp add: rows catalog_layer_def eval_nat_numeral)
qed

theorem workspaces_walk_witness:
  "map_option (map wv_id) (walk 3 (with_cursor (\<lambda>_. True) Uuid (workspaces_page sample_list)) None) = Some [uid CHR ''a'']"
proof -
  have "length (workspace_rows sample_list) = 2" "map wk_id (filter (workspace_shown sample_list) (workspace_rows sample_list)) = [uid CHR ''a'']"
    by code_simp+
  moreover have "wv_id \<circ> workspace_item sample_list = wk_id" by (simp add: workspace_item_def workspace_view_def fun_eq_iff)
  moreover have "ca_date_ok (la_casts sample_list) = (\<lambda>_. True)" by (simp add: sample_list_def sample_casts_def)
  ultimately show ?thesis
    using workspaces_walk [OF sample_listing] by (simp add: eval_nat_numeral)
qed

end
