(* ===== verification/Accounts.thy ===== *)
theory Accounts
  imports Catalog
begin

text \<open>
  \<open>packages/api/src/principals.ts\<close>: the people and the groups of an organization - \<open>PostgresUsers\<close> and
  \<open>PostgresGroups\<close> over the tables \<open>users\<close>, \<open>groups\<close>, \<open>group_members\<close>, \<open>grants\<close> and \<open>refresh_tokens\<close>.

  Each operation is one transaction; those on a person are serialized by the advisory lock of their
  organization. \<open>uuid_in\<close> is the cast of a text to \<open>uuid\<close>; an email compares as \<open>citext\<close> does. The version of
  an organization's groups moves with every row of \<open>groups\<close>, \<open>group_members\<close> and \<open>grants\<close> that a statement
  writes, by the triggers of the schema.
\<close>

subsection \<open>Tables\<close>

record PersonRow =
  us_id :: string
  us_org :: string
  us_email :: string
  us_role :: OrgRole
  us_hash :: "string option"
  us_disabled :: "nat option"
  us_shared :: bool
  us_external :: "string option"
  us_created :: nat

record GroupRow =
  gp_id :: string
  gp_org :: string
  gp_name :: string
  gp_external :: "string option"
  gp_created :: nat

record MemberRow = GroupMemberRow +
  mb_created :: nat

record RefreshRow =
  rt_id :: string
  rt_org :: string
  rt_user :: string
  rt_hash :: string
  rt_family :: string
  rt_expires :: int
  rt_used :: bool
  rt_revoked :: bool

record Accounts =
  ac_users :: "PersonRow list"
  ac_groups :: "GroupRow list"
  ac_members :: "MemberRow list"
  ac_grants :: "GrantRow list"
  ac_tokens :: "RefreshRow list"
  ac_version :: "string \<Rightarrow> nat"

definition moved :: "string \<Rightarrow> nat \<Rightarrow> Accounts \<Rightarrow> Accounts" where
  "moved org n ac = ac\<lparr>ac_version := (ac_version ac)(org := ac_version ac org + n)\<rparr>"

text \<open>\<open>citext\<close>.\<close>

definition same_email :: "string \<Rightarrow> string \<Rightarrow> bool" where
  "same_email a b \<longleftrightarrow> map to_lower a = map to_lower b"

text \<open>\<open>UPDATE refresh_tokens SET revoked_at = now()\<close> for a person's tokens.\<close>

definition revoke_person :: "string \<Rightarrow> string \<Rightarrow> RefreshRow list \<Rightarrow> RefreshRow list" where
  "revoke_person org user = update_where (\<lambda>t. rt_org t = org \<and> rt_user t = user \<and> \<not> rt_revoked t) (\<lambda>t. t\<lparr>rt_revoked := True\<rparr>)"

subsection \<open>PostgresUsers\<close>

record UserView =
  uv_id :: string
  uv_email :: string
  uv_role :: OrgRole
  uv_createdAt :: nat
  uv_disabledAt :: "nat option"
  uv_hasPassword :: bool
  uv_shared :: bool
  uv_externalId :: "string option"

definition user_view :: "PersonRow \<Rightarrow> UserView" where
  "user_view u = \<lparr>uv_id = us_id u, uv_email = us_email u, uv_role = us_role u, uv_createdAt = us_created u,
     uv_disabledAt = us_disabled u, uv_hasPassword = (us_hash u \<noteq> None), uv_shared = us_shared u, uv_externalId = us_external u\<rparr>"

text \<open>A listing whose rows are all shown: \<open>ORDER BY created_at, id\<close>, the bound, the limit, \<open>pageOf\<close>.\<close>

definition plain_list :: "Casts \<Rightarrow> Page option \<Rightarrow> ('r \<Rightarrow> nat) \<Rightarrow> ('r \<Rightarrow> string) \<Rightarrow> ('r \<Rightarrow> 'i) \<Rightarrow> 'r list \<Rightarrow> string + 'i PageResult" where
  "plain_list casts page stamp ident item rows =
     (case bound_of casts page of
        Inl e \<Rightarrow> Inl e
      | Inr bound \<Rightarrow>
          (let fetched = capped page 0 (seek (\<lambda>r. (stamp r, ident r)) bound (sort_key (\<lambda>r. (stamp r, ident r)) rows))
           in Inr (pageOf (map item fetched) page (\<lambda>i k. \<lparr>ps_createdAt = ca_ts_text casts (stamp (fetched ! k)), ps_id = ident (fetched ! k)\<rparr>))))"

definition users_list :: "Casts \<Rightarrow> Accounts \<Rightarrow> AuthContext \<Rightarrow> Page option \<Rightarrow> string + UserView PageResult" where
  "users_list casts ac auth page =
     plain_list casts page us_created us_id user_view (filter (\<lambda>u. us_org u = au_orgId auth) (ac_users ac))"

datatype UserOutcome = UserCreated UserView string | EmailTaken | UserSubjectTaken

text \<open>\<open>ON CONFLICT (org_id, email) DO NOTHING\<close>; a subject another row has is the other unique key.\<close>

definition create_user :: "string \<Rightarrow> nat \<Rightarrow> string \<Rightarrow> string \<Rightarrow> AuthContext \<Rightarrow> string \<Rightarrow> OrgRole \<Rightarrow> bool option \<Rightarrow> string option \<Rightarrow> Accounts
    \<Rightarrow> UserOutcome \<times> Accounts" where
  "create_user newId now password passwordHash auth email role shared externalId ac =
     (if \<exists>u \<in> set (ac_users ac). us_org u = au_orgId auth \<and> same_email (us_email u) email then (EmailTaken, ac)
      else if externalId \<noteq> None \<and> (\<exists>u \<in> set (ac_users ac). us_org u = au_orgId auth \<and> us_external u = externalId) then (UserSubjectTaken, ac)
      else let row = \<lparr>us_id = newId, us_org = au_orgId auth, us_email = email, us_role = role, us_hash = Some passwordHash,
                      us_disabled = None, us_shared = (shared = Some True), us_external = externalId, us_created = now\<rparr>
           in (UserCreated (user_view row) password, ac\<lparr>ac_users := ac_users ac @ [row]\<rparr>))"

datatype 'a OnTarget = Target 'a | PlatformAdminTarget | NoUser

text \<open>\<open>onTargetUser\<close>: \<open>fn\<close> is given the row's canonical id and the row.\<close>

definition onTargetUser :: "(string \<Rightarrow> string option) \<Rightarrow> AuthContext \<Rightarrow> string \<Rightarrow> (string \<Rightarrow> PersonRow \<Rightarrow> 'a OnTarget \<times> Accounts) \<Rightarrow> Accounts
    \<Rightarrow> (string + 'a OnTarget) \<times> Accounts" where
  "onTargetUser uuid_in auth i fn ac =
     (if \<not> uuid_shaped i then (Inr NoUser, ac)
      else case uuid_in i of
        None \<Rightarrow> (Inl bad_uuid, ac)
      | Some c \<Rightarrow>
          (case find (\<lambda>u. us_org u = au_orgId auth \<and> us_id u = c) (ac_users ac) of
             None \<Rightarrow> (Inr NoUser, ac)
           | Some u \<Rightarrow>
               if us_role u = PlatformAdmin then (Inr PlatformAdminTarget, ac)
               else (let (r, ac') = fn c u in (Inr r, ac'))))"

datatype UpdateResult = Updated | LastAdmin | SubjectTaken

text \<open>\<open>externalId\<close> is absent, or \<open>null\<close>, or a text.\<close>

record UserChange =
  uc_role :: "OrgRole option"
  uc_disabled :: "bool option"
  uc_externalId :: "string option option"

definition changed_row :: "nat \<Rightarrow> UserChange \<Rightarrow> PersonRow \<Rightarrow> PersonRow" where
  "changed_row now change u =
     u\<lparr>us_role := (case uc_role change of Some r \<Rightarrow> r | None \<Rightarrow> us_role u),
       us_disabled := (if (case uc_disabled change of Some d \<Rightarrow> d | None \<Rightarrow> us_disabled u \<noteq> None)
                       then Some (case us_disabled u of Some t \<Rightarrow> t | None \<Rightarrow> now) else None),
       us_external := (case uc_externalId change of Some e \<Rightarrow> e | None \<Rightarrow> us_external u)\<rparr>"

definition active_admin :: "string \<Rightarrow> PersonRow \<Rightarrow> bool" where
  "active_admin org u \<longleftrightarrow> us_org u = org \<and> us_role u = OrgAdmin \<and> us_disabled u = None"

definition update_user :: "(string \<Rightarrow> string option) \<Rightarrow> nat \<Rightarrow> AuthContext \<Rightarrow> string \<Rightarrow> UserChange \<Rightarrow> Accounts
    \<Rightarrow> (string + UpdateResult OnTarget) \<times> Accounts" where
  "update_user uuid_in now auth i change ac =
     onTargetUser uuid_in auth i
       (\<lambda>c u.
          if active_admin (au_orgId auth) u \<and> \<not> active_admin (au_orgId auth) (changed_row now change u)
             \<and> \<not> list_ex (\<lambda>p. active_admin (au_orgId auth) p \<and> us_id p \<noteq> c) (ac_users ac)
          then (Target LastAdmin, ac)
          else if (case uc_externalId change of
                     Some (Some e) \<Rightarrow> list_ex (\<lambda>p. us_org p = au_orgId auth \<and> us_id p \<noteq> c \<and> us_external p = Some e) (ac_users ac)
                   | _ \<Rightarrow> False)
          then (Target SubjectTaken, ac)
          else (Target Updated, ac\<lparr>ac_users := update_where (\<lambda>p. us_org p = au_orgId auth \<and> us_id p = c) (changed_row now change) (ac_users ac)\<rparr>))
       ac"

definition resetPassword :: "(string \<Rightarrow> string option) \<Rightarrow> string \<Rightarrow> string \<Rightarrow> AuthContext \<Rightarrow> string \<Rightarrow> Accounts
    \<Rightarrow> (string + string OnTarget) \<times> Accounts" where
  "resetPassword uuid_in password passwordHash auth i ac =
     onTargetUser uuid_in auth i
       (\<lambda>c u. (Target password,
          ac\<lparr>ac_users := update_where (\<lambda>p. us_org p = au_orgId auth \<and> us_id p = c) (\<lambda>p. p\<lparr>us_hash := Some passwordHash\<rparr>) (ac_users ac),
             ac_tokens := revoke_person (au_orgId auth) c (ac_tokens ac)\<rparr>))
       ac"

definition isShared :: "Accounts \<Rightarrow> string \<Rightarrow> string \<Rightarrow> bool" where
  "isShared ac org user = (case find (\<lambda>u. us_org u = org \<and> us_id u = user) (ac_users ac) of Some u \<Rightarrow> us_shared u | None \<Rightarrow> False)"

subsection \<open>PostgresGroups\<close>

record GroupView =
  gw_id :: string
  gw_name :: string
  gw_createdAt :: nat
  gw_memberCount :: nat
  gw_externalId :: "string option"

definition group_view :: "Accounts \<Rightarrow> GroupRow \<Rightarrow> GroupView" where
  "group_view ac g = \<lparr>gw_id = gp_id g, gw_name = gp_name g, gw_createdAt = gp_created g,
     gw_memberCount = length (filter (\<lambda>m. gm_org m = gp_org g \<and> gm_group m = gp_id g) (ac_members ac)), gw_externalId = gp_external g\<rparr>"

definition groups_list :: "Casts \<Rightarrow> Accounts \<Rightarrow> AuthContext \<Rightarrow> Page option \<Rightarrow> string + GroupView PageResult" where
  "groups_list casts ac auth page =
     plain_list casts page gp_created gp_id (group_view ac) (filter (\<lambda>g. gp_org g = au_orgId auth) (ac_groups ac))"

datatype GroupOutcome = GroupCreated GroupView | NameTaken | GroupSubjectTaken

definition create_group :: "string \<Rightarrow> nat \<Rightarrow> AuthContext \<Rightarrow> string \<Rightarrow> string option \<Rightarrow> Accounts \<Rightarrow> GroupOutcome \<times> Accounts" where
  "create_group newId now auth name externalId ac =
     (if \<exists>g \<in> set (ac_groups ac). gp_org g = au_orgId auth \<and> gp_name g = name then (NameTaken, ac)
      else if externalId \<noteq> None \<and> (\<exists>g \<in> set (ac_groups ac). gp_org g = au_orgId auth \<and> gp_external g = externalId) then (GroupSubjectTaken, ac)
      else let row = \<lparr>gp_id = newId, gp_org = au_orgId auth, gp_name = name, gp_external = externalId, gp_created = now\<rparr>
           in (GroupCreated \<lparr>gw_id = newId, gw_name = name, gw_createdAt = now, gw_memberCount = 0, gw_externalId = externalId\<rparr>,
               moved (au_orgId auth) 1 (ac\<lparr>ac_groups := ac_groups ac @ [row]\<rparr>)))"

datatype GroupUpdate = GroupUpdated | NoGroup | GroupSubject

definition setExternalId :: "(string \<Rightarrow> string option) \<Rightarrow> AuthContext \<Rightarrow> string \<Rightarrow> string option \<Rightarrow> Accounts \<Rightarrow> (string + GroupUpdate) \<times> Accounts" where
  "setExternalId uuid_in auth i externalId ac =
     (if \<not> uuid_shaped i then (Inr NoGroup, ac)
      else case uuid_in i of
        None \<Rightarrow> (Inl bad_uuid, ac)
      | Some c \<Rightarrow>
          if \<not> list_ex (\<lambda>g. gp_org g = au_orgId auth \<and> gp_id g = c) (ac_groups ac) then (Inr NoGroup, ac)
          else if externalId \<noteq> None \<and> list_ex (\<lambda>g. gp_org g = au_orgId auth \<and> gp_id g \<noteq> c \<and> gp_external g = externalId) (ac_groups ac)
          then (Inr GroupSubject, ac)
          else (Inr GroupUpdated, moved (au_orgId auth) 1
                 (ac\<lparr>ac_groups := update_where (\<lambda>g. gp_org g = au_orgId auth \<and> gp_id g = c) (\<lambda>g. g\<lparr>gp_external := externalId\<rparr>) (ac_groups ac)\<rparr>)))"

text \<open>The grants that name the group, then the group; its edges go with it, on both ends.\<close>

definition names_group :: "string \<Rightarrow> string \<Rightarrow> GrantRow \<Rightarrow> bool" where
  "names_group org c r \<longleftrightarrow> grant_org (gr_grant r) = org \<and> ptype (grant_principal (gr_grant r)) = Group \<and> pid (grant_principal (gr_grant r)) = c"

definition touches_group :: "string \<Rightarrow> MemberRow \<Rightarrow> bool" where
  "touches_group c m \<longleftrightarrow> gm_group m = c \<or> gm_member_group m = Some c"

definition remove_group :: "(string \<Rightarrow> string option) \<Rightarrow> AuthContext \<Rightarrow> string \<Rightarrow> Accounts \<Rightarrow> (string + bool) \<times> Accounts" where
  "remove_group uuid_in auth i ac =
     (if \<not> uuid_shaped i then (Inr False, ac)
      else case uuid_in i of
        None \<Rightarrow> (Inl bad_uuid, ac)
      | Some c \<Rightarrow>
          (let gone = filter (names_group (au_orgId auth) c) (ac_grants ac);
               ac1 = moved (au_orgId auth) (length gone) (ac\<lparr>ac_grants := filter (\<lambda>r. \<not> names_group (au_orgId auth) c r) (ac_grants ac)\<rparr>)
           in if list_ex (\<lambda>g. gp_org g = au_orgId auth \<and> gp_id g = c) (ac_groups ac)
              then (Inr True, moved (au_orgId auth) (1 + length (filter (touches_group c) (ac_members ac)))
                     (ac1\<lparr>ac_groups := filter (\<lambda>g. \<not> (gp_org g = au_orgId auth \<and> gp_id g = c)) (ac_groups ac),
                          ac_members := filter (\<lambda>m. \<not> touches_group c m) (ac_members ac)\<rparr>))
              else (Inr False, ac1)))"

text \<open>\<open>members\<close>: an edge is placed by whichever member column is set, and labelled by the row it joins.\<close>

definition member_coalesce :: "MemberRow \<Rightarrow> string" where
  "member_coalesce m = (case gm_member_user m of Some u \<Rightarrow> u | None \<Rightarrow> (case gm_member_group m of Some g \<Rightarrow> g | None \<Rightarrow> []))"

definition member_label :: "Accounts \<Rightarrow> MemberRow \<Rightarrow> string option" where
  "member_label ac m =
     (case find (\<lambda>u. Some (us_id u) = gm_member_user m \<and> us_org u = gm_org m) (ac_users ac) of
        Some u \<Rightarrow> Some (us_email u)
      | None \<Rightarrow> map_option gp_name (find (\<lambda>g. Some (gp_id g) = gm_member_group m \<and> gp_org g = gm_org m) (ac_groups ac)))"

record GroupMember =
  ge_user :: bool
  ge_id :: string
  ge_label :: "string option"

definition member_view :: "Accounts \<Rightarrow> MemberRow \<Rightarrow> GroupMember" where
  "member_view ac m = \<lparr>ge_user = (gm_member_user m \<noteq> None), ge_id = member_coalesce m, ge_label = member_label ac m\<rparr>"

definition members_list :: "Casts \<Rightarrow> (string \<Rightarrow> string option) \<Rightarrow> Accounts \<Rightarrow> AuthContext \<Rightarrow> string \<Rightarrow> Page option \<Rightarrow> string + GroupMember PageResult option" where
  "members_list casts uuid_in ac auth groupId page =
     (if \<not> uuid_shaped groupId then Inr None
      else case uuid_in groupId of
        None \<Rightarrow> Inl bad_uuid
      | Some g \<Rightarrow>
          if \<not> list_ex (\<lambda>r. gp_org r = au_orgId auth \<and> gp_id r = g) (ac_groups ac) then Inr None
          else map_sum id Some (plain_list casts page mb_created member_coalesce (member_view ac)
                 (filter (\<lambda>m. gm_org m = au_orgId auth \<and> gm_group m = g) (ac_members ac))))"

datatype MemberRef = MemberUser string | MemberGroup string

fun member_id :: "MemberRef \<Rightarrow> string" where
  "member_id (MemberUser i) = i"
| "member_id (MemberGroup i) = i"

fun is_member :: "string \<Rightarrow> MemberRef \<Rightarrow> MemberRow \<Rightarrow> bool" where
  "is_member g (MemberUser i) m \<longleftrightarrow> gm_group m = g \<and> gm_member_user m = Some i \<and> gm_member_group m = None"
| "is_member g (MemberGroup i) m \<longleftrightarrow> gm_group m = g \<and> gm_member_group m = Some i \<and> gm_member_user m = None"

text \<open>The edge a statement deletes is found by one column.\<close>

fun edge_to :: "string \<Rightarrow> MemberRef \<Rightarrow> MemberRow \<Rightarrow> bool" where
  "edge_to g (MemberUser i) m \<longleftrightarrow> gm_group m = g \<and> gm_member_user m = Some i"
| "edge_to g (MemberGroup i) m \<longleftrightarrow> gm_group m = g \<and> gm_member_group m = Some i"

fun member_exists :: "Accounts \<Rightarrow> string \<Rightarrow> MemberRef \<Rightarrow> bool" where
  "member_exists ac org (MemberUser i) = list_ex (\<lambda>u. us_org u = org \<and> us_id u = i) (ac_users ac)"
| "member_exists ac org (MemberGroup i) = list_ex (\<lambda>g. gp_org g = org \<and> gp_id g = i) (ac_groups ac)"

fun with_id :: "MemberRef \<Rightarrow> string \<Rightarrow> MemberRef" where
  "with_id (MemberUser _) i = MemberUser i"
| "with_id (MemberGroup _) i = MemberGroup i"

fun member_row_of :: "nat \<Rightarrow> string \<Rightarrow> string \<Rightarrow> MemberRef \<Rightarrow> MemberRow" where
  "member_row_of now org g (MemberUser i) = \<lparr>gm_org = org, gm_group = g, gm_member_user = Some i, gm_member_group = None, mb_created = now\<rparr>"
| "member_row_of now org g (MemberGroup i) = \<lparr>gm_org = org, gm_group = g, gm_member_user = None, gm_member_group = Some i, mb_created = now\<rparr>"

datatype AddOutcome = Added | Already | AddNoGroup | AddNoMember

definition addMember :: "(string \<Rightarrow> string option) \<Rightarrow> nat \<Rightarrow> AuthContext \<Rightarrow> string \<Rightarrow> MemberRef \<Rightarrow> Accounts \<Rightarrow> (string + AddOutcome) \<times> Accounts" where
  "addMember uuid_in now auth groupId mem ac =
     (if \<not> uuid_shaped groupId then (Inr AddNoGroup, ac)
      else if \<not> uuid_shaped (member_id mem) then (Inr AddNoMember, ac)
      else case uuid_in groupId of
        None \<Rightarrow> (Inl bad_uuid, ac)
      | Some g \<Rightarrow>
          if \<not> list_ex (\<lambda>r. gp_org r = au_orgId auth \<and> gp_id r = g) (ac_groups ac) then (Inr AddNoGroup, ac)
          else case uuid_in (member_id mem) of
            None \<Rightarrow> (Inl bad_uuid, ac)
          | Some i \<Rightarrow>
              if \<not> member_exists ac (au_orgId auth) (with_id mem i) then (Inr AddNoMember, ac)
              else if list_ex (is_member g (with_id mem i)) (ac_members ac) then (Inr Already, ac)
              else (Inr Added, moved (au_orgId auth) 1 (ac\<lparr>ac_members := ac_members ac @ [member_row_of now (au_orgId auth) g (with_id mem i)]\<rparr>)))"

definition removeMember :: "(string \<Rightarrow> string option) \<Rightarrow> AuthContext \<Rightarrow> string \<Rightarrow> MemberRef \<Rightarrow> Accounts \<Rightarrow> (string + bool) \<times> Accounts" where
  "removeMember uuid_in auth groupId mem ac =
     (if \<not> uuid_shaped groupId \<or> \<not> uuid_shaped (member_id mem) then (Inr False, ac)
      else case (uuid_in groupId, uuid_in (member_id mem)) of
        (Some g, Some i) \<Rightarrow>
          (let gone = filter (\<lambda>m. gm_org m = au_orgId auth \<and> edge_to g (with_id mem i) m) (ac_members ac)
           in (Inr (gone \<noteq> []), moved (au_orgId auth) (length gone)
                 (ac\<lparr>ac_members := filter (\<lambda>m. \<not> (gm_org m = au_orgId auth \<and> edge_to g (with_id mem i) m)) (ac_members ac)\<rparr>)))
      | _ \<Rightarrow> (Inl bad_uuid, ac))"

subsection \<open>The tables stay well formed\<close>

text \<open>A unique key, absent where it is null.\<close>

definition unique_key :: "('r \<Rightarrow> string) \<Rightarrow> ('r \<Rightarrow> 'k option) \<Rightarrow> 'r list \<Rightarrow> bool" where
  "unique_key ident key rows \<longleftrightarrow> (\<forall>u \<in> set rows. \<forall>v \<in> set rows. key u = key v \<and> key u \<noteq> None \<longrightarrow> ident u = ident v)"

definition email_key :: "PersonRow \<Rightarrow> (string \<times> string) option" where
  "email_key u = Some (us_org u, map to_lower (us_email u))"

definition subject_key :: "PersonRow \<Rightarrow> (string \<times> string) option" where
  "subject_key u = map_option (Pair (us_org u)) (us_external u)"

definition people_ok :: "PersonRow list \<Rightarrow> bool" where
  "people_ok users \<longleftrightarrow> distinct (map us_id users) \<and> unique_key us_id email_key users \<and> unique_key us_id subject_key users"

definition name_key :: "GroupRow \<Rightarrow> (string \<times> string) option" where
  "name_key g = Some (gp_org g, gp_name g)"

definition group_subject_key :: "GroupRow \<Rightarrow> (string \<times> string) option" where
  "group_subject_key g = map_option (Pair (gp_org g)) (gp_external g)"

definition groups_ok :: "GroupRow list \<Rightarrow> bool" where
  "groups_ok groups \<longleftrightarrow> distinct (map gp_id groups) \<and> unique_key gp_id name_key groups \<and> unique_key gp_id group_subject_key groups"

definition member_of_row :: "MemberRow \<Rightarrow> MemberRef option" where
  "member_of_row m = (case (gm_member_user m, gm_member_group m) of
     (Some i, None) \<Rightarrow> Some (MemberUser i) | (None, Some i) \<Rightarrow> Some (MemberGroup i) | _ \<Rightarrow> None)"

definition members_ok :: "Accounts \<Rightarrow> bool" where
  "members_ok ac \<longleftrightarrow> distinct (map (\<lambda>m. (gm_group m, gm_member_user m, gm_member_group m)) (ac_members ac))
     \<and> (\<forall>m \<in> set (ac_members ac). (\<exists>g \<in> set (ac_groups ac). gp_org g = gm_org m \<and> gp_id g = gm_group m)
          \<and> (\<exists>r. member_of_row m = Some r \<and> member_exists ac (gm_org m) r))"

definition accounts_ok :: "Accounts \<Rightarrow> bool" where
  "accounts_ok ac \<longleftrightarrow> people_ok (ac_users ac) \<and> groups_ok (ac_groups ac) \<and> members_ok ac"

inductive accounts_step :: "Accounts \<Rightarrow> Accounts \<Rightarrow> bool" where
  s_create_user: "newId \<notin> us_id ` set (ac_users ac) \<Longrightarrow> role \<noteq> PlatformAdmin \<Longrightarrow>
    accounts_step ac (snd (create_user newId now password passwordHash auth email role shared externalId ac))"
| s_update_user: "uc_role change \<noteq> Some PlatformAdmin \<Longrightarrow> accounts_step ac (snd (update_user uuid_in now auth i change ac))"
| s_reset: "accounts_step ac (snd (resetPassword uuid_in password passwordHash auth i ac))"
| s_create_group: "newId \<notin> gp_id ` set (ac_groups ac) \<Longrightarrow> accounts_step ac (snd (create_group newId now auth name externalId ac))"
| s_external: "accounts_step ac (snd (setExternalId uuid_in auth i externalId ac))"
| s_remove_group: "accounts_step ac (snd (remove_group uuid_in auth i ac))"
| s_add: "accounts_step ac (snd (addMember uuid_in now auth groupId mem ac))"
| s_remove_member: "accounts_step ac (snd (removeMember uuid_in auth groupId mem ac))"

lemma moved_simps [simp]:
  "ac_users (moved org n ac) = ac_users ac" "ac_groups (moved org n ac) = ac_groups ac" "ac_members (moved org n ac) = ac_members ac"
  "ac_grants (moved org n ac) = ac_grants ac" "ac_tokens (moved org n ac) = ac_tokens ac"
  "ac_version (moved org n ac) = (ac_version ac)(org := ac_version ac org + n)"
  by (simp_all add: moved_def)

lemma target_user:
  assumes "onTargetUser uuid_in auth i fn ac = (r, ac')"
  shows "ac' = ac \<or> (\<exists>c u x. u \<in> set (ac_users ac) \<and> us_org u = au_orgId auth \<and> us_id u = c \<and> us_role u \<noteq> PlatformAdmin \<and> fn c u = (x, ac') \<and> r = Inr x)"
  using assms by (auto simp: onTargetUser_def find_Some_iff split: if_splits option.splits prod.splits) (metis nth_mem)+

text \<open>What an operation makes of the people: it adds one, or rewrites one that is not a platform administrator.\<close>

lemma user_step:
  assumes "accounts_step ac ac'"
  shows "ac_users ac' = ac_users ac
    \<or> (\<exists>u. ac_users ac' = ac_users ac @ [u] \<and> us_id u \<notin> us_id ` set (ac_users ac) \<and> us_role u \<noteq> PlatformAdmin)
    \<or> (\<exists>org c u f. u \<in> set (ac_users ac) \<and> us_org u = org \<and> us_id u = c \<and> us_role u \<noteq> PlatformAdmin
        \<and> ac_users ac' = update_where (\<lambda>p. us_org p = org \<and> us_id p = c) f (ac_users ac)
        \<and> (\<forall>p. us_id (f p) = us_id p \<and> us_org (f p) = us_org p \<and> us_email (f p) = us_email p)
        \<and> us_role (f u) \<noteq> PlatformAdmin
        \<and> (active_admin org u \<and> \<not> active_admin org (f u) \<longrightarrow> (\<exists>p \<in> set (ac_users ac). active_admin org p \<and> us_id p \<noteq> c)))"
  using assms
proof cases
  case (s_create_user newId role now password passwordHash auth email shared externalId)
  then show ?thesis by (auto simp: create_user_def Let_def)
next
  case (s_update_user change uuid_in now auth i)
  obtain r where run: "update_user uuid_in now auth i change ac = (r, ac')" using s_update_user(1) by (metis prod.collapse)
  from target_user [OF run [unfolded update_user_def]] show ?thesis
  proof (elim disjE exE conjE)
    assume "ac' = ac" then show ?thesis by simp
  next
    fix c u x assume u: "u \<in> set (ac_users ac)" "us_org u = au_orgId auth" "us_id u = c" "us_role u \<noteq> PlatformAdmin"
      and fn: "(if active_admin (au_orgId auth) u \<and> \<not> active_admin (au_orgId auth) (changed_row now change u)
             \<and> \<not> list_ex (\<lambda>p. active_admin (au_orgId auth) p \<and> us_id p \<noteq> c) (ac_users ac)
          then (Target LastAdmin, ac)
          else if (case uc_externalId change of
                     Some (Some e) \<Rightarrow> list_ex (\<lambda>p. us_org p = au_orgId auth \<and> us_id p \<noteq> c \<and> us_external p = Some e) (ac_users ac)
                   | _ \<Rightarrow> False)
          then (Target SubjectTaken, ac)
          else (Target Updated, ac\<lparr>ac_users := update_where (\<lambda>p. us_org p = au_orgId auth \<and> us_id p = c) (changed_row now change) (ac_users ac)\<rparr>)) = (x, ac')"
    have role: "us_role (changed_row now change u) \<noteq> PlatformAdmin"
      using u(4) s_update_user(2) by (auto simp: changed_row_def split: option.splits)
    have same: "us_id (changed_row now change p) = us_id p \<and> us_org (changed_row now change p) = us_org p
        \<and> us_email (changed_row now change p) = us_email p" for p by (simp add: changed_row_def)
    show ?thesis
    proof (cases "ac' = ac")
      case False
      then have "ac_users ac' = update_where (\<lambda>p. us_org p = au_orgId auth \<and> us_id p = c) (changed_row now change) (ac_users ac)"
        and other: "active_admin (au_orgId auth) u \<and> \<not> active_admin (au_orgId auth) (changed_row now change u) \<longrightarrow>
          (\<exists>p \<in> set (ac_users ac). active_admin (au_orgId auth) p \<and> us_id p \<noteq> c)"
        using fn by (auto simp: list_ex_iff split: if_splits)
      then show ?thesis using u role same by blast
    qed simp
  qed
next
  case (s_reset uuid_in password passwordHash auth i)
  obtain r where run: "resetPassword uuid_in password passwordHash auth i ac = (r, ac')" using s_reset(1) by (metis prod.collapse)
  from target_user [OF run [unfolded resetPassword_def]] show ?thesis
  proof (elim disjE exE conjE)
    assume "ac' = ac" then show ?thesis by simp
  next
    fix c u x assume u: "u \<in> set (ac_users ac)" "us_org u = au_orgId auth" "us_id u = c" "us_role u \<noteq> PlatformAdmin"
      and fn: "(Target password, ac\<lparr>ac_users := update_where (\<lambda>p. us_org p = au_orgId auth \<and> us_id p = c) (\<lambda>p. p\<lparr>us_hash := Some passwordHash\<rparr>) (ac_users ac),
             ac_tokens := revoke_person (au_orgId auth) c (ac_tokens ac)\<rparr>) = (x, ac')"
    then have "ac_users ac' = update_where (\<lambda>p. us_org p = au_orgId auth \<and> us_id p = c) (\<lambda>p. p\<lparr>us_hash := Some passwordHash\<rparr>) (ac_users ac)" by auto
    moreover have "active_admin org (u\<lparr>us_hash := h\<rparr>) \<longleftrightarrow> active_admin org u" for org h by (simp add: active_admin_def)
    ultimately show ?thesis using u
      by - (rule disjI2, rule disjI2, rule exI [of _ "au_orgId auth"], rule exI [of _ c], rule exI [of _ u],
          rule exI [of _ "\<lambda>p. p\<lparr>us_hash := Some passwordHash\<rparr>"], simp)
  qed
qed (auto simp: create_group_def setExternalId_def remove_group_def addMember_def removeMember_def Let_def split: option.splits if_splits)

lemma admin_step:
  assumes "accounts_step ac ac'" and "distinct (map us_id (ac_users ac))" and "\<exists>u \<in> set (ac_users ac). active_admin org u"
  shows "\<exists>u \<in> set (ac_users ac'). active_admin org u"
  using user_step [OF assms(1)]
proof (elim disjE exE conjE)
  fix o' c u f
  assume u: "u \<in> set (ac_users ac)" "us_org u = o'" "us_id u = c"
    and users: "ac_users ac' = update_where (\<lambda>p. us_org p = o' \<and> us_id p = c) f (ac_users ac)"
    and f: "\<forall>p. us_id (f p) = us_id p \<and> us_org (f p) = us_org p \<and> us_email (f p) = us_email p"
    and other: "active_admin o' u \<and> \<not> active_admin o' (f u) \<longrightarrow> (\<exists>p \<in> set (ac_users ac). active_admin o' p \<and> us_id p \<noteq> c)"
  have only: "p = u" if "p \<in> set (ac_users ac)" "us_id p = c" for p
    using assms(2) that u by (metis distinct_map inj_onD)
  obtain v where v: "v \<in> set (ac_users ac)" "active_admin org v" using assms(3) by blast
  obtain w where w: "w \<in> set (ac_users ac)" "active_admin org w" "w = u \<longrightarrow> active_admin org (f u)"
  proof (cases "v = u \<and> \<not> active_admin org (f u)")
    case True
    then have "org = o'" using v u by (simp add: active_admin_def)
    with True other v obtain p where "p \<in> set (ac_users ac)" "active_admin org p" "us_id p \<noteq> c" by blast
    with u that show ?thesis by blast
  qed (use v that in blast)
  let ?w = "if us_org w = o' \<and> us_id w = c then f w else w"
  have "active_admin org ?w" using w(2,3) only [OF w(1)] by auto
  moreover have "?w \<in> set (ac_users ac')" using w(1) unfolding users in_update_where by blast
  ultimately show ?thesis by blast
qed (use assms(3) in auto)

lemma map_update_where: "(\<And>r. key (f r) = key r) \<Longrightarrow> map key (update_where P f rows) = map key rows"
  by (simp add: update_where_def)

lemma image_update_where: "(\<And>r. key (f r) = key r) \<Longrightarrow> key ` set (update_where P f rows) = key ` set rows"
  by (metis map_update_where set_map)

lemma unique_append:
  assumes "unique_key ident key rows" and "\<And>u. u \<in> set rows \<Longrightarrow> key u = key r \<Longrightarrow> key r = None"
  shows "unique_key ident key (rows @ [r])"
  unfolding unique_key_def
proof (intro ballI impI)
  fix u v assume "u \<in> set (rows @ [r])" "v \<in> set (rows @ [r])" and k: "key u = key v \<and> key u \<noteq> None"
  then consider "u = v" | "u \<in> set rows" "v \<in> set rows" | "u \<in> set rows" "v = r" | "u = r" "v \<in> set rows" by auto
  then show "ident u = ident v"
  proof cases
    case 2
    with assms(1) k show ?thesis unfolding unique_key_def by blast
  next
    case 3
    with assms(2) [of u] k show ?thesis by auto
  next
    case 4
    with assms(2) [of v] k show ?thesis by auto
  qed simp
qed

lemma unique_update:
  assumes "unique_key ident key rows" and "\<And>r. ident (f r) = ident r"
    and "\<And>u v. P u \<Longrightarrow> P v \<Longrightarrow> ident u = ident v"
    and "\<And>u v. u \<in> set rows \<Longrightarrow> P u \<Longrightarrow> v \<in> set rows \<Longrightarrow> ident v \<noteq> ident u \<Longrightarrow> key v = key (f u) \<Longrightarrow> key v = None"
  shows "unique_key ident key (update_where P f rows)"
  unfolding unique_key_def update_where_def set_map
proof (intro ballI impI; elim imageE)
  fix x y u v
  assume k: "key x = key y \<and> key x \<noteq> None" and u: "u \<in> set rows" "x = (if P u then f u else u)" and v: "v \<in> set rows" "y = (if P v then f v else v)"
  have "ident u = ident v"
  proof (cases "P u = P v")
    case True
    show ?thesis
    proof (cases "P u")
      case t: True
      with True show ?thesis by (intro assms(3)) simp_all
    next
      case False
      with True u v k have "key u = key v \<and> key u \<noteq> None" by metis
      with assms(1) u(1) v(1) show ?thesis unfolding unique_key_def by blast
    qed
  next
    case False
    then consider "P u" "\<not> P v" | "P v" "\<not> P u" by auto
    then show ?thesis
    proof cases
      case 1
      then show ?thesis using assms(4) [OF u(1) _ v(1)] k u(2) v(2) by force
    next
      case 2
      then show ?thesis using assms(4) [OF v(1) _ u(1)] k u(2) v(2) by force
    qed
  qed
  then show "ident x = ident y" using u v assms(2) by simp
qed

lemma create_user_ok:
  assumes "people_ok (ac_users ac)" and "newId \<notin> us_id ` set (ac_users ac)"
  shows "people_ok (ac_users (snd (create_user newId now password passwordHash auth email role shared externalId ac)))"
proof -
  let ?row = "\<lparr>us_id = newId, us_org = au_orgId auth, us_email = email, us_role = role, us_hash = Some passwordHash,
                      us_disabled = None, us_shared = (shared = Some True), us_external = externalId, us_created = now\<rparr>"
  have "people_ok (ac_users ac @ [?row])"
    if "\<not> (\<exists>u \<in> set (ac_users ac). us_org u = au_orgId auth \<and> same_email (us_email u) email)"
      "\<not> (externalId \<noteq> None \<and> (\<exists>u \<in> set (ac_users ac). us_org u = au_orgId auth \<and> us_external u = externalId))"
  proof -
    have "unique_key us_id email_key (ac_users ac @ [?row])"
      by (rule unique_append) (use assms that(1) in \<open>auto simp: people_ok_def email_key_def same_email_def\<close>)
    moreover have "unique_key us_id subject_key (ac_users ac @ [?row])"
    proof (rule unique_append)
      fix u assume "u \<in> set (ac_users ac)" "subject_key u = subject_key ?row"
      then show "subject_key ?row = None"
        using that(2) by (cases externalId; cases "us_external u") (auto simp: subject_key_def)
    qed (use assms(1) in \<open>simp add: people_ok_def\<close>)
    ultimately show ?thesis using assms by (simp add: people_ok_def)
  qed
  with assms(1) show ?thesis by (simp add: create_user_def Let_def)
qed

lemma changed_row_keys [simp]:
  "us_id (changed_row now change p) = us_id p" "us_org (changed_row now change p) = us_org p" "us_email (changed_row now change p) = us_email p"
  by (simp_all add: changed_row_def)

lemma people_update:
  assumes "people_ok users" and "\<And>p. us_id (f p) = us_id p \<and> us_org (f p) = us_org p \<and> us_email (f p) = us_email p"
    and "\<And>u v. u \<in> set users \<Longrightarrow> us_org u = org \<and> us_id u = c \<Longrightarrow> v \<in> set users \<Longrightarrow> us_id v \<noteq> c \<Longrightarrow> us_org v = org \<Longrightarrow>
      us_external v = us_external (f u) \<Longrightarrow> us_external v = None"
  shows "people_ok (update_where (\<lambda>p. us_org p = org \<and> us_id p = c) f users)"
proof -
  have "unique_key us_id email_key (update_where (\<lambda>p. us_org p = org \<and> us_id p = c) f users)"
  proof (rule unique_update)
    show "unique_key us_id email_key users" using assms(1) by (simp add: people_ok_def)
    fix u v assume "u \<in> set users" "v \<in> set users" "us_id v \<noteq> us_id u" "email_key v = email_key (f u)"
    moreover then have "email_key v = email_key u" using assms(2) [of u] by (simp add: email_key_def)
    ultimately show "email_key v = None" using assms(1) unfolding people_ok_def unique_key_def by metis
  qed (use assms(2) in auto)
  moreover have "unique_key us_id subject_key (update_where (\<lambda>p. us_org p = org \<and> us_id p = c) f users)"
  proof (rule unique_update)
    fix u v assume u: "u \<in> set users" "us_org u = org \<and> us_id u = c" "v \<in> set users" "us_id v \<noteq> us_id u" "subject_key v = subject_key (f u)"
    then show "subject_key v = None"
      using assms(2) [of u] assms(3) [of u v] by (cases "us_external v"; cases "us_external (f u)") (auto simp: subject_key_def)
  next
    show "unique_key us_id subject_key users" using assms(1) by (simp add: people_ok_def)
  qed (use assms(2) in auto)
  moreover have "distinct (map us_id (update_where (\<lambda>p. us_org p = org \<and> us_id p = c) f users))"
    using assms(1,2) by (simp add: people_ok_def map_update_where)
  ultimately show ?thesis by (simp add: people_ok_def)
qed

lemma update_user_ok:
  assumes ok: "people_ok (ac_users ac)" and "update_user uuid_in now auth i change ac = (r, ac')"
  shows "people_ok (ac_users ac')"
proof -
  consider "ac' = ac" | (changed) c where
    "\<And>e. uc_externalId change = Some (Some e) \<Longrightarrow> \<forall>p \<in> set (ac_users ac). us_org p = au_orgId auth \<and> us_id p \<noteq> c \<longrightarrow> us_external p \<noteq> Some e"
    "ac_users ac' = update_where (\<lambda>p. us_org p = au_orgId auth \<and> us_id p = c) (changed_row now change) (ac_users ac)"
    using target_user [OF assms(2) [unfolded update_user_def]]
  proof (elim disjE exE conjE)
    fix c u x assume fn: "(if active_admin (au_orgId auth) u \<and> \<not> active_admin (au_orgId auth) (changed_row now change u)
             \<and> \<not> list_ex (\<lambda>p. active_admin (au_orgId auth) p \<and> us_id p \<noteq> c) (ac_users ac)
          then (Target LastAdmin, ac)
          else if (case uc_externalId change of
                     Some (Some e) \<Rightarrow> list_ex (\<lambda>p. us_org p = au_orgId auth \<and> us_id p \<noteq> c \<and> us_external p = Some e) (ac_users ac)
                   | _ \<Rightarrow> False)
          then (Target SubjectTaken, ac)
          else (Target Updated, ac\<lparr>ac_users := update_where (\<lambda>p. us_org p = au_orgId auth \<and> us_id p = c) (changed_row now change) (ac_users ac)\<rparr>)) = (x, ac')"
    show thesis
    proof (cases "ac' = ac")
      case False
      then show thesis using fn by (intro that(2) [of c]) (auto simp: list_ex_iff split: if_splits)
    qed (rule that(1))
  qed (rule that(1))
  then show ?thesis
  proof cases
    case changed
    show ?thesis
      unfolding changed(2)
    proof (rule people_update [OF ok])
      fix u v
      assume uv: "u \<in> set (ac_users ac)" "us_org u = au_orgId auth \<and> us_id u = c" "v \<in> set (ac_users ac)" "us_id v \<noteq> c" "us_org v = au_orgId auth"
        "us_external v = us_external (changed_row now change u)"
      show "us_external v = None"
      proof (cases "uc_externalId change")
        case None
        then have "subject_key v = subject_key u" using uv by (simp add: changed_row_def subject_key_def)
        then have "subject_key v = None" using ok uv unfolding people_ok_def unique_key_def by metis
        then show ?thesis by (simp add: subject_key_def)
      next
        case (Some e)
        then have "us_external v = e" using uv(6) by (simp add: changed_row_def)
        then show ?thesis using changed(1) uv Some by (cases e) auto
      qed
    qed simp
  qed (use ok in simp)
qed

lemma reset_ok:
  assumes "people_ok (ac_users ac)" and "resetPassword uuid_in password passwordHash auth i ac = (r, ac')"
  shows "people_ok (ac_users ac')"
proof -
  consider "ac' = ac" | c where
    "ac_users ac' = update_where (\<lambda>p. us_org p = au_orgId auth \<and> us_id p = c) (\<lambda>p. p\<lparr>us_hash := Some passwordHash\<rparr>) (ac_users ac)"
    using target_user [OF assms(2) [unfolded resetPassword_def]] by auto
  then show ?thesis
  proof cases
    case 2
    show ?thesis
      unfolding 2
    proof (rule people_update [OF assms(1)])
      fix u v assume uv: "u \<in> set (ac_users ac)" "us_org u = au_orgId auth \<and> us_id u = c" "v \<in> set (ac_users ac)" "us_id v \<noteq> c"
        "us_org v = au_orgId auth" "us_external v = us_external (u\<lparr>us_hash := Some passwordHash\<rparr>)"
      then have "subject_key v = subject_key u" by (simp add: subject_key_def)
      then have "subject_key v = None" using assms(1) uv unfolding people_ok_def unique_key_def by metis
      then show "us_external v = None" by (simp add: subject_key_def)
    qed simp
  qed (use assms(1) in simp)
qed

lemma unique_subset: "unique_key ident key rows \<Longrightarrow> set rows' \<subseteq> set rows \<Longrightarrow> unique_key ident key rows'"
  unfolding unique_key_def by blast

lemma create_group_ok:
  assumes "groups_ok (ac_groups ac)" and "newId \<notin> gp_id ` set (ac_groups ac)"
  shows "groups_ok (ac_groups (snd (create_group newId now auth name externalId ac)))"
proof -
  let ?row = "\<lparr>gp_id = newId, gp_org = au_orgId auth, gp_name = name, gp_external = externalId, gp_created = now\<rparr>"
  have "groups_ok (ac_groups ac @ [?row])"
    if "\<not> (\<exists>g \<in> set (ac_groups ac). gp_org g = au_orgId auth \<and> gp_name g = name)"
      "\<not> (externalId \<noteq> None \<and> (\<exists>g \<in> set (ac_groups ac). gp_org g = au_orgId auth \<and> gp_external g = externalId))"
  proof -
    have "unique_key gp_id name_key (ac_groups ac @ [?row])"
      by (rule unique_append) (use assms that(1) in \<open>auto simp: groups_ok_def name_key_def\<close>)
    moreover have "unique_key gp_id group_subject_key (ac_groups ac @ [?row])"
    proof (rule unique_append)
      fix g assume "g \<in> set (ac_groups ac)" "group_subject_key g = group_subject_key ?row"
      then show "group_subject_key ?row = None"
        using that(2) by (cases externalId; cases "gp_external g") (auto simp: group_subject_key_def)
    qed (use assms(1) in \<open>simp add: groups_ok_def\<close>)
    ultimately show ?thesis using assms by (simp add: groups_ok_def)
  qed
  with assms(1) show ?thesis by (simp add: create_group_def Let_def)
qed

lemma external_ok:
  assumes ok: "groups_ok (ac_groups ac)" and run: "setExternalId uuid_in auth i externalId ac = (r, ac')"
  shows "groups_ok (ac_groups ac')"
proof -
  consider "ac' = ac" | (changed) c where
    "\<And>e. externalId = Some e \<Longrightarrow> \<forall>g \<in> set (ac_groups ac). gp_org g = au_orgId auth \<and> gp_id g \<noteq> c \<longrightarrow> gp_external g \<noteq> Some e"
    "ac_groups ac' = update_where (\<lambda>g. gp_org g = au_orgId auth \<and> gp_id g = c) (\<lambda>g. g\<lparr>gp_external := externalId\<rparr>) (ac_groups ac)"
  proof (cases "ac' = ac")
    case False
    then obtain c where c: "uuid_in i = Some c"
      using run by (cases "uuid_in i") (auto simp: setExternalId_def split: if_splits)
    have "externalId \<noteq> None \<longrightarrow> \<not> list_ex (\<lambda>g. gp_org g = au_orgId auth \<and> gp_id g \<noteq> c \<and> gp_external g = externalId) (ac_groups ac)"
      "ac_groups ac' = update_where (\<lambda>g. gp_org g = au_orgId auth \<and> gp_id g = c) (\<lambda>g. g\<lparr>gp_external := externalId\<rparr>) (ac_groups ac)"
      using run False c by (auto simp: setExternalId_def split: if_splits)
    then show thesis by (intro that(2) [of c]) (auto simp: list_ex_iff)
  qed (rule that(1))
  then show ?thesis
  proof cases
    case changed
    let ?rows = "update_where (\<lambda>g. gp_org g = au_orgId auth \<and> gp_id g = c) (\<lambda>g. g\<lparr>gp_external := externalId\<rparr>) (ac_groups ac)"
    have "unique_key gp_id name_key ?rows"
    proof (rule unique_update)
      fix u v assume "u \<in> set (ac_groups ac)" "v \<in> set (ac_groups ac)" "gp_id v \<noteq> gp_id u" "name_key v = name_key (u\<lparr>gp_external := externalId\<rparr>)"
      moreover then have "name_key v = name_key u" by (simp add: name_key_def)
      ultimately show "name_key v = None" using ok unfolding groups_ok_def unique_key_def by metis
    qed (use ok in \<open>auto simp: groups_ok_def\<close>)
    moreover have "unique_key gp_id group_subject_key ?rows"
    proof (rule unique_update)
      fix u v assume "u \<in> set (ac_groups ac)" "gp_org u = au_orgId auth \<and> gp_id u = c" "v \<in> set (ac_groups ac)" "gp_id v \<noteq> gp_id u"
        "group_subject_key v = group_subject_key (u\<lparr>gp_external := externalId\<rparr>)"
      then show "group_subject_key v = None"
        using changed(1) by (cases externalId; cases "gp_external v") (auto simp: group_subject_key_def)
    qed (use ok in \<open>auto simp: groups_ok_def\<close>)
    moreover have "distinct (map gp_id ?rows)" using ok by (simp add: groups_ok_def map_update_where)
    ultimately show ?thesis using changed(2) by (simp add: groups_ok_def)
  qed (use ok in simp)
qed

text \<open>The edges: what is kept points at rows that are kept.\<close>

lemma members_keep:
  assumes "members_ok ac" and "distinct (map (\<lambda>m. (gm_group m, gm_member_user m, gm_member_group m)) (ac_members ac'))"
    and "set (ac_members ac') \<subseteq> set (ac_members ac)"
    and "\<And>u. u \<in> set (ac_users ac) \<Longrightarrow> \<exists>v \<in> set (ac_users ac'). us_org v = us_org u \<and> us_id v = us_id u"
    and "\<And>g m. g \<in> set (ac_groups ac) \<Longrightarrow> m \<in> set (ac_members ac') \<Longrightarrow> touches_group (gp_id g) m \<Longrightarrow>
      \<exists>h \<in> set (ac_groups ac'). gp_org h = gp_org g \<and> gp_id h = gp_id g"
  shows "members_ok ac'"
  unfolding members_ok_def
proof (intro conjI ballI)
  fix m assume m: "m \<in> set (ac_members ac')"
  then have old: "\<exists>g \<in> set (ac_groups ac). gp_org g = gm_org m \<and> gp_id g = gm_group m"
    "\<exists>r. member_of_row m = Some r \<and> member_exists ac (gm_org m) r" using assms(1,3) unfolding members_ok_def by blast+
  then show "\<exists>g \<in> set (ac_groups ac'). gp_org g = gm_org m \<and> gp_id g = gm_group m"
    using assms(5) [OF _ m] by (fastforce simp: touches_group_def)
  obtain r where r: "member_of_row m = Some r" "member_exists ac (gm_org m) r" using old(2) by blast
  have "member_exists ac' (gm_org m) r"
  proof (cases r)
    case (MemberUser i)
    with r show ?thesis using assms(4) by (fastforce simp: list_ex_iff)
  next
    case (MemberGroup i)
    then have "gm_member_group m = Some i" using r(1) by (simp add: member_of_row_def split: option.splits)
    with MemberGroup r(2) show ?thesis using assms(5) [OF _ m] by (fastforce simp: list_ex_iff touches_group_def)
  qed
  with r(1) show "\<exists>r. member_of_row m = Some r \<and> member_exists ac' (gm_org m) r" by blast
qed (rule assms(2))

lemma users_kept:
  assumes "accounts_step ac ac'" and "u \<in> set (ac_users ac)"
  shows "\<exists>v \<in> set (ac_users ac'). us_org v = us_org u \<and> us_id v = us_id u"
  using user_step [OF assms(1)]
proof (elim disjE exE conjE)
  fix org c w f
  assume users: "ac_users ac' = update_where (\<lambda>p. us_org p = org \<and> us_id p = c) f (ac_users ac)"
    and f: "\<forall>p. us_id (f p) = us_id p \<and> us_org (f p) = us_org p \<and> us_email (f p) = us_email p"
  have "(if us_org u = org \<and> us_id u = c then f u else u) \<in> set (ac_users ac')"
    using assms(2) unfolding users in_update_where by blast
  then show ?thesis using f by (intro bexI) auto
qed (use assms(2) in auto)

lemma groups_step_ok:
  assumes "accounts_step ac ac'" and ok: "groups_ok (ac_groups ac)"
  shows "groups_ok (ac_groups ac')"
  using assms(1)
proof cases
  case (s_create_group newId now auth name externalId)
  then show ?thesis using create_group_ok [OF ok] by simp
next
  case (s_external uuid_in auth i externalId)
  then show ?thesis using external_ok [OF ok] by (metis prod.collapse)
next
  case (s_remove_group uuid_in auth i)
  have "groups_ok (filter P (ac_groups ac))" for P
    using ok unique_subset [of gp_id _ "ac_groups ac" "filter P (ac_groups ac)"] by (auto simp: groups_ok_def distinct_map_filter)
  with s_remove_group ok show ?thesis by (auto simp: remove_group_def Let_def split: option.splits)
next
  case (s_update_user change uuid_in now auth i)
  then show ?thesis using ok by (auto simp: update_user_def onTargetUser_def split: option.splits prod.splits if_splits)
next
  case (s_reset uuid_in password passwordHash auth i)
  then show ?thesis using ok by (auto simp: resetPassword_def onTargetUser_def split: option.splits prod.splits if_splits)
qed (use ok in \<open>auto simp: create_user_def addMember_def removeMember_def Let_def split: option.splits\<close>)

lemma people_step_ok:
  assumes "accounts_step ac ac'" and ok: "people_ok (ac_users ac)"
  shows "people_ok (ac_users ac')"
  using assms(1)
proof cases
  case (s_create_user newId role now password passwordHash auth email shared externalId)
  then show ?thesis using create_user_ok [OF ok] by simp
next
  case (s_update_user change uuid_in now auth i)
  then show ?thesis using update_user_ok [OF ok] by (metis prod.collapse)
next
  case (s_reset uuid_in password passwordHash auth i)
  then show ?thesis using reset_ok [OF ok] by (metis prod.collapse)
qed (use ok in \<open>auto simp: create_group_def setExternalId_def remove_group_def addMember_def removeMember_def Let_def split: option.splits\<close>)

text \<open>What a step makes of the edges: it leaves the edges and the groups' ids, adds a group or an edge, or takes some away.\<close>

lemma edge_step:
  assumes "accounts_step ac ac'"
  shows "(ac_members ac' = ac_members ac \<and> (\<forall>g \<in> set (ac_groups ac). \<exists>h \<in> set (ac_groups ac'). gp_org h = gp_org g \<and> gp_id h = gp_id g))
    \<or> (\<exists>P. ac_members ac' = filter P (ac_members ac) \<and> ac_groups ac' = ac_groups ac)
    \<or> (\<exists>org c. ac_members ac' = filter (\<lambda>m. \<not> touches_group c m) (ac_members ac)
          \<and> ac_groups ac' = filter (\<lambda>g. \<not> (gp_org g = org \<and> gp_id g = c)) (ac_groups ac))
    \<or> (\<exists>now org g r. ac_members ac' = ac_members ac @ [member_row_of now org g r] \<and> ac_groups ac' = ac_groups ac
          \<and> list_ex (\<lambda>h. gp_org h = org \<and> gp_id h = g) (ac_groups ac) \<and> member_exists ac org r \<and> \<not> list_ex (is_member g r) (ac_members ac))"
  using assms
proof cases
  case (s_update_user change uuid_in now auth i)
  then show ?thesis by (auto simp: update_user_def onTargetUser_def split: option.splits prod.splits if_splits)
next
  case (s_reset uuid_in password passwordHash auth i)
  then show ?thesis by (auto simp: resetPassword_def onTargetUser_def split: option.splits prod.splits if_splits)
next
  case (s_external uuid_in auth i externalId)
  have "\<exists>h \<in> set (update_where P (\<lambda>g. g\<lparr>gp_external := externalId\<rparr>) (ac_groups ac)). gp_org h = gp_org g \<and> gp_id h = gp_id g"
    if "g \<in> set (ac_groups ac)" for P g
    using that by (intro bexI [of _ "if P g then g\<lparr>gp_external := externalId\<rparr>  else g"]) (auto simp: in_update_where)
  with s_external show ?thesis by (auto simp: setExternalId_def split: option.splits)
next
  case (s_remove_group uuid_in auth i)
  then show ?thesis by (auto simp: remove_group_def Let_def split: option.splits)
next
  case (s_remove_member uuid_in auth groupId mem)
  then show ?thesis by (auto simp: removeMember_def Let_def split: option.splits)
next
  case (s_add uuid_in now auth groupId mem)
  show ?thesis
  proof (cases "ac' = ac")
    case False
    with s_add show ?thesis by (auto simp: addMember_def split: option.splits if_splits)
  qed auto
qed (auto simp: create_user_def create_group_def Let_def)

lemma members_step_ok:
  assumes step: "accounts_step ac ac'" and ok: "members_ok ac" "distinct (map gp_id (ac_groups ac))"
  shows "members_ok ac'"
  using edge_step [OF step]
proof (elim disjE exE conjE)
  assume "ac_members ac' = ac_members ac" "\<forall>g \<in> set (ac_groups ac). \<exists>h \<in> set (ac_groups ac'). gp_org h = gp_org g \<and> gp_id h = gp_id g"
  then show ?thesis using ok(1) by (intro members_keep [OF ok(1)] users_kept [OF step]) (auto simp: members_ok_def)
next
  fix P assume "ac_members ac' = filter P (ac_members ac)" "ac_groups ac' = ac_groups ac"
  then show ?thesis using ok(1) by (intro members_keep [OF ok(1)] users_kept [OF step]) (auto simp: members_ok_def distinct_map_filter)
next
  fix org c assume gone: "ac_members ac' = filter (\<lambda>m. \<not> touches_group c m) (ac_members ac)"
    "ac_groups ac' = filter (\<lambda>g. \<not> (gp_org g = org \<and> gp_id g = c)) (ac_groups ac)"
  then show ?thesis using ok(1) by (intro members_keep [OF ok(1)] users_kept [OF step]) (auto simp: members_ok_def distinct_map_filter)
next
  fix now org g r
  assume new: "ac_members ac' = ac_members ac @ [member_row_of now org g r]" "ac_groups ac' = ac_groups ac"
    "list_ex (\<lambda>h. gp_org h = org \<and> gp_id h = g) (ac_groups ac)" "member_exists ac org r" "\<not> list_ex (is_member g r) (ac_members ac)"
  have old: "members_ok (ac'\<lparr>ac_members := ac_members ac\<rparr>)"
    using ok(1) new(2) by (intro members_keep [OF ok(1)]) (auto simp: members_ok_def dest: users_kept [OF step])
  have exists: "member_exists (ac'\<lparr>ac_members := ms\<rparr>) = member_exists ac'" for ms
    by (intro ext; rename_tac x y; case_tac y) simp_all
  have "member_exists ac' org r" using new(4) users_kept [OF step] new(2) by (cases r) (fastforce simp: list_ex_iff)+
  moreover have "member_of_row (member_row_of now org g r) = Some r" "gm_org (member_row_of now org g r) = org"
    "gm_group (member_row_of now org g r) = g" by (cases r; simp add: member_of_row_def)+
  moreover have "(\<lambda>m. (gm_group m, gm_member_user m, gm_member_group m)) (member_row_of now org g r)
      \<notin> (\<lambda>m. (gm_group m, gm_member_user m, gm_member_group m)) ` set (ac_members ac)"
    using new(5) by (cases r) (auto simp: list_ex_iff)
  ultimately show ?thesis using old new(1,2,3) by (auto simp: members_ok_def exists list_ex_iff)
qed

lemma accounts_step_ok: "accounts_step ac ac' \<Longrightarrow> accounts_ok ac \<Longrightarrow> accounts_ok ac'"
  using people_step_ok groups_step_ok members_step_ok by (auto simp: accounts_ok_def groups_ok_def)

text \<open>A platform administrator's row is written by no operation of an organization, and none makes one.\<close>

definition platform_rows :: "Accounts \<Rightarrow> PersonRow list" where
  "platform_rows ac = filter (\<lambda>u. us_role u = PlatformAdmin) (ac_users ac)"

lemma filter_update_where:
  "(\<And>r. r \<in> set rows \<Longrightarrow> P r \<Longrightarrow> \<not> Q r \<and> \<not> Q (f r)) \<Longrightarrow> filter Q (update_where P f rows) = filter Q rows"
  by (induction rows) (auto simp: update_where_def)

lemma platform_step:
  assumes "accounts_step ac ac'" and "distinct (map us_id (ac_users ac))"
  shows "platform_rows ac' = platform_rows ac"
  using user_step [OF assms(1)]
proof (elim disjE exE conjE)
  fix org c u f
  assume u: "u \<in> set (ac_users ac)" "us_org u = org" "us_id u = c" "us_role u \<noteq> PlatformAdmin"
    and users: "ac_users ac' = update_where (\<lambda>p. us_org p = org \<and> us_id p = c) f (ac_users ac)" and f: "us_role (f u) \<noteq> PlatformAdmin"
  have "p = u" if "p \<in> set (ac_users ac)" "us_id p = c" for p using assms(2) that u by (metis distinct_map inj_onD)
  then show ?thesis unfolding platform_rows_def users using u f by (intro filter_update_where) auto
qed (auto simp: platform_rows_def)

lemma accounts_reach:
  assumes "accounts_step\<^sup>*\<^sup>* ac ac'" and "accounts_ok ac"
  shows "accounts_ok ac' \<and> platform_rows ac' = platform_rows ac
    \<and> ((\<exists>u \<in> set (ac_users ac). active_admin org u) \<longrightarrow> (\<exists>u \<in> set (ac_users ac'). active_admin org u))"
  using assms(1)
proof induction
  case (step x y)
  then have "accounts_ok x" by simp
  moreover then have "distinct (map us_id (ac_users x))" by (simp add: accounts_ok_def people_ok_def)
  ultimately show ?case using step accounts_step_ok platform_step admin_step by metis
qed (use assms(2) in simp)

subsection \<open>The version of the groups\<close>

definition org_rows :: "string \<Rightarrow> Accounts \<Rightarrow> MemberRow list \<times> GroupRow list \<times> GrantRow list" where
  "org_rows org ac = (filter (\<lambda>m. gm_org m = org) (ac_members ac), filter (\<lambda>g. gp_org g = org) (ac_groups ac),
     filter (\<lambda>r. grant_org (gr_grant r) = org) (ac_grants ac))"

lemma filter_other: "(\<And>x. x \<in> set xs \<Longrightarrow> P x \<Longrightarrow> \<not> Q x) \<Longrightarrow> filter P (filter (\<lambda>x. \<not> Q x) xs) = filter P xs"
  by (induction xs) auto

lemma touched_org:
  assumes "accounts_ok ac" and "m \<in> set (ac_members ac)" and "touches_group c m" and "g \<in> set (ac_groups ac)" "gp_id g = c"
  shows "gm_org m = gp_org g"
proof -
  have only: "h = g" if "h \<in> set (ac_groups ac)" "gp_id h = c" for h
    using assms(1,4,5) that unfolding accounts_ok_def groups_ok_def by (metis distinct_map inj_onD)
  have m: "\<exists>g \<in> set (ac_groups ac). gp_org g = gm_org m \<and> gp_id g = gm_group m" "\<exists>r. member_of_row m = Some r \<and> member_exists ac (gm_org m) r"
    using assms(1,2) unfolding accounts_ok_def members_ok_def by blast+
  show ?thesis
  proof (cases "gm_group m = c")
    case True
    obtain h where h: "h \<in> set (ac_groups ac)" "gp_org h = gm_org m" "gp_id h = gm_group m" using m(1) by blast
    then show ?thesis using only [of h] True by simp
  next
    case False
    then have "member_of_row m = Some (MemberGroup c)"
      using assms(3) m(2) by (auto simp: touches_group_def member_of_row_def split: option.splits)
    then obtain h where h: "h \<in> set (ac_groups ac)" "gp_org h = gm_org m" "gp_id h = c"
      using m(2) by (auto simp: list_ex_iff)
    then show ?thesis using only [of h] by simp
  qed
qed

lemma version_step:
  assumes "accounts_step ac ac'" and ok: "accounts_ok ac"
  shows "ac_version ac org < ac_version ac' org \<or> (ac_version ac' org = ac_version ac org \<and> org_rows org ac' = org_rows org ac)"
  using assms(1)
proof cases
  case (s_update_user change uuid_in now auth i)
  then show ?thesis by (auto simp: update_user_def onTargetUser_def org_rows_def split: option.splits prod.splits if_splits)
next
  case (s_reset uuid_in password passwordHash auth i)
  then show ?thesis by (auto simp: resetPassword_def onTargetUser_def org_rows_def split: option.splits prod.splits if_splits)
next
  case (s_external uuid_in auth i externalId)
  have "org \<noteq> org' \<Longrightarrow> filter (\<lambda>g. gp_org g = org) (update_where (\<lambda>g. gp_org g = org' \<and> gp_id g = c) (\<lambda>g. g\<lparr>gp_external := externalId\<rparr>) (ac_groups ac))
      = filter (\<lambda>g. gp_org g = org) (ac_groups ac)" for org' c
    by (intro filter_update_where) auto
  with s_external show ?thesis by (auto simp: setExternalId_def org_rows_def split: option.splits)
next
  case (s_remove_member uuid_in auth groupId mem)
  have "filter (\<lambda>m. gm_org m = org) (filter (\<lambda>m. \<not> (gm_org m = au_orgId auth \<and> Q m)) (ac_members ac)) = filter (\<lambda>m. gm_org m = org) (ac_members ac)"
    if "org \<noteq> au_orgId auth" for Q using that by (intro filter_other) auto
  then show ?thesis using s_remove_member
    by (auto simp: removeMember_def org_rows_def Let_def filter_empty_conv split: option.splits intro!: filter_cong)
next
  case (s_remove_group uuid_in auth i)
  show ?thesis
  proof (cases "uuid_shaped i \<and> uuid_in i \<noteq> None")
    case True
    then obtain c where c: "uuid_in i = Some c" "uuid_shaped i" by auto
    have grants: "filter (\<lambda>r. grant_org (gr_grant r) = org) (filter (\<lambda>r. \<not> names_group (au_orgId auth) c r) (ac_grants ac))
        = filter (\<lambda>r. grant_org (gr_grant r) = org) (ac_grants ac)" if "org \<noteq> au_orgId auth"
      using that by (intro filter_other) (auto simp: names_group_def)
    have groups: "filter (\<lambda>g. gp_org g = org) (filter (\<lambda>g. \<not> (gp_org g = au_orgId auth \<and> gp_id g = c)) (ac_groups ac))
        = filter (\<lambda>g. gp_org g = org) (ac_groups ac)" if "org \<noteq> au_orgId auth"
      using that by (intro filter_other) auto
    have members: "filter (\<lambda>m. gm_org m = org) (filter (\<lambda>m. \<not> touches_group c m) (ac_members ac)) = filter (\<lambda>m. gm_org m = org) (ac_members ac)"
      if "org \<noteq> au_orgId auth" "g \<in> set (ac_groups ac)" "gp_org g = au_orgId auth" "gp_id g = c" for g
      using that touched_org [OF ok] by (intro filter_other) metis
    show ?thesis
    proof (cases "org = au_orgId auth")
      case True
      then show ?thesis using s_remove_group c by (auto simp: remove_group_def Let_def org_rows_def filter_empty_conv intro!: filter_cong)
    next
      case False
      then show ?thesis using s_remove_group c grants groups members by (auto simp: remove_group_def Let_def org_rows_def list_ex_iff)
    qed
  qed (use s_remove_group in \<open>auto simp: remove_group_def org_rows_def\<close>)
next
  case (s_add uuid_in now auth groupId mem)
  have "gm_org (member_row_of now (au_orgId auth) g r) = au_orgId auth" for g r by (cases r) simp_all
  with s_add show ?thesis by (auto simp: addMember_def org_rows_def split: option.splits)
qed (auto simp: create_user_def create_group_def org_rows_def Let_def)

lemma version_reach:
  assumes "accounts_step\<^sup>*\<^sup>* ac ac'" and "accounts_ok ac"
  shows "accounts_ok ac' \<and> (ac_version ac org < ac_version ac' org \<or> (ac_version ac' org = ac_version ac org \<and> org_rows org ac' = org_rows org ac))"
  using assms(1)
proof induction
  case (step x y)
  then show ?case using version_step [of x y org] accounts_step_ok [of x y] by auto
qed (use assms(2) in simp)

text \<open>The membership rows as the resolver loads them.\<close>

definition accounts_db :: "Accounts \<Rightarrow> Db" where
  "accounts_db ac = empty_db\<lparr>db_group_members := map GroupMemberRow.truncate (ac_members ac)\<rparr>"

lemma graph_of_rows:
  assumes "fst (org_rows org ac') = fst (org_rows org ac)"
  shows "PostgresGroupGraph_load (accounts_db ac', org) = PostgresGroupGraph_load (accounts_db ac, org)"
proof -
  have "filter (\<lambda>m. gm_org m = org) (map GroupMemberRow.truncate ms) = map GroupMemberRow.truncate (filter (\<lambda>m. gm_org m = org) ms)"
    for ms :: "MemberRow list" by (induction ms) (auto simp: GroupMemberRow.defs)
  with assms show ?thesis by (simp add: PostgresGroupGraph_load_def membership_pairs_def accounts_db_def org_rows_def)
qed

subsection \<open>Claims\<close>

text \<open>C15 - Whatever the operations on people and groups do, in any order and by any administrators, the tables
  stay well formed - ids, emails and subjects unique in their organization, each membership once and
  between rows that exist - an organization that has an active administrator keeps one, and the rows of
  platform administrators are exactly the ones there were: none is made, changed or taken over.\<close>

theorem accounts_invariant:
  assumes "accounts_ok ac" and "accounts_step\<^sup>*\<^sup>* ac ac'"
  shows "accounts_ok ac' \<and> platform_rows ac' = platform_rows ac
    \<and> (list_ex (active_admin org) (ac_users ac) \<longrightarrow> list_ex (active_admin org) (ac_users ac'))"
  using accounts_reach [OF assms(2,1), of org] by (simp add: list_ex_iff)

text \<open>C16 - The version of an organization's groups pins its memberships: if two moments of any run have the same
  version, the group graph loaded is the same at both, so a set of principals cached under that version
  is the one the rows give. No operation moves the version back.\<close>

theorem version_pins_groups:
  assumes "accounts_ok ac" and "accounts_step\<^sup>*\<^sup>* ac ac'"
  shows "ac_version ac org \<le> ac_version ac' org
    \<and> (ac_version ac' org = ac_version ac org \<longrightarrow> PostgresGroupGraph_load (accounts_db ac', org) = PostgresGroupGraph_load (accounts_db ac, org))"
  using version_reach [OF assms(2,1), of org] graph_of_rows [of org ac' ac] by auto

definition sample_person :: "char \<Rightarrow> string \<Rightarrow> OrgRole \<Rightarrow> PersonRow" where
  "sample_person k email role = \<lparr>us_id = uid k, us_org = ''acme'', us_email = email, us_role = role, us_hash = None, us_disabled = None,
     us_shared = False, us_external = None, us_created = 0\<rparr>"

definition sample_accounts :: Accounts where
  "sample_accounts = \<lparr>ac_users = [sample_person CHR ''a'' ''root@x'' PlatformAdmin, sample_person CHR ''b'' ''ada@x'' OrgAdmin],
     ac_groups = [\<lparr>gp_id = uid CHR ''1'', gp_org = ''acme'', gp_name = ''ops'', gp_external = None, gp_created = 0\<rparr>],
     ac_members = [], ac_grants = [], ac_tokens = [], ac_version = (\<lambda>_. 0)\<rparr>"

abbreviation "demote k \<equiv> update_user Some 1 sample_auth (uid k) \<lparr>uc_role = Some Member, uc_disabled = None, uc_externalId = None\<rparr>"

abbreviation "hire \<equiv> create_user (uid CHR ''c'') 1 ''pw'' ''hash'' sample_auth ''Bo@x'' OrgAdmin None None"

lemma sample_accounts_ok: "accounts_ok sample_accounts"
  by (simp add: accounts_ok_def people_ok_def groups_ok_def members_ok_def unique_key_def sample_accounts_def sample_person_def
      email_key_def subject_key_def name_key_def group_subject_key_def uid_def)

theorem accounts_invariant_witness:
  "fst (demote CHR ''b'' sample_accounts) = Inr (Target LastAdmin)
   \<and> fst (demote CHR ''b'' (snd (hire sample_accounts))) = Inr (Target Updated)
   \<and> fst (demote CHR ''a'' sample_accounts) = Inr PlatformAdminTarget
   \<and> accounts_ok (snd (demote CHR ''b'' (snd (hire sample_accounts))))
   \<and> list_ex (active_admin ''acme'') (ac_users (snd (demote CHR ''b'' (snd (hire sample_accounts)))))"
proof -
  let ?one = "snd (hire sample_accounts)"
  have "accounts_step sample_accounts ?one" by (rule s_create_user) code_simp+
  moreover have "accounts_step ?one (snd (demote CHR ''b'' ?one))" by (rule s_update_user) simp
  ultimately have "accounts_step\<^sup>*\<^sup>* sample_accounts (snd (demote CHR ''b'' ?one))" by simp
  moreover have "list_ex (active_admin ''acme'') (ac_users sample_accounts)" by code_simp
  ultimately have "accounts_ok (snd (demote CHR ''b'' ?one)) \<and> list_ex (active_admin ''acme'') (ac_users (snd (demote CHR ''b'' ?one)))"
    using accounts_invariant [OF sample_accounts_ok, of "snd (demote CHR ''b'' ?one)" "''acme''"] by blast
  moreover have "fst (demote CHR ''b'' sample_accounts) = Inr (Target LastAdmin)" by code_simp
  moreover have "fst (demote CHR ''b'' ?one) = Inr (Target Updated)" by code_simp
  moreover have "fst (demote CHR ''a'' sample_accounts) = Inr PlatformAdminTarget" by code_simp
  ultimately show ?thesis by blast
qed

abbreviation "enlist \<equiv> addMember Some 1 sample_auth (uid CHR ''1'') (MemberUser (uid CHR ''b'')) sample_accounts"

theorem version_pins_groups_witness:
  "fst enlist = Inr Added \<and> ac_version sample_accounts ''acme'' \<le> ac_version (snd enlist) ''acme''
   \<and> PostgresGroupGraph_load (accounts_db (snd (hire sample_accounts)), ''acme'') = PostgresGroupGraph_load (accounts_db sample_accounts, ''acme'')"
proof -
  have "accounts_step sample_accounts (snd enlist)" by (rule s_add)
  then have "ac_version sample_accounts ''acme'' \<le> ac_version (snd enlist) ''acme''"
    using version_pins_groups [OF sample_accounts_ok, of "snd enlist" "''acme''"] by blast
  moreover have same: "ac_version (snd (hire sample_accounts)) ''acme'' = ac_version sample_accounts ''acme''" by (simp add: create_user_def Let_def)
  have "accounts_step sample_accounts (snd (hire sample_accounts))" by (rule s_create_user) code_simp+
  then have "PostgresGroupGraph_load (accounts_db (snd (hire sample_accounts)), ''acme'') = PostgresGroupGraph_load (accounts_db sample_accounts, ''acme'')"
    using version_pins_groups [OF sample_accounts_ok, of "snd (hire sample_accounts)" "''acme''"] same by blast
  moreover have "fst enlist = Inr Added" by code_simp
  ultimately show ?thesis by blast
qed

end
