(* ===== verification/Passwords.thy ===== *)
theory Passwords
  imports Pagination
begin

text \<open>
  \<open>packages/core/passwords.ts\<close>: stored password hashes, the gate in front of \<open>scrypt\<close>, and generated
  passwords.

  \<open>scrypt password salt length n r p\<close> is the key \<open>crypto.scrypt\<close> derives under \<open>MAX_MEM\<close>, none where it
  throws; \<open>nfkc\<close> is \<open>normalize('NFKC')\<close>; \<open>number\<close> is \<open>Number\<close> of a text where that is an integer. A buffer is
  the string of its bytes.
\<close>

subsection \<open>Stored hashes\<close>

definition N_COST :: nat where "N_COST = 131072"
definition R_COST :: nat where "R_COST = 8"
definition P_COST :: nat where "P_COST = 1"
definition KEY_BYTES :: nat where "KEY_BYTES = 64"

type_synonym scrypt = "string \<Rightarrow> string \<Rightarrow> nat \<Rightarrow> nat \<Rightarrow> nat \<Rightarrow> nat \<Rightarrow> string option"

text \<open>\<open>split(c)\<close>.\<close>

fun js_split :: "char \<Rightarrow> string \<Rightarrow> string list" where
  "js_split c [] = [[]]"
| "js_split c (x # xs) =
     (if x = c then [] # js_split c xs
      else case js_split c xs of p # ps \<Rightarrow> (x # p) # ps | [] \<Rightarrow> [[x]])"

fun js_join :: "string \<Rightarrow> string list \<Rightarrow> string" where
  "js_join sep [] = []"
| "js_join sep [p] = p"
| "js_join sep (p # ps) = p @ sep @ js_join sep ps"

definition hash_text :: "nat \<Rightarrow> nat \<Rightarrow> nat \<Rightarrow> string \<Rightarrow> string \<Rightarrow> string" where
  "hash_text n r p salt key = js_join ''$'' [''scrypt'', nat_str n, nat_str r, nat_str p, toBase64url salt, toBase64url key]"

definition hashPassword :: "scrypt \<Rightarrow> (string \<Rightarrow> string) \<Rightarrow> string \<Rightarrow> string \<Rightarrow> string option" where
  "hashPassword scrypt nfkc salt password =
     map_option (hash_text N_COST R_COST P_COST salt) (scrypt (nfkc password) salt KEY_BYTES N_COST R_COST P_COST)"

record Parsed =
  pa_n :: nat
  pa_r :: nat
  pa_p :: nat
  pa_salt :: string
  pa_key :: string

definition parse_hash :: "(string \<Rightarrow> int option) \<Rightarrow> string \<Rightarrow> Parsed option" where
  "parse_hash number encoded =
     (case js_split (CHR ''$'') encoded of
        [kind, tn, tr, tp, salt, key] \<Rightarrow>
          if kind \<noteq> ''scrypt'' then None
          else (case (number tn, number tr, number tp) of
                  (Some n, Some r, Some p) \<Rightarrow>
                    if n < 1024 \<or> n > 4194304 \<or> r < 1 \<or> r > 32 \<or> p < 1 \<or> p > 16 then None
                    else Some \<lparr>pa_n = nat n, pa_r = nat r, pa_p = nat p, pa_salt = fromBase64url salt, pa_key = fromBase64url key\<rparr>
                | _ \<Rightarrow> None)
      | _ \<Rightarrow> None)"

text \<open>None where \<open>scrypt\<close> throws.\<close>

definition verifyPassword :: "scrypt \<Rightarrow> (string \<Rightarrow> string) \<Rightarrow> (string \<Rightarrow> int option) \<Rightarrow> string \<Rightarrow> string \<Rightarrow> bool option" where
  "verifyPassword scrypt nfkc number password encoded =
     (case parse_hash number encoded of
        None \<Rightarrow> Some False
      | Some h \<Rightarrow> map_option (\<lambda>key. length key = length (pa_key h) \<and> key = pa_key h)
                   (scrypt (nfkc password) (pa_salt h) (length (pa_key h)) (pa_n h) (pa_r h) (pa_p h)))"

definition needsRehash :: "(string \<Rightarrow> int option) \<Rightarrow> string \<Rightarrow> bool" where
  "needsRehash number encoded =
     (case parse_hash number encoded of
        None \<Rightarrow> True
      | Some h \<Rightarrow> pa_n h < N_COST \<or> pa_r h < R_COST \<or> pa_p h < P_COST)"

text \<open>What is relied on: \<open>Number\<close> reads decimal numerals, and at the code's own cost \<open>scrypt\<close> derives a key
  of the length asked for.\<close>

definition reads_nats :: "(string \<Rightarrow> int option) \<Rightarrow> bool" where
  "reads_nats number \<longleftrightarrow> (\<forall>n. number (nat_str n) = Some (int n))"

definition derives :: "scrypt \<Rightarrow> bool" where
  "derives scrypt \<longleftrightarrow> (\<forall>password salt len. \<exists>key. scrypt password salt len N_COST R_COST P_COST = Some key \<and> length key = len)"

lemma js_split_nonempty: "js_split c s \<noteq> []"
  by (induction s) (auto split: list.splits)

lemma js_split_word: "c \<notin> set p \<Longrightarrow> js_split c p = [p]"
  by (induction p) (auto split: list.splits)

lemma js_split_append: "c \<notin> set p \<Longrightarrow> js_split c (p @ c # s) = p # js_split c s"
  by (induction p) (auto split: list.splits)

lemma js_split_join:
  assumes "ps \<noteq> []" and "\<forall>p \<in> set ps. c \<notin> set p"
  shows "js_split c (js_join [c] ps) = ps"
  using assms by (induction "[c]" ps rule: js_join.induct) (auto simp: js_split_word js_split_append)

lemma digit_not: "c \<in> set (nat_str n) \<Longrightarrow> c \<noteq> CHR ''$'' \<and> c \<noteq> CHR ''-''"
  using nat_str_digits [of c n] by auto

lemma base64_chars: "set (toBase64url s) \<subseteq> set BASE64URL"
proof
  fix c assume "c \<in> set (toBase64url s)"
  then obtain k where k: "k \<in> set (sextets (map of_char s))" "c = BASE64URL ! k"
    by (auto simp: toBase64url_def sextet_char_def)
  have "k < 64" using k(1) sextets_bound [of "map of_char s"] by auto
  then show "c \<in> set BASE64URL" using k(2) nth_mem [of k BASE64URL] by (simp add: BASE64URL_def)
qed

lemma base64_no_dollar: "CHR ''$'' \<notin> set (toBase64url s)"
  using base64_chars [of s] by (auto simp: BASE64URL_def)

lemma hash_text_parts: "js_split (CHR ''$'') (hash_text n r p salt key) = [''scrypt'', nat_str n, nat_str r, nat_str p, toBase64url salt, toBase64url key]"
  unfolding hash_text_def by (rule js_split_join) (auto simp: base64_no_dollar dest: digit_not)

lemma parse_hash_text:
  assumes "reads_nats number" and "1024 \<le> n" "n \<le> 4194304" "1 \<le> r" "r \<le> 32" "1 \<le> p" "p \<le> 16"
  shows "parse_hash number (hash_text n r p salt key) = Some \<lparr>pa_n = n, pa_r = r, pa_p = p, pa_salt = salt, pa_key = key\<rparr>"
  using assms by (simp add: parse_hash_def hash_text_parts reads_nats_def)

lemma hashed:
  assumes "reads_nats number" and "derives scrypt"
  obtains key where "hashPassword scrypt nfkc salt password = Some (hash_text N_COST R_COST P_COST salt key)"
    "scrypt (nfkc password) salt KEY_BYTES N_COST R_COST P_COST = Some key" "length key = KEY_BYTES"
    "parse_hash number (hash_text N_COST R_COST P_COST salt key) = Some \<lparr>pa_n = N_COST, pa_r = R_COST, pa_p = P_COST, pa_salt = salt, pa_key = key\<rparr>"
proof -
  obtain key where "scrypt (nfkc password) salt KEY_BYTES N_COST R_COST P_COST = Some key" "length key = KEY_BYTES"
    using assms(2) unfolding derives_def by blast
  then show thesis
    using that [of key] parse_hash_text [OF assms(1), of N_COST R_COST P_COST salt key]
    by (simp add: hashPassword_def N_COST_def R_COST_def P_COST_def)
qed

text \<open>A password verifies against its own hash, the hash needs no rehash, and any other text verifies
  against it exactly when \<open>scrypt\<close> derives the same key for both under that salt.\<close>

theorem hash_verifies:
  assumes "reads_nats number" and "derives scrypt"
  shows "\<exists>encoded. hashPassword scrypt nfkc salt password = Some encoded \<and> \<not> needsRehash number encoded
    \<and> verifyPassword scrypt nfkc number password encoded = Some True
    \<and> verifyPassword scrypt nfkc number other encoded
        = Some (scrypt (nfkc other) salt KEY_BYTES N_COST R_COST P_COST = scrypt (nfkc password) salt KEY_BYTES N_COST R_COST P_COST)"
proof -
  obtain key where key: "hashPassword scrypt nfkc salt password = Some (hash_text N_COST R_COST P_COST salt key)"
    "scrypt (nfkc password) salt KEY_BYTES N_COST R_COST P_COST = Some key" "length key = KEY_BYTES"
    "parse_hash number (hash_text N_COST R_COST P_COST salt key) = Some \<lparr>pa_n = N_COST, pa_r = R_COST, pa_p = P_COST, pa_salt = salt, pa_key = key\<rparr>"
    using hashed [OF assms, of nfkc salt password] by blast
  obtain k where "scrypt (nfkc other) salt KEY_BYTES N_COST R_COST P_COST = Some k" "length k = KEY_BYTES"
    using assms(2) unfolding derives_def by blast
  with key show ?thesis by (simp add: needsRehash_def verifyPassword_def)
qed

definition toy_scrypt :: scrypt where
  "toy_scrypt password salt len n r p = Some (take len (password @ salt @ replicate len (CHR ''x'')))"

lemma toy_derives: "derives toy_scrypt"
  by (auto simp: derives_def toy_scrypt_def min_def)

lemma str_nat_reads: "reads_nats (\<lambda>s. Some (int (str_nat s)))"
  by (simp add: reads_nats_def)

theorem hash_verifies_witness:
  "\<exists>encoded. hashPassword toy_scrypt id ''salt'' ''pearl'' = Some encoded
    \<and> verifyPassword toy_scrypt id (\<lambda>s. Some (int (str_nat s))) ''pearl'' encoded = Some True
    \<and> verifyPassword toy_scrypt id (\<lambda>s. Some (int (str_nat s))) ''shell'' encoded = Some False"
proof -
  have "toy_scrypt ''shell'' ''salt'' KEY_BYTES N_COST R_COST P_COST \<noteq> toy_scrypt ''pearl'' ''salt'' KEY_BYTES N_COST R_COST P_COST"
    by (simp add: toy_scrypt_def KEY_BYTES_def)
  with hash_verifies [OF str_nat_reads toy_derives, of id "''salt''" "''pearl''" "''shell''"] show ?thesis by auto
qed

text \<open>A stored hash whose key part decodes to nothing - an empty part, or characters outside the alphabet -
  verifies every password, since a key of no bytes is what \<open>scrypt\<close> derives for each.\<close>

theorem empty_key_accepts:
  assumes "reads_nats number" and "derives scrypt"
  shows "verifyPassword scrypt nfkc number password (hash_text N_COST R_COST P_COST salt []) = Some True"
proof -
  obtain key where "scrypt (nfkc password) salt 0 N_COST R_COST P_COST = Some key" "length key = 0"
    using assms(2) unfolding derives_def by blast
  then show ?thesis
    using parse_hash_text [OF assms(1), of N_COST R_COST P_COST salt "[]"]
    by (simp add: verifyPassword_def N_COST_def R_COST_def P_COST_def)
qed

subsection \<open>The gate\<close>

text \<open>A call is named by a number. \<open>gt_running\<close> has the calls that hold a permit: a waiter that was handed one
  holds it from then on.\<close>

record Gate =
  gt_active :: nat
  gt_waiting :: "nat list"
  gt_running :: "nat list"

definition MAX_QUEUED :: nat where "MAX_QUEUED = 64"

text \<open>\<open>poolSize\<close> is \<open>Number(UV_THREADPOOL_SIZE ?? 4)\<close>, none where it is not finite.\<close>

definition MAX_CONCURRENT :: "rat option \<Rightarrow> nat" where
  "MAX_CONCURRENT poolSize = nat (max 1 \<lfloor>(case poolSize of Some n \<Rightarrow> n | None \<Rightarrow> 4) / 2\<rfloor>)"

datatype Entry = Running | Waiting | TooBusy

definition gated_enter :: "nat \<Rightarrow> nat \<Rightarrow> Gate \<Rightarrow> Entry \<times> Gate" where
  "gated_enter limit i g =
     (if gt_active g \<ge> limit then
        (if length (gt_waiting g) \<ge> MAX_QUEUED then (TooBusy, g)
         else (Waiting, g\<lparr>gt_waiting := gt_waiting g @ [i]\<rparr>))
      else (Running, g\<lparr>gt_active := gt_active g + 1, gt_running := gt_running g @ [i]\<rparr>))"

text \<open>The \<open>finally\<close> of a call, whether its work returned or threw.\<close>

definition gated_leave :: "nat \<Rightarrow> Gate \<Rightarrow> Gate" where
  "gated_leave i g =
     (let g1 = g\<lparr>gt_running := remove1 i (gt_running g)\<rparr>
      in case gt_waiting g of
           [] \<Rightarrow> g1\<lparr>gt_active := gt_active g - 1\<rparr>
         | w # ws \<Rightarrow> g1\<lparr>gt_waiting := ws, gt_running := gt_running g1 @ [w]\<rparr>)"

definition idle :: Gate where
  "idle = \<lparr>gt_active = 0, gt_waiting = [], gt_running = []\<rparr>"

inductive gate_step :: "nat \<Rightarrow> Gate \<Rightarrow> Gate \<Rightarrow> bool"
  for limit where
  enter: "i \<notin> set (gt_running g) \<union> set (gt_waiting g) \<Longrightarrow> gate_step limit g (snd (gated_enter limit i g))"
| leave: "i \<in> set (gt_running g) \<Longrightarrow> gate_step limit g (gated_leave i g)"

definition gate_ok :: "nat \<Rightarrow> Gate \<Rightarrow> bool" where
  "gate_ok limit g \<longleftrightarrow> gt_active g = length (gt_running g) \<and> gt_active g \<le> limit \<and> length (gt_waiting g) \<le> MAX_QUEUED
     \<and> (gt_waiting g \<noteq> [] \<longrightarrow> gt_active g = limit) \<and> distinct (gt_running g @ gt_waiting g)"

lemma gate_step_ok: "gate_step limit g g' \<Longrightarrow> gate_ok limit g \<Longrightarrow> gate_ok limit g'"
proof (induction rule: gate_step.induct)
  case (enter i g)
  then show ?case by (auto simp: gate_ok_def gated_enter_def)
next
  case (leave i g)
  then show ?case
    by (auto simp: gate_ok_def gated_leave_def Let_def length_remove1 dest: notin_set_remove1 split: list.splits)
      (metis One_nat_def Suc_pred length_pos_if_in_set)+
qed

lemma gate_reach_ok: "(gate_step limit)\<^sup>*\<^sup>* idle g \<Longrightarrow> gate_ok limit g"
  by (induction rule: rtranclp_induct) (auto simp: gate_step_ok, simp add: gate_ok_def idle_def)

lemma leave_waiting: "gt_waiting (gated_leave i g) = tl (gt_waiting g)"
  by (simp add: gated_leave_def Let_def split: list.splits)

text \<open>Calls end one after another; each holds a permit when it ends.\<close>

fun leave_all :: "nat list \<Rightarrow> Gate \<Rightarrow> Gate option" where
  "leave_all [] g = Some g"
| "leave_all (i # is) g = (if i \<in> set (gt_running g) then leave_all is (gated_leave i g) else None)"

lemma leave_all_next:
  assumes "gt_waiting g = ws @ [i] @ rest" and "leave_all (is @ [j]) g = Some g'" and "length is = length ws"
  shows "i \<in> set (gt_running g') \<and> gt_waiting g' = rest"
  using assms
proof (induction "is" arbitrary: ws g)
  case Nil
  then show ?case by (auto simp: gated_leave_def Let_def split: if_splits)
next
  case (Cons k ks)
  from Cons.prems(3) obtain w vs where ws: "ws = w # vs" "length ks = length vs" by (cases ws) auto
  then have "gt_waiting (gated_leave k g) = vs @ [i] @ rest" using Cons.prems(1) by (simp add: leave_waiting)
  then show ?case using Cons.IH [of "gated_leave k g" vs] Cons.prems(2) ws(2) by (simp split: if_splits)
qed

text \<open>C27 - The gate is bounded and fair: in every state calls and their ends can lead to, no more than the limit
  hold a permit, no more than \<open>MAX_QUEUED\<close> wait, nobody waits while a permit is free, and a call that
  waits behind \<open>n\<close> others holds a permit after exactly \<open>n + 1\<close> calls have ended, whichever they are.\<close>

theorem gate_fair:
  assumes "(gate_step limit)\<^sup>*\<^sup>* idle g"
  shows "length (gt_running g) \<le> limit \<and> length (gt_waiting g) \<le> MAX_QUEUED
    \<and> (gt_waiting g \<noteq> [] \<longrightarrow> length (gt_running g) = limit)
    \<and> (\<forall>ws i rest is j g'. gt_waiting g = ws @ [i] @ rest \<and> length is = length ws \<and> leave_all (is @ [j]) g = Some g'
          \<longrightarrow> i \<in> set (gt_running g') \<and> gt_waiting g' = rest)"
proof (intro conjI allI impI; (elim conjE)?)
  fix ws i rest "is" j g'
  assume "gt_waiting g = ws @ [i] @ rest" "length is = length ws" "leave_all (is @ [j]) g = Some g'"
  then have "i \<in> set (gt_running g') \<and> gt_waiting g' = rest" by (intro leave_all_next)
  then show "i \<in> set (gt_running g')" "gt_waiting g' = rest" by simp_all
qed (use gate_reach_ok [OF assms] in \<open>simp_all add: gate_ok_def\<close>)

theorem gate_fair_witness:
  "\<exists>g'. leave_all [1] (snd (gated_enter 2 3 (snd (gated_enter 2 2 (snd (gated_enter 2 1 idle)))))) = Some g'
    \<and> gt_running g' = [2, 3] \<and> 3 \<in> set (gt_running g') \<and> gt_waiting g' = []"
proof -
  let ?a = "snd (gated_enter 2 1 idle)"
  let ?b = "snd (gated_enter 2 2 ?a)"
  let ?c = "snd (gated_enter 2 3 ?b)"
  have "gate_step 2 idle ?a" "gate_step 2 ?a ?b" "gate_step 2 ?b ?c"
    by (rule gate_step.enter, simp add: idle_def gated_enter_def)+
  then have "(gate_step 2)\<^sup>*\<^sup>* idle ?c" by (simp add: converse_rtranclp_into_rtranclp)
  moreover have "gt_waiting ?c = [] @ [3] @ []" by (simp add: idle_def gated_enter_def MAX_QUEUED_def)
  moreover have run: "leave_all ([] @ [1]) ?c = Some (gated_leave 1 ?c)" by (simp add: idle_def gated_enter_def)
  ultimately have "3 \<in> set (gt_running (gated_leave 1 ?c)) \<and> gt_waiting (gated_leave 1 ?c) = []"
    using gate_fair [of 2 ?c] by (metis list.size(3))
  moreover have "gt_running (gated_leave 1 ?c) = [2, 3]" by code_simp
  ultimately show ?thesis using run by simp
qed

subsection \<open>Generated passwords\<close>

definition PASSWORD_WORDS :: "string list" where
  "PASSWORD_WORDS =
    [''abalone'', ''anchor'', ''aragonite'', ''aurora'', ''basalt'', ''beacon'', ''bloom'', ''bramble'', ''brine'',
     ''calcite'', ''cinder'', ''clover'', ''compass'', ''coral'', ''crest'', ''current'', ''delta'', ''drift'',
     ''ember'', ''estuary'', ''fathom'', ''ferry'', ''fjord'', ''granite'', ''harbor'', ''harbour'', ''haven'',
     ''iridescent'', ''iris'', ''keel'', ''kelp'', ''lagoon'', ''lantern'', ''ledger'', ''lichen'', ''lustre'',
     ''mantle'', ''marlin'', ''meadow'', ''mica'', ''nacre'', ''nautilus'', ''obsidian'', ''onyx'', ''opal'',
     ''orbit'', ''pearl'', ''pelagic'', ''pillar'', ''plover'', ''prism'', ''quarry'', ''quartz'', ''reef'',
     ''ripple'', ''salt'', ''sextant'', ''shale'', ''shoal'', ''silt'', ''slate'', ''sound'', ''spindrift'',
     ''stratum'', ''tide'', ''trawler'', ''trench'', ''vellum'', ''wharf'', ''willow'', ''zephyr'']"

definition PASSWORD_WORD_COUNT :: nat where "PASSWORD_WORD_COUNT = 6"

definition SUFFIX_RANGE :: nat where "SUFFIX_RANGE = 90"

text \<open>\<open>picks\<close> and \<open>number\<close> are what \<open>randomInt\<close> answers.\<close>

definition generatePassword :: "nat list \<Rightarrow> nat \<Rightarrow> string" where
  "generatePassword picks number = js_join ''-'' (map (\<lambda>i. PASSWORD_WORDS ! i) picks) @ ''-'' @ nat_str number"

lemma words_plain: "distinct PASSWORD_WORDS" "\<forall>w \<in> set PASSWORD_WORDS. CHR ''-'' \<notin> set w"
  by code_simp+

lemma join_snoc: "ps \<noteq> [] \<Longrightarrow> js_join sep ps @ sep @ q = js_join sep (ps @ [q])"
  by (induction sep ps rule: js_join.induct) (auto simp: neq_Nil_conv)

text \<open>No two draws give the same password, so each is worth all the draws: \<open>PASSWORD_WORDS\<close> to the sixth,
  times the suffixes.\<close>

theorem draws_distinct:
  assumes "set picks \<subseteq> {..<length PASSWORD_WORDS}" "set others \<subseteq> {..<length PASSWORD_WORDS}" "picks \<noteq> []" "others \<noteq> []"
    and "generatePassword picks n = generatePassword others m"
  shows "picks = others \<and> n = m"
proof -
  have parts: "js_split (CHR ''-'') (generatePassword ps k) = map (\<lambda>i. PASSWORD_WORDS ! i) ps @ [nat_str k]"
    if "set ps \<subseteq> {..<length PASSWORD_WORDS}" "ps \<noteq> []" for ps k
  proof -
    have "generatePassword ps k = js_join ''-'' (map (\<lambda>i. PASSWORD_WORDS ! i) ps @ [nat_str k])"
      unfolding generatePassword_def using that(2) by (intro join_snoc) simp
    moreover have "\<forall>p \<in> set (map (\<lambda>i. PASSWORD_WORDS ! i) ps @ [nat_str k]). CHR ''-'' \<notin> set p"
      using words_plain(2) that(1) digit_not by fastforce
    ultimately show ?thesis using js_split_join [of "map (\<lambda>i. PASSWORD_WORDS ! i) ps @ [nat_str k]"] by simp
  qed
  have same: "map (\<lambda>i. PASSWORD_WORDS ! i) picks = map (\<lambda>i. PASSWORD_WORDS ! i) others" "n = m"
    using parts [OF assms(1,3), of n] parts [OF assms(2,4), of m] assms(5) by simp_all
  have "inj_on (\<lambda>i. PASSWORD_WORDS ! i) {..<length PASSWORD_WORDS}"
    using words_plain(1) by (intro inj_onI) (simp add: nth_eq_iff_index_eq)
  then have "picks = others" using same(1) assms(1,2)
    by (metis inj_on_subset map_inj_on sup.bounded_iff)
  with same(2) show ?thesis by simp
qed

end
