(* ===== verification/Sessions.thy ===== *)
theory Sessions
  imports Accounts Passwords "HOL-Library.Countable"
begin

text \<open>
  \<open>packages/api/src/login.ts\<close> and \<open>recovery.ts\<close>: signing in, challenges, refresh tokens and their rotation,
  changing a password, and recovery links; \<open>admitSignIn\<close> of \<open>core/extensions.ts\<close>.

  Each method is a sequence of transactions over the tables of \<open>Sessions\<close>; each transaction is a definition
  of its own, so that methods can be interleaved. Times are milliseconds. What \<open>LoginDeps\<close> holds of other
  code: \<open>scrypt\<close>, \<open>digest\<close>, the signing and verifying of a JWT, the registered sign-in gates, and what the
  second factor requires of an account. What a call draws at random is its argument \<open>Mint\<close>. Addresses and
  slugs are ASCII.
\<close>

subsection \<open>Tables and dependencies\<close>

record OrgRow =
  og_id :: string
  og_slug :: string
  og_deleted :: bool

record ResetRow =
  rr_org :: string
  rr_user :: string
  rr_hash :: string
  rr_expires :: int
  rr_used :: bool

record Sessions =
  ss_orgs :: "OrgRow list"
  ss_users :: "PersonRow list"
  ss_tokens :: "RefreshRow list"
  ss_resets :: "ResetRow list"

datatype SignInPath = PathPassword | PathSecondFactor | PathRefresh | PathPasswordChange

datatype FactorKind = Totp | WebAuthn

record SignInContext =
  sc_orgId :: string
  sc_userId :: string
  sc_role :: OrgRole
  sc_path :: SignInPath
  sc_secondFactor :: "FactorKind option"
  sc_enrolled :: bool
  sc_ownCredentials :: bool

datatype Verdict = Admit | VerdictEnrol string | VerdictRefuse string

text \<open>The claims of a token; \<open>None\<close> where one is absent or is no string.\<close>

record Jwt =
  jw_iss :: string
  jw_aud :: string
  jw_sub :: "string option"
  jw_org :: "string option"
  jw_purpose :: "string option"
  jw_type :: "string option"
  jw_role :: "string option"
  jw_iat :: int
  jw_exp :: int

record LoginDeps =
  ld_scrypt :: scrypt
  ld_nfkc :: "string \<Rightarrow> string"
  ld_number :: "string \<Rightarrow> int option"
  ld_decoy :: "string \<times> string"
  ld_digest :: "string \<Rightarrow> string"
  ld_sign :: "Jwt \<Rightarrow> string"
  ld_jwtVerify :: "string \<Rightarrow> string \<Rightarrow> string \<Rightarrow> int \<Rightarrow> Jwt option"
  ld_issuer :: string
  ld_audience :: string
  ld_accessTtl :: int
  ld_refreshTtl :: int
  ld_required :: "(string \<Rightarrow> string \<Rightarrow> bool) option"
  ld_gates :: "(SignInContext \<Rightarrow> Verdict) list"

text \<open>A refresh token, its row's id, a family and the salt of a hash.\<close>

record Mint =
  mi_token :: string
  mi_id :: string
  mi_family :: string
  mi_salt :: string

definition ACCESS_MIN_SECONDS :: int where "ACCESS_MIN_SECONDS = 60"
definition MAX_UNSCOPED_ORG_SCAN :: nat where "MAX_UNSCOPED_ORG_SCAN = 500"
definition CHALLENGE_SECONDS :: int where "CHALLENGE_SECONDS = 300"
definition ENROL_SECONDS :: int where "ENROL_SECONDS = 900"

definition challengeAudience :: "string \<Rightarrow> string" where
  "challengeAudience audience = audience @ ''/second-factor''"

datatype ChallengePurpose = PurposeSecondFactor | PurposeEnrol

fun purpose_text :: "ChallengePurpose \<Rightarrow> string" where
  "purpose_text PurposeSecondFactor = ''second-factor''"
| "purpose_text PurposeEnrol = ''enrol''"

record Tokens =
  tk_access :: string
  tk_refresh :: string
  tk_expiresIn :: int
  tk_orgId :: string
  tk_userId :: string

datatype SessionOutcome = SessionTokens Tokens | EnrolFactor string int string | SignInRefused string

datatype LoginOutcome = Session SessionOutcome | FactorChallenge string int

fun role_text :: "OrgRole \<Rightarrow> string" where
  "role_text PlatformAdmin = ''platform_admin''"
| "role_text OrgAdmin = ''org_admin''"
| "role_text Member = ''member''"

text \<open>\<open>trim().toLowerCase()\<close>.\<close>

definition js_space :: "char \<Rightarrow> bool" where
  "js_space c \<longleftrightarrow> of_char c \<in> {9, 10, 11, 12, 13, 32 :: nat}"

definition trimmed :: "string \<Rightarrow> string" where
  "trimmed s = rev (dropWhile js_space (rev (dropWhile js_space s)))"

definition normal_text :: "string \<Rightarrow> string" where
  "normal_text s = map to_lower (trimmed s)"

subsection \<open>Passwords\<close>

definition check_password :: "LoginDeps \<Rightarrow> string \<Rightarrow> string \<Rightarrow> bool option" where
  "check_password deps = verifyPassword (ld_scrypt deps) (ld_nfkc deps) (ld_number deps)"

definition make_hash :: "LoginDeps \<Rightarrow> string \<Rightarrow> string \<Rightarrow> string option" where
  "make_hash deps = hashPassword (ld_scrypt deps) (ld_nfkc deps)"

text \<open>None where it throws. The decoy is hashed once, from a random text and salt.\<close>

definition spendVerificationTime :: "LoginDeps \<Rightarrow> string \<Rightarrow> unit option" where
  "spendVerificationTime deps password =
     (case make_hash deps (snd (ld_decoy deps)) (fst (ld_decoy deps)) of
        None \<Rightarrow> None
      | Some decoy \<Rightarrow> map_option (\<lambda>_. ()) (check_password deps password decoy))"

subsection \<open>Gates\<close>

text \<open>\<open>Some (True, reason)\<close> refuses, \<open>Some (False, reason)\<close> admits as far as enrolling.\<close>

fun admit_loop :: "(SignInContext \<Rightarrow> Verdict) list \<Rightarrow> SignInContext \<Rightarrow> string option \<Rightarrow> (bool \<times> string) option" where
  "admit_loop [] context weakest = map_option (Pair False) weakest"
| "admit_loop (gate # gates) context weakest =
     (case gate context of
        VerdictRefuse reason \<Rightarrow> Some (True, reason)
      | VerdictEnrol reason \<Rightarrow> admit_loop gates context (if weakest = None then Some reason else weakest)
      | Admit \<Rightarrow> admit_loop gates context weakest)"

definition admitSignIn :: "(SignInContext \<Rightarrow> Verdict) list \<Rightarrow> SignInContext \<Rightarrow> (bool \<times> string) option" where
  "admitSignIn gates context = admit_loop gates context None"

subsection \<open>Challenges\<close>

definition challenge :: "LoginDeps \<Rightarrow> int \<Rightarrow> PersonRow \<Rightarrow> ChallengePurpose \<Rightarrow> int \<Rightarrow> string" where
  "challenge deps now user purpose lifetime =
     ld_sign deps \<lparr>jw_iss = ld_issuer deps, jw_aud = challengeAudience (ld_audience deps), jw_sub = Some (us_id user), jw_org = Some (us_org user),
       jw_purpose = Some (purpose_text purpose), jw_type = None, jw_role = None, jw_iat = now div 1000, jw_exp = now div 1000 + lifetime\<rparr>"

definition readChallenge :: "LoginDeps \<Rightarrow> int \<Rightarrow> string \<Rightarrow> ChallengePurpose \<Rightarrow> (string \<times> string) option" where
  "readChallenge deps now token purpose =
     (case ld_jwtVerify deps token (ld_issuer deps) (challengeAudience (ld_audience deps)) (now div 1000) of
        None \<Rightarrow> None
      | Some payload \<Rightarrow>
          if jw_purpose payload \<noteq> Some (purpose_text purpose) then None
          else (case (jw_org payload, jw_sub payload) of (Some org, Some sub) \<Rightarrow> Some (org, sub) | _ \<Rightarrow> None))"

subsection \<open>issue\<close>

definition required_factor :: "LoginDeps \<Rightarrow> PersonRow \<Rightarrow> bool" where
  "required_factor deps user = (case ld_required deps of Some required \<Rightarrow> required (us_org user) (us_id user) | None \<Rightarrow> False)"

definition sign_in_context :: "LoginDeps \<Rightarrow> PersonRow \<Rightarrow> SignInPath \<Rightarrow> FactorKind option \<Rightarrow> SignInContext" where
  "sign_in_context deps user path proved =
     \<lparr>sc_orgId = us_org user, sc_userId = us_id user, sc_role = us_role user, sc_path = path, sc_secondFactor = proved,
      sc_enrolled = required_factor deps user, sc_ownCredentials = (\<not> us_shared user)\<rparr>"

definition access_claims :: "LoginDeps \<Rightarrow> int \<Rightarrow> PersonRow \<Rightarrow> Jwt" where
  "access_claims deps now user =
     \<lparr>jw_iss = ld_issuer deps, jw_aud = ld_audience deps, jw_sub = Some (us_id user), jw_org = Some (us_org user), jw_purpose = None,
      jw_type = Some ''user'', jw_role = Some (role_text (us_role user)), jw_iat = now div 1000,
      jw_exp = now div 1000 + max ACCESS_MIN_SECONDS (ld_accessTtl deps)\<rparr>"

definition token_row :: "LoginDeps \<Rightarrow> int \<Rightarrow> Mint \<Rightarrow> PersonRow \<Rightarrow> string option \<Rightarrow> RefreshRow" where
  "token_row deps now mint user family =
     \<lparr>rt_id = mi_id mint, rt_org = us_org user, rt_user = us_id user, rt_hash = ld_digest deps (mi_token mint),
      rt_family = (case family of Some f \<Rightarrow> f | None \<Rightarrow> mi_family mint), rt_expires = now + ld_refreshTtl deps * 1000,
      rt_used = False, rt_revoked = False\<rparr>"

definition issue_session :: "LoginDeps \<Rightarrow> int \<Rightarrow> Mint \<Rightarrow> PersonRow \<Rightarrow> string option \<Rightarrow> SignInPath \<Rightarrow> FactorKind option \<Rightarrow> Sessions \<Rightarrow> SessionOutcome \<times> Sessions" where
  "issue_session deps now mint user family path proved st =
     (case admitSignIn (ld_gates deps) (sign_in_context deps user path proved) of
        Some (True, reason) \<Rightarrow> (SignInRefused reason, st)
      | Some (False, reason) \<Rightarrow> (EnrolFactor (challenge deps now user PurposeEnrol ENROL_SECONDS) ENROL_SECONDS reason, st)
      | None \<Rightarrow>
          (SessionTokens \<lparr>tk_access = ld_sign deps (access_claims deps now user), tk_refresh = mi_token mint,
             tk_expiresIn = max ACCESS_MIN_SECONDS (ld_accessTtl deps), tk_orgId = us_org user, tk_userId = us_id user\<rparr>,
           st\<lparr>ss_tokens := ss_tokens st @ [token_row deps now mint user family]\<rparr>))"

subsection \<open>login\<close>

definition orgIdForSlug :: "Sessions \<Rightarrow> string \<Rightarrow> string option" where
  "orgIdForSlug st slug = map_option og_id (find (\<lambda>o'. og_slug o' = slug \<and> \<not> og_deleted o') (ss_orgs st))"

definition allOrgIds :: "Sessions \<Rightarrow> string list" where
  "allOrgIds st = map og_id (filter (\<lambda>o'. \<not> og_deleted o') (ss_orgs st))"

definition userIn :: "Sessions \<Rightarrow> string \<Rightarrow> string \<Rightarrow> PersonRow option" where
  "userIn st org email = find (\<lambda>u. us_org u = org \<and> same_email (us_email u) email) (ss_users st)"

definition userById :: "Sessions \<Rightarrow> string \<Rightarrow> string \<Rightarrow> PersonRow option" where
  "userById st org user = find (\<lambda>u. us_org u = org \<and> us_id u = user) (ss_users st)"

text \<open>The loop that stops at the second match.\<close>

fun scan_orgs :: "(string \<Rightarrow> 'r option) \<Rightarrow> string list \<Rightarrow> 'r list \<Rightarrow> 'r option" where
  "scan_orgs look [] found = (case found of r # _ \<Rightarrow> Some r | [] \<Rightarrow> None)"
| "scan_orgs look (org # orgs) found =
     (let found' = (case look org of Some r \<Rightarrow> found @ [r] | None \<Rightarrow> found)
      in if length found' > 1 then None else scan_orgs look orgs found')"

definition find_user :: "Sessions \<Rightarrow> string \<Rightarrow> string option \<Rightarrow> PersonRow option" where
  "find_user st email organization =
     (case organization of
        Some name \<Rightarrow>
          if trimmed name \<noteq> [] then Option.bind (orgIdForSlug st (normal_text name)) (\<lambda>org. userIn st org email)
          else scan_orgs (\<lambda>org. userIn st org email) (take MAX_UNSCOPED_ORG_SCAN (allOrgIds st)) []
      | None \<Rightarrow> scan_orgs (\<lambda>org. userIn st org email) (take MAX_UNSCOPED_ORG_SCAN (allOrgIds st)) [])"

record LoginRequest =
  lq_email :: string
  lq_password :: string
  lq_organization :: "string option"

datatype Candidate = NoCandidate | Proved PersonRow | Wrong | CheckThrew

text \<open>What \<open>login\<close> has decided before it writes anything: the row it read, whose hash the password verifies.\<close>

definition login_candidate :: "LoginDeps \<Rightarrow> LoginRequest \<Rightarrow> Sessions \<Rightarrow> Candidate" where
  "login_candidate deps request st =
     (let email = normal_text (lq_email request)
      in if email = [] \<or> lq_password request = [] then NoCandidate
         else case find_user st email (lq_organization request) of
           None \<Rightarrow> NoCandidate
         | Some u \<Rightarrow>
             (case us_hash u of
                None \<Rightarrow> NoCandidate
              | Some h \<Rightarrow>
                  if us_disabled u \<noteq> None then NoCandidate
                  else (case check_password deps (lq_password request) h of
                          None \<Rightarrow> CheckThrew | Some True \<Rightarrow> Proved u | Some False \<Rightarrow> Wrong)))"

text \<open>The rehash writes the row it read, whatever the row holds by then. None where hashing throws.\<close>

definition set_hash :: "string \<Rightarrow> string \<Rightarrow> string \<Rightarrow> Sessions \<Rightarrow> Sessions" where
  "set_hash org user h st = st\<lparr>ss_users := update_where (\<lambda>u. us_org u = org \<and> us_id u = user) (\<lambda>u. u\<lparr>us_hash := Some h\<rparr>) (ss_users st)\<rparr>"

definition rehash :: "LoginDeps \<Rightarrow> Mint \<Rightarrow> string \<Rightarrow> PersonRow \<Rightarrow> Sessions \<Rightarrow> Sessions option" where
  "rehash deps mint password u st =
     (if (case us_hash u of Some h \<Rightarrow> needsRehash (ld_number deps) h | None \<Rightarrow> False)
      then map_option (\<lambda>h. set_hash (us_org u) (us_id u) h st) (make_hash deps (mi_salt mint) password)
      else Some st)"

definition login_finish :: "LoginDeps \<Rightarrow> int \<Rightarrow> Mint \<Rightarrow> PersonRow \<Rightarrow> Sessions \<Rightarrow> LoginOutcome \<times> Sessions" where
  "login_finish deps now mint u st =
     (if required_factor deps u
      then (FactorChallenge (challenge deps now u PurposeSecondFactor CHALLENGE_SECONDS) CHALLENGE_SECONDS, st)
      else (let (r, st') = issue_session deps now mint u None PathPassword None st in (Session r, st')))"

text \<open>\<open>Inl\<close> where it throws, \<open>Inr None\<close> the one refusal.\<close>

definition login :: "LoginDeps \<Rightarrow> int \<Rightarrow> Mint \<Rightarrow> LoginRequest \<Rightarrow> Sessions \<Rightarrow> (unit + LoginOutcome option) \<times> Sessions" where
  "login deps now mint request st =
     (case login_candidate deps request st of
        NoCandidate \<Rightarrow> (case spendVerificationTime deps (lq_password request) of None \<Rightarrow> (Inl (), st) | Some _ \<Rightarrow> (Inr None, st))
      | Wrong \<Rightarrow> (Inr None, st)
      | CheckThrew \<Rightarrow> (Inl (), st)
      | Proved u \<Rightarrow>
          (case rehash deps mint (lq_password request) u st of
             None \<Rightarrow> (Inl (), st)
           | Some st1 \<Rightarrow> (let (r, st') = login_finish deps now mint u st1 in (Inr (Some r), st'))))"

subsection \<open>The second half of a sign-in\<close>

datatype SecondFactorProof = CodeProof string | WebAuthnProof string

fun proof_kind :: "SecondFactorProof \<Rightarrow> FactorKind" where
  "proof_kind (CodeProof _) = Totp"
| "proof_kind (WebAuthnProof _) = WebAuthn"

text \<open>\<open>proves\<close> is what \<open>verify\<close> and \<open>verifyWebAuthnAssertion\<close> of the second factor answer.\<close>

definition completeSecondFactor :: "LoginDeps \<Rightarrow> (string \<Rightarrow> string \<Rightarrow> SecondFactorProof \<Rightarrow> bool) \<Rightarrow> int \<Rightarrow> Mint \<Rightarrow> string \<Rightarrow> SecondFactorProof \<Rightarrow> Sessions
    \<Rightarrow> SessionOutcome option \<times> Sessions" where
  "completeSecondFactor deps proves now mint token proof' st =
     (if ld_required deps = None then (None, st)
      else case readChallenge deps now token PurposeSecondFactor of
        None \<Rightarrow> (None, st)
      | Some (org, user) \<Rightarrow>
          if \<not> proves org user proof' then (None, st)
          else (case userById st org user of
                  None \<Rightarrow> (None, st)
                | Some u \<Rightarrow>
                    if us_disabled u \<noteq> None then (None, st)
                    else (let (r, st') = issue_session deps now mint u None PathSecondFactor (Some (proof_kind proof')) st in (Some r, st'))))"

text \<open>\<open>begin'\<close> is \<open>beginWebAuthnAssertion\<close> of the second factor.\<close>

definition beginSecondFactorWebAuthn :: "LoginDeps \<Rightarrow> (string \<Rightarrow> string \<Rightarrow> 'a option) \<Rightarrow> int \<Rightarrow> string \<Rightarrow> 'a option" where
  "beginSecondFactorWebAuthn deps begin' now token =
     (if ld_required deps = None then None
      else case readChallenge deps now token PurposeSecondFactor of
        None \<Rightarrow> None
      | Some (org, user) \<Rightarrow> begin' org user)"

definition readEnrolmentChallenge :: "LoginDeps \<Rightarrow> int \<Rightarrow> string \<Rightarrow> (string \<times> string) option" where
  "readEnrolmentChallenge deps now token = readChallenge deps now token PurposeEnrol"

definition sessionAfterEnrolment :: "LoginDeps \<Rightarrow> int \<Rightarrow> Mint \<Rightarrow> string \<Rightarrow> string \<Rightarrow> Sessions \<Rightarrow> SessionOutcome option \<times> Sessions" where
  "sessionAfterEnrolment deps now mint org user st =
     (case userById st org user of
        None \<Rightarrow> (None, st)
      | Some u \<Rightarrow>
          if us_disabled u \<noteq> None then (None, st)
          else (let (r, st') = issue_session deps now mint u None PathSecondFactor None st in (Some r, st')))"

subsection \<open>changePassword\<close>

text \<open>A statement updates the rows its snapshot has: \<open>seen\<close> are their ids.\<close>

definition revoke_seen :: "string set \<Rightarrow> string \<Rightarrow> string \<Rightarrow> RefreshRow list \<Rightarrow> RefreshRow list" where
  "revoke_seen seen org user = update_where (\<lambda>t. rt_id t \<in> seen \<and> rt_org t = org \<and> rt_user t = user \<and> \<not> rt_revoked t) (\<lambda>t. t\<lparr>rt_revoked := True\<rparr>)"

definition token_ids :: "Sessions \<Rightarrow> string set" where
  "token_ids st = set (map rt_id (ss_tokens st))"

datatype ChangeOutcome = Changed Tokens string | ChangeInterrupted SessionOutcome | SharedAccount | WrongPassword | ChangeNoUser

datatype ChangeCheck = CheckRefused ChangeOutcome | CheckRaised | CheckPassed PersonRow string

definition change_check :: "LoginDeps \<Rightarrow> Mint \<Rightarrow> string \<Rightarrow> string \<Rightarrow> string \<Rightarrow> string \<Rightarrow> Sessions \<Rightarrow> ChangeCheck" where
  "change_check deps mint org user current next' st =
     (case userById st org user of
        None \<Rightarrow> CheckRefused ChangeNoUser
      | Some u \<Rightarrow>
          (case us_hash u of
             None \<Rightarrow> CheckRefused ChangeNoUser
           | Some h \<Rightarrow>
               if us_disabled u \<noteq> None then CheckRefused ChangeNoUser
               else if us_shared u then CheckRefused SharedAccount
               else case check_password deps current h of
                 None \<Rightarrow> CheckRaised
               | Some False \<Rightarrow> CheckRefused WrongPassword
               | Some True \<Rightarrow> (case make_hash deps (mi_salt mint) next' of None \<Rightarrow> CheckRaised | Some h' \<Rightarrow> CheckPassed u h')))"

definition change_commit :: "LoginDeps \<Rightarrow> int \<Rightarrow> Mint \<Rightarrow> string set \<Rightarrow> PersonRow \<Rightarrow> string \<Rightarrow> Sessions \<Rightarrow> SessionOutcome \<times> Sessions" where
  "change_commit deps now mint seen u h st =
     (let st1 = set_hash (us_org u) (us_id u) h st;
          st2 = st1\<lparr>ss_tokens := revoke_seen seen (us_org u) (us_id u) (ss_tokens st1)\<rparr>
      in issue_session deps now mint u None PathPasswordChange None st2)"

definition changePassword :: "LoginDeps \<Rightarrow> int \<Rightarrow> Mint \<Rightarrow> string \<Rightarrow> string \<Rightarrow> string \<Rightarrow> string \<Rightarrow> Sessions \<Rightarrow> (unit + ChangeOutcome) \<times> Sessions" where
  "changePassword deps now mint org user current next' st =
     (case change_check deps mint org user current next' st of
        CheckRefused r \<Rightarrow> (Inr r, st)
      | CheckRaised \<Rightarrow> (Inl (), st)
      | CheckPassed u h \<Rightarrow>
          (let (r, st') = change_commit deps now mint (token_ids st) u h st
           in (Inr (case r of SessionTokens tokens \<Rightarrow> Changed tokens (us_email u) | _ \<Rightarrow> ChangeInterrupted r), st')))"

subsection \<open>refresh and logout\<close>

definition find_token :: "LoginDeps \<Rightarrow> Sessions \<Rightarrow> string \<Rightarrow> RefreshRow option" where
  "find_token deps st token = find (\<lambda>t. rt_hash t = ld_digest deps token) (ss_tokens st)"

definition revokeFamily :: "string \<Rightarrow> string \<Rightarrow> Sessions \<Rightarrow> Sessions" where
  "revokeFamily org family st =
     st\<lparr>ss_tokens := update_where (\<lambda>t. rt_org t = org \<and> rt_family t = family \<and> \<not> rt_revoked t) (\<lambda>t. t\<lparr>rt_revoked := True\<rparr>) (ss_tokens st)\<rparr>"

datatype Rotation = Rotated SessionOutcome | Lost | Gone

definition token_claimable :: "string \<Rightarrow> string \<Rightarrow> RefreshRow \<Rightarrow> bool" where
  "token_claimable org i t \<longleftrightarrow> rt_org t = org \<and> rt_id t = i \<and> \<not> rt_used t \<and> \<not> rt_revoked t"

text \<open>The transaction under the family's lock; \<open>row\<close> was read before it began.\<close>

definition rotate_token :: "LoginDeps \<Rightarrow> int \<Rightarrow> Mint \<Rightarrow> RefreshRow \<Rightarrow> Sessions \<Rightarrow> Rotation \<times> Sessions" where
  "rotate_token deps now mint row st =
     (if \<not> list_ex (token_claimable (rt_org row) (rt_id row)) (ss_tokens st) then (Lost, st)
      else let st1 = st\<lparr>ss_tokens := update_where (token_claimable (rt_org row) (rt_id row)) (\<lambda>t. t\<lparr>rt_used := True\<rparr>) (ss_tokens st)\<rparr>
           in case userById st1 (rt_org row) (rt_user row) of
                None \<Rightarrow> (Gone, st1)
              | Some u \<Rightarrow>
                  if us_disabled u \<noteq> None then (Gone, st1)
                  else (let (r, st') = issue_session deps now mint u (Some (rt_family row)) PathRefresh None st1 in (Rotated r, st')))"

text \<open>What is decided from the row read first.\<close>

definition refusable :: "int \<Rightarrow> RefreshRow \<Rightarrow> bool" where
  "refusable now row \<longleftrightarrow> rt_revoked row \<or> rt_expires row \<le> now"

definition refresh :: "LoginDeps \<Rightarrow> int \<Rightarrow> Mint \<Rightarrow> string \<Rightarrow> Sessions \<Rightarrow> SessionOutcome option \<times> Sessions" where
  "refresh deps now mint token st =
     (case find_token deps st token of
        None \<Rightarrow> (None, st)
      | Some row \<Rightarrow>
          if refusable now row then (None, st)
          else (case rotate_token deps now mint row st of
                  (Rotated r, st') \<Rightarrow> (Some r, st')
                | (_, st') \<Rightarrow> (None, revokeFamily (rt_org row) (rt_family row) st')))"

definition logout :: "LoginDeps \<Rightarrow> string \<Rightarrow> Sessions \<Rightarrow> bool \<times> Sessions" where
  "logout deps token st =
     (case find (\<lambda>t. rt_hash t = ld_digest deps token \<and> \<not> rt_revoked t) (ss_tokens st) of
        None \<Rightarrow> (False, st)
      | Some row \<Rightarrow> (True, revokeFamily (rt_org row) (rt_family row) st))"

subsection \<open>Recovery links\<close>

definition RESET_TTL_SECONDS :: int where "RESET_TTL_SECONDS = 3600"
definition MIN_PASSWORD_LENGTH :: nat where "MIN_PASSWORD_LENGTH = 12"

definition recoverable :: "Sessions \<Rightarrow> string \<Rightarrow> string \<Rightarrow> PersonRow option" where
  "recoverable st email org =
     find (\<lambda>u. us_org u = org \<and> same_email (us_email u) email \<and> us_disabled u = None \<and> us_hash u \<noteq> None \<and> \<not> us_shared u) (ss_users st)"

definition findUser :: "Sessions \<Rightarrow> string \<Rightarrow> PersonRow option" where
  "findUser st email = scan_orgs (recoverable st email) (take MAX_UNSCOPED_ORG_SCAN (allOrgIds st)) []"

text \<open>\<open>secret\<close> is drawn at random. The link is answered where one is sent.\<close>

definition recovery_request :: "LoginDeps \<Rightarrow> int \<Rightarrow> string \<Rightarrow> string \<Rightarrow> Sessions \<Rightarrow> (string \<times> string) option \<times> Sessions" where
  "recovery_request deps now secret email st =
     (let address = normal_text email
      in if address = [] then (None, st)
         else case findUser st address of
           None \<Rightarrow> (None, st)
         | Some u \<Rightarrow>
             (let token = us_org u @ ''.'' @ secret;
                  older = update_where (\<lambda>r. rr_org r = us_org u \<and> rr_user r = us_id u \<and> \<not> rr_used r) (\<lambda>r. r\<lparr>rr_used := True\<rparr>) (ss_resets st);
                  row = \<lparr>rr_org = us_org u, rr_user = us_id u, rr_hash = ld_digest deps token, rr_expires = now + RESET_TTL_SECONDS * 1000, rr_used = False\<rparr>
              in (Some (address, token), st\<lparr>ss_resets := older @ [row]\<rparr>)))"

datatype Redemption = WasReset | LinkRefused | TooShort

definition hex_char :: "char \<Rightarrow> bool" where
  "hex_char c \<longleftrightarrow> c \<in> set ''0123456789abcdefABCDEF''"

text \<open>\<open>/^[0-9a-f]{8}-[0-9a-f]{4}-[0-9a-f]{4}-[0-9a-f]{4}-[0-9a-f]{12}$/iu\<close>.\<close>

definition uuid_strict :: "string \<Rightarrow> bool" where
  "uuid_strict s \<longleftrightarrow> map length (js_split (CHR ''-'') s) = [8, 4, 4, 4, 12] \<and> list_all (list_all hex_char) (js_split (CHR ''-'') s)"

definition live_link :: "LoginDeps \<Rightarrow> int \<Rightarrow> string \<Rightarrow> string \<Rightarrow> ResetRow \<Rightarrow> bool" where
  "live_link deps now org token r \<longleftrightarrow> rr_org r = org \<and> rr_hash r = ld_digest deps token \<and> \<not> rr_used r \<and> rr_expires r > now"

text \<open>The transaction that spends the link; the email of the person whose password it set.\<close>

definition redeem_commit :: "LoginDeps \<Rightarrow> int \<Rightarrow> string set \<Rightarrow> string \<Rightarrow> string \<Rightarrow> string \<Rightarrow> Sessions \<Rightarrow> string option \<times> Sessions" where
  "redeem_commit deps now seen org token h st =
     (case find (live_link deps now org token) (ss_resets st) of
        None \<Rightarrow> (None, st)
      | Some row \<Rightarrow>
          (let st1 = st\<lparr>ss_resets := update_where (live_link deps now org token) (\<lambda>r. r\<lparr>rr_used := True\<rparr>) (ss_resets st)\<rparr>
           in case userById st1 org (rr_user row) of
                None \<Rightarrow> (None, st1)
              | Some u \<Rightarrow>
                  if us_disabled u \<noteq> None \<or> us_shared u then (None, st1)
                  else (let st2 = set_hash org (us_id u) h st1
                        in (Some (us_email u), st2\<lparr>ss_tokens := revoke_seen seen org (us_id u) (ss_tokens st2)\<rparr>))))"

definition redeem :: "LoginDeps \<Rightarrow> int \<Rightarrow> Mint \<Rightarrow> string \<Rightarrow> string \<Rightarrow> Sessions \<Rightarrow> (unit + Redemption) \<times> Sessions" where
  "redeem deps now mint token password st =
     (if length password < MIN_PASSWORD_LENGTH then (Inr TooShort, st)
      else case js_split (CHR ''.'') token of
        org # secret # _ \<Rightarrow>
          if \<not> uuid_strict org then (Inr LinkRefused, st)
          else if \<not> list_ex (live_link deps now org token) (ss_resets st) then (Inr LinkRefused, st)
          else (case make_hash deps (mi_salt mint) password of
                  None \<Rightarrow> (Inl (), st)
                | Some h \<Rightarrow>
                    (let (address, st') = redeem_commit deps now (token_ids st) org token h st
                     in (Inr (if address = None then LinkRefused else WasReset), st')))
      | _ \<Rightarrow> (Inr LinkRefused, st))"

subsection \<open>The sweep\<close>

text \<open>\<open>pruneExpiredTokens\<close> of the worker's \<open>adapters.ts\<close>: the oldest first, at most \<open>limit\<close>.\<close>

definition doomed_tokens :: "int \<Rightarrow> nat \<Rightarrow> Sessions \<Rightarrow> RefreshRow list" where
  "doomed_tokens now limit st = take limit (sort_key rt_expires (filter (\<lambda>t. rt_expires t < now) (ss_tokens st)))"

definition pruneExpiredTokens :: "int \<Rightarrow> nat \<Rightarrow> Sessions \<Rightarrow> Sessions" where
  "pruneExpiredTokens now limit st = st\<lparr>ss_tokens := filter (\<lambda>t. t \<notin> set (doomed_tokens now limit st)) (ss_tokens st)\<rparr>"

subsection \<open>Transactions interleaved\<close>

text \<open>
  What any number of calls make of the tables, one transaction at a time. \<open>tr_spent\<close> has the ids of the
  tokens claimed, in order; \<open>tr_ids\<close> and \<open>tr_families\<close> what was ever drawn. A rotation works on a row read
  at any time before, of which only what never changes is used. The people and the links change as they
  may; the sweep deletes tokens.
\<close>

record Trace =
  tr_spent :: "string list"
  tr_ids :: "string set"
  tr_families :: "string set"

definition fresh_mint :: "Mint \<Rightarrow> Trace \<Rightarrow> bool" where
  "fresh_mint mint tr \<longleftrightarrow> mi_id mint \<notin> tr_ids tr \<and> mi_family mint \<notin> tr_families tr"

definition drawn :: "Mint \<Rightarrow> Trace \<Rightarrow> Trace" where
  "drawn mint tr = tr\<lparr>tr_ids := insert (mi_id mint) (tr_ids tr), tr_families := insert (mi_family mint) (tr_families tr)\<rparr>"

definition same_token :: "RefreshRow \<Rightarrow> RefreshRow \<Rightarrow> bool" where
  "same_token row t \<longleftrightarrow> rt_id row = rt_id t \<and> rt_org row = rt_org t \<and> rt_user row = rt_user t \<and> rt_family row = rt_family t"

inductive session_step :: "LoginDeps \<Rightarrow> Sessions \<times> Trace \<Rightarrow> Sessions \<times> Trace \<Rightarrow> bool"
  for deps where
  st_sign_in: "fresh_mint mint tr \<Longrightarrow> issue_session deps now mint u None path proved st = (r, st') \<Longrightarrow>
    session_step deps (st, tr) (st', drawn mint tr)"
| st_rotate: "t \<in> set (ss_tokens st) \<Longrightarrow> same_token row t \<Longrightarrow> fresh_mint mint tr \<Longrightarrow> rotate_token deps now mint row st = (r, st') \<Longrightarrow>
    session_step deps (st, tr) (st', (drawn mint tr)\<lparr>tr_spent := tr_spent tr @ (if r = Lost then [] else [rt_id row])\<rparr>)"
| st_revoke: "session_step deps (st, tr) (revokeFamily org family st, tr)"
| st_change: "fresh_mint mint tr \<Longrightarrow> change_commit deps now mint seen u h st = (r, st') \<Longrightarrow> session_step deps (st, tr) (st', drawn mint tr)"
| st_redeem: "redeem_commit deps now seen org token h st = (r, st') \<Longrightarrow> session_step deps (st, tr) (st', tr)"
| st_reset: "session_step deps (st, tr) (st\<lparr>ss_tokens := revoke_seen seen org user (ss_tokens st)\<rparr>, tr)"
| st_others: "session_step deps (st, tr) (st\<lparr>ss_orgs := orgs, ss_users := users, ss_resets := resets\<rparr>, tr)"
| st_sweep: "session_step deps (st, tr) (pruneExpiredTokens now limit st, tr)"

text \<open>What a step makes of the tokens: it marks some, it takes some away, it adds one of a family never seen,
  or it spends one and perhaps adds its successor.\<close>

definition marks :: "(RefreshRow \<Rightarrow> RefreshRow) \<Rightarrow> bool" where
  "marks f \<longleftrightarrow> (\<forall>t. rt_id (f t) = rt_id t \<and> rt_family (f t) = rt_family t \<and> rt_org (f t) = rt_org t \<and> rt_user (f t) = rt_user t \<and> (rt_used t \<longrightarrow> rt_used (f t)) \<and> (rt_revoked t \<longrightarrow> rt_revoked (f t)))"

definition chain_ok :: "Sessions \<times> Trace \<Rightarrow> bool" where
  "chain_ok s \<longleftrightarrow> (case s of (st, tr) \<Rightarrow>
     distinct (map rt_id (ss_tokens st)) \<and> rt_id ` set (ss_tokens st) \<subseteq> tr_ids tr \<and> rt_family ` set (ss_tokens st) \<subseteq> tr_families tr
     \<and> distinct (tr_spent tr) \<and> set (tr_spent tr) \<subseteq> tr_ids tr
     \<and> (\<forall>t \<in> set (ss_tokens st). rt_id t \<in> set (tr_spent tr) \<longrightarrow> rt_used t)
     \<and> (\<forall>t \<in> set (ss_tokens st). \<forall>t' \<in> set (ss_tokens st). rt_family t = rt_family t' \<and> \<not> rt_used t \<and> \<not> rt_used t' \<longrightarrow> t = t'))"

definition dead :: "string \<Rightarrow> Sessions \<Rightarrow> bool" where
  "dead family st \<longleftrightarrow> (\<forall>t \<in> set (ss_tokens st). rt_family t = family \<longrightarrow> rt_revoked t)"

lemma session_issued:
  assumes "issue_session deps now mint u family path proved st = (r, st')"
  obtains (none) "st' = st" "\<not> (\<exists>tk. r = SessionTokens tk)"
  | (token) tk where "r = SessionTokens tk" "tk_refresh tk = mi_token mint" "tk_orgId tk = us_org u" "tk_userId tk = us_id u"
      "tk_access tk = ld_sign deps (access_claims deps now u)"
      "st' = st\<lparr>ss_tokens := ss_tokens st @ [token_row deps now mint u family]\<rparr>"
      "admitSignIn (ld_gates deps) (sign_in_context deps u path proved) = None"
  using assms unfolding issue_session_def by (auto split: option.splits bool.splits prod.splits)

lemma update_where_map: "update_where P f rows = map (\<lambda>r. if P r then f r else r) rows"
  by (simp add: update_where_def)

lemma marks_if: "marks f \<Longrightarrow> marks (\<lambda>t. if P t then f t else t)"
  by (simp add: marks_def)

lemma marks_flags: "marks (\<lambda>t. t\<lparr>rt_revoked := True\<rparr>)" "marks (\<lambda>t. t\<lparr>rt_used := True\<rparr>)"
  by (simp_all add: marks_def)

lemma chain_mark:
  assumes "chain_ok (st, tr)" and "marks f" and "ss_tokens st' = map f (ss_tokens st)"
  shows "chain_ok (st', tr)"
proof -
  have f: "rt_id (f t) = rt_id t" "rt_family (f t) = rt_family t" "\<not> rt_used (f t) \<Longrightarrow> \<not> rt_used t" for t
    using assms(2) unfolding marks_def by blast+
  have "map rt_id (map f (ss_tokens st)) = map rt_id (ss_tokens st)" by (simp add: f)
  moreover have "rt_used (f t)" if "t \<in> set (ss_tokens st)" "rt_id t \<in> set (tr_spent tr)" for t
    using assms(1) f(3) that unfolding chain_ok_def by blast
  moreover have "f t = f t'" if "t \<in> set (ss_tokens st)" "t' \<in> set (ss_tokens st)" "rt_family t = rt_family t'" "\<not> rt_used (f t)" "\<not> rt_used (f t')" for t t'
    using assms(1) f(3) that unfolding chain_ok_def by blast
  ultimately show ?thesis using assms(1) unfolding chain_ok_def by (simp add: assms(3) image_image f comp_def)
qed

lemma chain_where:
  assumes "chain_ok (st, tr)" and "marks f"
  shows "chain_ok (st\<lparr>ss_tokens := update_where P f (ss_tokens st)\<rparr>, tr)"
  by (rule chain_mark [OF assms(1) marks_if [OF assms(2), of P]]) (simp add: update_where_map)

lemma chain_tokens: "ss_tokens st' = ss_tokens st \<Longrightarrow> chain_ok (st', tr) \<longleftrightarrow> chain_ok (st, tr)"
  by (simp add: chain_ok_def)

lemma set_hash_tokens [simp]: "ss_tokens (set_hash org user h st) = ss_tokens st"
  by (simp add: set_hash_def)

lemma chain_set_hash [simp]: "chain_ok (set_hash org user h st, tr) \<longleftrightarrow> chain_ok (st, tr)"
  by (rule chain_tokens) simp

lemma chain_filter:
  assumes "chain_ok (st, tr)"
  shows "chain_ok (st\<lparr>ss_tokens := filter keep (ss_tokens st)\<rparr>, tr)"
  using assms by (auto simp: chain_ok_def distinct_map_filter)

lemma chain_drawn: "chain_ok (st, tr) \<Longrightarrow> chain_ok (st, drawn mint tr)"
  by (auto simp: chain_ok_def drawn_def)

text \<open>A token of a family none of whose tokens is unspent.\<close>

lemma chain_append:
  assumes "chain_ok (st, tr)" and "rt_id t \<notin> tr_ids tr" and "\<forall>t' \<in> set (ss_tokens st). rt_family t' = rt_family t \<longrightarrow> rt_used t'"
  shows "chain_ok (st\<lparr>ss_tokens := ss_tokens st @ [t]\<rparr>, tr\<lparr>tr_ids := insert (rt_id t) (tr_ids tr), tr_families := insert (rt_family t) (tr_families tr)\<rparr>)"
  using assms unfolding chain_ok_def by (auto simp: image_subset_iff)

lemma chain_issue:
  assumes "chain_ok (st, tr)" and "fresh_mint mint tr" and "issue_session deps now mint u family path proved st = (r, st')"
    and "\<And>f. family = Some f \<Longrightarrow> f \<in> tr_families tr \<and> (\<forall>t \<in> set (ss_tokens st). rt_family t = f \<longrightarrow> rt_used t)"
  shows "chain_ok (st', drawn mint tr)"
  using assms(3)
proof (cases rule: session_issued)
  case none
  then show ?thesis using chain_drawn [OF assms(1)] by simp
next
  case (token tk)
  let ?t = "token_row deps now mint u family"
  have id: "rt_id ?t = mi_id mint" by (simp add: token_row_def)
  have old: "\<forall>t' \<in> set (ss_tokens st). rt_family t' = rt_family ?t \<longrightarrow> rt_used t'"
  proof (cases family)
    case None
    then show ?thesis using assms(1,2) by (auto simp: token_row_def chain_ok_def fresh_mint_def)
  next
    case (Some f)
    then show ?thesis using assms(4) by (simp add: token_row_def)
  qed
  have "chain_ok (st', tr\<lparr>tr_ids := insert (mi_id mint) (tr_ids tr), tr_families := insert (rt_family ?t) (tr_families tr)\<rparr>)"
    using chain_append [OF assms(1) _ old] assms(2) token(6) id by (simp add: fresh_mint_def)
  moreover have "insert (rt_family ?t) (tr_families tr) \<subseteq> tr_families (drawn mint tr)"
    using assms(4) by (cases family) (auto simp: token_row_def drawn_def)
  ultimately show ?thesis by (auto simp: chain_ok_def drawn_def)
qed

lemma drawn_spent: "drawn mint (tr\<lparr>tr_spent := s\<rparr>) = (drawn mint tr)\<lparr>tr_spent := s\<rparr>"
  by (cases tr) (simp add: drawn_def)

lemma only_token:
  assumes "chain_ok (st, tr)" and "t \<in> set (ss_tokens st)" "t' \<in> set (ss_tokens st)" "rt_id t = rt_id t'"
  shows "t = t'"
  using assms unfolding chain_ok_def by (metis (no_types, lifting) case_prodD distinct_map inj_onD)

lemma rotate_cases:
  assumes "rotate_token deps now mint row st = (r, st')"
  obtains (lost) "r = Lost" "st' = st" "\<not> list_ex (token_claimable (rt_org row) (rt_id row)) (ss_tokens st)"
  | (gone) st1 where "r = Gone" "st' = st1"
      "st1 = st\<lparr>ss_tokens := update_where (token_claimable (rt_org row) (rt_id row)) (\<lambda>t. t\<lparr>rt_used := True\<rparr>) (ss_tokens st)\<rparr>"
      "list_ex (token_claimable (rt_org row) (rt_id row)) (ss_tokens st)"
      "case userById st (rt_org row) (rt_user row) of None \<Rightarrow> True | Some u \<Rightarrow> us_disabled u \<noteq> None"
  | (issued) st1 u out where "r = Rotated out"
      "st1 = st\<lparr>ss_tokens := update_where (token_claimable (rt_org row) (rt_id row)) (\<lambda>t. t\<lparr>rt_used := True\<rparr>) (ss_tokens st)\<rparr>"
      "list_ex (token_claimable (rt_org row) (rt_id row)) (ss_tokens st)"
      "userById st (rt_org row) (rt_user row) = Some u" "us_disabled u = None"
      "issue_session deps now mint u (Some (rt_family row)) PathRefresh None st1 = (out, st')"
proof (cases "list_ex (token_claimable (rt_org row) (rt_id row)) (ss_tokens st)")
  case False
  then show thesis using assms by (intro lost) (simp_all add: rotate_token_def)
next
  case True
  let ?st1 = "st\<lparr>ss_tokens := update_where (token_claimable (rt_org row) (rt_id row)) (\<lambda>t. t\<lparr>rt_used := True\<rparr>) (ss_tokens st)\<rparr>"
  have same: "userById ?st1 = userById st" by (intro ext) (simp add: userById_def)
  show thesis
  proof (cases "case userById st (rt_org row) (rt_user row) of None \<Rightarrow> True | Some u \<Rightarrow> us_disabled u \<noteq> None")
    case t: True
    then show thesis using assms True same by (intro gone [OF _ _ refl]) (auto simp: rotate_token_def Let_def split: option.splits)
  next
    case False
    then obtain u where u: "userById st (rt_org row) (rt_user row) = Some u" "us_disabled u = None" by (auto split: option.splits)
    obtain out st2 where run: "issue_session deps now mint u (Some (rt_family row)) PathRefresh None ?st1 = (out, st2)" by fastforce
    then have "r = Rotated out" "st' = st2" using assms True same u by (simp_all add: rotate_token_def Let_def)
    then show thesis using issued [OF _ refl True u] run by simp
  qed
qed

lemma chain_rotate:
  assumes ok: "chain_ok (st, tr)" and t: "t \<in> set (ss_tokens st)" "same_token row t" and mint: "fresh_mint mint tr"
    and run: "rotate_token deps now mint row st = (r, st')"
  shows "chain_ok (st', (drawn mint tr)\<lparr>tr_spent := tr_spent tr @ (if r = Lost then [] else [rt_id row])\<rparr>)"
proof -
  have keep: "(drawn mint tr)\<lparr>tr_spent := tr_spent tr\<rparr> = drawn mint tr" by (simp add: drawn_def)
  let ?st1 = "st\<lparr>ss_tokens := update_where (token_claimable (rt_org row) (rt_id row)) (\<lambda>t. t\<lparr>rt_used := True\<rparr>) (ss_tokens st)\<rparr>"
  let ?tr = "tr\<lparr>tr_spent := tr_spent tr @ [rt_id row]\<rparr>"
  have spent: "chain_ok (?st1, ?tr) \<and> (\<forall>x \<in> set (ss_tokens ?st1). rt_family x = rt_family row \<longrightarrow> rt_used x)"
    if claim: "list_ex (token_claimable (rt_org row) (rt_id row)) (ss_tokens st)"
  proof -
    obtain c where c: "c \<in> set (ss_tokens st)" "token_claimable (rt_org row) (rt_id row) c" using claim by (auto simp: list_ex_iff)
    have ct: "c = t" using only_token [OF ok c(1) t(1)] c(2) t(2) by (simp add: token_claimable_def same_token_def)
    have fam: "rt_family row = rt_family t" "rt_id row = rt_id t" using t(2) by (simp_all add: same_token_def)
    have unspent: "rt_id t \<notin> set (tr_spent tr)" using ok t(1) c(2) ct unfolding chain_ok_def token_claimable_def by blast
    have marked: "chain_ok (?st1, tr)" by (rule chain_where [OF ok marks_flags(2)])
    have used: "rt_used x" if x: "x \<in> set (ss_tokens ?st1)" "rt_id x = rt_id t \<or> rt_family x = rt_family t" for x
    proof -
      obtain y where y: "y \<in> set (ss_tokens st)" "x = (if token_claimable (rt_org row) (rt_id row) y then y\<lparr>rt_used := True\<rparr> else y)"
        using x(1) by (auto simp: in_update_where)
      show ?thesis
      proof (cases "y = t")
        case True
        then show ?thesis using y(2) c(2) ct by simp
      next
        case False
        then have "rt_id y \<noteq> rt_id t" using only_token [OF ok y(1) t(1)] by blast
        moreover then have "x = y" using y(2) fam by (auto simp: token_claimable_def)
        ultimately have "rt_family y = rt_family t" using x(2) by simp
        then show ?thesis using ok y(1) t(1) c(2) ct False \<open>x = y\<close> unfolding chain_ok_def token_claimable_def by blast
      qed
    qed
    have "rt_id t \<in> tr_ids tr" using ok t(1) unfolding chain_ok_def by blast
    with marked unspent used fam show ?thesis unfolding chain_ok_def by auto
  qed
  from run show ?thesis
  proof (cases rule: rotate_cases)
    case lost
    then show ?thesis using chain_drawn [OF ok] keep by simp
  next
    case gone
    then show ?thesis using chain_drawn [OF conjunct1 [OF spent], of mint] by (simp add: drawn_spent)
  next
    case (issued st1 u out)
    have "fresh_mint mint ?tr" using mint by (simp add: fresh_mint_def)
    moreover have "rt_family row \<in> tr_families tr" using ok t by (auto simp: chain_ok_def same_token_def)
    ultimately have "chain_ok (st', drawn mint ?tr)"
      using chain_issue [OF conjunct1 [OF spent [OF issued(3)]] _ issued(6) [unfolded issued(2)]] conjunct2 [OF spent [OF issued(3)]] by auto
    then show ?thesis using issued(1) by (simp add: drawn_spent)
  qed
qed

lemma redeem_tokens:
  assumes "redeem_commit deps now seen org token h st = (r, st')"
  shows "ss_tokens st' = ss_tokens st \<or> (\<exists>u. ss_tokens st' = revoke_seen seen org u (ss_tokens st))"
  using assms by (auto simp: redeem_commit_def Let_def split: option.splits if_splits)

lemma chain_step:
  assumes "session_step deps s s'" and "chain_ok s"
  shows "chain_ok s'"
  using assms
proof (induction rule: session_step.induct)
  case (st_sign_in mint tr now u path proved st r st')
  then show ?case using chain_issue [OF st_sign_in(3) st_sign_in(1,2)] by simp
next
  case (st_rotate t st row mint tr now r st')
  then show ?case using chain_rotate [OF st_rotate(5) st_rotate(1-4)] by simp
next
  case (st_revoke st tr org family)
  then show ?case unfolding revokeFamily_def by (intro chain_where marks_flags)
next
  case (st_change mint tr now seen u h st r st')
  have "chain_ok ((set_hash (us_org u) (us_id u) h st)\<lparr>ss_tokens := revoke_seen seen (us_org u) (us_id u) (ss_tokens (set_hash (us_org u) (us_id u) h st))\<rparr>, tr)"
    unfolding revoke_seen_def using st_change(3) by (intro chain_where marks_flags) simp
  then show ?case by (rule chain_issue [OF _ st_change(1) st_change(2) [unfolded change_commit_def Let_def]]) simp
next
  case (st_redeem now seen org token h st r st' tr)
  from redeem_tokens [OF st_redeem(1)] show ?case
  proof (elim disjE exE)
    assume "ss_tokens st' = ss_tokens st"
    then show ?case using st_redeem(2) chain_tokens [of st' st tr] by simp
  next
    fix u assume "ss_tokens st' = revoke_seen seen org u (ss_tokens st)"
    then show ?case unfolding revoke_seen_def update_where_map by (rule chain_mark [OF st_redeem(2) marks_if [OF marks_flags(1)]])
  qed
next
  case (st_reset st tr seen org user)
  then show ?case unfolding revoke_seen_def by (intro chain_where marks_flags)
next
  case (st_others st tr)
  then show ?case by (subst chain_tokens [of _ st]) simp_all
next
  case (st_sweep st tr now limit)
  then show ?case unfolding pruneExpiredTokens_def by (rule chain_filter)
qed

lemma chain_reach: "(session_step deps)\<^sup>*\<^sup>* s s' \<Longrightarrow> chain_ok s \<Longrightarrow> chain_ok s'"
  by (induction rule: rtranclp_induct) (auto intro: chain_step)

subsection \<open>A family that was revoked\<close>

lemma dead_where: "dead f st \<Longrightarrow> marks g \<Longrightarrow> dead f (st\<lparr>ss_tokens := update_where P g (ss_tokens st)\<rparr>)"
  unfolding dead_def marks_def by (auto simp: in_update_where split: if_splits)

lemma dead_issue:
  assumes "dead f st" and "issue_session deps now mint u family path proved st = (r, st')"
    and "case family of Some g \<Rightarrow> g \<noteq> f | None \<Rightarrow> mi_family mint \<noteq> f"
  shows "dead f st'"
  using assms(2)
proof (cases rule: session_issued)
  case (token tk)
  then show ?thesis using assms(1,3) by (auto simp: dead_def token_row_def split: option.splits)
qed (use assms(1) in simp)

lemma dead_rotate:
  assumes ok: "chain_ok (st, tr)" and t: "t \<in> set (ss_tokens st)" "same_token row t" and "dead f st"
    and run: "rotate_token deps now mint row st = (r, st')"
  shows "dead f st'"
  using run
proof (cases rule: rotate_cases)
  case gone
  then show ?thesis using assms(4) by (simp add: dead_where marks_flags)
next
  case (issued st1 u out)
  obtain c where c: "c \<in> set (ss_tokens st)" "token_claimable (rt_org row) (rt_id row) c" using issued(3) by (auto simp: list_ex_iff)
  then have "c = t" using only_token [OF ok c(1) t(1)] t(2) by (simp add: token_claimable_def same_token_def)
  then have "rt_family row \<noteq> f" using c t(2) assms(4) by (auto simp: dead_def token_claimable_def same_token_def)
  moreover have "dead f st1" using issued(2) assms(4) by (simp add: dead_where marks_flags)
  ultimately show ?thesis using dead_issue [OF _ issued(6)] by simp
qed (use assms(4) in simp)

lemma dead_step:
  assumes "session_step deps s s'" and "chain_ok s" and "dead f (fst s)" and "f \<in> tr_families (snd s)"
  shows "dead f (fst s') \<and> f \<in> tr_families (snd s')"
  using assms
proof (induction rule: session_step.induct)
  case (st_sign_in mint tr now u path proved st r st')
  then show ?case using dead_issue [OF _ st_sign_in(2)] by (auto simp: fresh_mint_def drawn_def)
next
  case (st_rotate t st row mint tr now r st')
  then show ?case using dead_rotate [OF st_rotate(5,1,2) _ st_rotate(4)] by (auto simp: drawn_def)
next
  case (st_revoke st tr org family)
  then show ?case by (simp add: revokeFamily_def dead_where marks_flags)
next
  case (st_change mint tr now seen u h st r st')
  have "dead f ((set_hash (us_org u) (us_id u) h st)\<lparr>ss_tokens := revoke_seen seen (us_org u) (us_id u) (ss_tokens (set_hash (us_org u) (us_id u) h st))\<rparr>)"
    unfolding revoke_seen_def using st_change(4) by (intro dead_where marks_flags) (simp add: dead_def)
  then have "dead f st'"
    by (rule dead_issue [OF _ st_change(2) [unfolded change_commit_def Let_def]]) (use st_change(1,5) in \<open>auto simp: fresh_mint_def\<close>)
  then show ?case using st_change(5) by (simp add: drawn_def)
next
  case (st_redeem now seen org token h st r st' tr)
  from redeem_tokens [OF st_redeem(1)] have "dead f st'"
    using st_redeem(3) by (auto simp: dead_def revoke_seen_def in_update_where split: if_splits)
  then show ?case using st_redeem(4) by simp
next
  case (st_reset st tr seen org user)
  then show ?case by (simp add: revoke_seen_def dead_where marks_flags)
next
  case (st_sweep st tr now limit)
  then show ?case by (auto simp: pruneExpiredTokens_def dead_def)
qed (simp add: dead_def)

lemma dead_reach:
  assumes "(session_step deps)\<^sup>*\<^sup>* s s'" and "chain_ok s" and "dead f (fst s)" and "f \<in> tr_families (snd s)"
  shows "dead f (fst s')"
proof -
  have "chain_ok s' \<and> dead f (fst s') \<and> f \<in> tr_families (snd s')"
    using assms by (induction rule: rtranclp_induct) (auto intro: chain_step dest: dead_step)
  then show ?thesis by simp
qed

text \<open>The tokens of a family are one person's.\<close>

definition same_owner :: "RefreshRow \<Rightarrow> RefreshRow \<Rightarrow> bool" where
  "same_owner x y \<longleftrightarrow> rt_family x = rt_family y \<and> rt_org x = rt_org y \<and> rt_user x = rt_user y"

definition owned :: "Sessions \<Rightarrow> bool" where
  "owned st \<longleftrightarrow> (\<forall>x \<in> set (ss_tokens st). \<forall>y \<in> set (ss_tokens st). rt_family x = rt_family y \<longrightarrow> same_owner x y)"

definition descends :: "RefreshRow \<Rightarrow> Sessions \<Rightarrow> Trace \<Rightarrow> Sessions \<Rightarrow> bool" where
  "descends n st tr st' \<longleftrightarrow>
     (\<forall>x \<in> set (ss_tokens st'). (\<exists>y \<in> set (ss_tokens st). same_owner x y) \<or> (x = n \<and> rt_family n \<notin> tr_families tr))"

lemma owned_descends:
  assumes "owned st" and "chain_ok (st, tr)" and "descends n st tr st'"
  shows "owned st'"
  unfolding owned_def
proof (intro ballI impI)
  fix x y assume xy: "x \<in> set (ss_tokens st')" "y \<in> set (ss_tokens st')" "rt_family x = rt_family y"
  have known: "rt_family a \<in> tr_families tr" if "a \<in> set (ss_tokens st')" "b \<in> set (ss_tokens st)" "same_owner a b" for a b
    using assms(2) that by (auto simp: chain_ok_def same_owner_def)
  show "same_owner x y"
  proof (cases "x = n \<and> rt_family n \<notin> tr_families tr \<or> y = n \<and> rt_family n \<notin> tr_families tr")
    case True
    then have "x = y" using assms(3) xy known unfolding descends_def by metis
    then show ?thesis by (simp add: same_owner_def)
  next
    case False
    then obtain a b where "a \<in> set (ss_tokens st)" "same_owner x a" "b \<in> set (ss_tokens st)" "same_owner y b"
      using assms(3) xy unfolding descends_def by metis
    then show ?thesis using assms(1) xy(3) unfolding owned_def same_owner_def by metis
  qed
qed

lemma descends_marked:
  assumes "marks f" and "ss_tokens st' = update_where P f (ss_tokens st)"
  shows "descends n st tr st'"
  unfolding descends_def
proof (intro ballI disjI1)
  fix x assume "x \<in> set (ss_tokens st')"
  then obtain y where y: "y \<in> set (ss_tokens st)" "x = (if P y then f y else y)" using assms(2) by (auto simp: in_update_where)
  then have "same_owner x y" using assms(1) by (simp add: same_owner_def marks_def)
  with y(1) show "\<exists>y \<in> set (ss_tokens st). same_owner x y" by blast
qed

lemma descends_refl: "ss_tokens st' = ss_tokens st \<Longrightarrow> descends n st tr st'"
  by (auto simp: descends_def same_owner_def)

lemma descends_issue:
  assumes "issue_session deps now mint u family path proved st1 = (r, st')" and "descends (token_row deps now mint u family) st tr st1"
    and "(\<exists>y \<in> set (ss_tokens st). same_owner (token_row deps now mint u family) y) \<or> rt_family (token_row deps now mint u family) \<notin> tr_families tr"
  shows "descends (token_row deps now mint u family) st tr st'"
  using assms(1)
proof (cases rule: session_issued)
  case none
  then show ?thesis using assms(2) by simp
next
  case (token tk)
  then show ?thesis using assms(2,3) unfolding descends_def by auto
qed

lemma descends_step:
  assumes "session_step deps (st, tr) (st', tr')"
  shows "\<exists>n. descends n st tr st'"
  using assms
proof cases
  case (st_sign_in mint now u path proved r)
  have "descends (token_row deps now mint u None) st tr st'"
    using st_sign_in(2) by (intro descends_issue [OF st_sign_in(3)] descends_refl) (simp_all add: token_row_def fresh_mint_def)
  then show ?thesis by blast
next
  case (st_rotate t row mint now r)
  from st_rotate(5) show ?thesis
  proof (cases rule: rotate_cases)
    case lost
    then show ?thesis using descends_refl by metis
  next
    case (gone st1)
    then have "descends undefined st tr st'" by (intro descends_marked [OF marks_flags(2)]) simp
    then show ?thesis by blast
  next
    case (issued st1 u out)
    have "us_org u = rt_org row" "us_id u = rt_user row" using issued(4) by (auto simp: userById_def find_Some_iff)
    then have "same_owner (token_row deps now mint u (Some (rt_family row))) t"
      using st_rotate(3) by (simp add: same_owner_def token_row_def same_token_def)
    moreover have "descends n st tr st1" for n using issued(2) by (intro descends_marked [OF marks_flags(2)]) simp
    ultimately show ?thesis using descends_issue [OF issued(6)] st_rotate(2) by blast
  qed
next
  case (st_revoke org family)
  then have "descends undefined st tr st'" by (intro descends_marked [OF marks_flags(1)]) (simp add: revokeFamily_def)
  then show ?thesis by blast
next
  case (st_change mint now seen u h r)
  have "descends (token_row deps now mint u None) st tr ((set_hash (us_org u) (us_id u) h st)\<lparr>ss_tokens := revoke_seen seen (us_org u) (us_id u) (ss_tokens (set_hash (us_org u) (us_id u) h st))\<rparr>)"
    by (rule descends_marked [OF marks_flags(1)]) (simp add: revoke_seen_def)
  then have "descends (token_row deps now mint u None) st tr st'"
    using st_change(2) by (intro descends_issue [OF st_change(3) [unfolded change_commit_def Let_def]]) (simp_all add: token_row_def fresh_mint_def)
  then show ?thesis by blast
next
  case (st_redeem now seen org token h r)
  from redeem_tokens [OF st_redeem(2)] show ?thesis
    using descends_refl [of st' st] descends_marked [OF marks_flags(1)] unfolding revoke_seen_def by blast
next
  case (st_reset seen org user)
  then have "descends undefined st tr st'" by (intro descends_marked [OF marks_flags(1)]) (simp add: revoke_seen_def)
  then show ?thesis by blast
next
  case (st_others resets users orgs)
  then show ?thesis using descends_refl [of st' st] by auto
next
  case (st_sweep now limit)
  then show ?thesis by (auto simp: pruneExpiredTokens_def descends_def same_owner_def)
qed

lemma owned_reach:
  assumes "(session_step deps)\<^sup>*\<^sup>* s s'" and "chain_ok s" and "owned (fst s)"
  shows "chain_ok s' \<and> owned (fst s')"
  using assms(1)
proof induction
  case (step s1 s2)
  then have ok: "chain_ok s1" "owned (fst s1)" "chain_ok s2" by (auto intro: chain_step)
  obtain st tr st' tr' where s: "s1 = (st, tr)" "s2 = (st', tr')" by fastforce
  then show ?case using owned_descends [of st tr] descends_step [of deps st tr st' tr'] ok step.hyps(2) by auto
qed (use assms in simp)

lemma dead_revoked:
  assumes "owned st" and "t \<in> set (ss_tokens st)"
  shows "dead (rt_family t) (revokeFamily (rt_org t) (rt_family t) st)"
  unfolding dead_def
proof (intro ballI impI)
  fix x assume x: "x \<in> set (ss_tokens (revokeFamily (rt_org t) (rt_family t) st))" "rt_family x = rt_family t"
  then obtain y where y: "y \<in> set (ss_tokens st)"
    "x = (if rt_org y = rt_org t \<and> rt_family y = rt_family t \<and> \<not> rt_revoked y then y\<lparr>rt_revoked := True\<rparr> else y)"
    by (auto simp: revokeFamily_def in_update_where)
  then have "rt_family y = rt_family t" using x(2) by (auto split: if_splits)
  then have "rt_org y = rt_org t" using assms y(1) unfolding owned_def same_owner_def by metis
  with y(2) \<open>rt_family y = rt_family t\<close> show "rt_revoked x" by auto
qed

text \<open>A dead family's tokens are refused, and the refusal changes nothing.\<close>

lemma dead_refused:
  assumes "dead f st" and "find_token deps st token = Some row" and "rt_family row = f"
  shows "refresh deps now mint token st = (None, st)"
proof -
  have "row \<in> set (ss_tokens st)" using assms(2) by (auto simp: find_token_def find_Some_iff)
  then show ?thesis using assms by (simp add: refresh_def refusable_def dead_def)
qed

text \<open>A family that was revoked stays dead through every later transaction.\<close>

lemma revoked_stays_dead:
  assumes "chain_ok (st, tr)" and "owned st" and "t \<in> set (ss_tokens st)"
    and "(session_step deps)\<^sup>*\<^sup>* (revokeFamily (rt_org t) (rt_family t) st, tr) (st', tr')"
  shows "dead (rt_family t) st'"
proof -
  have "chain_ok (revokeFamily (rt_org t) (rt_family t) st, tr)" using chain_step [OF st_revoke] assms(1) by blast
  moreover have "rt_family t \<in> tr_families tr" using assms(1,3) unfolding chain_ok_def by blast
  ultimately show ?thesis using dead_reach [OF assms(4)] dead_revoked [OF assms(2,3)] by simp
qed

subsection \<open>Refresh tokens: claims\<close>

definition no_trace :: Trace where
  "no_trace = \<lparr>tr_spent = [], tr_ids = {}, tr_families = {}\<rparr>"

lemma start_chain: "ss_tokens st = [] \<Longrightarrow> chain_ok (st, no_trace) \<and> owned st"
  by (simp add: chain_ok_def owned_def no_trace_def)

text \<open>C17 - However sign-ins, rotations, revocations, password changes, resets and sweeps interleave their
  transactions, no refresh token is ever spent twice, however many callers present it at once; and a family
  has at most one token that is not yet spent.\<close>

theorem token_spent_once:
  assumes "ss_tokens start = []" and "(session_step deps)\<^sup>*\<^sup>* (start, no_trace) (st, tr)"
  shows "distinct (tr_spent tr)
    \<and> (\<forall>t \<in> set (ss_tokens st). \<forall>t' \<in> set (ss_tokens st). rt_family t = rt_family t' \<and> \<not> rt_used t \<and> \<not> rt_used t' \<longrightarrow> t = t')"
proof -
  have "chain_ok (st, tr)" using chain_reach [OF assms(2)] start_chain [OF assms(1)] by blast
  then show ?thesis unfolding chain_ok_def prod.case by blast
qed

text \<open>C18 - Revoking a family is final: once it was revoked, through any later interleaving - rotations that had
  read one of its tokens before included - every token of the family is revoked, and presenting one is
  refused and changes nothing.\<close>

theorem revoked_family_dead:
  assumes "ss_tokens start = []" and "(session_step deps)\<^sup>*\<^sup>* (start, no_trace) (st, tr)" and "t \<in> set (ss_tokens st)"
    and "(session_step deps)\<^sup>*\<^sup>* (revokeFamily (rt_org t) (rt_family t) st, tr) (st', tr')"
  shows "dead (rt_family t) st'
    \<and> (\<forall>now mint token row. find_token deps st' token = Some row \<and> rt_family row = rt_family t \<longrightarrow> refresh deps now mint token st' = (None, st'))"
proof -
  have "chain_ok (st, tr) \<and> owned st" using owned_reach [OF assms(2)] start_chain [OF assms(1)] by simp
  then have "dead (rt_family t) st'" using revoked_stays_dead [OF _ _ assms(3,4)] by blast
  then show ?thesis using dead_refused by blast
qed

subsection \<open>One refresh\<close>

lemma userById_row: "userById st org user = Some u \<Longrightarrow> u \<in> set (ss_users st) \<and> us_org u = org \<and> us_id u = user"
  by (auto simp: userById_def find_Some_iff)

lemma refresh_lost:
  assumes "find_token deps st token = Some row" and "\<not> refusable now row" and "rt_used row" and "distinct (map rt_id (ss_tokens st))"
  shows "refresh deps now mint token st = (None, revokeFamily (rt_org row) (rt_family row) st)"
proof -
  have row: "row \<in> set (ss_tokens st)" using assms(1) by (auto simp: find_token_def find_Some_iff)
  have "\<not> list_ex (token_claimable (rt_org row) (rt_id row)) (ss_tokens st)"
  proof
    assume "list_ex (token_claimable (rt_org row) (rt_id row)) (ss_tokens st)"
    then obtain t where t: "t \<in> set (ss_tokens st)" "rt_id t = rt_id row" "\<not> rt_used t" by (auto simp: list_ex_iff token_claimable_def)
    then have "t = row" using assms(4) row by (metis distinct_map inj_onD)
    with t assms(3) show False by simp
  qed
  then show ?thesis using assms(1,2) by (simp add: refresh_def rotate_token_def)
qed

lemma find_update_where:
  "(\<And>r. Q (f r) = Q r) \<Longrightarrow> find Q (update_where P f rows) = map_option (\<lambda>r. if P r then f r else r) (find Q rows)"
  by (induction rows) (auto simp: update_where_def)

lemma find_append: "find P (xs @ ys) = (case find P xs of Some x \<Rightarrow> Some x | None \<Rightarrow> find P ys)"
  by (induction xs) auto

text \<open>C19 - A refresh token presented again after it was exchanged, however long ago and whatever happened since,
  is refused; and if it has not expired or been revoked by then, the session ends for both holders: that
  presentation revokes the family, every token of it - those later exchanges gave included - is revoked
  from then on through any interleaving, and presenting one is refused and changes nothing. A spent token that has
  expired or was revoked is refused without touching the family: \<open>refresh\<close> reads both ahead of the claim.\<close>

theorem reuse_ends_family:
  assumes "ss_tokens start = []" and "(session_step deps)\<^sup>*\<^sup>* (start, no_trace) (st, tr)"
    and "find_token deps st token = Some row" and "rt_used row \<or> rt_id row \<in> set (tr_spent tr)"
  shows "\<exists>st1. refresh deps now mint token st = (None, st1)
    \<and> (now < rt_expires row \<and> \<not> rt_revoked row \<longrightarrow>
         (\<forall>st2 tr2. (session_step deps)\<^sup>*\<^sup>* (st1, tr) (st2, tr2) \<longrightarrow> dead (rt_family row) st2
            \<and> (\<forall>now2 mint2 token2 row2. find_token deps st2 token2 = Some row2 \<and> rt_family row2 = rt_family row \<longrightarrow>
                 refresh deps now2 mint2 token2 st2 = (None, st2))))
    \<and> (rt_expires row \<le> now \<or> rt_revoked row \<longrightarrow> st1 = st)"
proof -
  have ok: "chain_ok (st, tr)" "owned st" using owned_reach [OF assms(2)] start_chain [OF assms(1)] by simp_all
  have row: "row \<in> set (ss_tokens st)" using assms(3) by (auto simp: find_token_def find_Some_iff)
  then have used: "rt_used row" using assms(4) ok(1) unfolding chain_ok_def by blast
  show ?thesis
  proof (cases "refusable now row")
    case True
    then have "refresh deps now mint token st = (None, st)" using assms(3) by (simp add: refresh_def)
    with True show ?thesis by (auto simp: refusable_def)
  next
    case False
    have "distinct (map rt_id (ss_tokens st))" using ok(1) unfolding chain_ok_def by blast
    from refresh_lost [OF assms(3) False used this]
    have "refresh deps now mint token st = (None, revokeFamily (rt_org row) (rt_family row) st)" by simp
    moreover have "dead (rt_family row) st2"
      if "(session_step deps)\<^sup>*\<^sup>* (revokeFamily (rt_org row) (rt_family row) st, tr) (st2, tr2)" for st2 tr2
      by (rule revoked_stays_dead [OF ok row that])
    moreover have "\<not> (rt_expires row \<le> now \<or> rt_revoked row)" using False by (auto simp: refusable_def)
    ultimately show ?thesis using dead_refused by blast
  qed
qed

subsection \<open>Signing in\<close>

lemma scan_found: "length found \<le> 1 \<Longrightarrow>
  scan_orgs look orgs found = (case found @ List.map_filter look orgs of [r] \<Rightarrow> Some r | _ \<Rightarrow> None)"
proof (induction look orgs found rule: scan_orgs.induct)
  case (1 look found)
  then show ?case by (cases found) (auto simp: map_filter_simps)
next
  case (2 look org orgs found)
  show ?case
  proof (cases "look org")
    case None
    then show ?thesis using 2 by (simp add: map_filter_simps Let_def)
  next
    case (Some r)
    show ?thesis
    proof (cases found)
      case Nil
      then show ?thesis using 2 Some by (simp add: map_filter_simps Let_def)
    next
      case (Cons x xs)
      then show ?thesis using 2(2) Some by (simp add: map_filter_simps Let_def)
    qed
  qed
qed

lemma userIn_row: "userIn st org email = Some u \<Longrightarrow> u \<in> set (ss_users st) \<and> us_org u = org \<and> same_email (us_email u) email"
  by (auto simp: userIn_def find_Some_iff)

lemma userIn_complete:
  "v \<in> set (ss_users st) \<Longrightarrow> same_email (us_email v) email \<Longrightarrow> \<exists>u. userIn st (us_org v) email = Some u"
  unfolding userIn_def by (cases "find (\<lambda>u. us_org u = us_org v \<and> same_email (us_email u) email) (ss_users st)") (auto simp: find_None_iff)

lemma orgIdForSlug_row: "orgIdForSlug st slug = Some i \<Longrightarrow> \<exists>o' \<in> set (ss_orgs st). og_id o' = i \<and> og_slug o' = slug \<and> \<not> og_deleted o'"
  by (auto simp: orgIdForSlug_def find_Some_iff)

abbreviation scanned :: "Sessions \<Rightarrow> string list" where
  "scanned st \<equiv> take MAX_UNSCOPED_ORG_SCAN (allOrgIds st)"

text \<open>An account is found in the organization that was named, or it is the only one the scan sees.\<close>

lemma find_user_cases:
  assumes "find_user st email organization = Some u"
  obtains (named) name o' where "organization = Some name" "trimmed name \<noteq> []" "o' \<in> set (ss_orgs st)" "\<not> og_deleted o'"
      "og_slug o' = normal_text name" "userIn st (og_id o') email = Some u"
  | (unnamed) "\<forall>name. organization = Some name \<longrightarrow> trimmed name = []"
      "List.map_filter (\<lambda>org. userIn st org email) (scanned st) = [u]"
proof (cases "\<exists>name. organization = Some name \<and> trimmed name \<noteq> []")
  case True
  with assms show ?thesis
    by (auto simp: find_user_def split: bind_splits dest!: orgIdForSlug_row intro: named)
next
  case False
  with assms have "scan_orgs (\<lambda>org. userIn st org email) (scanned st) [] = Some u"
    by (auto simp: find_user_def split: option.splits)
  with False show ?thesis
    using scan_found [of "[]" "\<lambda>org. userIn st org email" "scanned st"] by (intro unnamed) (auto split: list.splits)
qed

lemma map_filter_single:
  assumes "List.map_filter f xs = [y]"
  shows "(\<exists>x \<in> set xs. f x = Some y) \<and> (\<forall>x \<in> set xs. \<forall>z. f x = Some z \<longrightarrow> z = y)"
proof -
  have iff: "z \<in> set (List.map_filter f xs) \<longleftrightarrow> (\<exists>x \<in> set xs. f x = Some z)" for z
    by (force simp: List.map_filter_def)
  have "z \<in> set (List.map_filter f xs) \<longleftrightarrow> z = y" for z using assms by simp
  with iff show ?thesis by metis
qed

text \<open>C21 - Tokens come out of a sign-in only for a row that earned them: an active account with that address
  whose stored hash the password verifies, of which no second factor is required and which every gate
  admits. The organization and the role in the access token are that row's, never the request's. When the
  request names an organization, the row is one of the organization, not deleted, that has this slug; a
  password held in another one earns nothing. When it names none, or a blank one, the row is the only account
  with this address among the organizations looked at, the first 500: no other of them has one.\<close>

theorem login_earned:
  assumes "login deps now mint request st = (Inr (Some (Session (SessionTokens tk))), st')"
  shows "\<exists>u \<in> set (ss_users st). \<exists>h. same_email (us_email u) (normal_text (lq_email request)) \<and> us_hash u = Some h
    \<and> check_password deps (lq_password request) h = Some True \<and> us_disabled u = None \<and> \<not> required_factor deps u
    \<and> admitSignIn (ld_gates deps) (sign_in_context deps u PathPassword None) = None
    \<and> tk_orgId tk = us_org u \<and> tk_userId tk = us_id u \<and> tk_access tk = ld_sign deps (access_claims deps now u)
    \<and> (case lq_organization request of
         Some name \<Rightarrow> trimmed name \<noteq> [] \<longrightarrow>
           (\<exists>o' \<in> set (ss_orgs st). \<not> og_deleted o' \<and> og_slug o' = normal_text name \<and> us_org u = og_id o')
       | None \<Rightarrow> True)
    \<and> ((case lq_organization request of Some name \<Rightarrow> trimmed name = [] | None \<Rightarrow> True) \<longrightarrow>
         List.map_filter (\<lambda>org. userIn st org (normal_text (lq_email request))) (take MAX_UNSCOPED_ORG_SCAN (allOrgIds st)) = [u]
         \<and> us_org u \<in> set (take MAX_UNSCOPED_ORG_SCAN (allOrgIds st))
         \<and> (\<forall>v \<in> set (ss_users st). us_org v \<in> set (take MAX_UNSCOPED_ORG_SCAN (allOrgIds st))
              \<and> same_email (us_email v) (normal_text (lq_email request)) \<longrightarrow> us_org v = us_org u))"
proof -
  let ?email = "normal_text (lq_email request)"
  obtain u st1 where u: "login_candidate deps request st = Proved u" and st1: "rehash deps mint (lq_password request) u st = Some st1"
    and fin: "login_finish deps now mint u st1 = (Session (SessionTokens tk), st')"
    using assms by (auto simp: login_def split: Candidate.splits option.splits prod.splits)
  obtain h where h: "find_user st ?email (lq_organization request) = Some u" "us_hash u = Some h" "us_disabled u = None"
    "check_password deps (lq_password request) h = Some True"
    using u by (auto simp: login_candidate_def Let_def split: if_splits option.splits bool.splits)
  have free: "\<not> required_factor deps u" and iss: "issue_session deps now mint u None PathPassword None st1 = (SessionTokens tk, st')"
    using fin by (auto simp: login_finish_def split: if_splits prod.splits)
  from iss have tk: "admitSignIn (ld_gates deps) (sign_in_context deps u PathPassword None) = None" "tk_orgId tk = us_org u" "tk_userId tk = us_id u"
    "tk_access tk = ld_sign deps (access_claims deps now u)" by (cases rule: session_issued, auto)+
  from h(1) show ?thesis
  proof (cases rule: find_user_cases)
    case (named name o')
    then show ?thesis
      using userIn_row [OF named(6)] h(2-) free tk by - (rule bexI [of _ u], rule exI [of _ h], auto)
  next
    case unnamed
    note one = map_filter_single [OF unnamed(2)]
    then obtain i where i: "i \<in> set (scanned st)" "userIn st i ?email = Some u" by blast
    have "us_org v = us_org u" if v: "v \<in> set (ss_users st)" "us_org v \<in> set (scanned st)" "same_email (us_email v) ?email" for v
    proof -
      obtain w where w: "userIn st (us_org v) ?email = Some w" using userIn_complete [OF v(1,3)] by blast
      then have "w = u" using one v(2) by blast
      with userIn_row [OF w] show ?thesis by simp
    qed
    moreover have "case lq_organization request of Some name \<Rightarrow> trimmed name = [] | None \<Rightarrow> True"
      using unnamed(1) by (auto split: option.splits)
    ultimately show ?thesis
      using userIn_row [OF i(2)] i(1) unnamed h(2-) free tk by - (rule bexI [of _ u], rule exI [of _ h], auto split: option.splits)
  qed
qed

text \<open>Past the bound the scan sees nothing: an address in one of the first organizations and in a later one
  is not ambiguous to it.\<close>

lemma scan_beyond:
  assumes "length orgs = MAX_UNSCOPED_ORG_SCAN" and "allOrgIds st = orgs @ later"
  shows "find_user st email None = scan_orgs (\<lambda>org. userIn st org email) orgs []"
  using assms by (simp add: find_user_def)

subsection \<open>Challenges\<close>

text \<open>What is relied on of the signing: a token verifies as its claims, for its issuer and audience, until it expires.\<close>

definition jwt_ok :: "LoginDeps \<Rightarrow> bool" where
  "jwt_ok deps \<longleftrightarrow> (\<forall>c iss aud t. ld_jwtVerify deps (ld_sign deps c) iss aud t = (if jw_iss c = iss \<and> jw_aud c = aud \<and> t < jw_exp c then Some c else None))"

text \<open>C22 - A challenge is read back as the person it names by a reader of the same purpose until it expires, and
  by no other: one minted for enrolling never completes a sign-in, nor the reverse. An access token is no
  challenge, and no challenge verifies as an access token.\<close>

theorem challenge_exact:
  assumes "jwt_ok deps"
  shows "readChallenge deps later (challenge deps now u p lifetime) q
      = (if p = q \<and> later div 1000 < now div 1000 + lifetime then Some (us_org u, us_id u) else None)
    \<and> readChallenge deps later (ld_sign deps (access_claims deps now u)) q = None
    \<and> ld_jwtVerify deps (challenge deps now u p lifetime) (ld_issuer deps) (ld_audience deps) (later div 1000) = None"
proof -
  have "purpose_text p = purpose_text q \<longleftrightarrow> p = q" by (cases p; cases q) simp_all
  moreover have "challengeAudience a \<noteq> a" "a \<noteq> challengeAudience a" for a by (simp_all add: challengeAudience_def)
  ultimately show ?thesis using assms by (simp add: readChallenge_def challenge_def access_claims_def jwt_ok_def)
qed

subsection \<open>Changing a password\<close>

lemma verify_made:
  assumes "reads_nats (ld_number deps)" and "derives (ld_scrypt deps)" and "make_hash deps salt password = Some h"
  shows "check_password deps password h = Some True \<and> \<not> needsRehash (ld_number deps) h"
proof -
  obtain key where key: "hashPassword (ld_scrypt deps) (ld_nfkc deps) salt password = Some (hash_text N_COST R_COST P_COST salt key)"
    "ld_scrypt deps (ld_nfkc deps password) salt KEY_BYTES N_COST R_COST P_COST = Some key" "length key = KEY_BYTES"
    "parse_hash (ld_number deps) (hash_text N_COST R_COST P_COST salt key) = Some \<lparr>pa_n = N_COST, pa_r = R_COST, pa_p = P_COST, pa_salt = salt, pa_key = key\<rparr>"
    using hashed [OF assms(1,2), of "ld_nfkc deps" salt password] by blast
  then have h: "h = hash_text N_COST R_COST P_COST salt key" using assms(3) by (simp add: make_hash_def)
  show ?thesis using key(2-) unfolding h check_password_def verifyPassword_def needsRehash_def by simp
qed

lemma userById_set_hash:
  "userById (set_hash org user h st) org' user' =
     map_option (\<lambda>u. if us_org u = org \<and> us_id u = user then u\<lparr>us_hash := Some h\<rparr> else u) (userById st org' user')"
  unfolding userById_def set_hash_def by (simp add: find_update_where)

lemma check_refused: "change_check deps mint org user current next' st \<noteq> CheckRefused (Changed tk email)"
  by (auto simp: change_check_def split: option.splits if_splits bool.splits)

text \<open>Run alone, a password change sets the new password and leaves the person one session, the one it gives.\<close>

theorem change_ends_sessions:
  assumes "reads_nats (ld_number deps)" and "derives (ld_scrypt deps)"
    and "changePassword deps now mint org user current next' st = (Inr (Changed tk email), st')"
  shows "(\<exists>u h. userById st' org user = Some u \<and> us_hash u = Some h \<and> check_password deps next' h = Some True)
    \<and> (\<forall>t \<in> set (ss_tokens st'). rt_org t = org \<and> rt_user t = user \<and> \<not> rt_revoked t \<longrightarrow> rt_id t = mi_id mint \<and> tk_refresh tk = mi_token mint)"
proof -
  obtain u h out where c: "change_check deps mint org user current next' st = CheckPassed u h"
    and run: "change_commit deps now mint (token_ids st) u h st = (SessionTokens tk, st')"
    using assms(3) check_refused by (fastforce simp: changePassword_def split: ChangeCheck.splits prod.splits SessionOutcome.splits)
  have u: "userById st org user = Some u" "make_hash deps (mi_salt mint) next' = Some h"
    using c by (auto simp: change_check_def split: option.splits if_splits bool.splits)
  have who: "us_org u = org" "us_id u = user" using userById_row [OF u(1)] by simp_all
  let ?st2 = "(set_hash org user h st)\<lparr>ss_tokens := revoke_seen (token_ids st) org user (ss_tokens st)\<rparr>"
  have "issue_session deps now mint u None PathPasswordChange None ?st2 = (SessionTokens tk, st')"
    using run who by (simp add: change_commit_def Let_def)
  then have st': "st' = ?st2\<lparr>ss_tokens := ss_tokens ?st2 @ [token_row deps now mint u None]\<rparr>" "tk_refresh tk = mi_token mint"
    by (cases rule: session_issued, auto)+
  have "userById st' org user = Some (u\<lparr>us_hash := Some h\<rparr>)"
    using userById_set_hash [of org user h st org user] u(1) who unfolding st'(1) by (simp add: userById_def)
  moreover have "rt_revoked t" if t: "t \<in> set (revoke_seen (token_ids st) org user (ss_tokens st))" "rt_org t = org" "rt_user t = user" for t
  proof -
    obtain y where "y \<in> set (ss_tokens st)" "t = (if rt_id y \<in> token_ids st \<and> rt_org y = org \<and> rt_user y = user \<and> \<not> rt_revoked y then y\<lparr>rt_revoked := True\<rparr> else y)"
      using t(1) unfolding revoke_seen_def in_update_where by blast
    then show ?thesis using t(2,3) by (auto simp: token_ids_def split: if_splits)
  qed
  ultimately show ?thesis
    using verify_made [OF assms(1,2) u(2)] st'(2) unfolding st'(1) by (auto simp: token_row_def)
qed

lemma find_row: "find_token deps st token = Some row \<Longrightarrow> row \<in> set (ss_tokens st) \<and> rt_hash row = ld_digest deps token"
  by (auto simp: find_token_def find_Some_iff)

text \<open>A token that is in the table, unspent, unrevoked and not expired is exchanged, if its person is active.\<close>

lemma refresh_live:
  assumes "find_token deps st token = Some row" and "\<not> rt_used row" "\<not> rt_revoked row" "now < rt_expires row"
    and "userById st (rt_org row) (rt_user row) = Some u" "us_disabled u = None"
  shows "\<exists>out st'. refresh deps now mint token st = (Some out, st')"
proof -
  have "list_ex (token_claimable (rt_org row) (rt_id row)) (ss_tokens st)"
    using find_row [OF assms(1)] assms(2,3) by (auto simp: list_ex_iff token_claimable_def)
  then show ?thesis
    using assms by (simp add: refresh_def refusable_def rotate_token_def userById_def Let_def split: prod.splits)
qed

text \<open>C20 - Changing a password does not end a session that is being renewed: when a rotation of the person's
  token commits after the statement that revokes their tokens took its snapshot and before it is done, the
  token the rotation gave is neither revoked nor spent afterwards, and renews the session. The family's lock,
  which orders a rotation before or after the revocation of its family, is not taken by the statement.\<close>

theorem rotation_survives_change:
  assumes "rotate_token deps now mint row st = (Rotated (SessionTokens tk), st1)"
    and "userById st (rt_org row) (rt_user row) = Some u" and "mi_id mint \<notin> token_ids st"
    and "ld_digest deps (mi_token mint) \<notin> rt_hash ` set (ss_tokens st)"
    and "change_commit deps now' mint' (token_ids st) u h st1 = (r, st2)"
    and "now'' < now + ld_refreshTtl deps * 1000"
  shows "\<exists>out st3. refresh deps now'' mint'' (tk_refresh tk) st2 = (Some out, st3)"
proof -
  let ?new = "token_row deps now mint u (Some (rt_family row))"
  have who: "us_org u = rt_org row" "us_id u = rt_user row" using userById_row [OF assms(2)] by simp_all
  obtain stu where st1: "us_disabled u = None" "tk_refresh tk = mi_token mint" "ss_users st1 = ss_users st"
    "ss_tokens st1 = update_where (token_claimable (rt_org row) (rt_id row)) (\<lambda>t. t\<lparr>rt_used := True\<rparr>) (ss_tokens st) @ [?new]"
    using assms(1)
  proof (cases rule: rotate_cases)
    case (issued stu u' out)
    then have "issue_session deps now mint u (Some (rt_family row)) PathRefresh None stu = (SessionTokens tk, st1)" using assms(2) by simp
    then show thesis
      by (cases rule: session_issued) (use issued assms(2) in \<open>auto intro: that\<close>)
  qed simp_all
  let ?st' = "set_hash (us_org u) (us_id u) h st1"
  let ?st2 = "?st'\<lparr>ss_tokens := revoke_seen (token_ids st) (us_org u) (us_id u) (ss_tokens ?st')\<rparr>"
  have none: "find (\<lambda>t. rt_hash t = ld_digest deps (mi_token mint)) (update_where P f (ss_tokens st)) = None" if "\<And>t. rt_hash (f t) = rt_hash t" for P f
    using assms(4) that by (force simp: find_update_where find_None_iff)
  have kept: "find (\<lambda>t. rt_hash t = ld_digest deps (mi_token mint)) (ss_tokens ?st2) = Some ?new"
    using none [of "\<lambda>t. t\<lparr>rt_used := True\<rparr>"] assms(3) st1(4)
    by (simp add: revoke_seen_def find_update_where find_append token_row_def)
  have "find_token deps st2 (tk_refresh tk) = Some ?new"
    using assms(5) [unfolded change_commit_def Let_def]
    by (cases rule: session_issued) (use kept st1(2) in \<open>simp_all add: find_token_def find_append\<close>)
  moreover have users: "ss_users st2 = ss_users ?st'"
    using assms(5) [unfolded change_commit_def Let_def] by (cases rule: session_issued) simp_all
  have "userById st2 = userById ?st'" by (intro ext) (simp add: userById_def users)
  then have "userById st2 (rt_org row) (rt_user row) = Some (u\<lparr>us_hash := Some h\<rparr>)"
    using userById_set_hash [of "us_org u" "us_id u" h st1 "rt_org row" "rt_user row"] assms(2) who st1(3) by (simp add: userById_def)
  ultimately show ?thesis
    using refresh_live [of deps st2 "tk_refresh tk" ?new now'' "u\<lparr>us_hash := Some h\<rparr>" mint''] assms(6) st1(1) who
    by (simp add: token_row_def)
qed

text \<open>A sign-in that read the row before a password change writes the old password back after it, where the
  hash it had read was due for a rehash.\<close>

theorem rehash_undoes_change:
  assumes "reads_nats (ld_number deps)" and "derives (ld_scrypt deps)"
    and "login_candidate deps request st = Proved u" and "us_hash u = Some h" and "needsRehash (ld_number deps) h"
    and "userById st1 (us_org u) (us_id u) = Some v" and "rehash deps mint (lq_password request) u st1 = Some st2"
  shows "\<exists>w h'. userById st2 (us_org u) (us_id u) = Some w \<and> us_hash w = Some h' \<and> check_password deps (lq_password request) h' = Some True"
proof -
  obtain h' where h': "make_hash deps (mi_salt mint) (lq_password request) = Some h'" "st2 = set_hash (us_org u) (us_id u) h' st1"
    using assms(4,5,7) by (auto simp: rehash_def)
  have "userById st2 (us_org u) (us_id u) = Some (v\<lparr>us_hash := Some h'\<rparr>)"
    using userById_set_hash [of "us_org u" "us_id u" h' st1 "us_org u" "us_id u"] assms(6) h'(2) userById_row [OF assms(6)] by simp
  then show ?thesis using verify_made [OF assms(1,2) h'(1)] by auto
qed

subsection \<open>Recovery links: claims\<close>

lemma strict_no_dot: "uuid_strict s \<Longrightarrow> CHR ''.'' \<notin> set s"
proof -
  assume s: "uuid_strict s"
  have sub: "set s \<subseteq> insert (CHR ''-'') (\<Union> (set ` set (js_split (CHR ''-'') s)))" for s
  proof (induction s)
    case (Cons x xs)
    then show ?case using js_split_nonempty [of "CHR ''-''" xs] by (cases "js_split (CHR ''-'') xs") auto
  qed simp
  have plain: "\<forall>p \<in> set (js_split (CHR ''-'') s). \<forall>c \<in> set p. c \<noteq> CHR ''.''"
  proof (intro ballI notI)
    fix p c assume p: "p \<in> set (js_split (CHR ''-'') s)" "c \<in> set p" "c = CHR ''.''"
    have "\<not> hex_char (CHR ''.'')" by code_simp
    then show False using s p unfolding uuid_strict_def list_all_iff by blast
  qed
  show ?thesis
  proof
    assume "CHR ''.'' \<in> set s"
    then have "CHR ''.'' = CHR ''-'' \<or> (\<exists>p \<in> set (js_split (CHR ''-'') s). CHR ''.'' \<in> set p)" using sub [of s] by blast
    with plain show False by auto
  qed
qed

lemma findUser_row:
  assumes "findUser st email = Some u"
  shows "u \<in> set (ss_users st) \<and> us_disabled u = None \<and> us_hash u \<noteq> None \<and> \<not> us_shared u \<and> same_email (us_email u) email"
proof -
  have "List.map_filter (recoverable st email) (take MAX_UNSCOPED_ORG_SCAN (allOrgIds st)) = [u]"
    using assms scan_found [of "[]" "recoverable st email" "take MAX_UNSCOPED_ORG_SCAN (allOrgIds st)"]
    by (auto simp: findUser_def split: list.splits)
  then have "u \<in> set (List.map_filter (recoverable st email) (take MAX_UNSCOPED_ORG_SCAN (allOrgIds st)))" by simp
  then obtain org where "recoverable st email org = Some u" by (auto simp: List.map_filter_def)
  then show ?thesis by (auto simp: recoverable_def find_Some_iff)
qed

lemma request_row:
  assumes "recovery_request deps now secret email st = (Some (address, token), st1)"
  obtains u where "findUser st (normal_text email) = Some u" "token = us_org u @ ''.'' @ secret"
    "ss_users st1 = ss_users st" "ss_tokens st1 = ss_tokens st"
    "ss_resets st1 = update_where (\<lambda>r. rr_org r = us_org u \<and> rr_user r = us_id u \<and> \<not> rr_used r) (\<lambda>r. r\<lparr>rr_used := True\<rparr>) (ss_resets st)
       @ [\<lparr>rr_org = us_org u, rr_user = us_id u, rr_hash = ld_digest deps token, rr_expires = now + RESET_TTL_SECONDS * 1000, rr_used = False\<rparr>]"
  using assms by (auto simp: recovery_request_def Let_def split: option.splits if_splits)

lemma userById_member:
  assumes "u \<in> set (ss_users st)" and "distinct (map us_id (ss_users st))"
  shows "userById st (us_org u) (us_id u) = Some u"
  unfolding userById_def
proof (cases "find (\<lambda>v. us_org v = us_org u \<and> us_id v = us_id u) (ss_users st)")
  case None
  then show "find (\<lambda>v. us_org v = us_org u \<and> us_id v = us_id u) (ss_users st) = Some u" using assms(1) by (auto simp: find_None_iff)
next
  case (Some v)
  then have "v \<in> set (ss_users st)" "us_id v = us_id u" by (auto simp: find_Some_iff)
  then have "v = u" using assms by (metis distinct_map inj_onD)
  with Some show "find (\<lambda>v. us_org v = us_org u \<and> us_id v = us_id u) (ss_users st) = Some u" by simp
qed

text \<open>The links of a person after one was sent: the older are spent, the new one is found by its text.\<close>

definition links_sent :: "LoginDeps \<Rightarrow> int \<Rightarrow> string \<Rightarrow> string \<Rightarrow> string \<Rightarrow> ResetRow list \<Rightarrow> ResetRow list" where
  "links_sent deps now token org user resets =
     update_where (\<lambda>r. rr_org r = org \<and> rr_user r = user \<and> \<not> rr_used r) (\<lambda>r. r\<lparr>rr_used := True\<rparr>) resets
       @ [\<lparr>rr_org = org, rr_user = user, rr_hash = ld_digest deps token, rr_expires = now + RESET_TTL_SECONDS * 1000, rr_used = False\<rparr>]"

lemma link_found:
  assumes "ld_digest deps token \<notin> rr_hash ` set resets" and "now' < now + RESET_TTL_SECONDS * 1000"
  shows "find (live_link deps now' org token) (links_sent deps now token org user resets)
    = Some \<lparr>rr_org = org, rr_user = user, rr_hash = ld_digest deps token, rr_expires = now + RESET_TTL_SECONDS * 1000, rr_used = False\<rparr>"
proof -
  have "rr_hash r \<noteq> ld_digest deps token" if "r \<in> set resets" for r using assms(1) that by (metis image_eqI)
  then have "\<not> live_link deps now' org token (if P r then r\<lparr>rr_used := True\<rparr> else r)" if "r \<in> set resets" for r P
    using that by (simp add: live_link_def)
  then have "find (live_link deps now' org token) (update_where P (\<lambda>r. r\<lparr>rr_used := True\<rparr>) resets) = None" for P
    unfolding find_None_iff in_update_where by blast
  then show ?thesis using assms(2) by (simp add: links_sent_def find_append live_link_def)
qed

lemma link_used:
  assumes fresh: "ld_digest deps token \<notin> rr_hash ` set resets" and live: "now' < now + RESET_TTL_SECONDS * 1000"
    and r: "r \<in> set (update_where (live_link deps now' org token) (\<lambda>r. r\<lparr>rr_used := True\<rparr>) (links_sent deps now token org user resets))"
      "rr_hash r = ld_digest deps token \<or> rr_org r = org \<and> rr_user r = user"
  shows "rr_used r"
proof -
  obtain r1 where r1: "r1 \<in> set (links_sent deps now token org user resets)" "r = (if live_link deps now' org token r1 then r1\<lparr>rr_used := True\<rparr> else r1)"
    using r(1) unfolding in_update_where by blast
  consider "r1 = \<lparr>rr_org = org, rr_user = user, rr_hash = ld_digest deps token, rr_expires = now + RESET_TTL_SECONDS * 1000, rr_used = False\<rparr>"
    | r0 where "r0 \<in> set resets" "r1 = (if rr_org r0 = org \<and> rr_user r0 = user \<and> \<not> rr_used r0 then r0\<lparr>rr_used := True\<rparr> else r0)"
    using r1(1) unfolding links_sent_def by (auto simp: in_update_where)
  then show ?thesis
  proof cases
    case 1
    then show ?thesis using r1(2) live by (simp add: live_link_def)
  next
    case 2
    then have "rr_hash r1 = rr_hash r0" by simp
    then have "rr_hash r1 \<noteq> ld_digest deps token" using fresh 2(1) by (metis image_eqI)
    moreover from this have "r = r1" using r1(2) by (simp add: live_link_def)
    ultimately show ?thesis using 2(2) r(2) by (auto split: if_splits)
  qed
qed

text \<open>C23 - A recovery link works once: within its hour it sets the password chosen, which then verifies, and ends
  every session of the person; presented again it is refused and changes nothing, and so is every link
  the person was sent before it.\<close>

theorem recovery_link_once:
  assumes "reads_nats (ld_number deps)" and "derives (ld_scrypt deps)" and "distinct (map us_id (ss_users st))"
    and "recovery_request deps now secret email st = (Some (address, token), st1)"
    and "ld_digest deps token \<notin> rr_hash ` set (ss_resets st)"
    and "list_all (\<lambda>u. uuid_strict (us_org u)) (ss_users st)"
    and "now' < now + RESET_TTL_SECONDS * 1000" and "MIN_PASSWORD_LENGTH \<le> length password"
  shows "\<exists>st2 u h. redeem deps now' mint token password st1 = (Inr WasReset, st2)
    \<and> redeem deps now'' mint' token password' st2 = (Inr (if length password' < MIN_PASSWORD_LENGTH then TooShort else LinkRefused), st2)
    \<and> u \<in> set (ss_users st2) \<and> same_email (us_email u) (normal_text email) \<and> us_hash u = Some h \<and> check_password deps password h = Some True
    \<and> list_all (\<lambda>t. rt_org t = us_org u \<and> rt_user t = us_id u \<longrightarrow> rt_revoked t) (ss_tokens st2)
    \<and> list_all (\<lambda>r. rr_org r = us_org u \<and> rr_user r = us_id u \<longrightarrow> rr_used r) (ss_resets st2)"
proof -
  obtain u where u: "findUser st (normal_text email) = Some u" "token = us_org u @ ''.'' @ secret" "ss_users st1 = ss_users st" "ss_tokens st1 = ss_tokens st"
    and rows: "ss_resets st1 = links_sent deps now token (us_org u) (us_id u) (ss_resets st)"
    using request_row [OF assms(4)] unfolding links_sent_def by blast
  let ?org = "us_org u" and ?live = "live_link deps now' (us_org u) token"
  let ?row = "\<lparr>rr_org = us_org u, rr_user = us_id u, rr_hash = ld_digest deps token, rr_expires = now + RESET_TTL_SECONDS * 1000, rr_used = False\<rparr>"
  have row: "u \<in> set (ss_users st)" "us_disabled u = None" "\<not> us_shared u" "same_email (us_email u) (normal_text email)"
    using findUser_row [OF u(1)] by simp_all
  have org: "uuid_strict ?org" using assms(6) row(1) by (simp add: list_all_iff)
  obtain h where h: "make_hash deps (mi_salt mint) password = Some h"
    using hashed [OF assms(1,2)] unfolding make_hash_def by metis
  have split: "js_split (CHR ''.'') token = ?org # js_split (CHR ''.'') secret"
    using js_split_append [OF strict_no_dot [OF org], of secret] u(2) by simp
  obtain s ss where parts: "js_split (CHR ''.'') secret = s # ss" using js_split_nonempty [of "CHR ''.''" secret] by (cases "js_split (CHR ''.'') secret") auto
  have fresh: "ld_digest deps token \<notin> rr_hash ` set (ss_resets st)" by (rule assms(5))
  have found: "find ?live (ss_resets st1) = Some ?row"
    unfolding rows by (rule link_found [OF fresh assms(7)])
  have person: "userById (st1\<lparr>ss_resets := x\<rparr>) ?org (us_id u) = Some u" for x
    using userById_member [OF row(1) assms(3)] u(3) by (simp add: userById_def)
  let ?spent = "update_where ?live (\<lambda>r. r\<lparr>rr_used := True\<rparr>) (ss_resets st1)"
  let ?st2 = "(set_hash ?org (us_id u) h (st1\<lparr>ss_resets := ?spent\<rparr>))\<lparr>ss_tokens := revoke_seen (token_ids st1) ?org (us_id u) (ss_tokens st)\<rparr>"
  have commit: "redeem_commit deps now' (token_ids st1) ?org token h st1 = (Some (us_email u), ?st2)"
    using found person row(2,3) u(4) by (simp add: redeem_commit_def Let_def)
  have "list_ex ?live (ss_resets st1)" using found by (auto simp: list_ex_iff find_Some_iff)
  then have first: "redeem deps now' mint token password st1 = (Inr WasReset, ?st2)"
    using assms(8) split parts org h commit by (simp add: redeem_def)
  have used: "rr_used r" if "r \<in> set ?spent" "rr_hash r = ld_digest deps token \<or> rr_org r = ?org \<and> rr_user r = us_id u" for r
    using link_used [OF fresh assms(7), of r ?org "us_id u"] that unfolding rows by simp
  have "\<not> list_ex (live_link deps now'' ?org token) (ss_resets ?st2)"
    using used by (auto simp: list_ex_iff live_link_def set_hash_def)
  then have second: "redeem deps now'' mint' token password' ?st2 = (Inr (if length password' < MIN_PASSWORD_LENGTH then TooShort else LinkRefused), ?st2)"
    using split parts org by (simp add: redeem_def)
  have revoked: "list_all (\<lambda>t. rt_org t = ?org \<and> rt_user t = us_id u \<longrightarrow> rt_revoked t) (ss_tokens ?st2)"
    using u(4) by (auto simp: list_all_iff revoke_seen_def in_update_where token_ids_def)
  have links: "list_all (\<lambda>r. rr_org r = ?org \<and> rr_user r = us_id u \<longrightarrow> rr_used r) (ss_resets ?st2)"
    using used by (simp add: list_all_iff set_hash_def)
  let ?u = "u\<lparr>us_hash := Some h\<rparr>"
  have "?u \<in> set (ss_users ?st2)" using row(1) u(3) by (auto simp: set_hash_def in_update_where)
  with first second revoked links row(4) verify_made [OF assms(1,2) h] show ?thesis
    by - (rule exI [of _ ?st2], rule exI [of _ ?u], rule exI [of _ h], simp)
qed

subsection \<open>The sweep loses nothing\<close>

lemma find_filtered:
  assumes "distinct (map key xs)" and "find (\<lambda>x. key x = k) xs = Some x" and "keep x"
  shows "find (\<lambda>x. key x = k) (filter keep xs) = Some x"
proof -
  have x: "x \<in> set xs" "key x = k" using assms(2) by (auto simp: find_Some_iff)
  show ?thesis
  proof (cases "find (\<lambda>x. key x = k) (filter keep xs)")
    case None
    then show ?thesis using x assms(3) by (auto simp: find_None_iff)
  next
    case (Some y)
    then have "y \<in> set xs" "key y = k" by (auto simp: find_Some_iff dest: nth_mem)
    then have "y = x" using assms(1) x by (metis distinct_map inj_onD)
    with Some show ?thesis by simp
  qed
qed

lemma rotate_fst:
  assumes "list_ex (token_claimable (rt_org row) (rt_id row)) (ss_tokens a) = list_ex (token_claimable (rt_org row) (rt_id row)) (ss_tokens b)"
    and "ss_users a = ss_users b"
  shows "fst (rotate_token deps now mint row a) = fst (rotate_token deps now mint row b)"
proof -
  have "fst (issue_session deps now mint u family path proved x) = fst (issue_session deps now mint u family path proved y)" for u family path proved x y
    by (auto simp: issue_session_def split: option.splits bool.splits)
  then have "fst (case issue_session deps now mint u family path proved x of (r, st') \<Rightarrow> (Rotated r, st'))
      = fst (case issue_session deps now mint u family path proved y of (r, st') \<Rightarrow> (Rotated r, st'))" for u family path proved x y
    by (metis (no_types, lifting) case_prod_unfold fst_conv)
  then show ?thesis using assms by (auto simp: rotate_token_def userById_def Let_def split: option.splits)
qed

lemma refresh_fst:
  assumes "find_token deps st token = Some row" and "\<not> refusable now row"
  shows "fst (refresh deps now mint token st) = (case fst (rotate_token deps now mint row st) of Rotated r \<Rightarrow> Some r | _ \<Rightarrow> None)"
  using assms by (simp add: refresh_def split: prod.splits Rotation.splits)

text \<open>Sweeping expired tokens changes no answer \<open>refresh\<close> gives from then on.\<close>

theorem sweep_loses_nothing:
  assumes "distinct (map rt_hash (ss_tokens st))" and "distinct (map rt_id (ss_tokens st))" and "now \<le> later"
  shows "fst (refresh deps later mint token (pruneExpiredTokens now limit st)) = fst (refresh deps later mint token st)"
proof (cases "find_token deps st token")
  case None
  then have "find_token deps (pruneExpiredTokens now limit st) token = None" by (auto simp: find_token_def find_None_iff pruneExpiredTokens_def)
  with None show ?thesis by (simp add: refresh_def)
next
  case (Some row)
  let ?keep = "\<lambda>t. t \<notin> set (doomed_tokens now limit st)"
  show ?thesis
  proof (cases "?keep row")
    case False
    then have "rt_expires row < now" by (auto simp: doomed_tokens_def dest: in_set_takeD)
    then have "refusable later row" using assms(3) by (simp add: refusable_def)
    moreover have "find_token deps (pruneExpiredTokens now limit st) token = None"
    proof -
      have "t = row" if "t \<in> set (ss_tokens st)" "rt_hash t = ld_digest deps token" for t
        using assms(1) find_row [OF Some] that by (metis distinct_map inj_onD)
      with False show ?thesis by (auto simp: find_token_def find_None_iff pruneExpiredTokens_def)
    qed
    ultimately show ?thesis using Some by (simp add: refresh_def)
  next
    case True
    have found: "find_token deps (pruneExpiredTokens now limit st) token = Some row"
      using find_filtered [OF assms(1), of "ld_digest deps token" row ?keep] Some True by (simp add: find_token_def pruneExpiredTokens_def)
    show ?thesis
    proof (cases "refusable later row")
      case False
      have "list_ex (token_claimable (rt_org row) (rt_id row)) (filter ?keep (ss_tokens st)) = list_ex (token_claimable (rt_org row) (rt_id row)) (ss_tokens st)"
      proof -
        have "t = row" if "t \<in> set (ss_tokens st)" "rt_id t = rt_id row" for t
          using assms(2) find_row [OF Some] that by (metis distinct_map inj_onD)
        then show ?thesis using True find_row [OF Some] unfolding list_ex_iff token_claimable_def by (metis (no_types, lifting) mem_Collect_eq set_filter)
      qed
      then have "fst (rotate_token deps later mint row (pruneExpiredTokens now limit st)) = fst (rotate_token deps later mint row st)"
        by (intro rotate_fst) (simp_all add: pruneExpiredTokens_def)
      then show ?thesis using refresh_fst [OF Some False] refresh_fst [OF found False] by simp
    qed (use Some found in \<open>simp add: refresh_def\<close>)
  qed
qed

subsection \<open>A small installation\<close>

type_synonym jwt_fields = "string \<times> string \<times> string option \<times> string option \<times> string option \<times> string option \<times> string option \<times> int \<times> int"

definition jwt_fields :: "Jwt \<Rightarrow> jwt_fields" where
  "jwt_fields c = (jw_iss c, jw_aud c, jw_sub c, jw_org c, jw_purpose c, jw_type c, jw_role c, jw_iat c, jw_exp c)"

definition fields_jwt :: "jwt_fields \<Rightarrow> Jwt" where
  "fields_jwt f = (case f of (iss, aud, sub, org, purpose, ty, role, iat, till) \<Rightarrow>
     \<lparr>jw_iss = iss, jw_aud = aud, jw_sub = sub, jw_org = org, jw_purpose = purpose, jw_type = ty, jw_role = role, jw_iat = iat, jw_exp = till\<rparr>)"

definition count_sign :: "Jwt \<Rightarrow> string" where
  "count_sign c = nat_str (to_nat (jwt_fields c))"

definition count_verify :: "string \<Rightarrow> string \<Rightarrow> string \<Rightarrow> int \<Rightarrow> Jwt option" where
  "count_verify token iss aud t =
     (let c = fields_jwt (from_nat (str_nat token)) in if jw_iss c = iss \<and> jw_aud c = aud \<and> t < jw_exp c then Some c else None)"

definition toy_deps :: LoginDeps where
  "toy_deps = \<lparr>ld_scrypt = toy_scrypt, ld_nfkc = id, ld_number = (\<lambda>s. Some (int (str_nat s))), ld_decoy = ([], []), ld_digest = id,
     ld_sign = count_sign, ld_jwtVerify = count_verify, ld_issuer = ''nacre'', ld_audience = ''api'', ld_accessTtl = 900, ld_refreshTtl = 1000,
     ld_required = None, ld_gates = []\<rparr>"

lemma toy_jwt: "jwt_ok toy_deps"
proof -
  have "fields_jwt (jwt_fields c) = c" for c by (simp add: fields_jwt_def jwt_fields_def)
  then show ?thesis by (simp add: jwt_ok_def toy_deps_def count_verify_def count_sign_def Let_def)
qed

lemma toy_laws: "reads_nats (ld_number toy_deps)" "derives (ld_scrypt toy_deps)"
  using str_nat_reads toy_derives by (simp_all add: toy_deps_def)

definition toy_hash :: string where
  "toy_hash = the (make_hash toy_deps ''salt'' ''pearl'')"

definition toy_person :: PersonRow where
  "toy_person = \<lparr>us_id = ''u1'', us_org = uid CHR ''0'', us_email = ''ada@x'', us_role = Member, us_hash = Some toy_hash, us_disabled = None,
     us_shared = False, us_external = None, us_created = 0\<rparr>"

definition toy_mint :: "char \<Rightarrow> Mint" where
  "toy_mint c = \<lparr>mi_token = [CHR ''t'', c], mi_id = [CHR ''i'', c], mi_family = [CHR ''f'', c], mi_salt = ''salt''\<rparr>"

definition toy_tokens :: "RefreshRow list \<Rightarrow> Sessions" where
  "toy_tokens ts = \<lparr>ss_orgs = [\<lparr>og_id = uid CHR ''0'', og_slug = ''acme'', og_deleted = False\<rparr>], ss_users = [toy_person], ss_tokens = ts, ss_resets = []\<rparr>"

definition first_row :: RefreshRow where
  "first_row = token_row toy_deps 0 (toy_mint CHR ''1'') toy_person None"

definition second_row :: RefreshRow where
  "second_row = token_row toy_deps 5 (toy_mint CHR ''2'') toy_person (Some ''f1'')"

lemmas toy_simps = toy_tokens_def toy_mint_def first_row_def second_row_def token_row_def toy_person_def

lemma toy_admits: "issue_session toy_deps now mint u family path proved st =
  (SessionTokens \<lparr>tk_access = count_sign (access_claims toy_deps now u), tk_refresh = mi_token mint, tk_expiresIn = 900, tk_orgId = us_org u, tk_userId = us_id u\<rparr>,
   st\<lparr>ss_tokens := ss_tokens st @ [token_row toy_deps now mint u family]\<rparr>)"
  by (simp add: issue_session_def admitSignIn_def toy_deps_def ACCESS_MIN_SECONDS_def)

lemma toy_rotates:
  "\<exists>tk. tk_refresh tk = ''t2'' \<and> rotate_token toy_deps 5 (toy_mint CHR ''2'') first_row (toy_tokens [first_row])
     = (Rotated (SessionTokens tk), toy_tokens [first_row\<lparr>rt_used := True\<rparr>, second_row])"
  by (simp add: rotate_token_def toy_admits userById_def update_where_def token_claimable_def toy_simps)

lemma toy_signed_in:
  "session_step toy_deps (toy_tokens [], no_trace) (toy_tokens [first_row], drawn (toy_mint CHR ''1'') no_trace)"
  by (rule st_sign_in [of _ _ _ 0 toy_person PathPassword None]) (simp_all add: fresh_mint_def no_trace_def toy_admits, simp add: toy_simps)

theorem token_spent_once_witness:
  "\<exists>tr. (session_step toy_deps)\<^sup>*\<^sup>* (toy_tokens [], no_trace) (toy_tokens [first_row\<lparr>rt_used := True\<rparr>, second_row], tr)
    \<and> tr_spent tr = [''i1''] \<and> distinct (tr_spent tr)"
proof -
  let ?tr1 = "drawn (toy_mint CHR ''1'') no_trace"
  let ?tr2 = "(drawn (toy_mint CHR ''2'') ?tr1)\<lparr>tr_spent := tr_spent ?tr1 @ [rt_id first_row]\<rparr>"
  let ?st2 = "toy_tokens [first_row\<lparr>rt_used := True\<rparr>, second_row]"
  let ?tr3 = "(drawn (toy_mint CHR ''3'') ?tr2)\<lparr>tr_spent := tr_spent ?tr2 @ []\<rparr>"
  obtain tk where rot: "rotate_token toy_deps 5 (toy_mint CHR ''2'') first_row (toy_tokens [first_row])
     = (Rotated (SessionTokens tk), ?st2)" using toy_rotates by blast
  have "session_step toy_deps (toy_tokens [first_row], ?tr1) (?st2, ?tr2)"
    using st_rotate [OF _ _ _ rot, of first_row ?tr1] by (simp add: same_token_def fresh_mint_def drawn_def no_trace_def, simp add: toy_simps)
  moreover have lost: "rotate_token toy_deps 6 (toy_mint CHR ''3'') first_row ?st2 = (Lost, ?st2)"
    by (simp add: rotate_token_def token_claimable_def toy_simps)
  have "session_step toy_deps (?st2, ?tr2) (?st2, ?tr3)"
    using st_rotate [OF _ _ _ lost, of "first_row\<lparr>rt_used := True\<rparr>" ?tr2] by (simp add: same_token_def fresh_mint_def drawn_def no_trace_def, simp add: toy_simps)
  ultimately have "(session_step toy_deps)\<^sup>*\<^sup>* (toy_tokens [], no_trace) (?st2, ?tr3)"
    using toy_signed_in by (meson converse_rtranclp_into_rtranclp rtranclp.rtrancl_refl)
  moreover from token_spent_once [OF _ this] have "distinct (tr_spent ?tr3)" by (simp add: toy_tokens_def)
  moreover have "tr_spent ?tr3 = [''i1'']" by (simp add: drawn_def no_trace_def toy_simps)
  ultimately show ?thesis by blast
qed

lemma toy_reach: "(session_step toy_deps)\<^sup>*\<^sup>* (toy_tokens [], no_trace) (toy_tokens [first_row], drawn (toy_mint CHR ''1'') no_trace)"
  using toy_signed_in by (meson converse_rtranclp_into_rtranclp rtranclp.rtrancl_refl)

theorem revoked_family_dead_witness:
  "\<exists>st. fst (rotate_token toy_deps 5 (toy_mint CHR ''2'') first_row st) = Lost \<and> dead ''f1'' st \<and> length (ss_tokens st) = 1"
proof -
  let ?tr = "drawn (toy_mint CHR ''1'') no_trace"
  let ?st = "revokeFamily (rt_org first_row) (rt_family first_row) (toy_tokens [first_row])"
  have "(session_step toy_deps)\<^sup>*\<^sup>* (?st, ?tr) (?st, ?tr)" by simp
  from revoked_family_dead [OF _ toy_reach _ this] have "dead (rt_family first_row) ?st" by (simp add: toy_tokens_def)
  moreover have "rt_family first_row = ''f1''" by (simp add: toy_simps)
  moreover have "fst (rotate_token toy_deps 5 (toy_mint CHR ''2'') first_row ?st) = Lost"
    by (simp add: rotate_token_def revokeFamily_def update_where_def token_claimable_def toy_simps)
  moreover have "length (ss_tokens ?st) = 1" by (simp add: revokeFamily_def update_where_def toy_tokens_def)
  ultimately show ?thesis by metis
qed

lemma toy_exchanged:
  "\<exists>tr. (session_step toy_deps)\<^sup>*\<^sup>* (toy_tokens [], no_trace) (toy_tokens [first_row\<lparr>rt_used := True\<rparr>, second_row], tr)"
proof -
  let ?tr = "drawn (toy_mint CHR ''1'') no_trace"
  obtain tk where rot: "rotate_token toy_deps 5 (toy_mint CHR ''2'') first_row (toy_tokens [first_row])
     = (Rotated (SessionTokens tk), toy_tokens [first_row\<lparr>rt_used := True\<rparr>, second_row])" using toy_rotates by blast
  have "fresh_mint (toy_mint CHR ''2'') ?tr" by (simp add: fresh_mint_def drawn_def no_trace_def toy_mint_def)
  with st_rotate [OF _ _ _ rot, of first_row ?tr] obtain tr
    where "session_step toy_deps (toy_tokens [first_row], ?tr) (toy_tokens [first_row\<lparr>rt_used := True\<rparr>, second_row], tr)"
    by (auto simp: same_token_def toy_tokens_def)
  with toy_reach show ?thesis by (meson rtranclp.rtrancl_into_rtrancl)
qed

theorem reuse_ends_family_witness:
  "\<exists>st1. refresh toy_deps 7 (toy_mint CHR ''3'') ''t1'' (toy_tokens [first_row\<lparr>rt_used := True\<rparr>, second_row]) = (None, st1)
    \<and> dead ''f1'' st1 \<and> refresh toy_deps 8 (toy_mint CHR ''4'') ''t2'' st1 = (None, st1)"
proof -
  let ?st = "toy_tokens [first_row\<lparr>rt_used := True\<rparr>, second_row]" and ?row = "first_row\<lparr>rt_used := True\<rparr>"
  obtain tr where reach: "(session_step toy_deps)\<^sup>*\<^sup>* (toy_tokens [], no_trace) (?st, tr)" using toy_exchanged by blast
  have row: "find_token toy_deps ?st ''t1'' = Some ?row" by (simp add: find_token_def toy_simps)
  have life: "7 < rt_expires ?row" "\<not> rt_revoked ?row" "rt_family ?row = ''f1''"
    by (simp_all add: first_row_def token_row_def toy_deps_def toy_mint_def)
  obtain st1 where st1: "refresh toy_deps 7 (toy_mint CHR ''3'') ''t1'' ?st = (None, st1)" "dead ''f1'' st1"
    "\<And>row2. find_token toy_deps st1 ''t2'' = Some row2 \<Longrightarrow> rt_family row2 = ''f1'' \<Longrightarrow>
       refresh toy_deps 8 (toy_mint CHR ''4'') ''t2'' st1 = (None, st1)"
    using reuse_ends_family [OF _ reach row, of 7 "toy_mint CHR ''3''"] life by (auto simp: toy_tokens_def)
  have "refresh toy_deps 7 (toy_mint CHR ''3'') ''t1'' ?st = (None, revokeFamily (rt_org ?row) ''f1'' ?st)"
    using refresh_lost [OF row] life by (simp add: refusable_def) (simp add: toy_simps)
  with st1(1) have "st1 = revokeFamily (rt_org ?row) ''f1'' ?st" by simp
  then have "\<exists>row2. find_token toy_deps st1 ''t2'' = Some row2 \<and> rt_family row2 = ''f1''"
    by (simp add: find_token_def revokeFamily_def update_where_def toy_simps toy_deps_def)
  with st1 show ?thesis by blast
qed

lemma toy_verifies: "check_password toy_deps ''pearl'' toy_hash = Some True" "\<not> needsRehash (ld_number toy_deps) toy_hash"
proof -
  obtain h where "make_hash toy_deps ''salt'' ''pearl'' = Some h" using hashed [OF toy_laws] unfolding make_hash_def by metis
  then have "make_hash toy_deps ''salt'' ''pearl'' = Some toy_hash" by (simp add: toy_hash_def)
  from verify_made [OF toy_laws this] show "check_password toy_deps ''pearl'' toy_hash = Some True" "\<not> needsRehash (ld_number toy_deps) toy_hash" by simp_all
qed

theorem login_earned_witness:
  "\<exists>tk st'. login toy_deps 0 (toy_mint CHR ''1'') \<lparr>lq_email = '' Ada@x'', lq_password = ''pearl'', lq_organization = None\<rparr> (toy_tokens [])
      = (Inr (Some (Session (SessionTokens tk))), st') \<and> tk_orgId tk = us_org toy_person \<and> tk_userId tk = ''u1''"
proof -
  let ?q = "\<lparr>lq_email = '' Ada@x'', lq_password = ''pearl'', lq_organization = None\<rparr>"
  have email: "normal_text '' Ada@x'' = ''ada@x''" by code_simp
  have "userIn (toy_tokens []) (uid CHR ''0'') ''ada@x'' = Some toy_person" by (simp add: userIn_def toy_tokens_def toy_person_def same_email_def)
  then have "find_user (toy_tokens []) ''ada@x'' None = Some toy_person"
    by (simp add: find_user_def allOrgIds_def toy_tokens_def MAX_UNSCOPED_ORG_SCAN_def Let_def)
  then have "login_candidate toy_deps ?q (toy_tokens []) = Proved toy_person"
    using toy_verifies(1) email by (simp add: login_candidate_def Let_def) (simp add: toy_person_def)
  moreover have "rehash toy_deps (toy_mint CHR ''1'') ''pearl'' toy_person (toy_tokens []) = Some (toy_tokens [])"
    using toy_verifies(2) by (simp add: rehash_def toy_person_def)
  moreover have "\<not> required_factor toy_deps toy_person" by (simp add: required_factor_def toy_deps_def)
  ultimately obtain tk st' where run: "login toy_deps 0 (toy_mint CHR ''1'') ?q (toy_tokens []) = (Inr (Some (Session (SessionTokens tk))), st')"
    by (simp add: login_def login_finish_def toy_admits)
  from login_earned [OF run] have "tk_orgId tk = us_org toy_person \<and> tk_userId tk = ''u1''" by (auto simp: toy_tokens_def toy_person_def)
  with run show ?thesis by blast
qed

theorem challenge_exact_witness:
  "readChallenge toy_deps 2000 (challenge toy_deps 0 toy_person PurposeEnrol 900) PurposeEnrol = Some (us_org toy_person, ''u1'')
    \<and> readChallenge toy_deps 2000 (challenge toy_deps 0 toy_person PurposeEnrol 900) PurposeSecondFactor = None
    \<and> readChallenge toy_deps 900000 (challenge toy_deps 0 toy_person PurposeEnrol 900) PurposeEnrol = None"
  using challenge_exact [OF toy_jwt, of 2000 0 toy_person PurposeEnrol 900 PurposeEnrol]
    challenge_exact [OF toy_jwt, of 2000 0 toy_person PurposeEnrol 900 PurposeSecondFactor]
    challenge_exact [OF toy_jwt, of 900000 0 toy_person PurposeEnrol 900 PurposeEnrol]
  by (simp add: toy_person_def)

theorem rotation_survives_change_witness:
  "\<exists>st2. (\<exists>r. change_commit toy_deps 6 (toy_mint CHR ''3'') (token_ids (toy_tokens [first_row])) toy_person ''new''
        (toy_tokens [first_row\<lparr>rt_used := True\<rparr>, second_row]) = (r, st2))
    \<and> (\<exists>out st3. refresh toy_deps 7 (toy_mint CHR ''4'') ''t2'' st2 = (Some out, st3))"
proof -
  obtain tk where rot: "tk_refresh tk = ''t2''" "rotate_token toy_deps 5 (toy_mint CHR ''2'') first_row (toy_tokens [first_row])
     = (Rotated (SessionTokens tk), toy_tokens [first_row\<lparr>rt_used := True\<rparr>, second_row])" using toy_rotates by blast
  obtain r st2 where change: "change_commit toy_deps 6 (toy_mint CHR ''3'') (token_ids (toy_tokens [first_row])) toy_person ''new''
        (toy_tokens [first_row\<lparr>rt_used := True\<rparr>, second_row]) = (r, st2)" by fastforce
  have "userById (toy_tokens [first_row]) (rt_org first_row) (rt_user first_row) = Some toy_person"
    by (simp add: userById_def toy_simps)
  moreover have "mi_id (toy_mint CHR ''2'') \<notin> token_ids (toy_tokens [first_row])" by (simp add: token_ids_def toy_simps)
  moreover have "ld_digest toy_deps (mi_token (toy_mint CHR ''2'')) \<notin> rt_hash ` set (ss_tokens (toy_tokens [first_row]))"
    by (simp add: toy_simps) (simp add: toy_deps_def)
  moreover have "(7 :: int) < 5 + ld_refreshTtl toy_deps * 1000" by (simp add: toy_deps_def)
  ultimately show ?thesis using rotation_survives_change [OF rot(2) _ _ _ change, of 7 "toy_mint CHR ''4''"] rot(1) change by metis
qed

theorem recovery_link_once_witness:
  "\<exists>token st1 st2. recovery_request toy_deps 0 ''secret'' ''ada@x'' (toy_tokens [first_row]) = (Some (''ada@x'', token), st1)
    \<and> redeem toy_deps 1000 (toy_mint CHR ''5'') token ''correct horse'' st1 = (Inr WasReset, st2)
    \<and> redeem toy_deps 1000 (toy_mint CHR ''6'') token ''correct horse'' st2 = (Inr LinkRefused, st2)"
proof -
  have email: "normal_text ''ada@x'' = ''ada@x''" by code_simp
  have strict: "uuid_strict (uid CHR ''0'')" by code_simp
  have "recoverable (toy_tokens [first_row]) ''ada@x'' (uid CHR ''0'') = Some toy_person" by (simp add: recoverable_def toy_tokens_def toy_person_def same_email_def)
  then have "findUser (toy_tokens [first_row]) ''ada@x'' = Some toy_person"
    by (simp add: findUser_def allOrgIds_def toy_tokens_def MAX_UNSCOPED_ORG_SCAN_def Let_def)
  then obtain token st1 where req: "recovery_request toy_deps 0 ''secret'' ''ada@x'' (toy_tokens [first_row]) = (Some (''ada@x'', token), st1)"
    using email by (simp add: recovery_request_def Let_def)
  have "list_all (\<lambda>u. uuid_strict (us_org u)) (ss_users (toy_tokens [first_row]))" using strict by (simp add: toy_tokens_def toy_person_def)
  moreover have "distinct (map us_id (ss_users (toy_tokens [first_row])))" "ss_resets (toy_tokens [first_row]) = []" by (simp_all add: toy_tokens_def)
  ultimately show ?thesis
    using recovery_link_once [OF toy_laws _ req, of 1000 "''correct horse''" "toy_mint CHR ''5''" 1000 "toy_mint CHR ''6''" "''correct horse''"] req
    by (auto simp: RESET_TTL_SECONDS_def MIN_PASSWORD_LENGTH_def)
qed

end
