(* ===== verification/Otp.thy ===== *)
theory Otp
  imports Sessions
begin

text \<open>
  \<open>packages/core/totp.ts\<close>: base32, time-based codes, the sealing of a secret and recovery codes.

  \<open>hmac\<close> is HMAC-SHA-1, \<open>gcm_seal\<close> and \<open>gcm_open\<close> AES-256-GCM, \<open>sha\<close> SHA-256 in hex. JavaScript's bitwise operators
  work on 32 bits: the wrap-around is written out. Texts are ASCII.
\<close>

subsection \<open>base32\<close>

definition BASE32 :: string where
  "BASE32 = ''ABCDEFGHIJKLMNOPQRSTUVWXYZ234567''"

definition TWO32 :: nat where "TWO32 = 4294967296"

text \<open>The inner loop: while five bits are pending, a character; the bits left.\<close>

fun emit_quints :: "nat \<Rightarrow> nat \<Rightarrow> nat list \<times> nat" where
  "emit_quints v bits =
     (if bits \<ge> 5 then (let (qs, left) = emit_quints v (bits - 5) in (v div 2 ^ (bits - 5) mod 32 # qs, left))
      else ([], bits))"

declare emit_quints.simps [simp del]

fun encode_loop :: "nat \<Rightarrow> nat \<Rightarrow> nat list \<Rightarrow> nat list" where
  "encode_loop v bits [] = (if bits > 0 then [v * 2 ^ (5 - bits) mod TWO32 mod 32] else [])"
| "encode_loop v bits (b # bs) =
     (let v' = v * 256 mod TWO32 + b; (qs, left) = emit_quints v' (bits + 8) in qs @ encode_loop v' left bs)"

definition base32Encode :: "string \<Rightarrow> string" where
  "base32Encode bytes = map (\<lambda>q. BASE32 ! q) (encode_loop 0 0 (map of_char bytes))"

fun decode_loop :: "nat \<Rightarrow> nat \<Rightarrow> nat list \<Rightarrow> nat list" where
  "decode_loop v bits [] = []"
| "decode_loop v bits (q # qs) =
     (let v' = v * 32 mod TWO32 + q; n = bits + 5
      in if n \<ge> 8 then (v' div 2 ^ (n - 8) mod 256) # decode_loop v' (n - 8) qs else decode_loop v' n qs)"

text \<open>Only the pending bits of the accumulator matter.\<close>

lemma div_mod_low: "m + 5 \<le> n \<Longrightarrow> (v :: nat) mod 2 ^ n div 2 ^ m mod 32 = v div 2 ^ m mod 32"
proof -
  assume "m + 5 \<le> n"
  have "x div 2 ^ m mod 2 ^ 5 = x mod 2 ^ (m + 5) div 2 ^ m" for x :: nat
    by (simp add: mod_mult2_eq power_add)
  moreover have "v mod 2 ^ n mod 2 ^ (m + 5) = v mod 2 ^ (m + 5)" using \<open>m + 5 \<le> n\<close> by (simp add: mod_mod_cancel le_imp_power_dvd)
  ultimately show ?thesis by simp
qed

lemma mod_low: "k \<le> n \<Longrightarrow> (v :: nat) mod 2 ^ n = w mod 2 ^ n \<Longrightarrow> v mod 2 ^ k = w mod 2 ^ k"
  by (metis le_imp_power_dvd mod_mod_cancel)

lemma emit_low: "v mod 2 ^ n = w mod 2 ^ n \<Longrightarrow> emit_quints v n = emit_quints w n"
proof (induction v n rule: emit_quints.induct)
  case (1 v n)
  show ?case
  proof (cases "5 \<le> n")
    case True
    have "v div 2 ^ (n - 5) mod 32 = w div 2 ^ (n - 5) mod 32"
      using div_mod_low [of "n - 5" n v] div_mod_low [of "n - 5" n w] 1(2) True by simp
    moreover have "v mod 2 ^ (n - 5) = w mod 2 ^ (n - 5)" by (rule mod_low [OF _ 1(2)]) simp
    ultimately show ?thesis using 1(1) True by (simp add: emit_quints.simps [of v n] emit_quints.simps [of w n])
  qed (simp add: emit_quints.simps)
qed

lemma emit_left: "snd (emit_quints v n) = n mod 5"
proof (induction v n rule: emit_quints.induct)
  case (1 v n)
  show ?case
  proof (cases "5 \<le> n")
    case True
    then have "snd (emit_quints v n) = snd (emit_quints v (n - 5))" by (simp add: emit_quints.simps [of v n] split_def Let_def)
    then show ?thesis using 1 True by (simp add: le_mod_geq)
  qed (simp add: emit_quints.simps)
qed

lemma shifted_low: "k \<le> 24 \<Longrightarrow> (v :: nat) mod 2 ^ k = w mod 2 ^ k \<Longrightarrow> (v * 256 mod TWO32 + b) mod 2 ^ (k + 8) = (w * 256 mod TWO32 + b) mod 2 ^ (k + 8)"
proof -
  assume k: "k \<le> 24" and vw: "v mod 2 ^ k = w mod 2 ^ k"
  have cut: "x mod TWO32 mod 2 ^ (k + 8) = x mod 2 ^ (k + 8)" for x :: nat
    using k le_imp_power_dvd [of "k + 8" 32 "2 :: nat"] by (simp add: TWO32_def mod_mod_cancel)
  have "v * 256 mod 2 ^ (k + 8) = w * 256 mod 2 ^ (k + 8)"
    using vw by (simp add: power_add mult_mod_right [symmetric] mult.commute [of _ 256] mod_mult_mult1)
  then show ?thesis by (metis cut mod_add_left_eq)
qed

lemma encode_low: "k < 5 \<Longrightarrow> v mod 2 ^ k = w mod 2 ^ k \<Longrightarrow> encode_loop v k bs = encode_loop w k bs"
proof (induction bs arbitrary: v w k)
  case Nil
  have cut: "x mod TWO32 mod 32 = x mod 32" for x :: nat by (simp add: TWO32_def mod_mod_cancel)
  have "v * 2 ^ (5 - k) mod (2 ^ k * 2 ^ (5 - k)) = w * 2 ^ (5 - k) mod (2 ^ k * 2 ^ (5 - k))" using Nil(2) by (metis mult_mod_left)
  moreover have "2 ^ k * 2 ^ (5 - k) = (32 :: nat)" using Nil(1) by (simp flip: power_add)
  ultimately show ?case by (simp add: cut)
next
  case (Cons b bs)
  let ?v = "v * 256 mod TWO32 + b" and ?w = "w * 256 mod TWO32 + b"
  have same: "?v mod 2 ^ (k + 8) = ?w mod 2 ^ (k + 8)" using Cons.prems by (intro shifted_low) simp_all
  then have e: "emit_quints ?v (k + 8) = emit_quints ?w (k + 8)" by (rule emit_low)
  have "(k + 8) mod 5 \<le> k + 8" by simp
  then have "encode_loop ?v ((k + 8) mod 5) bs = encode_loop ?w ((k + 8) mod 5) bs"
    using mod_low [OF _ same] by (intro Cons.IH) simp_all
  then show ?case using e emit_left [of ?v "k + 8"] emit_left [of ?w "k + 8"] by (simp add: Let_def split_def)
qed

lemma decode_low: "k < 8 \<Longrightarrow> v mod 2 ^ k = w mod 2 ^ k \<Longrightarrow> decode_loop v k qs = decode_loop w k qs"
proof (induction qs arbitrary: v w k)
  case (Cons q qs)
  let ?v = "v * 32 mod TWO32 + q" and ?w = "w * 32 mod TWO32 + q"
  have cut: "x mod TWO32 mod 2 ^ (k + 5) = x mod 2 ^ (k + 5)" for x :: nat
    using Cons.prems(1) le_imp_power_dvd [of "k + 5" 32 "2 :: nat"] by (simp add: TWO32_def mod_mod_cancel)
  have "v * 32 mod 2 ^ (k + 5) = w * 32 mod 2 ^ (k + 5)"
    using Cons.prems(2) by (simp add: power_add mult.commute [of _ 32] mod_mult_mult1)
  then have same: "?v mod 2 ^ (k + 5) = ?w mod 2 ^ (k + 5)" by (metis cut mod_add_left_eq)
  show ?case
  proof (cases "8 \<le> k + 5")
    case True
    have low: "x div 2 ^ m mod 256 = x mod 2 ^ (m + 8) div 2 ^ m" for x m :: nat by (simp add: mod_mult2_eq power_add)
    have "k + 5 - 8 + 8 = k + 5" using True by simp
    then have "x div 2 ^ (k + 5 - 8) mod 256 = x mod 2 ^ (k + 5) div 2 ^ (k + 5 - 8)" for x :: nat
      using low [of x "k + 5 - 8"] by metis
    moreover have "decode_loop ?v (k + 5 - 8) qs = decode_loop ?w (k + 5 - 8) qs"
      using Cons.prems(1) by (intro Cons.IH mod_low [OF _ same]) simp_all
    ultimately show ?thesis using True same by (simp add: Let_def)
  next
    case False
    then have "decode_loop ?v (k + 5) qs = decode_loop ?w (k + 5) qs" using same by (intro Cons.IH) simp_all
    with False show ?thesis by (simp add: Let_def)
  qed
qed simp

lemma emit_at:
  "emit_quints v 8 = ([v div 8 mod 32], 3)" "emit_quints v 11 = ([v div 64 mod 32, v div 2 mod 32], 1)"
  "emit_quints v 9 = ([v div 16 mod 32], 4)" "emit_quints v 12 = ([v div 128 mod 32, v div 4 mod 32], 2)"
  "emit_quints v 10 = ([v div 32 mod 32, v mod 32], 0)"
  by (simp_all add: emit_quints.simps [of v 8] emit_quints.simps [of v 3] emit_quints.simps [of v 11] emit_quints.simps [of v 6]
      emit_quints.simps [of v "Suc 0"] emit_quints.simps [of v 9] emit_quints.simps [of v 4] emit_quints.simps [of v 12]
      emit_quints.simps [of v 7] emit_quints.simps [of v 2] emit_quints.simps [of v 10] emit_quints.simps [of v 5] emit_quints.simps [of v 0])

lemma pair_div_mod: "y < k \<Longrightarrow> (x * k + y) div k = (x :: nat)" "y < k \<Longrightarrow> (x * k + y) mod k = (y :: nat)"
  by simp_all

lemma join_gen: "0 < k \<Longrightarrow> (p * (k * m) + b) div k = p * m + b div k" "(p * (k * m) + b) mod k = b mod k" for p b k m :: nat
  using div_mult_self2 [of k b "p * m"] mod_mult_self1 [of b "p * m" k] by (simp_all add: ac_simps)

lemmas join_div =
  join_gen(1) [of 64 _ 4, simplified] join_gen(1) [of 16 _ 16, simplified] join_gen(1) [of 128 _ 2, simplified] join_gen(1) [of 32 _ 8, simplified]
  join_gen(1) [of 2 _ 128, simplified] join_gen(1) [of 4 _ 64, simplified]
  join_gen(1) [of 4 _ 8, simplified] join_gen(1) [of 16 _ 2, simplified] join_gen(1) [of 2 _ 16, simplified] join_gen(1) [of 8 _ 4, simplified]

lemmas join_mod =
  join_gen(2) [of _ 2 128, simplified] join_gen(2) [of _ 16 16, simplified] join_gen(2) [of _ 4 64, simplified] join_gen(2) [of _ 32 8, simplified]
  join_gen(2) [of _ 32 4, simplified] join_gen(2) [of _ 32 2, simplified]
  join_gen(2) [of _ 4 8, simplified] join_gen(2) [of _ 16 2, simplified] join_gen(2) [of _ 2 16, simplified] join_gen(2) [of _ 8 4, simplified]

lemma byte_bounds:
  "b < 256 \<Longrightarrow> b div 64 < 4" "b < 256 \<Longrightarrow> b div 16 < 16" "b < 256 \<Longrightarrow> b div 128 < 2" "b < 256 \<Longrightarrow> b div 32 < 8" "b < 256 \<Longrightarrow> b div 8 < 32"
  "q < 32 \<Longrightarrow> q div 4 < 8" "q < 32 \<Longrightarrow> q div 16 < 2" "q < 32 \<Longrightarrow> q div 2 < 16" "q < 32 \<Longrightarrow> q div 8 < 4" for b q :: nat
  by simp_all

lemma encode_step:
  assumes "v < 16" "k < 5" "emit_quints (v * 256 + b) (k + 8) = (qs, l)"
  shows "encode_loop v k (b # bs) = qs @ encode_loop ((v * 256 + b) mod 2 ^ l) l bs"
proof -
  have "l = (k + 8) mod 5" using emit_left [of "v * 256 + b" "k + 8"] assms(3) by simp
  then have "encode_loop (v * 256 + b) l bs = encode_loop ((v * 256 + b) mod 2 ^ l) l bs" by (intro encode_low) simp_all
  moreover have "v * 256 mod TWO32 = v * 256" using assms(1) by (simp add: TWO32_def)
  ultimately show ?thesis using assms(3) by simp
qed

lemma encode_steps:
  "b < 256 \<Longrightarrow> encode_loop 0 0 (b # bs) = b div 8 # encode_loop (b mod 8) 3 bs"
  "p < 8 \<Longrightarrow> b < 256 \<Longrightarrow> encode_loop p 3 (b # bs) = (p * 4 + b div 64) # (b div 2 mod 32) # encode_loop (b mod 2) (Suc 0) bs"
  "p < 2 \<Longrightarrow> b < 256 \<Longrightarrow> encode_loop p (Suc 0) (b # bs) = (p * 16 + b div 16) # encode_loop (b mod 16) 4 bs"
  "p < 16 \<Longrightarrow> b < 256 \<Longrightarrow> encode_loop p 4 (b # bs) = (p * 2 + b div 128) # (b div 4 mod 32) # encode_loop (b mod 4) 2 bs"
  "p < 4 \<Longrightarrow> b < 256 \<Longrightarrow> encode_loop p 2 (b # bs) = (p * 8 + b div 32) # (b mod 32) # encode_loop 0 0 bs"
proof -
  assume b: "b < 256"
  note low = byte_bounds(1-5) [OF b]
  show "encode_loop 0 0 (b # bs) = b div 8 # encode_loop (b mod 8) 3 bs"
    using encode_step [of 0 0 b "[b div 8 mod 32]" 3 bs] low emit_at(1) [of b] by (simp del: encode_loop.simps)
  show "encode_loop p 3 (b # bs) = (p * 4 + b div 64) # (b div 2 mod 32) # encode_loop (b mod 2) (Suc 0) bs" if "p < 8"
    using encode_step [of p 3 b "[(p * 256 + b) div 64 mod 32, (p * 256 + b) div 2 mod 32]" 1 bs] that low
    by (simp add: join_div join_mod emit_at del: encode_loop.simps)
  show "encode_loop p (Suc 0) (b # bs) = (p * 16 + b div 16) # encode_loop (b mod 16) 4 bs" if "p < 2"
    using encode_step [of p 1 b "[(p * 256 + b) div 16 mod 32]" 4 bs] that low
    by (simp add: join_div join_mod emit_at del: encode_loop.simps)
  show "encode_loop p 4 (b # bs) = (p * 2 + b div 128) # (b div 4 mod 32) # encode_loop (b mod 4) 2 bs" if "p < 16"
    using encode_step [of p 4 b "[(p * 256 + b) div 128 mod 32, (p * 256 + b) div 4 mod 32]" 2 bs] that low
    by (simp add: join_div join_mod emit_at del: encode_loop.simps)
  show "encode_loop p 2 (b # bs) = (p * 8 + b div 32) # (b mod 32) # encode_loop 0 0 bs" if "p < 4"
    using encode_step [of p 2 b "[(p * 256 + b) div 32 mod 32, (p * 256 + b) mod 32]" 0 bs] that low
    by (simp add: join_div join_mod emit_at del: encode_loop.simps)
qed

lemma encode_ends:
  "encode_loop v 0 [] = []" "p < 8 \<Longrightarrow> encode_loop p 3 [] = [p * 4]" "p < 2 \<Longrightarrow> encode_loop p (Suc 0) [] = [p * 16]"
  "p < 16 \<Longrightarrow> encode_loop p 4 [] = [p * 2]" "p < 4 \<Longrightarrow> encode_loop p 2 [] = [p * 8]"
  by (simp_all add: TWO32_def)

lemma decode_step:
  assumes "v < 128" "k < 8"
  shows "decode_loop v k (q # qs) =
    (if k \<ge> 3 then (v * 32 + q) div 2 ^ (k - 3) mod 256 # decode_loop ((v * 32 + q) mod 2 ^ (k - 3)) (k - 3) qs
     else decode_loop (v * 32 + q) (k + 5) qs)"
proof -
  have "k - 3 < 8" using assms(2) by simp
  then have "decode_loop (v * 32 + q) (k - 3) qs = decode_loop ((v * 32 + q) mod 2 ^ (k - 3)) (k - 3) qs" by (intro decode_low) simp_all
  moreover have "v * 32 mod TWO32 = v * 32" using assms(1) by (simp add: TWO32_def)
  ultimately show ?thesis by (simp add: Let_def)
qed

lemma decode_steps:
  "q < 32 \<Longrightarrow> decode_loop 0 0 (q # qs) = decode_loop q 5 qs"
  "p < 32 \<Longrightarrow> q < 32 \<Longrightarrow> decode_loop p 5 (q # qs) = (p * 8 + q div 4) # decode_loop (q mod 4) 2 qs"
  "p < 4 \<Longrightarrow> q < 32 \<Longrightarrow> decode_loop p 2 (q # qs) = decode_loop (p * 32 + q) 7 qs"
  "p < 128 \<Longrightarrow> q < 32 \<Longrightarrow> decode_loop p 7 (q # qs) = (p * 2 + q div 16) # decode_loop (q mod 16) 4 qs"
  "p < 16 \<Longrightarrow> q < 32 \<Longrightarrow> decode_loop p 4 (q # qs) = (p * 16 + q div 2) # decode_loop (q mod 2) (Suc 0) qs"
  "p < 2 \<Longrightarrow> q < 32 \<Longrightarrow> decode_loop p (Suc 0) (q # qs) = decode_loop (p * 32 + q) 6 qs"
  "p < 64 \<Longrightarrow> q < 32 \<Longrightarrow> decode_loop p 6 (q # qs) = (p * 4 + q div 8) # decode_loop (q mod 8) 3 qs"
  "p < 8 \<Longrightarrow> q < 32 \<Longrightarrow> decode_loop p 3 (q # qs) = (p * 32 + q) # decode_loop 0 0 qs"
  using byte_bounds(6-9) [of q]
  by (simp_all add: decode_step join_div join_mod del: decode_loop.simps)

text \<open>Five bytes are eight characters, and then the loops are where they began.\<close>

fun blocks5 :: "nat list \<Rightarrow> bool" where
  "blocks5 (a # b # c # d # e # r) = blocks5 r"
| "blocks5 _ = True"

lemma seam:
  "64 * (b div 64) + b div 2 mod 32 * 2 + b mod 2 = b" "128 * (d div 128) + d div 4 mod 32 * 4 + d mod 4 = d" for b d :: nat
proof -
  have "x div (k * 32) * 32 + x div k mod 32 = x div k" for x k :: nat by (simp add: div_mult2_eq)
  from this [of b 2, simplified] this [of d 4, simplified]
  show "64 * (b div 64) + b div 2 mod 32 * 2 + b mod 2 = b" "128 * (d div 128) + d div 4 mod 32 * 4 + d mod 4 = d"
    using div_mult_mod_eq [of b 2] div_mult_mod_eq [of d 4] by linarith+
qed

lemma quint_bounds:
  "y < 4 \<Longrightarrow> x mod 8 * 4 + y < 32" "y < 16 \<Longrightarrow> x mod 2 * 16 + y < 32" "y < 2 \<Longrightarrow> x mod 16 * 2 + y < 32" "y < 8 \<Longrightarrow> x mod 4 * 8 + y < 32"
  "y < 4 \<Longrightarrow> y * 32 + x mod 32 < 128" "y < 2 \<Longrightarrow> y * 32 + x mod 32 < 64"
  "x mod 8 * 4 < 32" "x mod 2 * 16 < 32" "x mod 16 * 2 < 32" "x mod 4 * 8 < 32" for x y :: nat
  using mod_less_divisor [of 8 x] mod_less_divisor [of 2 x] mod_less_divisor [of 16 x] mod_less_divisor [of 4 x] mod_less_divisor [of 32 x]
  by linarith+

lemmas base32_steps = encode_steps encode_ends decode_steps byte_bounds quint_bounds seam

lemma decode_encode: "\<forall>b \<in> set bs. b < 256 \<Longrightarrow> decode_loop 0 0 (encode_loop 0 0 bs) = bs"
  by (induction bs rule: blocks5.induct) (simp_all add: base32_steps del: encode_loop.simps decode_loop.simps(2))

definition to_upper :: "char \<Rightarrow> char" where
  "to_upper c = (if 97 \<le> (of_char c :: nat) \<and> (of_char c :: nat) \<le> 122 then char_of ((of_char c :: nat) - 32) else c)"

definition clean32 :: "string \<Rightarrow> string" where
  "clean32 s = map to_upper (rev (dropWhile (\<lambda>c. c = CHR ''='') (rev (filter (\<lambda>c. \<not> js_space c) s))))"

text \<open>None where a character is not of the alphabet.\<close>

definition base32Decode :: "string \<Rightarrow> string option" where
  "base32Decode s =
     (if list_all (\<lambda>c. index_of c BASE32 \<noteq> None) (clean32 s)
      then Some (map char_of (decode_loop 0 0 (map (\<lambda>c. the (index_of c BASE32)) (clean32 s)))) else None)"

definition generateTotpSecret :: "string \<Rightarrow> string" where
  "generateTotpSecret bytes = base32Encode bytes"

subsection \<open>Codes\<close>

definition TOTP_PERIOD_SECONDS :: int where "TOTP_PERIOD_SECONDS = 30"
definition TOTP_DIGITS :: nat where "TOTP_DIGITS = 6"
definition TOTP_SKEW_STEPS :: int where "TOTP_SKEW_STEPS = 1"

definition totpStep :: "int \<Rightarrow> int" where
  "totpStep now = now div 1000 div TOTP_PERIOD_SECONDS"

fun big_endian :: "nat \<Rightarrow> nat \<Rightarrow> string" where
  "big_endian 0 n = []"
| "big_endian (Suc k) n = big_endian k (n div 256) @ [char_of (n mod 256)]"

definition byte_at :: "string \<Rightarrow> nat \<Rightarrow> nat" where
  "byte_at mac i = (if i < length mac then of_char (mac ! i) else 0)"

definition padStart :: "nat \<Rightarrow> char \<Rightarrow> string \<Rightarrow> string" where
  "padStart n c s = replicate (n - length s) c @ s"

definition truncated_mac :: "string \<Rightarrow> nat" where
  "truncated_mac mac =
     (let offset = byte_at mac (length mac - 1) mod 16
      in byte_at mac offset mod 128 * 2 ^ 24 + byte_at mac (offset + 1) * 2 ^ 16 + byte_at mac (offset + 2) * 2 ^ 8 + byte_at mac (offset + 3))"

text \<open>None where it throws: a secret that is not base32, a step before the epoch.\<close>

definition totpCode :: "(string \<Rightarrow> string \<Rightarrow> string) \<Rightarrow> string \<Rightarrow> int \<Rightarrow> string option" where
  "totpCode hmac secret step =
     (if step < 0 then None
      else map_option (\<lambda>key. padStart TOTP_DIGITS (CHR ''0'') (nat_str (truncated_mac (hmac key (big_endian 8 (nat step))) mod 10 ^ TOTP_DIGITS)))
             (base32Decode secret))"

fun try_steps :: "(string \<Rightarrow> string \<Rightarrow> string) \<Rightarrow> string \<Rightarrow> string \<Rightarrow> int option \<Rightarrow> int list \<Rightarrow> unit + int option" where
  "try_steps hmac secret typed aft [] = Inr None"
| "try_steps hmac secret typed aft (s # steps) =
     (if (case aft of Some l \<Rightarrow> s \<le> l | None \<Rightarrow> False) then try_steps hmac secret typed aft steps
      else case totpCode hmac secret s of
        None \<Rightarrow> Inl ()
      | Some expected \<Rightarrow> if expected = typed then Inr (Some s) else try_steps hmac secret typed aft steps)"

definition verifyTotp :: "(string \<Rightarrow> string \<Rightarrow> string) \<Rightarrow> string \<Rightarrow> string \<Rightarrow> int \<Rightarrow> int option \<Rightarrow> unit + int option" where
  "verifyTotp hmac secret code now aft =
     (let typed = filter (\<lambda>c. \<not> js_space c) code
      in if length typed = TOTP_DIGITS \<and> list_all js_digit typed
         then try_steps hmac secret typed aft (map (\<lambda>d. totpStep now + d) [- TOTP_SKEW_STEPS .. TOTP_SKEW_STEPS])
         else Inr None)"

subsection \<open>The secret at rest\<close>

definition sealTotpSecret :: "(string \<Rightarrow> string \<Rightarrow> string \<Rightarrow> string \<times> string) \<Rightarrow> string \<Rightarrow> string \<Rightarrow> string \<Rightarrow> string option" where
  "sealTotpSecret gcm_seal nonce secret key =
     (if length key \<noteq> 32 then None
      else let (body, tag) = gcm_seal key nonce secret
           in Some (js_join ''.'' [''v1'', toBase64url nonce, toBase64url body, toBase64url tag]))"

text \<open>None where it throws. Pieces after the fourth are passed over.\<close>

definition openTotpSecret :: "(string \<Rightarrow> string \<Rightarrow> string \<Rightarrow> string \<Rightarrow> string option) \<Rightarrow> string \<Rightarrow> string \<Rightarrow> string option" where
  "openTotpSecret gcm_open sealed key =
     (case js_split (CHR ''.'') sealed of
        version # nonce # body # tag # _ \<Rightarrow>
          if version \<noteq> ''v1'' then None
          else gcm_open key (fromBase64url nonce) (fromBase64url body) (fromBase64url tag)
      | _ \<Rightarrow> None)"

subsection \<open>Recovery codes\<close>

definition RECOVERY_CODE_COUNT :: nat where "RECOVERY_CODE_COUNT = 10"

definition generateRecoveryCode :: "string \<Rightarrow> string" where
  "generateRecoveryCode bytes =
     (let t = take 20 (base32Encode bytes)
      in js_join ''-'' [take 5 t, take 5 (drop 5 t), take 5 (drop 10 t), take 5 (drop 15 t)])"

definition normalizeRecoveryCode :: "string \<Rightarrow> string" where
  "normalizeRecoveryCode code = map to_upper (filter (\<lambda>c. \<not> js_space c \<and> c \<noteq> CHR ''-'') code)"

definition hashRecoveryCode :: "(string \<Rightarrow> string) \<Rightarrow> string \<Rightarrow> string" where
  "hashRecoveryCode sha code = sha (normalizeRecoveryCode code)"

subsection \<open>The label an authenticator shows\<close>

definition percent :: "char \<Rightarrow> string" where
  "percent c = (let h = (\<lambda>n. ''0123456789ABCDEF'' ! n); n = of_char c in CHR ''%'' # [h (n div 16), h (n mod 16)])"

definition url_alnum :: "char \<Rightarrow> bool" where
  "url_alnum c \<longleftrightarrow> c \<in> set ''ABCDEFGHIJKLMNOPQRSTUVWXYZabcdefghijklmnopqrstuvwxyz0123456789''"

definition encodeURIComponent :: "string \<Rightarrow> string" where
  "encodeURIComponent s = concat (map (\<lambda>c. if url_alnum c \<or> c \<in> set ''-_.!~*'' \<or> of_char c \<in> {39, 40, 41 :: nat} then [c] else percent c) s)"

definition form_encode :: "string \<Rightarrow> string" where
  "form_encode s = concat (map (\<lambda>c. if url_alnum c \<or> c \<in> set ''*-._'' then [c] else if c = CHR '' '' then ''+'' else percent c) s)"

definition withoutColon :: "string \<Rightarrow> string option" where
  "withoutColon part = (if CHR '':'' \<in> set part then None else Some part)"

definition otpauthUrl :: "string \<Rightarrow> string \<Rightarrow> string \<Rightarrow> string option" where
  "otpauthUrl issuer account secret =
     (case (withoutColon issuer, withoutColon account) of
        (Some i, Some a) \<Rightarrow>
          Some (''otpauth://totp/'' @ encodeURIComponent i @ '':'' @ encodeURIComponent a @ ''?''
            @ js_join ''&'' (map (\<lambda>(k, v). k @ ''='' @ form_encode v)
                [(''secret'', secret), (''issuer'', i), (''algorithm'', ''SHA1''), (''digits'', nat_str TOTP_DIGITS), (''period'', nat_str (nat TOTP_PERIOD_SECONDS))]))
      | _ \<Rightarrow> None)"

subsection \<open>Round trips\<close>

lemma base32_index: "q < 32 \<Longrightarrow> index_of (BASE32 ! q) BASE32 = Some q"
proof -
  assume "q < 32"
  moreover have "\<forall>q \<in> set [0..<32]. index_of (BASE32 ! q) BASE32 = Some q" by (simp add: BASE32_def upt_rec)
  ultimately show ?thesis by simp
qed

lemma emit_bound: "q \<in> set (fst (emit_quints v n)) \<Longrightarrow> q < 32"
proof (induction v n rule: emit_quints.induct)
  case (1 v n)
  then show ?case by (cases "5 \<le> n") (auto simp: emit_quints.simps [of v n] split_def Let_def)
qed

lemma encode_bound: "q \<in> set (encode_loop v n bs) \<Longrightarrow> q < 32"
  by (induction bs arbitrary: v n) (auto simp: Let_def split_def emit_bound split: if_splits)

lemma base32_letters: "\<forall>c \<in> set BASE32. \<not> js_space c \<and> c \<noteq> CHR ''='' \<and> c \<noteq> CHR ''-'' \<and> to_upper c = c"
  by code_simp

lemma base32_chars: "c \<in> set (base32Encode bytes) \<Longrightarrow> c \<in> set BASE32"
proof -
  have "length BASE32 = 32" by code_simp
  then show "c \<in> set (base32Encode bytes) \<Longrightarrow> c \<in> set BASE32" using encode_bound [of _ 0 0 "map of_char bytes"] by (auto simp: base32Encode_def)
qed

lemma clean_base32: "clean32 (base32Encode bytes) = base32Encode bytes"
proof -
  have letters: "\<not> js_space c" "c \<noteq> CHR ''=''" "to_upper c = c" if "c \<in> set (base32Encode bytes)" for c
    using base32_letters base32_chars [OF that] by auto
  have "dropWhile (\<lambda>c. c = CHR ''='') (rev (base32Encode bytes)) = rev (base32Encode bytes)"
    using letters(2) [of "hd (rev (base32Encode bytes))"] by (cases "base32Encode bytes" rule: rev_cases) simp_all
  then show ?thesis using letters by (simp add: clean32_def map_idI)
qed

theorem base32_roundtrip: "base32Decode (base32Encode bytes) = Some bytes"
proof -
  let ?qs = "encode_loop 0 0 (map of_char bytes)"
  have quints: "map (\<lambda>c. the (index_of c BASE32)) (base32Encode bytes) = ?qs"
    using encode_bound base32_index by (fastforce simp: base32Encode_def intro: map_idI)
  have "list_all (\<lambda>c. index_of c BASE32 \<noteq> None) (base32Encode bytes)"
    using encode_bound base32_index by (fastforce simp: base32Encode_def list_all_iff)
  moreover have "decode_loop 0 0 ?qs = map of_char bytes" by (rule decode_encode) auto
  ultimately show ?thesis by (simp add: base32Decode_def clean_base32 quints o_def)
qed

theorem secret_round_trip:
  assumes "\<And>body tag. gcm_seal key nonce secret = (body, tag) \<Longrightarrow> gcm_open key nonce body tag = Some secret" and "length key = 32"
  shows "\<exists>sealed. sealTotpSecret gcm_seal nonce secret key = Some sealed \<and> openTotpSecret gcm_open sealed key = Some secret"
proof -
  obtain body tag where s: "gcm_seal key nonce secret = (body, tag)" by fastforce
  have "CHR ''.'' \<notin> set (toBase64url x)" for x using base64_chars [of x] by (auto simp: BASE64URL_def)
  then have "js_split (CHR ''.'') (js_join ''.'' [''v1'', toBase64url nonce, toBase64url body, toBase64url tag])
      = [''v1'', toBase64url nonce, toBase64url body, toBase64url tag]" by (intro js_split_join) auto
  then show ?thesis using s assms by (simp add: sealTotpSecret_def openTotpSecret_def del: js_join.simps)
qed

lemma recovery_code_text: "normalizeRecoveryCode (generateRecoveryCode bytes) = take 20 (base32Encode bytes)"
proof -
  let ?t = "take 20 (base32Encode bytes)" and ?keep = "\<lambda>c. \<not> js_space c \<and> c \<noteq> CHR ''-''"
  have keep: "?keep c" "to_upper c = c" if "c \<in> set ?t" for c
    using base32_letters base32_chars in_set_takeD [OF that] by auto
  have part: "filter ?keep xs = xs" if "set xs \<subseteq> set ?t" for xs using keep that by (auto simp: filter_id_conv)
  have "set (take 5 (drop n ?t)) \<subseteq> set ?t" for n by (meson set_drop_subset set_take_subset subset_trans)
  then have "filter ?keep (take 5 (drop n ?t)) = take 5 (drop n ?t)" for n by (rule part)
  from this [of 0] this [of 5] this [of 10] this [of 15]
  have "filter ?keep (generateRecoveryCode bytes) = take 5 ?t @ take 5 (drop 5 ?t) @ take 5 (drop 10 ?t) @ take 5 (drop 15 ?t)"
    by (simp add: generateRecoveryCode_def Let_def del: take_take drop_take take_drop)
  also have "\<dots> = ?t"
  proof -
    have "take 5 xs @ take 5 (drop 5 xs) @ take 5 (drop 10 xs) @ take 5 (drop 15 xs) = take 20 xs" for xs :: string
      using take_add [of 5 5 xs] take_add [of 10 5 xs] take_add [of 15 5 xs] by simp
    from this [of ?t] show ?thesis by simp
  qed
  finally show ?thesis using keep(2) by (simp add: normalizeRecoveryCode_def map_idI)
qed

subsection \<open>What an accepted code is\<close>

definition typed_code :: "string \<Rightarrow> string" where
  "typed_code code = filter (\<lambda>c. \<not> js_space c) code"

lemma try_stepsD:
  "try_steps hmac secret typed aft steps = Inr (Some s) \<Longrightarrow>
     s \<in> set steps \<and> (\<forall>l. aft = Some l \<longrightarrow> l < s) \<and> totpCode hmac secret s = Some typed"
  by (induction steps) (auto split: if_splits option.splits)

lemma verify_step:
  assumes "verifyTotp hmac secret code now aft = Inr (Some s)"
  shows "(\<forall>l. aft = Some l \<longrightarrow> l < s) \<and> \<bar>s - totpStep now\<bar> \<le> 1 \<and> totpCode hmac secret s = Some (typed_code code)"
proof -
  have "try_steps hmac secret (typed_code code) aft (map (\<lambda>d. totpStep now + d) [- TOTP_SKEW_STEPS .. TOTP_SKEW_STEPS]) = Inr (Some s)"
    using assms by (simp add: verifyTotp_def typed_code_def Let_def split: if_splits)
  from try_stepsD [OF this] show ?thesis by (auto simp: TOTP_SKEW_STEPS_def)
qed

lemma try_steps_total:
  assumes "\<forall>s \<in> set steps. 0 \<le> s" "base32Decode secret \<noteq> None" "s \<in> set steps" "\<forall>l. aft = Some l \<longrightarrow> l < s" "totpCode hmac secret s = Some typed"
  shows "\<exists>s'. try_steps hmac secret typed aft steps = Inr (Some s')"
  using assms(1,3)
proof (induction steps)
  case (Cons x steps)
  obtain e where e: "totpCode hmac secret x = Some e" using Cons.prems(1) assms(2) by (auto simp: totpCode_def)
  show ?case
  proof (cases "s = x")
    case True
    then show ?thesis using assms(4,5) by (auto split: option.splits)
  next
    case False
    then have "\<exists>s'. try_steps hmac secret typed aft steps = Inr (Some s')" using Cons by simp
    with e show ?thesis by simp
  qed
qed simp

lemma nat_str_length: "n < 10 ^ Suc k \<Longrightarrow> length (nat_str n) \<le> Suc k"
proof (induction k arbitrary: n)
  case (Suc k)
  then have "length (nat_str (n div 10)) \<le> Suc k" by (intro Suc.IH) (simp add: less_mult_imp_div_less)
  then show ?case by (simp add: nat_str.simps [of n])
qed (simp add: nat_str.simps)

lemma nat_str_js_digit: "c \<in> set (nat_str n) \<Longrightarrow> js_digit c"
proof -
  assume "c \<in> set (nat_str n)"
  then have c: "48 \<le> (of_char c :: nat)" "(of_char c :: nat) < 58" using nat_str_digits by blast+
  have "\<forall>n \<in> set [48..<58]. js_digit (char_of n)" by code_simp
  then show ?thesis using c by (metis atLeastLessThan_iff char_of_char set_upt)
qed

lemma six_digits:
  assumes "totpCode hmac secret s = Some code"
  shows "length code = TOTP_DIGITS \<and> list_all js_digit code"
proof -
  obtain m where m: "code = padStart TOTP_DIGITS (CHR ''0'') (nat_str (m mod 10 ^ TOTP_DIGITS))"
    using assms by (auto simp: totpCode_def split: if_splits)
  define n where "n = m mod 10 ^ TOTP_DIGITS"
  then have n: "n < 10 ^ TOTP_DIGITS" "code = padStart TOTP_DIGITS (CHR ''0'') (nat_str n)" using m by simp_all
  have "length (nat_str n) \<le> 6" using n(1) nat_str_length [of n 5] by (simp add: TOTP_DIGITS_def)
  then show ?thesis using n(2) by (auto simp: padStart_def TOTP_DIGITS_def list_all_iff js_digit_def [of "CHR ''0''"] dest: nat_str_js_digit)
qed

lemma digit_no_space: "js_digit c \<Longrightarrow> \<not> js_space c"
proof -
  have "\<forall>c \<in> set ''0123456789''. \<not> js_space c" by code_simp
  then show "js_digit c \<Longrightarrow> \<not> js_space c" unfolding js_digit_def by blast
qed

text \<open>The code an authenticator shows is accepted for its step, unless that step was spent.\<close>

theorem shown_code_accepted:
  assumes "totpCode hmac secret (totpStep now) = Some code" "30000 \<le> now" "\<forall>l. aft = Some l \<longrightarrow> l < totpStep now"
  shows "\<exists>s. verifyTotp hmac secret code now aft = Inr (Some s)"
proof -
  have six: "length code = TOTP_DIGITS" "list_all js_digit code" using six_digits [OF assms(1)] by auto
  then have plain: "filter (\<lambda>c. \<not> js_space c) code = code"
    using digit_no_space by (auto simp: filter_id_conv list_all_iff)
  have "1 \<le> totpStep now" using assms(2) by (simp add: totpStep_def TOTP_PERIOD_SECONDS_def)
  then have "\<exists>s. try_steps hmac secret code aft (map (\<lambda>d. totpStep now + d) [- TOTP_SKEW_STEPS .. TOTP_SKEW_STEPS]) = Inr (Some s)"
    using assms(1,3) by (intro try_steps_total) (auto simp: TOTP_SKEW_STEPS_def totpCode_def split: if_splits)
  then show ?thesis using six plain by (simp add: verifyTotp_def Let_def)
qed

end
