(* ===== verification/Webauthn.thy ===== *)
theory Webauthn
  imports Otp
begin

text \<open>
  \<open>packages/core/webauthn.ts\<close>: the CBOR reader, authenticator data, COSE keys, client data, and the two
  ceremonies' checks.

  Bytes are characters. A reader is the bytes from its offset on. None is a throw; every caller
  answers all of them alike. \<open>utf8\<close> is \<open>TextDecoder\<close> with \<open>fatal\<close>, \<open>json\<close> is \<open>JSON.parse\<close>, \<open>sha\<close> is SHA-256
  and \<open>signed_by\<close> the signature check of \<open>node:crypto\<close>, None where the key is not one it imports.
\<close>

subsection \<open>CBOR\<close>

definition MAX_DEPTH :: nat where "MAX_DEPTH = 8"
definition MAX_ENTRIES :: nat where "MAX_ENTRIES = 64"
definition MAX_BYTES :: nat where "MAX_BYTES = 8192"

datatype CborKey = KeyInt int | KeyText string

datatype CborValue =
    CNum int
  | CText string
  | CBytes string
  | CArray "CborValue list"
  | CMap "(CborKey \<times> CborValue) list"
  | CBool bool
  | CNull

fun big_endian_value :: "string \<Rightarrow> nat" where
  "big_endian_value bs = foldl (\<lambda>n c. n * 256 + of_char c) 0 bs"

text \<open>\<open>need\<close> and the advance of the offset.\<close>

definition take_bytes :: "nat \<Rightarrow> string \<Rightarrow> (string \<times> string) option" where
  "take_bytes n r = (if n \<le> length r then Some (take n r, drop n r) else None)"

definition head_arg :: "nat \<Rightarrow> nat \<Rightarrow> string \<Rightarrow> (nat \<times> nat \<times> string) option" where
  "head_arg major n r = map_option (\<lambda>(b, r'). (major, big_endian_value b, r')) (take_bytes n r)"

definition cbor_head :: "string \<Rightarrow> (nat \<times> nat \<times> string) option" where
  "cbor_head r =
     (case r of
        [] \<Rightarrow> None
      | c # r1 \<Rightarrow>
          (let initial = of_char c :: nat; major = initial div 32; additional = initial mod 32
           in if additional < 24 then Some (major, additional, r1)
              else if additional = 24 then head_arg major 1 r1
              else if additional = 25 then head_arg major 2 r1
              else if additional = 26 then head_arg major 4 r1
              else None))"

fun cbor_key :: "CborValue \<Rightarrow> CborKey option" where
  "cbor_key (CNum n) = Some (KeyInt n)"
| "cbor_key (CText s) = Some (KeyText s)"
| "cbor_key _ = None"

function cbor_item :: "(string \<Rightarrow> string option) \<Rightarrow> nat \<Rightarrow> string \<Rightarrow> (CborValue \<times> string) option"
  and cbor_items :: "(string \<Rightarrow> string option) \<Rightarrow> nat \<Rightarrow> nat \<Rightarrow> string \<Rightarrow> (CborValue list \<times> string) option"
  and cbor_entries :: "(string \<Rightarrow> string option) \<Rightarrow> nat \<Rightarrow> nat \<Rightarrow> (CborKey \<times> CborValue) list \<Rightarrow> string \<Rightarrow> ((CborKey \<times> CborValue) list \<times> string) option" where
  "cbor_item utf8 depth r =
     (if depth > MAX_DEPTH then None
      else case cbor_head r of
        None \<Rightarrow> None
      | Some (major, arg, r1) \<Rightarrow>
          if major = 0 then Some (CNum (int arg), r1)
          else if major = 1 then Some (CNum (- 1 - int arg), r1)
          else if major = 2 then
            (if arg > MAX_BYTES then None else map_option (\<lambda>(b, r2). (CBytes b, r2)) (take_bytes arg r1))
          else if major = 3 then
            (if arg > MAX_BYTES then None
             else case take_bytes arg r1 of
               None \<Rightarrow> None
             | Some (b, r2) \<Rightarrow> map_option (\<lambda>t. (CText t, r2)) (utf8 b))
          else if major = 4 then
            (if arg > MAX_ENTRIES then None else map_option (\<lambda>(vs, r2). (CArray vs, r2)) (cbor_items utf8 (depth + 1) arg r1))
          else if major = 5 then
            (if arg > MAX_ENTRIES then None else map_option (\<lambda>(es, r2). (CMap es, r2)) (cbor_entries utf8 (depth + 1) arg [] r1))
          else if major = 7 then
            (if arg = 20 then Some (CBool False, r1)
             else if arg = 21 then Some (CBool True, r1)
             else if arg = 22 then Some (CNull, r1)
             else None)
          else None)"
| "cbor_items utf8 depth 0 r = Some ([], r)"
| "cbor_items utf8 depth (Suc n) r =
     (case cbor_item utf8 depth r of
        None \<Rightarrow> None
      | Some (v, r1) \<Rightarrow> map_option (\<lambda>(vs, r2). (v # vs, r2)) (cbor_items utf8 depth n r1))"
| "cbor_entries utf8 depth 0 seen r = Some (seen, r)"
| "cbor_entries utf8 depth (Suc n) seen r =
     (case cbor_item utf8 depth r of
        None \<Rightarrow> None
      | Some (k, r1) \<Rightarrow>
          (case cbor_key k of
             None \<Rightarrow> None
           | Some key \<Rightarrow>
               if key \<in> set (map fst seen) then None
               else case cbor_item utf8 depth r1 of
                 None \<Rightarrow> None
               | Some (v, r2) \<Rightarrow> cbor_entries utf8 depth n (seen @ [(key, v)]) r2))"
  by pat_completeness auto
termination
  by (relation "inv_image (less_than <*lex*> less_than)
        (\<lambda>x. case x of Inl (_, d, _) \<Rightarrow> (2 * (9 - d), 0 :: nat)
                     | Inr (Inl (_, d, n, _)) \<Rightarrow> (2 * (9 - d) + 1, n)
                     | Inr (Inr (_, d, n, _, _)) \<Rightarrow> (2 * (9 - d) + 1, n))")
     (auto simp: MAX_DEPTH_def)

declare cbor_item.simps [simp del] cbor_items.simps [simp del] cbor_entries.simps [simp del]

definition decodeCbor :: "(string \<Rightarrow> string option) \<Rightarrow> string \<Rightarrow> CborValue option" where
  "decodeCbor utf8 bytes = (case cbor_item utf8 0 bytes of Some (v, []) \<Rightarrow> Some v | _ \<Rightarrow> None)"

subsection \<open>Authenticator data\<close>

record AuthenticatorFlags =
  fl_userPresent :: bool
  fl_userVerified :: bool
  fl_attestedCredentialData :: bool
  fl_extensionData :: bool

record AttestedCredential =
  ac_aaguid :: string
  ac_id :: string
  ac_coseKey :: "(CborKey \<times> CborValue) list"

record AuthenticatorData =
  ad_rpIdHash :: string
  ad_flags :: AuthenticatorFlags
  ad_signCount :: nat
  ad_credential :: "AttestedCredential option"

definition flags_of :: "nat \<Rightarrow> AuthenticatorFlags" where
  "flags_of raw =
     \<lparr>fl_userPresent = odd raw, fl_userVerified = odd (raw div 4), fl_attestedCredentialData = odd (raw div 64),
      fl_extensionData = odd (raw div 128)\<rparr>"

definition parseAuthenticatorData :: "(string \<Rightarrow> string option) \<Rightarrow> string \<Rightarrow> AuthenticatorData option" where
  "parseAuthenticatorData utf8 bytes =
     (if length bytes < 37 then None
      else let flags = flags_of (of_char (bytes ! 32));
               bare = \<lparr>ad_rpIdHash = take 32 bytes, ad_flags = flags, ad_signCount = big_endian_value (take 4 (drop 33 bytes)), ad_credential = None\<rparr>
      in if \<not> fl_attestedCredentialData flags then Some bare
         else if length bytes < 55 then None
         else let idLength = of_char (bytes ! 53) * 256 + of_char (bytes ! 54)
         in if idLength > 1023 then None
            else if length bytes < 55 + idLength then None
            else case cbor_item utf8 0 (drop (55 + idLength) bytes) of
              Some (CMap coseKey, r) \<Rightarrow>
                if \<not> fl_extensionData flags \<and> r \<noteq> [] then None
                else Some (bare\<lparr>ad_credential := Some \<lparr>ac_aaguid = take 16 (drop 37 bytes), ac_id = take idLength (drop 55 bytes), ac_coseKey = coseKey\<rparr>\<rparr>)
            | _ \<Rightarrow> None)"

subsection \<open>COSE keys\<close>

definition SUPPORTED_ALGORITHMS :: "int list" where
  "SUPPORTED_ALGORITHMS = [-7, -257, -8]"

record PublicKey =
  pk_alg :: int
  pk_jwk :: "(string \<times> string) list"

definition bytesAt :: "(CborKey \<times> CborValue) list \<Rightarrow> int \<Rightarrow> string option" where
  "bytesAt key label = (case map_of key (KeyInt label) of Some (CBytes b) \<Rightarrow> Some b | _ \<Rightarrow> None)"

definition coseToPublicKey :: "(CborKey \<times> CborValue) list \<Rightarrow> PublicKey option" where
  "coseToPublicKey key =
     (let kty = map_of key (KeyInt 1)
      in case map_of key (KeyInt 3) of
        Some (CNum alg) \<Rightarrow>
          if alg \<notin> set SUPPORTED_ALGORITHMS then None
          else if alg = -7 then
            (if kty \<noteq> Some (CNum 2) \<or> map_of key (KeyInt (-1)) \<noteq> Some (CNum 1) then None
             else case (bytesAt key (-2), bytesAt key (-3)) of
               (Some x, Some y) \<Rightarrow> Some \<lparr>pk_alg = alg, pk_jwk = [(''kty'', ''EC''), (''crv'', ''P-256''), (''x'', toBase64url x), (''y'', toBase64url y)]\<rparr>
             | _ \<Rightarrow> None)
          else if alg = -8 then
            (if kty \<noteq> Some (CNum 1) \<or> map_of key (KeyInt (-1)) \<noteq> Some (CNum 6) then None
             else map_option (\<lambda>x. \<lparr>pk_alg = alg, pk_jwk = [(''kty'', ''OKP''), (''crv'', ''Ed25519''), (''x'', toBase64url x)]\<rparr>) (bytesAt key (-2)))
          else if kty \<noteq> Some (CNum 3) then None
          else (case (bytesAt key (-1), bytesAt key (-2)) of
             (Some n, Some e) \<Rightarrow> Some \<lparr>pk_alg = alg, pk_jwk = [(''kty'', ''RSA''), (''n'', toBase64url n), (''e'', toBase64url e)]\<rparr>
           | _ \<Rightarrow> None)
      | _ \<Rightarrow> None)"

subsection \<open>What the client sent\<close>

record ClientData =
  cl_type :: string
  cl_challenge :: string
  cl_origin :: string

definition json_field :: "jsval \<Rightarrow> string \<Rightarrow> string option" where
  "json_field v name = (case v of JObj es \<Rightarrow> Option.bind (map_of es name) as_string | _ \<Rightarrow> None)"

text \<open>The members of \<open>node:crypto\<close> and of the language this file calls.\<close>

record Crypto =
  cy_utf8 :: "string \<Rightarrow> string option"
  cy_json :: "string \<Rightarrow> jsval option"
  cy_sha :: "string \<Rightarrow> string"
  cy_signed :: "PublicKey \<Rightarrow> string \<Rightarrow> string \<Rightarrow> bool option"

definition readClientData :: "Crypto \<Rightarrow> string \<Rightarrow> string \<Rightarrow> string \<Rightarrow> string list \<Rightarrow> ClientData option" where
  "readClientData cy json type chal origins =
     (case Option.bind (cy_utf8 cy json) (cy_json cy) of
        None \<Rightarrow> None
      | Some parsed \<Rightarrow>
          if json_field parsed ''type'' \<noteq> Some type then None
          else if json_field parsed ''challenge'' \<noteq> Some chal then None
          else (case json_field parsed ''origin'' of
             Some origin' \<Rightarrow> if origin' \<in> set origins then Some \<lparr>cl_type = type, cl_challenge = chal, cl_origin = origin'\<rparr> else None
           | None \<Rightarrow> None))"

subsection \<open>The two ceremonies\<close>

record Registration =
  rg_credentialId :: string
  rg_publicKey :: PublicKey
  rg_signCount :: nat
  rg_userVerified :: bool
  rg_aaguid :: string

definition verifyRegistration :: "Crypto \<Rightarrow> string \<Rightarrow> string \<Rightarrow> string \<Rightarrow> string \<Rightarrow> string list \<Rightarrow> Registration option" where
  "verifyRegistration cy attestationObject clientDataJSON chal rpId origins =
     (if readClientData cy clientDataJSON ''webauthn.create'' chal origins = None then None
      else case decodeCbor (cy_utf8 cy) attestationObject of
        Some (CMap attestation) \<Rightarrow>
          (case map_of attestation (KeyText ''authData'') of
             Some (CBytes authDataBytes) \<Rightarrow>
               (case parseAuthenticatorData (cy_utf8 cy) authDataBytes of
                  None \<Rightarrow> None
                | Some authData \<Rightarrow>
                    if cy_sha cy rpId \<noteq> ad_rpIdHash authData then None
                    else if \<not> fl_userPresent (ad_flags authData) then None
                    else (case ad_credential authData of
                       None \<Rightarrow> None
                     | Some credential \<Rightarrow>
                         map_option (\<lambda>key. \<lparr>rg_credentialId = ac_id credential, rg_publicKey = key, rg_signCount = ad_signCount authData,
                             rg_userVerified = fl_userVerified (ad_flags authData), rg_aaguid = ac_aaguid credential\<rparr>)
                           (coseToPublicKey (ac_coseKey credential))))
           | _ \<Rightarrow> None)
      | _ \<Rightarrow> None)"

record Assertion =
  as_signCount :: nat
  as_userVerified :: bool

definition verifyAssertion :: "Crypto \<Rightarrow> string \<Rightarrow> string \<Rightarrow> string \<Rightarrow> string \<Rightarrow> string \<Rightarrow> string list \<Rightarrow> PublicKey \<Rightarrow> nat \<Rightarrow> Assertion option" where
  "verifyAssertion cy authenticatorData clientDataJSON signature chal rpId origins publicKey storedSignCount =
     (if readClientData cy clientDataJSON ''webauthn.get'' chal origins = None then None
      else case parseAuthenticatorData (cy_utf8 cy) authenticatorData of
        None \<Rightarrow> None
      | Some authData \<Rightarrow>
          if cy_sha cy rpId \<noteq> ad_rpIdHash authData then None
          else if \<not> fl_userPresent (ad_flags authData) then None
          else if cy_signed cy publicKey (authenticatorData @ cy_sha cy clientDataJSON) signature \<noteq> Some True then None
          else if ad_signCount authData \<noteq> 0 \<and> ad_signCount authData \<le> storedSignCount then None
          else Some \<lparr>as_signCount = ad_signCount authData, as_userVerified = fl_userVerified (ad_flags authData)\<rparr>)"

subsection \<open>The reader takes exactly what was sent\<close>

lemma take_bytes_more: "take_bytes n r = Some (b, r1) \<Longrightarrow> take_bytes n (r @ t) = Some (b, r1 @ t)"
  by (auto simp: take_bytes_def split: if_splits)

lemma cbor_head_more: "cbor_head r = Some (m, a, r1) \<Longrightarrow> cbor_head (r @ t) = Some (m, a, r1 @ t)"
  by (cases r) (auto simp: cbor_head_def head_arg_def Let_def split: if_splits dest: take_bytes_more)

text \<open>What follows an item is left where it is.\<close>

lemma cbor_more:
  "cbor_item utf8 d r = Some (v, r1) \<Longrightarrow> cbor_item utf8 d (r @ t) = Some (v, r1 @ t)"
  "cbor_items utf8 d n r = Some (vs, r1) \<Longrightarrow> cbor_items utf8 d n (r @ t) = Some (vs, r1 @ t)"
  "cbor_entries utf8 d n seen r = Some (es, r1) \<Longrightarrow> cbor_entries utf8 d n seen (r @ t) = Some (es, r1 @ t)"
proof (induction utf8 d r and utf8 d n r and utf8 d n seen r arbitrary: v r1 and vs r1 and es r1
    rule: cbor_item_cbor_items_cbor_entries.induct)
  case (1 utf8 d r)
  from "1.prems" obtain m a r2 where h: "\<not> d > MAX_DEPTH" "cbor_head r = Some (m, a, r2)"
    by (auto simp: cbor_item.simps [of _ _ r] split: if_splits option.splits)
  note h' = cbor_head_more [OF h(2), of t]
  show ?case
    using "1.prems" "1.IH"(1) [OF h refl refl] "1.IH"(2) [OF h refl refl] take_bytes_more [of a r2 _ _ t]
    by (auto simp: cbor_item.simps [of _ _ r] cbor_item.simps [of _ _ "r @ t"] h h' split: if_splits option.splits)
next
  case (3 utf8 d n r)
  then show ?case by (fastforce simp: cbor_items.simps split: option.splits)
next
  case (5 utf8 d n seen r)
  from "5.prems" obtain k r2 key w r3 where e: "cbor_item utf8 d r = Some (k, r2)" "cbor_key k = Some key" "key \<notin> set (map fst seen)"
    "cbor_item utf8 d r2 = Some (w, r3)" "cbor_entries utf8 d n (seen @ [(key, w)]) r3 = Some (es, r1)"
    by (auto simp: cbor_entries.simps(2) [of _ _ _ _ r] split: option.splits if_splits)
  show ?case using "5.IH"(1) [OF e(1)] "5.IH"(2) [OF e(1) refl e(2,3,4)] "5.IH"(3) [OF e(1) refl e(2,3,4) refl e(5)] e
    by (simp add: cbor_entries.simps(2) [of _ _ _ _ "r @ t"])
qed (simp_all add: cbor_items.simps cbor_entries.simps)

theorem cbor_whole:
  assumes "decodeCbor utf8 bytes = Some v" "t \<noteq> []"
  shows "decodeCbor utf8 (bytes @ t) = None"
proof -
  have "cbor_item utf8 0 bytes = Some (v, [])" using assms(1) by (auto simp: decodeCbor_def split: option.splits list.splits)
  from cbor_more(1) [OF this, of t] show ?thesis using assms(2) by (simp add: decodeCbor_def split: list.splits)
qed

text \<open>A number written the long way is read like the short one: the reader does not ask for the shortest form.\<close>

theorem cbor_long_form: "decodeCbor utf8 [CHR 0x18, CHR 0x05] = Some (CNum 5) \<and> decodeCbor utf8 [CHR 0x05] = Some (CNum 5)"
  by (simp add: decodeCbor_def cbor_item.simps cbor_head_def head_arg_def take_bytes_def MAX_DEPTH_def)

subsection \<open>The canonical encoding is read back\<close>

definition canonical_head :: "nat \<Rightarrow> nat \<Rightarrow> string" where
  "canonical_head major n =
     (if n < 24 then [char_of (major * 32 + n)]
      else if n < 256 then char_of (major * 32 + 24) # big_endian 1 n
      else if n < 65536 then char_of (major * 32 + 25) # big_endian 2 n
      else char_of (major * 32 + 26) # big_endian 4 n)"

lemma size_snd_map [termination_simp]: "(k, v) \<in> set es \<Longrightarrow> size v < Suc (size_list (size_prod size size) es)"
  by (induction es) (auto simp: le_imp_less_Suc trans_less_add2)

definition encode_int :: "int \<Rightarrow> string" where
  "encode_int n = (if n \<ge> 0 then canonical_head 0 (nat n) else canonical_head 1 (nat (- 1 - n)))"

fun encode_key :: "(string \<Rightarrow> string) \<Rightarrow> CborKey \<Rightarrow> string" where
  "encode_key enc (KeyInt n) = encode_int n"
| "encode_key enc (KeyText s) = canonical_head 3 (length (enc s)) @ enc s"

fun encode_cbor :: "(string \<Rightarrow> string) \<Rightarrow> CborValue \<Rightarrow> string" where
  "encode_cbor enc (CNum n) = encode_int n"
| "encode_cbor enc (CBytes b) = canonical_head 2 (length b) @ b"
| "encode_cbor enc (CText s) = canonical_head 3 (length (enc s)) @ enc s"
| "encode_cbor enc (CArray vs) = canonical_head 4 (length vs) @ concat (map (encode_cbor enc) vs)"
| "encode_cbor enc (CMap es) = canonical_head 5 (length es) @ concat (map (\<lambda>(k, v). encode_key enc k @ encode_cbor enc v) es)"
| "encode_cbor enc (CBool b) = [if b then CHR 0xF5 else CHR 0xF4]"
| "encode_cbor enc CNull = [CHR 0xF6]"

definition int_fits :: "int \<Rightarrow> bool" where
  "int_fits n \<longleftrightarrow> - 4294967296 \<le> n \<and> n < 4294967296"

fun key_fits :: "(string \<Rightarrow> string) \<Rightarrow> CborKey \<Rightarrow> bool" where
  "key_fits enc (KeyInt n) = int_fits n"
| "key_fits enc (KeyText s) = (length (enc s) \<le> MAX_BYTES)"

fun cbor_fits :: "(string \<Rightarrow> string) \<Rightarrow> nat \<Rightarrow> CborValue \<Rightarrow> bool" where
  "cbor_fits enc d (CNum n) = (d \<le> MAX_DEPTH \<and> int_fits n)"
| "cbor_fits enc d (CBytes b) = (d \<le> MAX_DEPTH \<and> length b \<le> MAX_BYTES)"
| "cbor_fits enc d (CText s) = (d \<le> MAX_DEPTH \<and> length (enc s) \<le> MAX_BYTES)"
| "cbor_fits enc d (CArray vs) = (d \<le> MAX_DEPTH \<and> length vs \<le> MAX_ENTRIES \<and> (\<forall>v \<in> set vs. cbor_fits enc (d + 1) v))"
| "cbor_fits enc d (CMap es) = (d \<le> MAX_DEPTH \<and> length es \<le> MAX_ENTRIES \<and> distinct (map fst es)
     \<and> (\<forall>(k, v) \<in> set es. key_fits enc k \<and> cbor_fits enc (d + 1) v))"
| "cbor_fits enc d _ = (d \<le> MAX_DEPTH)"

lemma big_endian_snoc: "big_endian_value (bs @ [c]) = big_endian_value bs * 256 + of_char c"
  by simp

lemma big_endian_back: "n < 256 ^ k \<Longrightarrow> big_endian_value (big_endian k n) = n"
proof (induction k arbitrary: n)
  case (Suc k)
  then have "n div 256 < 256 ^ k" by (simp add: less_mult_imp_div_less mult.commute)
  from Suc.IH [OF this] show ?case by (simp add: big_endian_snoc del: big_endian_value.simps)
qed simp

lemma big_endian_length: "length (big_endian k n) = k"
  by (induction k arbitrary: n) simp_all

lemma canonical_head_read:
  assumes "major < 8" "n < 4294967296"
  shows "cbor_head (canonical_head major n @ r) = Some (major, n, r)"
proof -
  have first: "(of_char (char_of (major * 32 + a) :: char) :: nat) = major * 32 + a" if "a < 32" for a
    using that assms(1) by (simp add: of_char_of)
  have split: "(major * 32 + a) div 32 = major" "(major * 32 + a) mod 32 = a" if "a < 32" for a using that by simp_all
  have arg: "head_arg major k (big_endian k n @ r) = Some (major, n, r)" if "n < 256 ^ k" for k
    using that by (simp add: head_arg_def take_bytes_def big_endian_length big_endian_back del: big_endian_value.simps)
  show ?thesis
    using assms arg [of 1] arg [of 2] arg [of 4]
    by (simp add: canonical_head_def cbor_head_def first split Let_def del: big_endian.simps)
qed

lemma item_headed:
  assumes "d \<le> MAX_DEPTH" "n < 4294967296"
  shows "cbor_item utf8 d (canonical_head 0 n @ r) = Some (CNum (int n), r)"
    "cbor_item utf8 d (canonical_head (Suc 0) n @ r) = Some (CNum (- 1 - int n), r)"
    "cbor_item utf8 d (canonical_head 2 n @ r) = (if n > MAX_BYTES then None else map_option (\<lambda>(b, r2). (CBytes b, r2)) (take_bytes n r))"
    "cbor_item utf8 d (canonical_head 3 n @ r) = (if n > MAX_BYTES then None
       else case take_bytes n r of None \<Rightarrow> None | Some (b, r2) \<Rightarrow> map_option (\<lambda>t. (CText t, r2)) (utf8 b))"
    "cbor_item utf8 d (canonical_head 4 n @ r) = (if n > MAX_ENTRIES then None else map_option (\<lambda>(vs, r2). (CArray vs, r2)) (cbor_items utf8 (d + 1) n r))"
    "cbor_item utf8 d (canonical_head 5 n @ r) = (if n > MAX_ENTRIES then None else map_option (\<lambda>(es, r2). (CMap es, r2)) (cbor_entries utf8 (d + 1) n [] r))"
  using assms by (simp_all add: cbor_item.simps [of _ _ "canonical_head _ n @ r"] canonical_head_read)

definition reads_text :: "(string \<Rightarrow> string option) \<Rightarrow> (string \<Rightarrow> string) \<Rightarrow> bool" where
  "reads_text utf8 enc \<longleftrightarrow> (\<forall>s. utf8 (enc s) = Some s)"

lemma simple_read:
  assumes "d \<le> MAX_DEPTH"
  shows "cbor_item utf8 d (CHR 0xF4 # r) = Some (CBool False, r)" "cbor_item utf8 d (CHR 0xF5 # r) = Some (CBool True, r)"
    "cbor_item utf8 d (CHR 0xF6 # r) = Some (CNull, r)"
  using assms by (simp_all add: cbor_item.simps [of _ _ "c # r" for c] cbor_head_def)

lemma encode_int_read: "int_fits n \<Longrightarrow> d \<le> MAX_DEPTH \<Longrightarrow> cbor_item utf8 d (encode_int n @ r) = Some (CNum n, r)"
  by (auto simp: encode_int_def int_fits_def item_headed)

lemma text_read:
  "reads_text utf8 enc \<Longrightarrow> length (enc s) \<le> MAX_BYTES \<Longrightarrow> d \<le> MAX_DEPTH \<Longrightarrow>
     cbor_item utf8 d (canonical_head 3 (length (enc s)) @ enc s @ r) = Some (CText s, r)"
  by (simp add: item_headed take_bytes_def MAX_BYTES_def reads_text_def)

lemma encode_key_read:
  "reads_text utf8 enc \<Longrightarrow> key_fits enc k \<Longrightarrow> d \<le> MAX_DEPTH \<Longrightarrow>
     \<exists>v. cbor_item utf8 d (encode_key enc k @ r) = Some (v, r) \<and> cbor_key v = Some k"
  by (cases k) (auto simp: encode_int_read text_read)

lemma items_read:
  assumes "\<And>v r. v \<in> set vs \<Longrightarrow> cbor_item utf8 d (encode_cbor enc v @ r) = Some (v, r)"
  shows "cbor_items utf8 d (length vs) (concat (map (encode_cbor enc) vs) @ r) = Some (vs, r)"
  using assms by (induction vs) (simp_all add: cbor_items.simps)

lemma entries_read:
  assumes "reads_text utf8 enc" "d \<le> MAX_DEPTH \<or> es = []"
    and "\<And>k v r. (k, v) \<in> set es \<Longrightarrow> key_fits enc k \<and> cbor_item utf8 d (encode_cbor enc v @ r) = Some (v, r)"
    and "distinct (map fst (seen @ es))"
  shows "cbor_entries utf8 d (length es) seen (concat (map (\<lambda>(k, v). encode_key enc k @ encode_cbor enc v) es) @ r) = Some (seen @ es, r)"
  using assms(2-)
proof (induction es arbitrary: seen)
  case (Cons e es)
  obtain k v where e: "e = (k, v)" by fastforce
  let ?rest = "concat (map (\<lambda>(k, v). encode_key enc k @ encode_cbor enc v) es) @ r"
  have "d \<le> MAX_DEPTH" "key_fits enc k" using Cons.prems(1,2) e by auto
  then obtain kv where kv: "cbor_item utf8 d (encode_key enc k @ encode_cbor enc v @ ?rest) = Some (kv, encode_cbor enc v @ ?rest)" "cbor_key kv = Some k"
    using encode_key_read [OF assms(1)] by blast
  have "cbor_entries utf8 d (length es) (seen @ [(k, v)]) ?rest = Some ((seen @ [(k, v)]) @ es, r)"
    using Cons.prems e by (intro Cons.IH) auto
  moreover have "k \<notin> set (map fst seen)" using Cons.prems(3) e by auto
  ultimately show ?case using kv Cons.prems(2) [of k v ?rest] e by (simp add: cbor_entries.simps)
qed (simp add: cbor_entries.simps)

lemma fits_depth: "cbor_fits enc d v \<Longrightarrow> d \<le> MAX_DEPTH"
  by (cases v) simp_all

lemma encode_cbor_read: "reads_text utf8 enc \<Longrightarrow> cbor_fits enc d v \<Longrightarrow> cbor_item utf8 d (encode_cbor enc v @ r) = Some (v, r)"
proof (induction enc v arbitrary: d r rule: encode_cbor.induct)
  case (4 enc vs)
  have "cbor_items utf8 (d + 1) (length vs) (concat (map (encode_cbor enc) vs) @ r) = Some (vs, r)"
    using 4 by (intro items_read) auto
  with 4 show ?case by (simp add: item_headed MAX_ENTRIES_def)
next
  case (5 enc es)
  have "cbor_entries utf8 (d + 1) (length es) [] (concat (map (\<lambda>(k, v). encode_key enc k @ encode_cbor enc v) es) @ r) = Some ([] @ es, r)"
  proof (rule entries_read)
    show "d + 1 \<le> MAX_DEPTH \<or> es = []" using "5.prems"(2) fits_depth by (cases es) auto
    show "key_fits enc k \<and> cbor_item utf8 (d + 1) (encode_cbor enc v @ r) = Some (v, r)" if "(k, v) \<in> set es" for k v r
      using 5(1) [OF that refl "5.prems"(1)] "5.prems"(2) that by auto
  qed (use 5 in auto)
  with 5 show ?case by (simp add: item_headed MAX_ENTRIES_def)
qed (simp_all add: encode_int_read text_read item_headed take_bytes_def MAX_BYTES_def reads_text_def simple_read)

theorem cbor_round_trip: "reads_text utf8 enc \<Longrightarrow> cbor_fits enc 0 v \<Longrightarrow> decodeCbor utf8 (encode_cbor enc v) = Some v"
  using encode_cbor_read [of utf8 enc 0 v "[]"] by (simp add: decodeCbor_def)

subsection \<open>What an accepted ceremony shows\<close>

definition for_ceremony :: "Crypto \<Rightarrow> string \<Rightarrow> string \<Rightarrow> string \<Rightarrow> string list \<Rightarrow> bool" where
  "for_ceremony cy json type chal origins \<longleftrightarrow>
     (\<exists>parsed origin'. Option.bind (cy_utf8 cy json) (cy_json cy) = Some parsed \<and> json_field parsed ''type'' = Some type
       \<and> json_field parsed ''challenge'' = Some chal \<and> origin' \<in> set origins \<and> json_field parsed ''origin'' = Some origin')"

lemma readClientData_iff: "readClientData cy json type chal origins \<noteq> None \<longleftrightarrow> for_ceremony cy json type chal origins"
  by (auto simp: readClientData_def for_ceremony_def split: option.splits)

lemma flags_touched: "parseAuthenticatorData utf8 bytes = Some d \<Longrightarrow>
    37 \<le> length bytes \<and> ad_rpIdHash d = take 32 bytes \<and> fl_userPresent (ad_flags d) = odd (of_char (bytes ! 32) :: nat)
    \<and> ad_signCount d = big_endian_value (take 4 (drop 33 bytes))"
  by (auto simp: parseAuthenticatorData_def Let_def flags_of_def split: if_splits option.splits CborValue.splits)

text \<open>An assertion is accepted only for its challenge and its place, with somebody present and the stored key's
  signature over both, and a counter that is zero or has moved on.\<close>

lemma assertionD:
  assumes "verifyAssertion cy ad json sig chal rpId origins key stored = Some a"
  shows "for_ceremony cy json ''webauthn.get'' chal origins" "take 32 ad = cy_sha cy rpId" "odd (of_char (ad ! 32) :: nat)"
    "cy_signed cy key (ad @ cy_sha cy json) sig = Some True"
    "as_signCount a = big_endian_value (take 4 (drop 33 ad))" "as_signCount a = 0 \<or> stored < as_signCount a"
  using assms readClientData_iff [of cy json _ chal origins]
  by (auto simp: verifyAssertion_def split: if_splits option.splits dest: flags_touched)

lemma registrationD:
  assumes "verifyRegistration cy att json chal rpId origins = Some r"
  shows "for_ceremony cy json ''webauthn.create'' chal origins" "pk_alg (rg_publicKey r) \<in> set SUPPORTED_ALGORITHMS"
proof -
  show "for_ceremony cy json ''webauthn.create'' chal origins"
    using assms readClientData_iff [of cy json "''webauthn.create''" chal origins] by (auto simp: verifyRegistration_def split: if_splits)
  obtain k where "coseToPublicKey k = Some (rg_publicKey r)"
    using assms by (auto simp: verifyRegistration_def split: if_splits option.splits CborValue.splits)
  moreover have "coseToPublicKey k = Some p \<Longrightarrow> pk_alg p \<in> set SUPPORTED_ALGORITHMS" for p
    by (auto simp: coseToPublicKey_def Let_def split: option.splits CborValue.splits if_splits)
  ultimately show "pk_alg (rg_publicKey r) \<in> set SUPPORTED_ALGORITHMS" by blast
qed

text \<open>A counter that falls back to zero is accepted whatever was stored.\<close>

theorem counter_reset_accepted:
  assumes "verifyAssertion cy ad json sig chal rpId origins key stored = Some a" "as_signCount a = 0"
  shows "verifyAssertion cy ad json sig chal rpId origins key stored' = Some a"
  using assms by (auto simp: verifyAssertion_def split: if_splits option.splits)

end
