(* ===== verification/Second_Factor.thy ===== *)
theory Second_Factor
  imports Webauthn
begin

text \<open>
  \<open>packages/api/src/second-factor.ts\<close>: enrolment, the check of a code at sign-in, recovery codes and the
  WebAuthn ceremonies, over their three tables.

  Each method is one transaction over rows it locks, so a step of the system is a method. Inl is a throw,
  and what the transaction did before it is undone. The database and the process read one clock, in
  milliseconds. Ids, nonces and draws at random are arguments. The unique constraints and the trigger of
  the migrations are part of the inserts.
\<close>

subsection \<open>State\<close>

definition MAX_FAILURES :: nat where "MAX_FAILURES = 5"
definition LOCK_MS :: int where "LOCK_MS = 15 * 60 * 1000"
definition CHALLENGE_TTL_MS :: int where "CHALLENGE_TTL_MS = 300 * 1000"

record FactorRow =
  fr_id :: string
  fr_org :: string
  fr_user :: string
  fr_kind :: FactorKind
  fr_label :: string
  fr_secret :: "string option"
  fr_credential :: "string option"
  fr_key :: "PublicKey option"
  fr_signCount :: "nat option"
  fr_confirmed :: "int option"
  fr_lastStep :: "int option"
  fr_failed :: nat
  fr_locked :: "int option"
  fr_created :: int
  fr_lastUsed :: "int option"

record CodeRow =
  co_org :: string
  co_user :: string
  co_hash :: string
  co_used :: "int option"

datatype Ceremony = Register | Authenticate

record CeremonyRow =
  cg_org :: string
  cg_user :: string
  cg_purpose :: Ceremony
  cg_challenge :: string
  cg_expires :: int
  cg_used :: "int option"

record Factors =
  fs_factors :: "FactorRow list"
  fs_codes :: "CodeRow list"
  fs_challenges :: "CeremonyRow list"

record FactorDeps =
  fd_key :: "string option"
  fd_issuer :: string
  fd_rpId :: string
  fd_rpName :: string
  fd_origins :: "string list"
  fd_crypto :: Crypto
  fd_hmac :: "string \<Rightarrow> string \<Rightarrow> string"
  fd_seal :: "string \<Rightarrow> string \<Rightarrow> string \<Rightarrow> string \<times> string"
  fd_open :: "string \<Rightarrow> string \<Rightarrow> string \<Rightarrow> string \<Rightarrow> string option"
  fd_hash :: "string \<Rightarrow> string"
  fd_email :: "string \<Rightarrow> string \<Rightarrow> string option"
  fd_shared :: "string \<Rightarrow> string \<Rightarrow> bool"

text \<open>The constructor's check.\<close>

definition starts :: "FactorDeps \<Rightarrow> bool" where
  "starts deps \<longleftrightarrow> otpauthUrl (fd_issuer deps) ''startup@check'' ''AA'' \<noteq> None"

definition kinds :: "FactorDeps \<Rightarrow> FactorKind list" where
  "kinds deps = (if fd_key deps \<noteq> None then [Totp] else []) @ (if fd_rpId deps \<noteq> [] then [WebAuthn] else [])"

definition available :: "FactorDeps \<Rightarrow> bool" where
  "available deps \<longleftrightarrow> kinds deps \<noteq> []"

definition of_person :: "string \<Rightarrow> string \<Rightarrow> FactorRow \<Rightarrow> bool" where
  "of_person orgId userId r \<longleftrightarrow> fr_org r = orgId \<and> fr_user r = userId"

definition held :: "string \<Rightarrow> string \<Rightarrow> Factors \<Rightarrow> FactorRow list" where
  "held orgId userId w = filter (\<lambda>r. of_person orgId userId r \<and> fr_confirmed r \<noteq> None) (fs_factors w)"

definition required :: "FactorDeps \<Rightarrow> string \<Rightarrow> string \<Rightarrow> Factors \<Rightarrow> bool" where
  "required deps orgId userId w = (if fd_key deps = None \<and> fd_rpId deps = [] then False else length (held orgId userId w) > 0)"

record EnrolledFactor =
  ef_id :: string
  ef_kind :: FactorKind
  ef_label :: string
  ef_createdAt :: int
  ef_lastUsedAt :: "int option"

definition list_factors :: "string \<Rightarrow> string \<Rightarrow> Factors \<Rightarrow> EnrolledFactor list" where
  "list_factors orgId userId w =
     map (\<lambda>r. \<lparr>ef_id = fr_id r, ef_kind = fr_kind r, ef_label = fr_label r, ef_createdAt = fr_created r, ef_lastUsedAt = fr_lastUsed r\<rparr>)
       (sort_key fr_created (sort_key fr_id (held orgId userId w)))"

definition recoveryCodesLeft :: "string \<Rightarrow> string \<Rightarrow> Factors \<Rightarrow> nat" where
  "recoveryCodesLeft orgId userId w = length (filter (\<lambda>c. co_org c = orgId \<and> co_user c = userId \<and> co_used c = None) (fs_codes w))"

definition emailOf :: "FactorDeps \<Rightarrow> string \<Rightarrow> string \<Rightarrow> string option" where
  "emailOf deps orgId userId = fd_email deps orgId userId"

subsection \<open>Enrolling an authenticator app\<close>

text \<open>The constraints an insert into \<open>user_second_factors\<close> meets.\<close>

definition insertable :: "FactorDeps \<Rightarrow> FactorRow \<Rightarrow> FactorRow list \<Rightarrow> bool" where
  "insertable deps r rows \<longleftrightarrow>
     \<not> fd_shared deps (fr_org r) (fr_user r)
     \<and> (\<forall>x \<in> set rows. \<not> (fr_user x = fr_user r \<and> fr_kind x = fr_kind r \<and> fr_label x = fr_label r)
          \<and> \<not> (fr_credential r \<noteq> None \<and> fr_org x = fr_org r \<and> fr_credential x = fr_credential r))"

record BegunEnrolment =
  be_id :: string
  be_secret :: string
  be_otpauthUrl :: string

definition totp_row :: "int \<Rightarrow> string \<Rightarrow> string \<Rightarrow> string \<Rightarrow> string \<Rightarrow> string \<Rightarrow> FactorRow" where
  "totp_row now id' orgId userId sealed label =
     \<lparr>fr_id = id', fr_org = orgId, fr_user = userId, fr_kind = Totp, fr_label = label, fr_secret = Some sealed, fr_credential = None,
      fr_key = None, fr_signCount = None, fr_confirmed = None, fr_lastStep = None, fr_failed = 0, fr_locked = None, fr_created = now, fr_lastUsed = None\<rparr>"

text \<open>The address is put into the label after the transaction has committed.\<close>

definition begin_totp :: "FactorDeps \<Rightarrow> int \<Rightarrow> string \<Rightarrow> string \<Rightarrow> string \<Rightarrow> string \<Rightarrow> string \<Rightarrow> string \<Rightarrow> Factors \<Rightarrow> (unit + BegunEnrolment option) \<times> Factors" where
  "begin_totp deps now id' bytes nonce orgId userId label w =
     (case fd_key deps of
        None \<Rightarrow> (Inr None, w)
      | Some key \<Rightarrow>
          (let secret = generateTotpSecret bytes
           in case sealTotpSecret (fd_seal deps) nonce secret key of
             None \<Rightarrow> (Inl (), w)
           | Some sealed \<Rightarrow>
               (case fd_email deps orgId userId of
                  None \<Rightarrow> (Inr None, w)
                | Some account \<Rightarrow>
                    (let kept = filter (\<lambda>r. \<not> (of_person orgId userId r \<and> fr_label r = label \<and> fr_confirmed r = None)) (fs_factors w);
                         row = totp_row now id' orgId userId sealed label
                     in if \<not> insertable deps row kept then (Inl (), w)
                        else ((case otpauthUrl (fd_issuer deps) account secret of
                                 None \<Rightarrow> Inl ()
                               | Some url \<Rightarrow> Inr (Some \<lparr>be_id = id', be_secret = secret, be_otpauthUrl = url\<rparr>)),
                              w\<lparr>fs_factors := kept @ [row]\<rparr>)))))"

definition update_factor :: "string \<Rightarrow> (FactorRow \<Rightarrow> FactorRow) \<Rightarrow> Factors \<Rightarrow> Factors" where
  "update_factor id' f w = w\<lparr>fs_factors := map (\<lambda>r. if fr_id r = id' then f r else r) (fs_factors w)\<rparr>"

text \<open>One insert per code; None where one is already in the table.\<close>

fun insert_codes :: "(string \<Rightarrow> string) \<Rightarrow> string \<Rightarrow> string \<Rightarrow> string list \<Rightarrow> CodeRow list \<Rightarrow> CodeRow list option" where
  "insert_codes sha orgId userId [] rows = Some rows"
| "insert_codes sha orgId userId (c # cs) rows =
     (let h = hashRecoveryCode sha c
      in if h \<in> set (map co_hash rows) then None
         else insert_codes sha orgId userId cs (rows @ [\<lparr>co_org = orgId, co_user = userId, co_hash = h, co_used = None\<rparr>]))"

definition mint_codes :: "FactorDeps \<Rightarrow> string list \<Rightarrow> string \<Rightarrow> string \<Rightarrow> Factors \<Rightarrow> (string list \<times> Factors) option" where
  "mint_codes deps draws orgId userId w =
     (if recoveryCodesLeft orgId userId w > 0 then Some ([], w)
      else let codes = map generateRecoveryCode (take RECOVERY_CODE_COUNT draws)
           in map_option (\<lambda>rows. (codes, w\<lparr>fs_codes := rows\<rparr>)) (insert_codes (fd_hash deps) orgId userId codes (fs_codes w)))"

definition open_row :: "FactorDeps \<Rightarrow> string \<Rightarrow> FactorRow \<Rightarrow> string option" where
  "open_row deps key r = Option.bind (fr_secret r) (\<lambda>s. openTotpSecret (fd_open deps) s key)"

definition check_row :: "FactorDeps \<Rightarrow> string \<Rightarrow> int \<Rightarrow> string \<Rightarrow> FactorRow \<Rightarrow> unit + int option" where
  "check_row deps key now code r =
     (case open_row deps key r of
        None \<Rightarrow> Inl ()
      | Some secret \<Rightarrow> verifyTotp (fd_hmac deps) secret code now (fr_lastStep r))"

definition pending_row :: "string \<Rightarrow> string \<Rightarrow> string \<Rightarrow> Factors \<Rightarrow> FactorRow option" where
  "pending_row orgId userId id' w = find (\<lambda>r. of_person orgId userId r \<and> fr_id r = id' \<and> fr_confirmed r = None) (fs_factors w)"

definition confirm_check :: "FactorDeps \<Rightarrow> int \<Rightarrow> string \<Rightarrow> string \<Rightarrow> string \<Rightarrow> string \<Rightarrow> Factors \<Rightarrow> unit + int option" where
  "confirm_check deps now orgId userId id' code w =
     (case (fd_key deps, pending_row orgId userId id' w) of
        (Some key, Some r) \<Rightarrow> check_row deps key now code r
      | _ \<Rightarrow> Inr None)"

definition confirm :: "FactorDeps \<Rightarrow> int \<Rightarrow> string list \<Rightarrow> string \<Rightarrow> string \<Rightarrow> string \<Rightarrow> string \<Rightarrow> Factors \<Rightarrow> (unit + string list option) \<times> Factors" where
  "confirm deps now draws orgId userId id' code w =
     (case confirm_check deps now orgId userId id' code w of
        Inl _ \<Rightarrow> (Inl (), w)
      | Inr None \<Rightarrow> (Inr None, w)
      | Inr (Some step) \<Rightarrow>
          (let w1 = update_factor id' (\<lambda>r. r\<lparr>fr_confirmed := Some now, fr_lastStep := Some step, fr_lastUsed := Some now, fr_failed := 0\<rparr>) w
           in case mint_codes deps draws orgId userId w1 of
             None \<Rightarrow> (Inl (), w)
           | Some (codes, w2) \<Rightarrow> (Inr (Some codes), w2)))"

subsection \<open>A code at sign-in\<close>

definition spendable :: "FactorDeps \<Rightarrow> string \<Rightarrow> string \<Rightarrow> string \<Rightarrow> CodeRow \<Rightarrow> bool" where
  "spendable deps orgId userId code c \<longleftrightarrow>
     co_org c = orgId \<and> co_user c = userId \<and> co_hash c = hashRecoveryCode (fd_hash deps) code \<and> co_used c = None"

definition spends :: "FactorDeps \<Rightarrow> string \<Rightarrow> string \<Rightarrow> string \<Rightarrow> Factors \<Rightarrow> bool" where
  "spends deps orgId userId code w \<longleftrightarrow> (\<exists>c \<in> set (fs_codes w). spendable deps orgId userId code c)"

definition spend_codes :: "FactorDeps \<Rightarrow> int \<Rightarrow> string \<Rightarrow> string \<Rightarrow> string \<Rightarrow> Factors \<Rightarrow> Factors" where
  "spend_codes deps now orgId userId code w =
     w\<lparr>fs_codes := map (\<lambda>c. if spendable deps orgId userId code c then c\<lparr>co_used := Some now\<rparr> else c) (fs_codes w)\<rparr>"

definition row_locked :: "int \<Rightarrow> FactorRow \<Rightarrow> bool" where
  "row_locked now r \<longleftrightarrow> (case fr_locked r of Some t \<Rightarrow> t > now | None \<Rightarrow> False)"

definition totp_rows :: "string \<Rightarrow> string \<Rightarrow> Factors \<Rightarrow> FactorRow list" where
  "totp_rows orgId userId w = sort_key fr_created (filter (\<lambda>r. fr_kind r = Totp) (held orgId userId w))"

fun check_rows :: "FactorDeps \<Rightarrow> string \<Rightarrow> int \<Rightarrow> string \<Rightarrow> FactorRow list \<Rightarrow> unit + (string \<times> int) option" where
  "check_rows deps key now code [] = Inr None"
| "check_rows deps key now code (r # rs) =
     (if row_locked now r then check_rows deps key now code rs
      else case check_row deps key now code r of
        Inl _ \<Rightarrow> Inl ()
      | Inr None \<Rightarrow> check_rows deps key now code rs
      | Inr (Some step) \<Rightarrow> Inr (Some (fr_id r, step)))"

definition failed_row :: "int \<Rightarrow> nat \<Rightarrow> FactorRow \<Rightarrow> FactorRow" where
  "failed_row now failures x = x\<lparr>fr_failed := failures, fr_locked := (if failures \<ge> MAX_FAILURES then Some (now + LOCK_MS) else fr_locked x)\<rparr>"

fun count_failures :: "int \<Rightarrow> FactorRow list \<Rightarrow> Factors \<Rightarrow> Factors" where
  "count_failures now [] w = w"
| "count_failures now (r # rs) w =
     count_failures now rs (if row_locked now r then w else update_factor (fr_id r) (failed_row now (fr_failed r + 1)) w)"

definition verify :: "FactorDeps \<Rightarrow> int \<Rightarrow> string \<Rightarrow> string \<Rightarrow> string \<Rightarrow> Factors \<Rightarrow> (unit + bool) \<times> Factors" where
  "verify deps now orgId userId code w =
     (if spends deps orgId userId code w then (Inr True, spend_codes deps now orgId userId code w)
      else case fd_key deps of
        None \<Rightarrow> (Inr False, w)
      | Some key \<Rightarrow>
          (case check_rows deps key now code (totp_rows orgId userId w) of
             Inl _ \<Rightarrow> (Inl (), w)
           | Inr (Some (id', step)) \<Rightarrow>
               (Inr True, update_factor id' (\<lambda>r. r\<lparr>fr_lastStep := Some step, fr_lastUsed := Some now, fr_failed := 0, fr_locked := None\<rparr>) w)
           | Inr None \<Rightarrow> (Inr False, count_failures now (totp_rows orgId userId w) w)))"

definition remove_factor :: "string \<Rightarrow> string \<Rightarrow> string \<Rightarrow> Factors \<Rightarrow> bool \<times> Factors" where
  "remove_factor orgId userId id' w =
     (let named = (\<lambda>r. of_person orgId userId r \<and> fr_id r = id');
          w1 = w\<lparr>fs_factors := filter (\<lambda>r. \<not> named r) (fs_factors w)\<rparr>
      in if \<not> list_ex named (fs_factors w) then (False, w)
         else (True, if held orgId userId w1 = [] then w1\<lparr>fs_codes := filter (\<lambda>c. \<not> (co_org c = orgId \<and> co_user c = userId)) (fs_codes w)\<rparr> else w1))"

subsection \<open>WebAuthn\<close>

definition issueChallenge :: "int \<Rightarrow> string \<Rightarrow> string \<Rightarrow> string \<Rightarrow> Ceremony \<Rightarrow> Factors \<Rightarrow> string option \<times> Factors" where
  "issueChallenge now bytes orgId userId purpose w =
     (let chal = toBase64url bytes
      in if \<exists>g \<in> set (fs_challenges w). cg_org g = orgId \<and> cg_challenge g = chal then (None, w)
         else (Some chal, w\<lparr>fs_challenges := fs_challenges w @
           [\<lparr>cg_org = orgId, cg_user = userId, cg_purpose = purpose, cg_challenge = chal, cg_expires = now + CHALLENGE_TTL_MS, cg_used = None\<rparr>]\<rparr>))"

definition outstanding :: "int \<Rightarrow> string \<Rightarrow> string \<Rightarrow> Ceremony \<Rightarrow> string \<Rightarrow> CeremonyRow \<Rightarrow> bool" where
  "outstanding now orgId userId purpose chal g \<longleftrightarrow>
     cg_org g = orgId \<and> cg_user g = userId \<and> cg_purpose g = purpose \<and> cg_challenge g = chal \<and> cg_used g = None \<and> cg_expires g > now"

definition spendChallenge :: "int \<Rightarrow> string \<Rightarrow> string \<Rightarrow> Ceremony \<Rightarrow> string \<Rightarrow> Factors \<Rightarrow> bool \<times> Factors" where
  "spendChallenge now orgId userId purpose chal w =
     (length (filter (outstanding now orgId userId purpose chal) (fs_challenges w)) = 1,
      w\<lparr>fs_challenges := map (\<lambda>g. if outstanding now orgId userId purpose chal g then g\<lparr>cg_used := Some now\<rparr> else g) (fs_challenges w)\<rparr>)"

definition credentialIds :: "string \<Rightarrow> string \<Rightarrow> Factors \<Rightarrow> string list" where
  "credentialIds orgId userId w =
     map (\<lambda>r. the (fr_credential r)) (sort_key fr_created (filter (\<lambda>r. fr_kind r = WebAuthn \<and> fr_credential r \<noteq> None) (held orgId userId w)))"

record WebAuthnRegistrationOptions =
  wr_challenge :: string
  wr_rpId :: string
  wr_rpName :: string
  wr_userId :: string
  wr_userName :: string
  wr_algorithms :: "int list"
  wr_excludeCredentials :: "string list"
  wr_timeoutMs :: int

definition beginWebAuthnRegistration :: "FactorDeps \<Rightarrow> int \<Rightarrow> string \<Rightarrow> string \<Rightarrow> string \<Rightarrow> Factors \<Rightarrow> (unit + WebAuthnRegistrationOptions option) \<times> Factors" where
  "beginWebAuthnRegistration deps now bytes orgId userId w =
     (if WebAuthn \<notin> set (kinds deps) then (Inr None, w)
      else case fd_email deps orgId userId of
        None \<Rightarrow> (Inr None, w)
      | Some email \<Rightarrow>
          (case issueChallenge now bytes orgId userId Register w of
             (None, w') \<Rightarrow> (Inl (), w')
           | (Some chal, w') \<Rightarrow>
               (Inr (Some \<lparr>wr_challenge = chal, wr_rpId = fd_rpId deps, wr_rpName = fd_rpName deps, wr_userId = toBase64url userId, wr_userName = email,
                  wr_algorithms = SUPPORTED_ALGORITHMS, wr_excludeCredentials = credentialIds orgId userId w, wr_timeoutMs = CHALLENGE_TTL_MS\<rparr>), w')))"

definition webauthn_row :: "int \<Rightarrow> string \<Rightarrow> string \<Rightarrow> string \<Rightarrow> string \<Rightarrow> Registration \<Rightarrow> FactorRow" where
  "webauthn_row now id' orgId userId label registered =
     \<lparr>fr_id = id', fr_org = orgId, fr_user = userId, fr_kind = WebAuthn, fr_label = label, fr_secret = None,
      fr_credential = Some (toBase64url (rg_credentialId registered)), fr_key = Some (rg_publicKey registered), fr_signCount = Some (rg_signCount registered),
      fr_confirmed = Some now, fr_lastStep = None, fr_failed = 0, fr_locked = None, fr_created = now, fr_lastUsed = None\<rparr>"

definition finishWebAuthnRegistration :: "FactorDeps \<Rightarrow> int \<Rightarrow> string \<Rightarrow> string list \<Rightarrow> string \<Rightarrow> string \<Rightarrow> string \<Rightarrow> string \<Rightarrow> string \<Rightarrow> string \<Rightarrow> Factors
    \<Rightarrow> (unit + string list option) \<times> Factors" where
  "finishWebAuthnRegistration deps now id' draws orgId userId label attestationObject clientDataJSON chal w =
     (if WebAuthn \<notin> set (kinds deps) then (Inr None, w)
      else case verifyRegistration (fd_crypto deps) attestationObject clientDataJSON chal (fd_rpId deps) (fd_origins deps) of
        None \<Rightarrow> (Inr None, w)
      | Some registered \<Rightarrow>
          (case spendChallenge now orgId userId Register chal w of
             (False, w1) \<Rightarrow> (Inr None, w1)
           | (True, w1) \<Rightarrow>
               (let row = webauthn_row now id' orgId userId label registered
                in if \<not> insertable deps row (fs_factors w1) then (Inl (), w)
                   else case mint_codes deps draws orgId userId (w1\<lparr>fs_factors := fs_factors w1 @ [row]\<rparr>) of
                     None \<Rightarrow> (Inl (), w)
                   | Some (codes, w2) \<Rightarrow> (Inr (Some codes), w2))))"

record WebAuthnAssertionOptions =
  wa_challenge :: string
  wa_rpId :: string
  wa_allowCredentials :: "string list"
  wa_timeoutMs :: int

definition beginWebAuthnAssertion :: "FactorDeps \<Rightarrow> int \<Rightarrow> string \<Rightarrow> string \<Rightarrow> string \<Rightarrow> Factors \<Rightarrow> (unit + WebAuthnAssertionOptions option) \<times> Factors" where
  "beginWebAuthnAssertion deps now bytes orgId userId w =
     (let allow = credentialIds orgId userId w
      in if WebAuthn \<notin> set (kinds deps) \<or> allow = [] then (Inr None, w)
         else case issueChallenge now bytes orgId userId Authenticate w of
           (None, w') \<Rightarrow> (Inl (), w')
         | (Some chal, w') \<Rightarrow>
             (Inr (Some \<lparr>wa_challenge = chal, wa_rpId = fd_rpId deps, wa_allowCredentials = allow, wa_timeoutMs = CHALLENGE_TTL_MS\<rparr>), w'))"

record AssertionResponse =
  ar_credentialId :: string
  ar_authenticatorData :: string
  ar_clientDataJSON :: string
  ar_signature :: string
  ar_challenge :: string

definition credential_row :: "string \<Rightarrow> string \<Rightarrow> string \<Rightarrow> Factors \<Rightarrow> FactorRow option" where
  "credential_row orgId userId credentialId w =
     find (\<lambda>r. fr_kind r = WebAuthn \<and> fr_credential r = Some credentialId) (held orgId userId w)"

definition row_assertion :: "FactorDeps \<Rightarrow> AssertionResponse \<Rightarrow> FactorRow \<Rightarrow> Assertion option" where
  "row_assertion deps response r =
     (case fr_key r of
        None \<Rightarrow> None
      | Some key \<Rightarrow> verifyAssertion (fd_crypto deps) (ar_authenticatorData response) (ar_clientDataJSON response) (ar_signature response)
          (ar_challenge response) (fd_rpId deps) (fd_origins deps) key (case fr_signCount r of Some n \<Rightarrow> n | None \<Rightarrow> 0))"

definition verifyWebAuthnAssertion :: "FactorDeps \<Rightarrow> int \<Rightarrow> string \<Rightarrow> string \<Rightarrow> AssertionResponse \<Rightarrow> Factors \<Rightarrow> bool \<times> Factors" where
  "verifyWebAuthnAssertion deps now orgId userId response w =
     (if WebAuthn \<notin> set (kinds deps) then (False, w)
      else case spendChallenge now orgId userId Authenticate (ar_challenge response) w of
        (False, w1) \<Rightarrow> (False, w1)
      | (True, w1) \<Rightarrow>
          (case credential_row orgId userId (ar_credentialId response) w1 of
             None \<Rightarrow> (False, w1)
           | Some r \<Rightarrow>
               (case row_assertion deps response r of
                  None \<Rightarrow> (False, w1)
                | Some a \<Rightarrow> (True, update_factor (fr_id r) (\<lambda>x. x\<lparr>fr_lastUsed := Some now, fr_signCount := Some (as_signCount a)\<rparr>) w1))))"

subsection \<open>Runs\<close>

text \<open>
  What a run has seen: the ids and code hashes drawn, the steps accepted and codes spent, the challenges
  passed, and for each factor its guesses: the times, newest first, at which a code was compared with it since its last
  accepted one, in an attempt that was not accepted - a sign-in that was refused, a sign-in that threw
  after the comparison, or a confirmation that did not succeed. In an attempt that is accepted - by another
  factor of the same person - the comparisons on the way are no guesses. A transaction the database itself aborts is outside the model.
\<close>

record FactorTrace =
  ft_clock :: int
  ft_ids :: "string list"
  ft_hashes :: "string list"
  ft_accepted :: "(string \<times> int) list"
  ft_spent :: "string list"
  ft_passed :: "(string \<times> string) list"
  ft_guesses :: "string \<Rightarrow> int list"

definition code_hashes :: "FactorDeps \<Rightarrow> string list \<Rightarrow> string list" where
  "code_hashes deps draws = map (\<lambda>b. hashRecoveryCode (fd_hash deps) (generateRecoveryCode b)) (take RECOVERY_CODE_COUNT draws)"

definition fresh_draws :: "FactorDeps \<Rightarrow> string list \<Rightarrow> FactorTrace \<Rightarrow> bool" where
  "fresh_draws deps draws tr \<longleftrightarrow> distinct (code_hashes deps draws) \<and> set (code_hashes deps draws) \<inter> set (ft_hashes tr) = {}"

definition evaluated :: "int \<Rightarrow> FactorRow list \<Rightarrow> string set" where
  "evaluated now rows = fr_id ` {r \<in> set rows. \<not> row_locked now r}"

text \<open>The factors a code was compared with before the loop ended in a throw, and the pending one a confirmation tried.\<close>

fun compared :: "FactorDeps \<Rightarrow> string \<Rightarrow> int \<Rightarrow> string \<Rightarrow> FactorRow list \<Rightarrow> string list" where
  "compared deps key now code [] = []"
| "compared deps key now code (r # rs) =
     (if row_locked now r then compared deps key now code rs
      else case check_row deps key now code r of Inr None \<Rightarrow> fr_id r # compared deps key now code rs | _ \<Rightarrow> [])"

definition tried_pending :: "FactorDeps \<Rightarrow> string \<Rightarrow> string \<Rightarrow> string \<Rightarrow> Factors \<Rightarrow> string set" where
  "tried_pending deps orgId userId id' w = (if fd_key deps \<noteq> None \<and> pending_row orgId userId id' w \<noteq> None then {id'} else {})"

definition note_accepted :: "int \<Rightarrow> string \<Rightarrow> int \<Rightarrow> FactorTrace \<Rightarrow> FactorTrace" where
  "note_accepted now id' step tr = tr\<lparr>ft_clock := now, ft_accepted := (id', step) # ft_accepted tr, ft_guesses := (ft_guesses tr)(id' := [])\<rparr>"

definition note_refused :: "int \<Rightarrow> string set \<Rightarrow> FactorTrace \<Rightarrow> FactorTrace" where
  "note_refused now ids tr = tr\<lparr>ft_clock := now, ft_guesses := (\<lambda>i. if i \<in> ids then now # ft_guesses tr i else ft_guesses tr i)\<rparr>"

inductive factor_step :: "FactorDeps \<Rightarrow> Factors \<times> FactorTrace \<Rightarrow> Factors \<times> FactorTrace \<Rightarrow> bool" for deps where
  begun: "ft_clock tr \<le> now \<Longrightarrow> id' \<notin> set (ft_ids tr) \<Longrightarrow> begin_totp deps now id' bytes nonce orgId userId label w = (res, w')
    \<Longrightarrow> factor_step deps (w, tr) (w', tr\<lparr>ft_clock := now, ft_ids := id' # ft_ids tr\<rparr>)"
| confirmed: "ft_clock tr \<le> now \<Longrightarrow> fresh_draws deps draws tr \<Longrightarrow> confirm_check deps now orgId userId id' code w = Inr (Some step)
    \<Longrightarrow> confirm deps now draws orgId userId id' code w = (Inr (Some codes), w')
    \<Longrightarrow> factor_step deps (w, tr) (w', (note_accepted now id' step tr)\<lparr>ft_hashes := code_hashes deps draws @ ft_hashes tr\<rparr>)"
| not_confirmed: "ft_clock tr \<le> now \<Longrightarrow> confirm deps now draws orgId userId id' code w = (res, w') \<Longrightarrow> (\<nexists>codes. res = Inr (Some codes))
    \<Longrightarrow> factor_step deps (w, tr) (w', note_refused now (tried_pending deps orgId userId id' w) tr)"
| spent: "ft_clock tr \<le> now \<Longrightarrow> spends deps orgId userId code w \<Longrightarrow> verify deps now orgId userId code w = (res, w')
    \<Longrightarrow> factor_step deps (w, tr) (w', tr\<lparr>ft_clock := now, ft_spent := hashRecoveryCode (fd_hash deps) code # ft_spent tr\<rparr>)"
| accepted: "ft_clock tr \<le> now \<Longrightarrow> \<not> spends deps orgId userId code w \<Longrightarrow> fd_key deps = Some key
    \<Longrightarrow> check_rows deps key now code (totp_rows orgId userId w) = Inr (Some (id', step)) \<Longrightarrow> verify deps now orgId userId code w = (res, w')
    \<Longrightarrow> factor_step deps (w, tr) (w', note_accepted now id' step tr)"
| refused: "ft_clock tr \<le> now \<Longrightarrow> fd_key deps = Some key \<Longrightarrow> verify deps now orgId userId code w = (Inr False, w')
    \<Longrightarrow> factor_step deps (w, tr) (w', note_refused now (evaluated now (totp_rows orgId userId w)) tr)"
| keyless: "ft_clock tr \<le> now \<Longrightarrow> fd_key deps = None \<Longrightarrow> verify deps now orgId userId code w = (Inr False, w')
    \<Longrightarrow> factor_step deps (w, tr) (w', tr\<lparr>ft_clock := now\<rparr>)"
| thrown: "ft_clock tr \<le> now \<Longrightarrow> fd_key deps = Some key \<Longrightarrow> verify deps now orgId userId code w = (Inl (), w')
    \<Longrightarrow> factor_step deps (w, tr) (w', note_refused now (set (compared deps key now code (totp_rows orgId userId w))) tr)"
| removed: "ft_clock tr \<le> now \<Longrightarrow> remove_factor orgId userId id' w = (res, w') \<Longrightarrow> factor_step deps (w, tr) (w', tr\<lparr>ft_clock := now\<rparr>)"
| registering: "ft_clock tr \<le> now \<Longrightarrow> beginWebAuthnRegistration deps now bytes orgId userId w = (options, w')
    \<Longrightarrow> factor_step deps (w, tr) (w', tr\<lparr>ft_clock := now\<rparr>)"
| asserting: "ft_clock tr \<le> now \<Longrightarrow> beginWebAuthnAssertion deps now bytes orgId userId w = (options', w')
    \<Longrightarrow> factor_step deps (w, tr) (w', tr\<lparr>ft_clock := now\<rparr>)"
| registered: "ft_clock tr \<le> now \<Longrightarrow> id' \<notin> set (ft_ids tr) \<Longrightarrow> fresh_draws deps draws tr
    \<Longrightarrow> finishWebAuthnRegistration deps now id' draws orgId userId label att json chal w = (Inr (Some codes), w')
    \<Longrightarrow> factor_step deps (w, tr) (w', tr\<lparr>ft_clock := now, ft_ids := id' # ft_ids tr, ft_hashes := code_hashes deps draws @ ft_hashes tr,
          ft_passed := (orgId, chal) # ft_passed tr\<rparr>)"
| not_registered: "ft_clock tr \<le> now \<Longrightarrow> finishWebAuthnRegistration deps now id' draws orgId userId label att json chal w = (res, w')
    \<Longrightarrow> (\<nexists>codes. res = Inr (Some codes)) \<Longrightarrow> factor_step deps (w, tr) (w', tr\<lparr>ft_clock := now\<rparr>)"
| asserted: "ft_clock tr \<le> now \<Longrightarrow> verifyWebAuthnAssertion deps now orgId userId response w = (ok, w')
    \<Longrightarrow> factor_step deps (w, tr) (w', tr\<lparr>ft_clock := now, ft_passed := (if WebAuthn \<in> set (kinds deps)
          \<and> fst (spendChallenge now orgId userId Authenticate (ar_challenge response) w) then [(orgId, ar_challenge response)] else []) @ ft_passed tr\<rparr>)"

definition no_factors :: Factors where
  "no_factors = \<lparr>fs_factors = [], fs_codes = [], fs_challenges = []\<rparr>"

definition no_factor_trace :: FactorTrace where
  "no_factor_trace = \<lparr>ft_clock = 0, ft_ids = [], ft_hashes = [], ft_accepted = [], ft_spent = [], ft_passed = [], ft_guesses = (\<lambda>_. [])\<rparr>"

subsection \<open>The rows of factors\<close>

fun paced :: "int list \<Rightarrow> bool" where
  "paced (t # u # ts) = ((length (u # ts) \<ge> MAX_FAILURES \<longrightarrow> u + LOCK_MS \<le> t) \<and> u \<le> t \<and> paced (u # ts))"
| "paced _ = True"

text \<open>What the row says of the guesses: nothing yet while it is pending, then their number, and the lock from the fifth on.\<close>

definition counted_guesses :: "int list \<Rightarrow> FactorRow \<Rightarrow> bool" where
  "counted_guesses ts r \<longleftrightarrow>
     (if fr_confirmed r = None then fr_failed r = 0 \<and> fr_locked r = None
      else paced ts \<and> fr_failed r = length ts \<and> fr_locked r = (if length ts \<ge> MAX_FAILURES then Some (hd ts + LOCK_MS) else None))"

text \<open>\<open>g\<close> asks for the guesses too, which needs readable secrets.\<close>

definition factor_ok :: "bool \<Rightarrow> FactorTrace \<Rightarrow> FactorRow \<Rightarrow> bool" where
  "factor_ok g tr r \<longleftrightarrow>
     (\<forall>s. (fr_id r, s) \<in> set (ft_accepted tr) \<longrightarrow> (\<exists>l. fr_lastStep r = Some l \<and> s \<le> l))
     \<and> (g \<longrightarrow> counted_guesses (ft_guesses tr (fr_id r)) r)"

definition seen_ok :: "FactorTrace \<Rightarrow> bool" where
  "seen_ok tr \<longleftrightarrow> distinct (ft_accepted tr) \<and> fst ` set (ft_accepted tr) \<subseteq> set (ft_ids tr)
     \<and> (\<forall>i. (\<forall>t \<in> set (ft_guesses tr i). t \<le> ft_clock tr) \<and> (ft_guesses tr i \<noteq> [] \<longrightarrow> i \<in> set (ft_ids tr)))"

definition rows_ok :: "bool \<Rightarrow> FactorRow list \<Rightarrow> FactorTrace \<Rightarrow> bool" where
  "rows_ok g rows tr \<longleftrightarrow> distinct (map fr_id rows) \<and> fr_id ` set rows \<subseteq> set (ft_ids tr) \<and> (\<forall>r \<in> set rows. factor_ok g tr r) \<and> seen_ok tr"

text \<open>What leaves the guesses, the accepted steps and the ids leaves the rows in order.\<close>

lemma rows_ok_frame:
  assumes "rows_ok g rows tr" "ft_clock tr \<le> ft_clock tr'" "ft_accepted tr' = ft_accepted tr" "ft_guesses tr' = ft_guesses tr"
    "set (ft_ids tr) \<subseteq> set (ft_ids tr')"
  shows "rows_ok g rows tr'"
proof -
  have "factor_ok g tr' r = factor_ok g tr r" for r using assms(3,4) by (simp add: factor_ok_def)
  moreover have "seen_ok tr'" using assms unfolding rows_ok_def seen_ok_def by (metis (no_types, opaque_lifting) order_trans subset_eq)
  ultimately show ?thesis using assms(1,5) unfolding rows_ok_def by blast
qed

lemma rows_ok_filter: "rows_ok g rows tr \<Longrightarrow> rows_ok g (filter P rows) tr"
  unfolding rows_ok_def by (auto simp: distinct_map_filter)

lemma rows_ok_insert:
  assumes "rows_ok g rows tr" "fr_id r \<notin> set (ft_ids tr)" "fr_failed r = 0" "fr_locked r = None"
  shows "rows_ok g (rows @ [r]) (tr\<lparr>ft_ids := fr_id r # ft_ids tr\<rparr>)"
proof -
  have "ft_guesses tr (fr_id r) = []" "\<And>s. (fr_id r, s) \<notin> set (ft_accepted tr)" "fr_id r \<notin> set (map fr_id rows)"
    using assms(1,2) unfolding rows_ok_def seen_ok_def by force+
  then have "factor_ok g (tr\<lparr>ft_ids := fr_id r # ft_ids tr\<rparr>) r" using assms(3,4) by (simp add: factor_ok_def counted_guesses_def MAX_FAILURES_def)
  moreover have "rows_ok g rows (tr\<lparr>ft_ids := fr_id r # ft_ids tr\<rparr>)" by (rule rows_ok_frame [OF assms(1)]) auto
  ultimately show ?thesis using \<open>fr_id r \<notin> set (map fr_id rows)\<close> unfolding rows_ok_def by auto
qed

text \<open>An update that keeps what the trace is about.\<close>

lemma rows_ok_update:
  assumes "rows_ok g rows tr" "\<And>r. r \<in> set rows \<Longrightarrow> fr_id (f r) = fr_id r" "\<And>r. r \<in> set rows \<Longrightarrow> factor_ok g tr' (f r)"
    "seen_ok tr'" "set (ft_ids tr) \<subseteq> set (ft_ids tr')"
  shows "rows_ok g (map f rows) tr'"
proof -
  have "map fr_id (map f rows) = map fr_id rows" using assms(2) by simp
  then have "distinct (map fr_id (map f rows))" using assms(1) unfolding rows_ok_def by metis
  moreover have "fr_id ` set (map f rows) \<subseteq> set (ft_ids tr')" using assms(1,2,5) by (auto simp: rows_ok_def)
  ultimately show ?thesis using assms(3,4) unfolding rows_ok_def by (simp del: map_map)
qed

lemma rows_okD:
  assumes "rows_ok g rows tr" "r \<in> set rows"
  shows "factor_ok g tr r" "fr_id r \<in> set (ft_ids tr)" "seen_ok tr"
  using assms by (auto simp: rows_ok_def)

lemma rows_ok_same: "rows_ok g rows tr \<Longrightarrow> r \<in> set rows \<Longrightarrow> x \<in> set rows \<Longrightarrow> fr_id r = fr_id x \<Longrightarrow> r = x"
  unfolding rows_ok_def by (metis distinct_map inj_onD)

lemma guessed_before: "seen_ok tr \<Longrightarrow> ft_clock tr \<le> now \<Longrightarrow> t \<in> set (ft_guesses tr i) \<Longrightarrow> t \<le> now"
  unfolding seen_ok_def by (meson order_trans)

text \<open>An accepted step is later than every step accepted before, and starts the count afresh.\<close>

lemma rows_ok_accept:
  assumes ok: "rows_ok g rows tr" and r: "r \<in> set rows" and later: "\<forall>l. fr_lastStep r = Some l \<longrightarrow> l < step" and "ft_clock tr \<le> now"
    and f: "fr_id (f r) = fr_id r" "fr_lastStep (f r) = Some step" "g \<longrightarrow> fr_failed (f r) = 0 \<and> fr_locked (f r) = None"
  shows "rows_ok g (map (\<lambda>x. if fr_id x = fr_id r then f x else x) rows) (note_accepted now (fr_id r) step tr)"
proof (rule rows_ok_update [OF ok])
  have fresh: "(fr_id r, s) \<in> set (ft_accepted tr) \<Longrightarrow> s < step" for s
    using rows_okD(1) [OF ok r] later unfolding factor_ok_def by fastforce
  have "fr_id r \<in> set (ft_ids tr)" by (rule rows_okD(2) [OF ok r])
  then show "seen_ok (note_accepted now (fr_id r) step tr)"
    using rows_okD(3) [OF ok r] fresh guessed_before [OF rows_okD(3) [OF ok r] assms(4)]
    unfolding seen_ok_def note_accepted_def by auto
  fix x assume x: "x \<in> set rows"
  show "fr_id (if fr_id x = fr_id r then f x else x) = fr_id x" using f(1) rows_ok_same [OF ok x r] by auto
  show "factor_ok g (note_accepted now (fr_id r) step tr) (if fr_id x = fr_id r then f x else x)"
  proof (cases "fr_id x = fr_id r")
    case True
    then have "x = r" using rows_ok_same [OF ok x r] by simp
    then show ?thesis using f fresh by (auto simp: factor_ok_def counted_guesses_def note_accepted_def MAX_FAILURES_def dest: less_imp_le)
  next
    case False
    then show ?thesis using rows_okD(1) [OF ok x] by (simp add: factor_ok_def note_accepted_def)
  qed
qed (simp add: note_accepted_def)

lemma check_rows_found:
  assumes "check_rows deps key now code rows = Inr (Some (id', step))"
  obtains r where "r \<in> set rows" "fr_id r = id'" "\<forall>l. fr_lastStep r = Some l \<longrightarrow> l < step" "\<not> row_locked now r" "check_row deps key now code r = Inr (Some step)"
proof -
  have "\<exists>r \<in> set rows. fr_id r = id' \<and> \<not> row_locked now r \<and> check_row deps key now code r = Inr (Some step)"
    using assms by (induction rows) (auto split: if_splits sum.splits option.splits)
  then obtain r where r: "r \<in> set rows" "fr_id r = id'" "\<not> row_locked now r" "check_row deps key now code r = Inr (Some step)" by blast
  then have "\<forall>l. fr_lastStep r = Some l \<longrightarrow> l < step" by (auto simp: check_row_def split: option.splits dest: verify_step)
  with r that show ?thesis by blast
qed

lemma totp_rows_held: "r \<in> set (totp_rows orgId userId w) \<longleftrightarrow>
    r \<in> set (fs_factors w) \<and> of_person orgId userId r \<and> fr_confirmed r \<noteq> None \<and> fr_kind r = Totp"
  by (auto simp: totp_rows_def held_def)

text \<open>The loop over the rows fails each unlocked one once.\<close>

definition fail_by :: "int \<Rightarrow> FactorRow list \<Rightarrow> FactorRow \<Rightarrow> FactorRow" where
  "fail_by now rows x = (if \<exists>r \<in> set rows. fr_id r = fr_id x \<and> \<not> row_locked now r then failed_row now (fr_failed x + 1) x else x)"

lemma count_failures_map:
  assumes "distinct (map fr_id rows)" "\<forall>r \<in> set rows. \<forall>x \<in> set (fs_factors w). fr_id r = fr_id x \<longrightarrow> fr_failed r = fr_failed x"
  shows "count_failures now rows w = w\<lparr>fs_factors := map (fail_by now rows) (fs_factors w)\<rparr>"
  using assms
proof (induction rows arbitrary: w)
  case Nil
  then show ?case by (simp add: fail_by_def)
next
  case (Cons r rows)
  let ?w = "if row_locked now r then w else update_factor (fr_id r) (failed_row now (fr_failed r + 1)) w"
  have ids: "\<forall>x \<in> set rows. fr_id x \<noteq> fr_id r" using Cons.prems(1) by (metis distinct.simps(2) image_eqI list.set_map list.simps(9))
  have "count_failures now rows ?w = ?w\<lparr>fs_factors := map (fail_by now rows) (fs_factors ?w)\<rparr>"
    using Cons.prems ids by (intro Cons.IH) (auto simp: update_factor_def failed_row_def)
  moreover have step: "fail_by now rows (if \<not> row_locked now r \<and> fr_id x = fr_id r then failed_row now (fr_failed r + 1) x else x) = fail_by now (r # rows) x"
    if "x \<in> set (fs_factors w)" for x
  proof -
    have same: "fr_id x = fr_id r \<longrightarrow> fr_failed r = fr_failed x" using Cons.prems(2) that by simp
    have none: "\<not> (\<exists>y \<in> set rows. fr_id y = fr_id r \<and> \<not> row_locked now y)" using ids by blast
    show ?thesis
    proof (cases "fr_id x = fr_id r")
      case True
      have keep: "fail_by now rows z = z" if "fr_id z = fr_id r" for z unfolding fail_by_def using none that by presburger
      define y where "y = (if row_locked now r then x else failed_row now (fr_failed x + 1) x)"
      have "fr_id y = fr_id r" using True by (simp add: y_def failed_row_def)
      then have "fail_by now rows y = y" by (rule keep)
      moreover have "(if \<not> row_locked now r \<and> fr_id x = fr_id r then failed_row now (fr_failed r + 1) x else x) = y"
        using True same by (simp add: y_def)
      moreover have "(\<exists>y \<in> set (r # rows). fr_id y = fr_id x \<and> \<not> row_locked now y) = (\<not> row_locked now r)"
        using none True by (metis list.set_intros(1) set_ConsD)
      then have "fail_by now (r # rows) x = y" by (simp only: fail_by_def y_def) simp
      ultimately show ?thesis by simp
    next
      case False
      then have "(\<exists>y \<in> set (r # rows). fr_id y = fr_id x \<and> \<not> row_locked now y) = (\<exists>y \<in> set rows. fr_id y = fr_id x \<and> \<not> row_locked now y)" by auto
      with False show ?thesis unfolding fail_by_def by auto
    qed
  qed
  moreover have "fs_factors ?w = map (\<lambda>x. if \<not> row_locked now r \<and> fr_id x = fr_id r then failed_row now (fr_failed r + 1) x else x) (fs_factors w)"
    by (simp add: update_factor_def)
  then have "map (fail_by now rows) (fs_factors ?w) = map (fail_by now (r # rows)) (fs_factors w)" using step by simp
  ultimately show ?case by (simp add: update_factor_def)
qed

lemma seen_ok_refused:
  assumes "seen_ok tr" "ft_clock tr \<le> now" "ids \<subseteq> set (ft_ids tr)"
  shows "seen_ok (note_refused now ids tr)"
  using assms guessed_before [OF assms(1,2)] unfolding seen_ok_def note_refused_def by auto

text \<open>A comparison the rows do not count: fine where the guesses are not asked for, and of a pending factor.\<close>

lemma rows_ok_compared:
  assumes ok: "rows_ok g rows tr" and "ft_clock tr \<le> now" and "ids \<subseteq> fr_id ` set rows"
    and "g \<longrightarrow> (\<forall>r \<in> set rows. fr_id r \<in> ids \<longrightarrow> fr_confirmed r = None)"
  shows "rows_ok g rows (note_refused now ids tr)"
proof -
  have "ids \<subseteq> set (ft_ids tr)" using assms(3) ok unfolding rows_ok_def by blast
  then have "seen_ok (note_refused now ids tr)" using seen_ok_refused [of tr now ids] ok assms(2) by (simp add: rows_ok_def)
  moreover have "factor_ok g (note_refused now ids tr) r" if "r \<in> set rows" for r
    using rows_okD(1) [OF ok that] assms(4) that by (auto simp: factor_ok_def counted_guesses_def note_refused_def)
  ultimately show ?thesis using ok unfolding rows_ok_def by (simp add: note_refused_def)
qed

lemma rows_ok_refuse:
  assumes ok: "rows_ok g rows tr" and sub: "set tried \<subseteq> {r \<in> set rows. fr_confirmed r \<noteq> None}" and clock: "ft_clock tr \<le> now"
  shows "rows_ok g (map (fail_by now tried) rows) (note_refused now (evaluated now tried) tr)"
proof (rule rows_ok_update [OF ok])
  let ?tr = "note_refused now (evaluated now tried) tr"
  have "evaluated now tried \<subseteq> set (ft_ids tr)" using sub rows_okD(2) [OF ok] by (auto simp: evaluated_def)
  moreover have so: "seen_ok tr" using ok by (simp add: rows_ok_def)
  ultimately show "seen_ok ?tr" using clock by (intro seen_ok_refused)
  fix x assume x: "x \<in> set rows"
  show "fr_id (fail_by now tried x) = fr_id x" by (simp add: fail_by_def failed_row_def)
  note fo = rows_okD(1) [OF ok x]
  show "factor_ok g ?tr (fail_by now tried x)"
  proof (cases "fr_id x \<in> evaluated now tried")
    case True
    then obtain r where r: "r \<in> set tried" "\<not> row_locked now r" "fr_id r = fr_id x" by (auto simp: evaluated_def)
    then have "r = x" using sub rows_ok_same [OF ok _ x, of r] by auto
    then have f: "fail_by now tried x = failed_row now (fr_failed x + 1) x" "fr_confirmed x \<noteq> None" "\<not> row_locked now x"
      using r sub by (auto simp: fail_by_def)
    have "counted_guesses (now # ft_guesses tr (fr_id x)) (failed_row now (fr_failed x + 1) x)" if "g"
    proof -
      have c: "counted_guesses (ft_guesses tr (fr_id x)) x" using fo that by (simp add: factor_ok_def)
      have "paced (now # ft_guesses tr (fr_id x))"
      proof (cases "ft_guesses tr (fr_id x)")
        case (Cons t ts)
        then have "t \<le> now" using guessed_before [OF so clock, of t "fr_id x"] by simp
        then show ?thesis using c f(2,3) Cons by (auto simp: counted_guesses_def row_locked_def split: if_splits)
      qed simp
      then show ?thesis using c f(2) by (auto simp: counted_guesses_def failed_row_def)
    qed
    then show ?thesis using fo True f(1) by (auto simp: factor_ok_def note_refused_def failed_row_def)
  next
    case False
    then have "fail_by now tried x = x" by (auto simp: fail_by_def evaluated_def image_iff)
    then show ?thesis using fo False by (simp add: factor_ok_def note_refused_def)
  qed
qed (simp add: note_refused_def)

subsection \<open>What each method does to the tables\<close>

lemma begin_totp_rows:
  assumes "begin_totp deps now id' bytes nonce orgId userId label w = (res, w')"
  shows "w' = w \<or> (\<exists>kept sealed. w' = w\<lparr>fs_factors := kept @ [totp_row now id' orgId userId sealed label]\<rparr>
    \<and> kept = filter (\<lambda>r. \<not> (of_person orgId userId r \<and> fr_label r = label \<and> fr_confirmed r = None)) (fs_factors w))"
  using assms by (auto simp: begin_totp_def Let_def split: option.splits if_splits)

lemma insert_codes_rows:
  "insert_codes sha orgId userId cs rows = Some rows' \<Longrightarrow>
     rows' = rows @ map (\<lambda>c. \<lparr>co_org = orgId, co_user = userId, co_hash = hashRecoveryCode sha c, co_used = None\<rparr>) cs
     \<and> (distinct (map co_hash rows) \<longrightarrow> distinct (map co_hash rows'))"
  by (induction cs arbitrary: rows) (fastforce simp: Let_def split: if_splits)+

definition minted :: "FactorDeps \<Rightarrow> string \<Rightarrow> string \<Rightarrow> string list \<Rightarrow> CodeRow list" where
  "minted deps orgId userId draws = map (\<lambda>h. \<lparr>co_org = orgId, co_user = userId, co_hash = h, co_used = None\<rparr>) (code_hashes deps draws)"

lemma mint_codes_rows:
  assumes "mint_codes deps draws orgId userId w = Some (codes, w')"
  shows "(w' = w \<or> w' = w\<lparr>fs_codes := fs_codes w @ minted deps orgId userId draws\<rparr>)
    \<and> (distinct (map co_hash (fs_codes w)) \<longrightarrow> distinct (map co_hash (fs_codes w')))"
proof (cases "recoveryCodesLeft orgId userId w > 0")
  case False
  then obtain rows where rows: "insert_codes (fd_hash deps) orgId userId (map generateRecoveryCode (take RECOVERY_CODE_COUNT draws)) (fs_codes w) = Some rows"
    "w' = w\<lparr>fs_codes := rows\<rparr>"
    using assms by (auto simp: mint_codes_def Let_def)
  have "rows = fs_codes w @ minted deps orgId userId draws" using insert_codes_rows [OF rows(1)] by (simp add: minted_def code_hashes_def o_def)
  moreover have "distinct (map co_hash (fs_codes w)) \<longrightarrow> distinct (map co_hash rows)" using insert_codes_rows [OF rows(1)] by blast
  ultimately show ?thesis using rows(2) by (metis Factors.select_convs(2) Factors.surjective Factors.update_convs(2))
qed (use assms in \<open>auto simp: mint_codes_def\<close>)

lemma confirm_rows:
  assumes "confirm deps now draws orgId userId id' code w = (res, w')"
  shows "(w' = w \<and> (\<nexists>codes. res = Inr (Some codes)))
    \<or> (\<exists>step codes. confirm_check deps now orgId userId id' code w = Inr (Some step) \<and> res = Inr (Some codes)
        \<and> mint_codes deps draws orgId userId
            (update_factor id' (\<lambda>r. r\<lparr>fr_confirmed := Some now, fr_lastStep := Some step, fr_lastUsed := Some now, fr_failed := 0\<rparr>) w) = Some (codes, w'))"
  using assms by (auto simp: confirm_def Let_def split: sum.splits option.splits)

lemma confirm_checked:
  assumes "confirm_check deps now orgId userId id' code w = Inr (Some step)"
  obtains r where "r \<in> set (fs_factors w)" "fr_id r = id'" "fr_confirmed r = None" "of_person orgId userId r" "\<forall>l. fr_lastStep r = Some l \<longrightarrow> l < step"
proof -
  obtain key r where r: "pending_row orgId userId id' w = Some r" "check_row deps key now code r = Inr (Some step)"
    using assms by (auto simp: confirm_check_def split: option.splits)
  have "r \<in> set (fs_factors w)" "of_person orgId userId r \<and> fr_id r = id' \<and> fr_confirmed r = None"
    using r(1) by (auto simp: pending_row_def find_Some_iff)
  moreover have "\<forall>l. fr_lastStep r = Some l \<longrightarrow> l < step" using r(2) by (auto simp: check_row_def split: option.splits dest: verify_step)
  ultimately show thesis using that by blast
qed

lemma verify_rows:
  assumes "verify deps now orgId userId code w = (res, w')"
  shows "(spends deps orgId userId code w \<and> w' = spend_codes deps now orgId userId code w)
    \<or> (\<not> spends deps orgId userId code w \<and> w' = w \<and> (fd_key deps = None \<or> res = Inl ()))
    \<or> (\<exists>key id' step. \<not> spends deps orgId userId code w \<and> fd_key deps = Some key \<and> res = Inr True \<and> check_rows deps key now code (totp_rows orgId userId w) = Inr (Some (id', step))
         \<and> w' = update_factor id' (\<lambda>r. r\<lparr>fr_lastStep := Some step, fr_lastUsed := Some now, fr_failed := 0, fr_locked := None\<rparr>) w)
    \<or> (\<not> spends deps orgId userId code w \<and> res = Inr False \<and> w' = count_failures now (totp_rows orgId userId w) w)"
  using assms by (auto simp: verify_def split: if_splits option.splits sum.splits)

lemma remove_rows:
  assumes "remove_factor orgId userId id' w = (res, w')"
  shows "(\<exists>P Q. w' = w\<lparr>fs_factors := filter P (fs_factors w), fs_codes := filter Q (fs_codes w)\<rparr>)"
proof -
  let ?all = "\<lambda>_. True"
  consider "w' = w" | P where "w' = w\<lparr>fs_factors := filter P (fs_factors w)\<rparr>"
    | P Q where "w' = w\<lparr>fs_factors := filter P (fs_factors w), fs_codes := filter Q (fs_codes w)\<rparr>"
    using assms by (auto simp: remove_factor_def Let_def split: if_splits)
  then show ?thesis
  proof cases
    case 1
    then have "w' = w\<lparr>fs_factors := filter ?all (fs_factors w), fs_codes := filter ?all (fs_codes w)\<rparr>" by simp
    then show ?thesis by blast
  next
    case (2 P)
    then have "w' = w\<lparr>fs_factors := filter P (fs_factors w), fs_codes := filter ?all (fs_codes w)\<rparr>" by simp
    then show ?thesis by blast
  qed blast
qed

lemma issue_rows:
  assumes "issueChallenge now bytes orgId userId purpose w = (c, w')"
  shows "w' = w \<or> (\<exists>g. w' = w\<lparr>fs_challenges := fs_challenges w @ [g]\<rparr> \<and> cg_used g = None \<and> (\<forall>x \<in> set (fs_challenges w). (cg_org x, cg_challenge x) \<noteq> (cg_org g, cg_challenge g)))"
  using assms by (fastforce simp: issueChallenge_def Let_def split: if_splits)

lemma begin_ceremony_rows:
  "beginWebAuthnRegistration deps now bytes orgId userId w = (res, w') \<Longrightarrow> w' = w \<or> (\<exists>c. issueChallenge now bytes orgId userId Register w = (c, w'))"
  "beginWebAuthnAssertion deps now bytes orgId userId w = (res', w') \<Longrightarrow> w' = w \<or> (\<exists>c. issueChallenge now bytes orgId userId Authenticate w = (c, w'))"
  by (auto simp: beginWebAuthnRegistration_def beginWebAuthnAssertion_def Let_def split: if_splits option.splits prod.splits)

lemma spendChallenge_frame: "spendChallenge now orgId userId purpose chal w = (ok, w') \<Longrightarrow> fs_factors w' = fs_factors w \<and> fs_codes w' = fs_codes w"
  by (auto simp: spendChallenge_def)

lemma finish_rows:
  assumes "finishWebAuthnRegistration deps now id' draws orgId userId label att json chal w = (res, w')"
  shows "((\<nexists>codes. res = Inr (Some codes)) \<and> (w' = w \<or> spendChallenge now orgId userId Register chal w = (False, w')))
    \<or> (\<exists>reg codes w1. res = Inr (Some codes) \<and> spendChallenge now orgId userId Register chal w = (True, w1)
        \<and> mint_codes deps draws orgId userId (w1\<lparr>fs_factors := fs_factors w1 @ [webauthn_row now id' orgId userId label reg]\<rparr>) = Some (codes, w'))"
  using assms by (auto simp: finishWebAuthnRegistration_def Let_def split: if_splits option.splits prod.splits bool.splits)

lemma asserted_rows:
  assumes "verifyWebAuthnAssertion deps now orgId userId response w = (ok, w')"
  shows "(WebAuthn \<notin> set (kinds deps) \<and> w' = w)
    \<or> (WebAuthn \<in> set (kinds deps) \<and> (\<exists>fresh w1. spendChallenge now orgId userId Authenticate (ar_challenge response) w = (fresh, w1)
        \<and> (w' = w1 \<or> (\<exists>id' n. w' = update_factor id' (\<lambda>x. x\<lparr>fr_lastUsed := Some now, fr_signCount := Some n\<rparr>) w1))))"
  using assms by (auto simp: verifyWebAuthnAssertion_def split: if_splits option.splits prod.splits bool.splits)

subsection \<open>The rows stay in order\<close>

lemma update_same_ok:
  assumes "rows_ok g rows tr" "\<And>r. fr_id (f r) = fr_id r \<and> fr_lastStep (f r) = fr_lastStep r \<and> fr_failed (f r) = fr_failed r \<and> fr_locked (f r) = fr_locked r
    \<and> fr_confirmed (f r) = fr_confirmed r"
  shows "rows_ok g (map (\<lambda>r. if fr_id r = id' then f r else r) rows) tr"
proof (rule rows_ok_update [OF assms(1)])
  show "seen_ok tr" using assms(1) by (simp add: rows_ok_def)
  fix r assume r: "r \<in> set rows"
  show "fr_id (if fr_id r = id' then f r else r) = fr_id r" using assms(2) by simp
  show "factor_ok g tr (if fr_id r = id' then f r else r)" using rows_okD(1) [OF assms(1) r] assms(2) by (auto simp: factor_ok_def counted_guesses_def)
qed simp

lemma mint_factors: "mint_codes deps draws orgId userId w = Some (codes, w') \<Longrightarrow> fs_factors w' = fs_factors w \<and> fs_challenges w' = fs_challenges w"
  using mint_codes_rows by fastforce

lemma rows_ok_confirm:
  assumes ok: "rows_ok g (fs_factors w) tr" and "ft_clock tr \<le> now" and c: "confirm_check deps now orgId userId id' code w = Inr (Some step)"
  shows "rows_ok g (fs_factors (update_factor id' (\<lambda>r. r\<lparr>fr_confirmed := Some now, fr_lastStep := Some step, fr_lastUsed := Some now, fr_failed := 0\<rparr>) w))
    (note_accepted now id' step tr)"
proof -
  obtain r where r: "r \<in> set (fs_factors w)" "fr_id r = id'" "fr_confirmed r = None" "\<forall>l. fr_lastStep r = Some l \<longrightarrow> l < step"
    using confirm_checked [OF c] by blast
  have "g \<longrightarrow> fr_locked r = None" using rows_okD(1) [OF ok r(1)] r(3) by (simp add: factor_ok_def counted_guesses_def)
  then show ?thesis
    using rows_ok_accept [OF ok r(1,4) assms(2), of "\<lambda>r. r\<lparr>fr_confirmed := Some now, fr_lastStep := Some step, fr_lastUsed := Some now, fr_failed := 0\<rparr>"] r(2)
    by (simp add: update_factor_def)
qed

lemma rows_ok_accepted:
  assumes ok: "rows_ok g (fs_factors w) tr" and "ft_clock tr \<le> now" and c: "check_rows deps key now code (totp_rows orgId userId w) = Inr (Some (id', step))"
  shows "rows_ok g (fs_factors (update_factor id' (\<lambda>r. r\<lparr>fr_lastStep := Some step, fr_lastUsed := Some now, fr_failed := 0, fr_locked := None\<rparr>) w))
    (note_accepted now id' step tr)"
proof -
  obtain r where r: "r \<in> set (totp_rows orgId userId w)" "fr_id r = id'" "\<forall>l. fr_lastStep r = Some l \<longrightarrow> l < step"
    using check_rows_found [OF c] by blast
  then have "r \<in> set (fs_factors w)" by (simp add: totp_rows_held)
  then show ?thesis
    using rows_ok_accept [OF ok _ r(3) assms(2), of "\<lambda>r. r\<lparr>fr_lastStep := Some step, fr_lastUsed := Some now, fr_failed := 0, fr_locked := None\<rparr>"] r(2)
    by (simp add: update_factor_def)
qed

lemma rows_ok_refused:
  assumes ok: "rows_ok g (fs_factors w) tr" and clock: "ft_clock tr \<le> now"
  shows "rows_ok g (fs_factors (count_failures now (totp_rows orgId userId w) w)) (note_refused now (evaluated now (totp_rows orgId userId w)) tr)"
proof -
  let ?rows = "totp_rows orgId userId w"
  have sub: "set ?rows \<subseteq> {r \<in> set (fs_factors w). fr_confirmed r \<noteq> None}" by (auto simp: totp_rows_held)
  have inj: "inj_on fr_id (set (fs_factors w))" "distinct (fs_factors w)" using ok by (simp_all add: rows_ok_def distinct_map)
  have "distinct ?rows" using inj(2) by (simp add: totp_rows_def held_def)
  moreover have "inj_on fr_id (set ?rows)" using inj(1) sub by (auto intro: inj_on_subset)
  ultimately have "distinct (map fr_id ?rows)" by (simp add: distinct_map)
  moreover have "\<forall>r \<in> set ?rows. \<forall>x \<in> set (fs_factors w). fr_id r = fr_id x \<longrightarrow> fr_failed r = fr_failed x"
    using sub rows_ok_same [OF ok] by blast
  ultimately have "count_failures now ?rows w = w\<lparr>fs_factors := map (fail_by now ?rows) (fs_factors w)\<rparr>" by (rule count_failures_map)
  then show ?thesis using rows_ok_refuse [OF ok sub clock] by simp
qed

text \<open>Secrets that open end no attempt: the loop reaches its verdict.\<close>

definition readable :: "FactorDeps \<Rightarrow> FactorRow list \<Rightarrow> bool" where
  "readable deps rows \<longleftrightarrow> (\<forall>r \<in> set rows. fr_kind r = Totp \<longrightarrow>
     (\<exists>key secret. fd_key deps = Some key \<and> open_row deps key r = Some secret \<and> base32Decode secret \<noteq> None))"

lemma try_steps_decides: "\<forall>s \<in> set steps. 0 \<le> s \<Longrightarrow> base32Decode secret \<noteq> None \<Longrightarrow> try_steps hmac secret typed aft steps \<noteq> Inl ()"
  by (induction steps) (auto simp: totpCode_def split: option.splits)

lemma verify_decides:
  assumes "readable deps (fs_factors w)" "30000 \<le> now"
  shows "fst (verify deps now orgId userId code w) \<noteq> Inl ()"
proof -
  have "1 \<le> totpStep now" using assms(2) by (simp add: totpStep_def TOTP_PERIOD_SECONDS_def)
  define steps where "steps = map (\<lambda>d. totpStep now + d) [- TOTP_SKEW_STEPS .. TOTP_SKEW_STEPS]"
  have steps: "\<forall>s \<in> set steps. 0 \<le> s" using \<open>1 \<le> totpStep now\<close> by (auto simp: steps_def TOTP_SKEW_STEPS_def)
  have decided: "verifyTotp (fd_hmac deps) secret code now aft \<noteq> Inl ()" if "base32Decode secret \<noteq> None" for secret aft
  proof -
    have "try_steps (fd_hmac deps) secret (filter (\<lambda>c. \<not> js_space c) code) aft steps \<noteq> Inl ()"
      by (rule try_steps_decides [OF steps that])
    then show ?thesis unfolding verifyTotp_def Let_def steps_def [symmetric] by (simp split: if_split)
  qed
  have "check_rows deps key now code rows \<noteq> Inl ()" if key: "fd_key deps = Some key" and rows: "set rows \<subseteq> {r \<in> set (fs_factors w). fr_kind r = Totp}" for key rows
    using rows
  proof (induction rows)
    case (Cons r rows)
    then obtain secret where "open_row deps key r = Some secret" "base32Decode secret \<noteq> None"
      using assms(1) key by (auto simp: readable_def)
    then have "check_row deps key now code r \<noteq> Inl ()" using decided by (simp add: check_row_def)
    with Cons show ?case by (auto split: sum.splits option.splits)
  qed simp
  moreover have "set (totp_rows orgId userId w) \<subseteq> {r \<in> set (fs_factors w). fr_kind r = Totp}" by (auto simp: totp_rows_held)
  ultimately have none: "check_rows deps key now code (totp_rows orgId userId w) \<noteq> Inl ()" if "fd_key deps = Some key" for key using that by blast
  show ?thesis
  proof (cases "spends deps orgId userId code w \<or> fd_key deps = None")
    case True
    then show ?thesis by (auto simp: verify_def)
  next
    case False
    then obtain key where key: "fd_key deps = Some key" by auto
    then show ?thesis using none [OF key] False
      by (cases "check_rows deps key now code (totp_rows orgId userId w)") (auto simp: verify_def split: option.splits)
  qed
qed

lemma compared_ids: "set (compared deps key now code rows) \<subseteq> fr_id ` set rows"
  by (induction rows) (auto split: sum.splits option.splits)

lemma factor_step_rows: "factor_step deps (w, tr) y \<Longrightarrow> rows_ok g (fs_factors w) tr \<Longrightarrow> (g \<Longrightarrow> readable deps (fs_factors w) \<and> 30000 \<le> ft_clock tr)
    \<Longrightarrow> rows_ok g (fs_factors (fst y)) (snd y)"
proof (induction "(w, tr)" y rule: factor_step.induct)
  case (begun now id' bytes nonce orgId userId label res w')
  from begin_totp_rows [OF begun(3)] have "rows_ok g (fs_factors w') (tr\<lparr>ft_clock := now, ft_ids := id' # ft_ids tr\<rparr>)"
  proof
    assume "w' = w"
    then show ?thesis by (auto intro: rows_ok_frame [OF begun(4)] simp: begun(1))
  next
    assume "\<exists>kept sealed. w' = w\<lparr>fs_factors := kept @ [totp_row now id' orgId userId sealed label]\<rparr>
      \<and> kept = filter (\<lambda>r. \<not> (of_person orgId userId r \<and> fr_label r = label \<and> fr_confirmed r = None)) (fs_factors w)"
    then obtain kept sealed where k: "fs_factors w' = kept @ [totp_row now id' orgId userId sealed label]" "rows_ok g kept tr"
      using rows_ok_filter [OF begun(4)] by fastforce
    have "rows_ok g (kept @ [totp_row now id' orgId userId sealed label]) (tr\<lparr>ft_ids := id' # ft_ids tr\<rparr>)"
      using rows_ok_insert [OF k(2), of "totp_row now id' orgId userId sealed label"] begun(2) by (simp add: totp_row_def)
    then show ?thesis unfolding k(1) by (rule rows_ok_frame) (simp_all add: begun(1))
  qed
  then show ?case by simp
next
  case (confirmed now draws orgId userId id' code step codes w')
  then have "mint_codes deps draws orgId userId (update_factor id' (\<lambda>r. r\<lparr>fr_confirmed := Some now, fr_lastStep := Some step, fr_lastUsed := Some now, fr_failed := 0\<rparr>) w) = Some (codes, w')"
    using confirm_rows [OF confirmed(4)] by auto
  from mint_factors [OF this] rows_ok_confirm [OF confirmed(5,1,3)]
  have "rows_ok g (fs_factors w') (note_accepted now id' step tr)" by simp
  then show ?case unfolding fst_conv snd_conv by (rule rows_ok_frame) simp_all
next
  case (not_confirmed now draws orgId userId id' code res w')
  then have "w' = w" using confirm_rows [OF not_confirmed(2)] by auto
  moreover have "tried_pending deps orgId userId id' w \<subseteq> fr_id ` set (fs_factors w)"
    "\<forall>r \<in> set (fs_factors w). fr_id r \<in> tried_pending deps orgId userId id' w \<longrightarrow> fr_confirmed r = None"
  proof -
    have p: "\<exists>r \<in> set (fs_factors w). fr_id r = id' \<and> fr_confirmed r = None" if "pending_row orgId userId id' w \<noteq> None"
      using that by (auto simp: pending_row_def find_Some_iff)
    then show "tried_pending deps orgId userId id' w \<subseteq> fr_id ` set (fs_factors w)" unfolding tried_pending_def by (cases "pending_row orgId userId id' w = None") (simp, auto simp: image_iff)
    show "\<forall>r \<in> set (fs_factors w). fr_id r \<in> tried_pending deps orgId userId id' w \<longrightarrow> fr_confirmed r = None"
      using p rows_ok_same [OF not_confirmed(4)] by (fastforce simp: tried_pending_def split: if_splits)
  qed
  ultimately show ?case using rows_ok_compared [OF not_confirmed(4,1)] by simp
next
  case (spent now orgId userId code res w')
  then have "fs_factors w' = fs_factors w" by (auto simp: verify_def spend_codes_def)
  then show ?case unfolding fst_conv snd_conv by (auto intro: rows_ok_frame [OF spent(4)] simp: spent(1))
next
  case (accepted now orgId userId code key id' step res w')
  then have "w' = update_factor id' (\<lambda>r. r\<lparr>fr_lastStep := Some step, fr_lastUsed := Some now, fr_failed := 0, fr_locked := None\<rparr>) w"
    by (simp add: verify_def)
  then show ?case unfolding fst_conv snd_conv using rows_ok_accepted [OF accepted(6,1,4)] by simp
next
  case (refused now key orgId userId code w')
  then have "w' = count_failures now (totp_rows orgId userId w) w" using verify_rows [OF refused(3)] by (auto simp: verify_def)
  then show ?case unfolding fst_conv snd_conv using rows_ok_refused [OF refused(4,1)] by simp
next
  case (keyless now orgId userId code w')
  then have "fs_factors w' = fs_factors w" by (auto simp: verify_def spend_codes_def split: if_splits)
  then show ?case unfolding fst_conv snd_conv by (auto intro: rows_ok_frame [OF keyless(4)] simp: keyless(1))
next
  case (thrown now key orgId userId code w')
  then have "w' = w" by (auto simp: verify_def split: if_splits option.splits sum.splits)
  moreover have "\<not> g" using thrown verify_decides [of deps w now orgId userId code] by fastforce
  moreover have "set (compared deps key now code (totp_rows orgId userId w)) \<subseteq> fr_id ` set (fs_factors w)"
    using compared_ids [of deps key now code "totp_rows orgId userId w"] by (force simp: totp_rows_held)
  ultimately show ?case using rows_ok_compared [OF thrown(4,1)] by simp
next
  case (removed now orgId userId id' res w')
  from remove_rows [OF removed(2)] have "rows_ok g (fs_factors w') tr" using rows_ok_filter [OF removed(3)] by auto
  then show ?case unfolding fst_conv snd_conv by (rule rows_ok_frame) (simp_all add: removed(1))
next
  case (registering now bytes orgId userId options w')
  then have "fs_factors w' = fs_factors w" using begin_ceremony_rows(1) [OF registering(2)] issue_rows by fastforce
  then show ?case unfolding fst_conv snd_conv by (auto intro: rows_ok_frame [OF registering(3)] simp: registering(1))
next
  case (asserting now bytes orgId userId options' w')
  then have "fs_factors w' = fs_factors w" using begin_ceremony_rows(2) [OF asserting(2)] issue_rows by fastforce
  then show ?case unfolding fst_conv snd_conv by (auto intro: rows_ok_frame [OF asserting(3)] simp: asserting(1))
next
  case (registered now id' draws orgId userId label att json chal codes w')
  from finish_rows [OF registered(4)] obtain reg where "fs_factors w' = fs_factors w @ [webauthn_row now id' orgId userId label reg]"
    using mint_factors spendChallenge_frame by fastforce
  moreover have "rows_ok g (fs_factors w @ [webauthn_row now id' orgId userId label reg]) (tr\<lparr>ft_ids := id' # ft_ids tr\<rparr>)"
    using rows_ok_insert [OF registered(5), of "webauthn_row now id' orgId userId label reg"] registered(2) by (simp add: webauthn_row_def)
  ultimately have "rows_ok g (fs_factors w') (tr\<lparr>ft_ids := id' # ft_ids tr\<rparr>)" by simp
  then show ?case unfolding fst_conv snd_conv by (rule rows_ok_frame) (simp_all add: registered(1))
next
  case (not_registered now id' draws orgId userId label att json chal res w')
  then have "fs_factors w' = fs_factors w" using finish_rows [OF not_registered(2)] spendChallenge_frame by fastforce
  then show ?case unfolding fst_conv snd_conv by (auto intro: rows_ok_frame [OF not_registered(4)] simp: not_registered(1))
next
  case (asserted now orgId userId response ok w')
  have "rows_ok g (fs_factors w') tr"
    using asserted_rows [OF asserted(2)] spendChallenge_frame asserted(3)
      update_same_ok [OF asserted(3), of "\<lambda>x. x\<lparr>fr_lastUsed := Some now, fr_signCount := Some n\<rparr>" for n]
    by (fastforce simp: update_factor_def)
  then show ?case unfolding fst_conv snd_conv by (rule rows_ok_frame) (simp_all add: asserted(1))
qed

subsection \<open>Recovery codes and challenges\<close>

definition codes_ok :: "CodeRow list \<Rightarrow> FactorTrace \<Rightarrow> bool" where
  "codes_ok rows tr \<longleftrightarrow> distinct (map co_hash rows) \<and> co_hash ` set rows \<subseteq> set (ft_hashes tr) \<and> distinct (ft_spent tr)
     \<and> set (ft_spent tr) \<subseteq> set (ft_hashes tr) \<and> (\<forall>c \<in> set rows. co_hash c \<in> set (ft_spent tr) \<longrightarrow> co_used c \<noteq> None)"

lemma codes_ok_frame:
  "codes_ok rows tr \<Longrightarrow> ft_spent tr' = ft_spent tr \<Longrightarrow> set (ft_hashes tr) \<subseteq> set (ft_hashes tr') \<Longrightarrow> codes_ok rows tr'"
  by (auto simp: codes_ok_def)

lemma codes_ok_filter: "codes_ok rows tr \<Longrightarrow> codes_ok (filter P rows) tr"
  by (auto simp: codes_ok_def distinct_map_filter)

lemma codes_ok_mint:
  assumes "codes_ok (fs_codes w) tr" "fresh_draws deps draws tr" "mint_codes deps draws orgId userId w = Some (codes, w')"
    "ft_spent tr' = ft_spent tr" "ft_hashes tr' = code_hashes deps draws @ ft_hashes tr"
  shows "codes_ok (fs_codes w') tr'"
proof -
  have "distinct (map co_hash (fs_codes w'))" using mint_codes_rows [OF assms(3)] assms(1) by (simp add: codes_ok_def)
  moreover have "set (fs_codes w') \<subseteq> set (fs_codes w) \<union> set (minted deps orgId userId draws)"
    using mint_codes_rows [OF assms(3)] by auto
  moreover have "co_hash c \<in> set (code_hashes deps draws)" if "c \<in> set (minted deps orgId userId draws)" for c using that by (auto simp: minted_def)
  moreover have "set (code_hashes deps draws) \<inter> set (ft_spent tr) = {}" using assms(1,2) by (auto simp: codes_ok_def fresh_draws_def)
  ultimately show ?thesis using assms(1,4,5) unfolding codes_ok_def by (simp add: subset_eq image_iff) blast
qed

lemma codes_ok_spend:
  assumes ok: "codes_ok (fs_codes w) tr" and "spends deps orgId userId code w" and "ft_spent tr' = hashRecoveryCode (fd_hash deps) code # ft_spent tr"
    "ft_hashes tr' = ft_hashes tr"
  shows "codes_ok (fs_codes (spend_codes deps now orgId userId code w)) tr'"
proof -
  define f where "f = (\<lambda>c. if spendable deps orgId userId code c then c\<lparr>co_used := Some now\<rparr> else c)"
  obtain c where c: "c \<in> set (fs_codes w)" "spendable deps orgId userId code c" using assms(2) by (auto simp: spends_def)
  then have h: "co_hash c = hashRecoveryCode (fd_hash deps) code" "co_used c = None" by (auto simp: spendable_def)
  have only: "x = c" if "x \<in> set (fs_codes w)" "co_hash x = co_hash c" for x
    using ok that c(1) unfolding codes_ok_def by (metis distinct_map inj_onD)
  have hash: "co_hash (f x) = co_hash x" for x by (simp add: f_def)
  have "co_hash c \<notin> set (ft_spent tr)" "co_hash c \<in> set (ft_hashes tr)" using ok c(1) h(2) by (auto simp: codes_ok_def)
  moreover have "co_used (f x) \<noteq> None" if "x \<in> set (fs_codes w)" "co_hash x \<in> set (ft_spent tr')" for x
    using that only [OF that(1)] c(2) ok assms(3) h(1) by (auto simp: codes_ok_def f_def)
  moreover have "fs_codes (spend_codes deps now orgId userId code w) = map f (fs_codes w)" by (simp add: spend_codes_def f_def)
  ultimately show ?thesis using ok assms(3,4) h(1) hash unfolding codes_ok_def by (simp add: o_def subset_eq image_iff)
qed

definition challenges_ok :: "CeremonyRow list \<Rightarrow> FactorTrace \<Rightarrow> bool" where
  "challenges_ok rows tr \<longleftrightarrow> distinct (map (\<lambda>g. (cg_org g, cg_challenge g)) rows) \<and> distinct (ft_passed tr)
     \<and> (\<forall>p \<in> set (ft_passed tr). \<exists>g \<in> set rows. (cg_org g, cg_challenge g) = p \<and> cg_used g \<noteq> None)"

lemma challenges_ok_issue:
  "challenges_ok (fs_challenges w) tr \<Longrightarrow> issueChallenge now bytes orgId userId purpose w = (c, w') \<Longrightarrow> challenges_ok (fs_challenges w') tr"
  using issue_rows [of now bytes orgId userId purpose w c w'] unfolding challenges_ok_def by fastforce

lemma challenges_ok_spend:
  assumes ok: "challenges_ok (fs_challenges w) tr" and sp: "spendChallenge now orgId userId purpose chal w = (hit, w')"
    and "ft_passed tr' = (if hit then [(orgId, chal)] else []) @ ft_passed tr"
  shows "challenges_ok (fs_challenges w') tr'"
proof -
  let ?out = "outstanding now orgId userId purpose chal"
  let ?f = "\<lambda>g. if ?out g then g\<lparr>cg_used := Some now\<rparr> else g"
  have w': "fs_challenges w' = map ?f (fs_challenges w)" "hit = (length (filter ?out (fs_challenges w)) = 1)"
    using sp by (auto simp: spendChallenge_def)
  have ids: "(cg_org (?f g), cg_challenge (?f g)) = (cg_org g, cg_challenge g)" for g by simp
  have kept: "distinct (map (\<lambda>g. (cg_org g, cg_challenge g)) (fs_challenges w'))"
    using ok unfolding w' challenges_ok_def by (simp add: o_def ids del: Pair_inject)
  have used: "\<exists>g \<in> set (fs_challenges w'). (cg_org g, cg_challenge g) = p \<and> cg_used g \<noteq> None" if p: "p \<in> set (ft_passed tr)" for p
  proof -
    obtain g where "g \<in> set (fs_challenges w)" "(cg_org g, cg_challenge g) = p" "cg_used g \<noteq> None"
      using ok p unfolding challenges_ok_def by blast
    then have "?f g \<in> set (fs_challenges w')" "(cg_org (?f g), cg_challenge (?f g)) = p" "cg_used (?f g) \<noteq> None" using w'(1) by auto
    then show ?thesis by blast
  qed
  show ?thesis
  proof (cases hit)
    case True
    then obtain g where g: "g \<in> set (fs_challenges w)" "?out g"
      using w'(2) by (metis One_nat_def filter_empty_conv length_0_conv n_not_Suc_n)
    have "(orgId, chal) \<notin> set (ft_passed tr)"
    proof
      assume "(orgId, chal) \<in> set (ft_passed tr)"
      then obtain x where x: "x \<in> set (fs_challenges w)" "(cg_org x, cg_challenge x) = (orgId, chal)" "cg_used x \<noteq> None"
        using ok unfolding challenges_ok_def by blast
      then have "x = g" using g ok unfolding challenges_ok_def outstanding_def distinct_map by (metis (mono_tags, lifting) inj_onD)
      then show False using x(3) g(2) by (simp add: outstanding_def)
    qed
    moreover have "?f g \<in> set (fs_challenges w')" "(cg_org (?f g), cg_challenge (?f g)) = (orgId, chal)" "cg_used (?f g) \<noteq> None"
      using g w'(1) by (auto simp: outstanding_def)
    then have "\<exists>g \<in> set (fs_challenges w'). (cg_org g, cg_challenge g) = (orgId, chal) \<and> cg_used g \<noteq> None" by blast
    ultimately show ?thesis using True ok kept used assms(3) unfolding challenges_ok_def by auto
  qed (use ok kept used assms(3) in \<open>auto simp: challenges_ok_def\<close>)
qed

lemma count_failures_frame: "fs_codes (count_failures now rows w) = fs_codes w \<and> fs_challenges (count_failures now rows w) = fs_challenges w"
  by (induction rows arbitrary: w) (simp_all add: update_factor_def)

lemma update_frame: "fs_codes (update_factor id' f w) = fs_codes w \<and> fs_challenges (update_factor id' f w) = fs_challenges w"
  by (simp add: update_factor_def)

lemma verify_challenges: "verify deps now orgId userId code w = (res, w') \<Longrightarrow> fs_challenges w' = fs_challenges w"
  using verify_rows [of deps now orgId userId code w res w'] by (auto simp: spend_codes_def update_frame count_failures_frame)

lemma verify_codes: "verify deps now orgId userId code w = (res, w') \<Longrightarrow> \<not> spends deps orgId userId code w \<Longrightarrow> fs_codes w' = fs_codes w"
  using verify_rows [of deps now orgId userId code w res w'] by (auto simp: update_frame count_failures_frame)

lemma ceremony_codes:
  "beginWebAuthnRegistration deps now bytes orgId userId w = (res, w') \<Longrightarrow> fs_codes w' = fs_codes w"
  "beginWebAuthnAssertion deps now bytes orgId userId w = (res', w') \<Longrightarrow> fs_codes w' = fs_codes w"
  "verifyWebAuthnAssertion deps now orgId userId response w = (ok, w') \<Longrightarrow> fs_codes w' = fs_codes w"
  using begin_ceremony_rows(1) [of deps now bytes orgId userId w res w'] begin_ceremony_rows(2) [of deps now bytes orgId userId w res' w']
    asserted_rows [of deps now orgId userId response w ok w'] issue_rows spendChallenge_frame
  by (fastforce simp: update_frame)+

lemma factor_step_codes: "factor_step deps (w, tr) y \<Longrightarrow> codes_ok (fs_codes w) tr \<Longrightarrow> codes_ok (fs_codes (fst y)) (snd y)"
proof (induction "(w, tr)" y rule: factor_step.induct)
  case (begun now id' bytes nonce orgId userId label res w')
  then have "fs_codes w' = fs_codes w" using begin_totp_rows [OF begun(3)] by auto
  then show ?case using codes_ok_frame [OF begun.prems] by simp
next
  case (confirmed now draws orgId userId id' code step codes w')
  obtain w1 where w1: "mint_codes deps draws orgId userId w1 = Some (codes, w')" "fs_codes w1 = fs_codes w"
    using confirm_rows [OF confirmed(4)] update_frame by fastforce
  show ?case using codes_ok_mint [OF _ confirmed(2) w1(1)] confirmed.prems w1(2) by (simp add: note_accepted_def)
next
  case (not_confirmed now draws orgId userId id' code res w')
  then have "w' = w" using confirm_rows [OF not_confirmed(2)] by auto
  then show ?case using codes_ok_frame [OF not_confirmed.prems] by (simp add: note_refused_def)
next
  case (spent now orgId userId code res w')
  then have "w' = spend_codes deps now orgId userId code w" by (simp add: verify_def)
  then show ?case using codes_ok_spend [OF spent.prems spent(2)] by simp
next
  case (accepted now orgId userId code key id' step res w')
  then show ?case using codes_ok_frame [OF accepted.prems] verify_codes by (simp add: note_accepted_def)
next
  case (refused now key orgId userId code w')
  then have "\<not> spends deps orgId userId code w" by (auto simp: verify_def)
  then show ?case using codes_ok_frame [OF refused.prems] verify_codes [OF refused(3)] by (simp add: note_refused_def)
next
  case (keyless now orgId userId code w')
  then have "\<not> spends deps orgId userId code w" by (auto simp: verify_def)
  then show ?case using codes_ok_frame [OF keyless.prems] verify_codes [OF keyless(3)] by simp
next
  case (thrown now key orgId userId code w')
  then have "\<not> spends deps orgId userId code w" by (auto simp: verify_def)
  then show ?case using codes_ok_frame [OF thrown.prems] verify_codes [OF thrown(3)] by (simp add: note_refused_def)
next
  case (removed now orgId userId id' res w')
  then have "codes_ok (fs_codes w') tr" using remove_rows [OF removed(2)] codes_ok_filter by fastforce
  then show ?case using codes_ok_frame by fastforce
next
  case (registering now bytes orgId userId options w')
  then show ?case using codes_ok_frame [OF registering.prems] ceremony_codes(1) by simp
next
  case (asserting now bytes orgId userId options' w')
  then show ?case using codes_ok_frame [OF asserting.prems] ceremony_codes(2) by simp
next
  case (registered now id' draws orgId userId label att json chal codes w')
  obtain w1 where w1: "mint_codes deps draws orgId userId w1 = Some (codes, w')" "fs_codes w1 = fs_codes w"
    using finish_rows [OF registered(4)] spendChallenge_frame by fastforce
  show ?case using codes_ok_mint [OF _ registered(3) w1(1)] registered.prems w1(2) by simp
next
  case (not_registered now id' draws orgId userId label att json chal res w')
  then have "fs_codes w' = fs_codes w" using finish_rows [OF not_registered(2)] spendChallenge_frame by fastforce
  then show ?case using codes_ok_frame [OF not_registered.prems] by simp
next
  case (asserted now orgId userId response ok w')
  then show ?case using codes_ok_frame [OF asserted.prems] ceremony_codes(3) by simp
qed

lemma challenges_ok_frame: "challenges_ok rows tr \<Longrightarrow> ft_passed tr' = ft_passed tr \<Longrightarrow> challenges_ok rows tr'"
  by (simp add: challenges_ok_def)

lemma factor_step_challenges: "factor_step deps (w, tr) y \<Longrightarrow> challenges_ok (fs_challenges w) tr \<Longrightarrow> challenges_ok (fs_challenges (fst y)) (snd y)"
proof (induction "(w, tr)" y rule: factor_step.induct)
  case (begun now id' bytes nonce orgId userId label res w')
  then have "fs_challenges w' = fs_challenges w" using begin_totp_rows [OF begun(3)] by auto
  then show ?case using challenges_ok_frame [OF begun.prems] by simp
next
  case (confirmed now draws orgId userId id' code step codes w')
  then have "fs_challenges w' = fs_challenges w" using confirm_rows [OF confirmed(4)] update_frame mint_factors by fastforce
  then show ?case using challenges_ok_frame [OF confirmed.prems] by (simp add: note_accepted_def)
next
  case (not_confirmed now draws orgId userId id' code res w')
  then have "w' = w" using confirm_rows [OF not_confirmed(2)] by auto
  then show ?case using challenges_ok_frame [OF not_confirmed.prems] by (simp add: note_refused_def)
next
  case (removed now orgId userId id' res w')
  then have "fs_challenges w' = fs_challenges w" using remove_rows [OF removed(2)] by fastforce
  then show ?case using challenges_ok_frame [OF removed.prems] by simp
next
  case (registering now bytes orgId userId options w')
  then have "challenges_ok (fs_challenges w') tr" using begin_ceremony_rows(1) [OF registering(2)] challenges_ok_issue by blast
  then show ?case using challenges_ok_frame by fastforce
next
  case (asserting now bytes orgId userId options' w')
  then have "challenges_ok (fs_challenges w') tr" using begin_ceremony_rows(2) [OF asserting(2)] challenges_ok_issue by blast
  then show ?case using challenges_ok_frame by fastforce
next
  case (registered now id' draws orgId userId label att json chal codes w')
  obtain w1 where w1: "spendChallenge now orgId userId Register chal w = (True, w1)" "fs_challenges w' = fs_challenges w1"
    using finish_rows [OF registered(4)] mint_factors by fastforce
  show ?case using challenges_ok_spend [OF registered.prems w1(1)] w1(2) by simp
next
  case (not_registered now id' draws orgId userId label att json chal res w')
  have "challenges_ok (fs_challenges w') tr"
    using finish_rows [OF not_registered(2)] not_registered(3) challenges_ok_spend [OF not_registered.prems, of now orgId userId Register chal False w' tr] not_registered.prems by auto
  then show ?case using challenges_ok_frame by fastforce
next
  case (asserted now orgId userId response ok w')
  obtain hit w1 where w1: "spendChallenge now orgId userId Authenticate (ar_challenge response) w = (hit, w1)" by fastforce
  from asserted_rows [OF asserted(2)] show ?case
  proof
    assume "WebAuthn \<notin> set (kinds deps) \<and> w' = w"
    then show ?thesis using challenges_ok_frame [OF asserted.prems] by simp
  next
    assume "WebAuthn \<in> set (kinds deps) \<and> (\<exists>fresh w1. spendChallenge now orgId userId Authenticate (ar_challenge response) w = (fresh, w1)
        \<and> (w' = w1 \<or> (\<exists>id' n. w' = update_factor id' (\<lambda>x. x\<lparr>fr_lastUsed := Some now, fr_signCount := Some n\<rparr>) w1)))"
    then have "WebAuthn \<in> set (kinds deps)" "fs_challenges w' = fs_challenges w1" using w1 update_frame by fastforce+
    then show ?thesis using challenges_ok_spend [OF asserted.prems w1] w1 by simp
  qed
qed (simp_all add: challenges_ok_def verify_challenges note_accepted_def note_refused_def)

subsection \<open>Codes belong to somebody with a factor\<close>

definition backed :: "CodeRow list \<Rightarrow> FactorRow list \<Rightarrow> bool" where
  "backed codes rows \<longleftrightarrow> (\<forall>c \<in> set codes. \<exists>r \<in> set rows. of_person (co_org c) (co_user c) r \<and> fr_confirmed r \<noteq> None)"

definition keeps_standing :: "(FactorRow \<Rightarrow> FactorRow) \<Rightarrow> bool" where
  "keeps_standing f \<longleftrightarrow> (\<forall>r. fr_org (f r) = fr_org r \<and> fr_user (f r) = fr_user r \<and> (fr_confirmed r \<noteq> None \<longrightarrow> fr_confirmed (f r) \<noteq> None))"

lemma backed_update: "backed codes (fs_factors w) \<Longrightarrow> keeps_standing f \<Longrightarrow> backed codes (fs_factors (update_factor id' f w))"
  unfolding backed_def
proof
  fix c assume b: "\<forall>c \<in> set codes. \<exists>r \<in> set (fs_factors w). of_person (co_org c) (co_user c) r \<and> fr_confirmed r \<noteq> None"
    and f: "keeps_standing f" and c: "c \<in> set codes"
  obtain r where r: "r \<in> set (fs_factors w)" "of_person (co_org c) (co_user c) r" "fr_confirmed r \<noteq> None" using b c by blast
  let ?r = "if fr_id r = id' then f r else r"
  have "?r \<in> set (fs_factors (update_factor id' f w))" using r(1) by (auto simp: update_factor_def)
  moreover have "of_person (co_org c) (co_user c) ?r" "fr_confirmed ?r \<noteq> None" using r(2,3) f unfolding keeps_standing_def of_person_def by auto
  ultimately show "\<exists>r \<in> set (fs_factors (update_factor id' f w)). of_person (co_org c) (co_user c) r \<and> fr_confirmed r \<noteq> None" by blast
qed

lemma backed_fail: "backed codes (fs_factors w) \<Longrightarrow> backed codes (fs_factors (count_failures now rows w))"
proof (induction rows arbitrary: w)
  case (Cons r rows)
  have "keeps_standing (failed_row now n)" for n by (simp add: keeps_standing_def failed_row_def)
  then show ?case using Cons backed_update by simp
qed simp

lemma backed_mint:
  assumes "backed (fs_codes w) (fs_factors w)" "mint_codes deps draws orgId userId w = Some (codes, w')" "held orgId userId w \<noteq> []"
  shows "backed (fs_codes w') (fs_factors w')"
proof -
  have sub: "set (fs_codes w') \<subseteq> set (fs_codes w) \<union> set (minted deps orgId userId draws)"
    using mint_codes_rows [OF assms(2)] by auto
  obtain r where "r \<in> set (fs_factors w)" "of_person orgId userId r \<and> fr_confirmed r \<noteq> None"
    using assms(3) by (auto simp: held_def filter_empty_conv)
  moreover have "co_org c = orgId \<and> co_user c = userId" if "c \<in> set (minted deps orgId userId draws)" for c
    using that by (auto simp: minted_def)
  ultimately have "\<exists>r \<in> set (fs_factors w). of_person (co_org c) (co_user c) r \<and> fr_confirmed r \<noteq> None"
    if "c \<in> set (fs_codes w) \<union> set (minted deps orgId userId draws)" for c
    using that assms(1) unfolding backed_def by (cases "c \<in> set (fs_codes w)") auto
  then show ?thesis using sub mint_factors [OF assms(2)] unfolding backed_def by auto
qed

lemma remove_backed:
  assumes b: "backed (fs_codes w) (fs_factors w)" and "remove_factor orgId userId id' w = (res, w')"
  shows "backed (fs_codes w') (fs_factors w')"
proof -
  let ?named = "\<lambda>r. of_person orgId userId r \<and> fr_id r = id'"
  define rows where "rows = filter (\<lambda>r. \<not> ?named r) (fs_factors w)"
  consider "w' = w" | "fs_factors w' = rows" "fs_codes w' = filter (\<lambda>c. \<not> (co_org c = orgId \<and> co_user c = userId)) (fs_codes w)"
    | "fs_factors w' = rows" "fs_codes w' = fs_codes w" "\<exists>r \<in> set rows. of_person orgId userId r \<and> fr_confirmed r \<noteq> None"
  proof -
    have none: "held orgId userId (w\<lparr>fs_factors := rows\<rparr>) = [] \<longleftrightarrow> \<not> (\<exists>r \<in> set rows. of_person orgId userId r \<and> fr_confirmed r \<noteq> None)"
      by (auto simp: held_def filter_empty_conv)
    have "w' = w \<or> (held orgId userId (w\<lparr>fs_factors := rows\<rparr>) = []
          \<and> w' = w\<lparr>fs_factors := rows, fs_codes := filter (\<lambda>c. \<not> (co_org c = orgId \<and> co_user c = userId)) (fs_codes w)\<rparr>)
        \<or> (held orgId userId (w\<lparr>fs_factors := rows\<rparr>) \<noteq> [] \<and> w' = w\<lparr>fs_factors := rows\<rparr>)"
      using assms(2) unfolding remove_factor_def Let_def rows_def by (auto split: if_splits)
    then consider "w' = w" | "held orgId userId (w\<lparr>fs_factors := rows\<rparr>) = []" "w' = w\<lparr>fs_factors := rows, fs_codes := filter (\<lambda>c. \<not> (co_org c = orgId \<and> co_user c = userId)) (fs_codes w)\<rparr>"
      | "held orgId userId (w\<lparr>fs_factors := rows\<rparr>) \<noteq> []" "w' = w\<lparr>fs_factors := rows\<rparr>" by blast
    then show thesis
    proof cases
      case 3
      then show thesis using none that(3) by simp
    qed (use that(1,2) in simp_all)
  qed
  moreover have other: "\<exists>r \<in> set rows. of_person (co_org c) (co_user c) r \<and> fr_confirmed r \<noteq> None"
    if c: "c \<in> set (fs_codes w)" "\<not> (co_org c = orgId \<and> co_user c = userId)" for c
  proof -
    obtain r where "r \<in> set (fs_factors w)" "of_person (co_org c) (co_user c) r" "fr_confirmed r \<noteq> None"
      using b c(1) unfolding backed_def by blast
    then show ?thesis using c(2) by (auto simp: rows_def of_person_def)
  qed
  ultimately show ?thesis
  proof cases
    case 3
    show ?thesis unfolding backed_def 3(1,2)
    proof
      fix c assume "c \<in> set (fs_codes w)"
      then show "\<exists>r \<in> set rows. of_person (co_org c) (co_user c) r \<and> fr_confirmed r \<noteq> None"
        using other [of c] 3(3) by (cases "co_org c = orgId \<and> co_user c = userId") simp_all
    qed
  qed (use b other in \<open>auto simp: backed_def\<close>)
qed

lemma begin_backed: "backed (fs_codes w) (fs_factors w) \<Longrightarrow> begin_totp deps now id' bytes nonce orgId userId label w = (res, w') \<Longrightarrow> backed (fs_codes w') (fs_factors w')"
  using begin_totp_rows [of deps now id' bytes nonce orgId userId label w res w'] unfolding backed_def by fastforce

lemma confirm_backed:
  assumes b: "backed (fs_codes w) (fs_factors w)" and c: "confirm deps now draws orgId userId id' code w = (res, w')"
  shows "backed (fs_codes w') (fs_factors w')"
  using confirm_rows [OF c]
proof
  assume "\<exists>step codes. confirm_check deps now orgId userId id' code w = Inr (Some step) \<and> res = Inr (Some codes)
        \<and> mint_codes deps draws orgId userId
            (update_factor id' (\<lambda>r. r\<lparr>fr_confirmed := Some now, fr_lastStep := Some step, fr_lastUsed := Some now, fr_failed := 0\<rparr>) w) = Some (codes, w')"
  then obtain step codes where s: "confirm_check deps now orgId userId id' code w = Inr (Some step)"
    "mint_codes deps draws orgId userId
            (update_factor id' (\<lambda>r. r\<lparr>fr_confirmed := Some now, fr_lastStep := Some step, fr_lastUsed := Some now, fr_failed := 0\<rparr>) w) = Some (codes, w')"
    by blast
  let ?f = "\<lambda>r. r\<lparr>fr_confirmed := Some now, fr_lastStep := Some step, fr_lastUsed := Some now, fr_failed := 0\<rparr>"
  have "keeps_standing ?f" by (simp add: keeps_standing_def)
  then have "backed (fs_codes (update_factor id' ?f w)) (fs_factors (update_factor id' ?f w))" using backed_update [OF b] by (simp add: update_frame)
  moreover obtain r where "r \<in> set (fs_factors w)" "fr_id r = id'" "of_person orgId userId r" using confirm_checked [OF s(1)] by blast
  then have "?f r \<in> set (fs_factors (update_factor id' ?f w)) \<and> of_person orgId userId (?f r) \<and> fr_confirmed (?f r) \<noteq> None"
    by (auto simp: update_factor_def of_person_def)
  then have "held orgId userId (update_factor id' ?f w) \<noteq> []" unfolding held_def filter_empty_conv by blast
  ultimately show ?thesis using backed_mint [OF _ s(2)] by blast
qed (use b in simp)

lemma finish_backed:
  assumes b: "backed (fs_codes w) (fs_factors w)" and c: "finishWebAuthnRegistration deps now id' draws orgId userId label att json chal w = (res, w')"
  shows "backed (fs_codes w') (fs_factors w')"
  using finish_rows [OF c]
proof
  assume "(\<nexists>codes. res = Inr (Some codes)) \<and> (w' = w \<or> spendChallenge now orgId userId Register chal w = (False, w'))"
  then show ?thesis using b spendChallenge_frame by fastforce
next
  assume "\<exists>reg codes w1. res = Inr (Some codes) \<and> spendChallenge now orgId userId Register chal w = (True, w1)
        \<and> mint_codes deps draws orgId userId (w1\<lparr>fs_factors := fs_factors w1 @ [webauthn_row now id' orgId userId label reg]\<rparr>) = Some (codes, w')"
  then obtain reg codes w1 where w1: "spendChallenge now orgId userId Register chal w = (True, w1)"
    "mint_codes deps draws orgId userId (w1\<lparr>fs_factors := fs_factors w1 @ [webauthn_row now id' orgId userId label reg]\<rparr>) = Some (codes, w')" by blast
  let ?w = "w1\<lparr>fs_factors := fs_factors w1 @ [webauthn_row now id' orgId userId label reg]\<rparr>"
  have "backed (fs_codes ?w) (fs_factors ?w)" using b spendChallenge_frame [OF w1(1)] unfolding backed_def by fastforce
  moreover have "held orgId userId ?w \<noteq> []" by (simp add: held_def of_person_def webauthn_row_def)
  ultimately show ?thesis using backed_mint [OF _ w1(2)] by blast
qed

lemma verify_backed:
  assumes b: "backed (fs_codes w) (fs_factors w)" and v: "verify deps now orgId userId code w = (res, w')"
  shows "backed (fs_codes w') (fs_factors w')"
proof -
  have "keeps_standing (\<lambda>r. r\<lparr>fr_lastStep := Some step, fr_lastUsed := Some now, fr_failed := 0, fr_locked := None\<rparr>)" for step
    by (simp add: keeps_standing_def)
  moreover have "backed (fs_codes (spend_codes deps now orgId userId code w)) (fs_factors (spend_codes deps now orgId userId code w))"
    using b by (auto simp: backed_def spend_codes_def)
  ultimately show ?thesis using verify_rows [OF v] b backed_update [OF b] backed_fail [OF b] update_frame count_failures_frame by auto
qed

lemma factor_step_backed: "factor_step deps (w, tr) y \<Longrightarrow> backed (fs_codes w) (fs_factors w) \<Longrightarrow> backed (fs_codes (fst y)) (fs_factors (fst y))"
proof (induction "(w, tr)" y rule: factor_step.induct)
  case (registering now bytes orgId userId options w')
  then show ?case using begin_ceremony_rows(1) [OF registering(2)] issue_rows by fastforce
next
  case (asserting now bytes orgId userId options' w')
  then show ?case using begin_ceremony_rows(2) [OF asserting(2)] issue_rows by fastforce
next
  case (asserted now orgId userId response ok w')
  have keep: "keeps_standing (\<lambda>x. x\<lparr>fr_lastUsed := Some now, fr_signCount := Some n\<rparr>)" for n by (simp add: keeps_standing_def)
  have same: "backed (fs_codes w1) (fs_factors w1)" if "spendChallenge now orgId userId Authenticate (ar_challenge response) w = (hit, w1)" for hit w1
    using spendChallenge_frame [OF that] asserted.prems by simp
  consider "w' = w" | hit where "spendChallenge now orgId userId Authenticate (ar_challenge response) w = (hit, w')"
    | hit w1 id' n where "spendChallenge now orgId userId Authenticate (ar_challenge response) w = (hit, w1)"
        "w' = update_factor id' (\<lambda>x. x\<lparr>fr_lastUsed := Some now, fr_signCount := Some n\<rparr>) w1"
    using asserted_rows [OF asserted(2)] by blast
  then have "backed (fs_codes w') (fs_factors w')"
  proof cases
    case (3 hit w1 id' n)
    then show ?thesis using backed_update [OF same [OF 3(1)] keep] by (simp add: update_frame)
  qed (use asserted.prems same in simp_all)
  then show ?case by simp
qed (auto dest: begin_backed confirm_backed finish_backed verify_backed remove_backed)

subsection \<open>Reachable states\<close>

definition factor_run :: "FactorDeps \<Rightarrow> Factors \<Rightarrow> FactorTrace \<Rightarrow> bool" where
  "factor_run deps w tr \<longleftrightarrow> (factor_step deps)\<^sup>*\<^sup>* (no_factors, no_factor_trace) (w, tr)"

lemma factor_run_ok:
  assumes "factor_run deps w tr"
  shows "rows_ok False (fs_factors w) tr \<and> codes_ok (fs_codes w) tr \<and> challenges_ok (fs_challenges w) tr \<and> backed (fs_codes w) (fs_factors w)"
proof -
  have "rows_ok False (fs_factors (fst y)) (snd y) \<and> codes_ok (fs_codes (fst y)) (snd y) \<and> challenges_ok (fs_challenges (fst y)) (snd y)
      \<and> backed (fs_codes (fst y)) (fs_factors (fst y))" if "(factor_step deps)\<^sup>*\<^sup>* (no_factors, no_factor_trace) y" for y
    using that
  proof (induction rule: rtranclp_induct)
    case base
    show ?case by (simp add: no_factors_def no_factor_trace_def rows_ok_def seen_ok_def codes_ok_def challenges_ok_def backed_def)
  next
    case (step y z)
    then have "factor_step deps (fst y, snd y) z" by simp
    with step.IH show ?case by (blast intro: factor_step_rows factor_step_codes factor_step_challenges factor_step_backed)
  qed
  then show ?thesis using assms by (fastforce simp: factor_run_def)
qed

subsection \<open>Secrets stay readable\<close>

text \<open>What is relied on of AES-GCM: what was sealed under a key opens under it.\<close>

definition gcm_ok :: "FactorDeps \<Rightarrow> bool" where
  "gcm_ok deps \<longleftrightarrow> (\<forall>key nonce secret body tag. fd_seal deps key nonce secret = (body, tag) \<longrightarrow> fd_open deps key nonce body tag = Some secret)"

lemma readable_update:
  "readable deps (fs_factors w) \<Longrightarrow> (\<And>r. fr_kind (f r) = fr_kind r \<and> fr_secret (f r) = fr_secret r) \<Longrightarrow> readable deps (fs_factors (update_factor id' f w))"
  unfolding readable_def update_factor_def open_row_def by auto

lemma readable_fail: "readable deps (fs_factors w) \<Longrightarrow> readable deps (fs_factors (count_failures now rows w))"
proof (induction rows arbitrary: w)
  case (Cons r rows)
  then show ?case using readable_update [OF Cons.prems, of "failed_row now (fr_failed r + 1)" "fr_id r"] by (simp add: failed_row_def)
qed simp

lemma readable_begin:
  assumes "gcm_ok deps" "readable deps (fs_factors w)" "begin_totp deps now id' bytes nonce orgId userId label w = (res, w')"
  shows "readable deps (fs_factors w')"
proof -
  consider "w' = w" | key sealed P where "fd_key deps = Some key" "sealTotpSecret (fd_seal deps) nonce (generateTotpSecret bytes) key = Some sealed"
      "fs_factors w' = filter P (fs_factors w) @ [totp_row now id' orgId userId sealed label]"
    using assms(3) by (auto simp: begin_totp_def Let_def split: option.splits if_splits)
  then show ?thesis
  proof cases
    case (2 key sealed P)
    then have "length key = 32" by (auto simp: sealTotpSecret_def split: if_splits)
    then have "openTotpSecret (fd_open deps) sealed key = Some (base32Encode bytes)"
      using secret_round_trip [of "fd_seal deps" key nonce "generateTotpSecret bytes" "fd_open deps"] assms(1) 2(2)
      by (auto simp: gcm_ok_def generateTotpSecret_def)
    then have "open_row deps key (totp_row now id' orgId userId sealed label) = Some (base32Encode bytes)" by (simp add: open_row_def totp_row_def)
    then show ?thesis using assms(2) 2(1,3) base32_roundtrip by (fastforce simp: readable_def)
  qed (use assms(2) in simp)
qed

lemma factor_step_readable:
  "factor_step deps (w, tr) y \<Longrightarrow> gcm_ok deps \<Longrightarrow> readable deps (fs_factors w) \<Longrightarrow> readable deps (fs_factors (fst y))"
proof (induction "(w, tr)" y rule: factor_step.induct)
  case (begun now id' bytes nonce orgId userId label res w')
  then show ?case using readable_begin by simp
next
  case (confirmed now draws orgId userId id' code step codes w')
  obtain n l where "fs_factors w' = fs_factors (update_factor id' (\<lambda>r. r\<lparr>fr_confirmed := Some n, fr_lastStep := Some l, fr_lastUsed := Some n, fr_failed := 0\<rparr>) w)"
    using confirm_rows [OF confirmed(4)] mint_factors by auto
  then show ?case using readable_update [OF confirmed(6)] by simp
next
  case (not_confirmed now draws orgId userId id' code res w')
  then have "w' = w" using confirm_rows [OF not_confirmed(2)] by auto
  then show ?case using not_confirmed by simp
next
  case (spent now orgId userId code res w')
  then show ?case by (auto simp: verify_def spend_codes_def)
next
  case (accepted now orgId userId code key id' step res w')
  then have "w' = update_factor id' (\<lambda>r. r\<lparr>fr_lastStep := Some step, fr_lastUsed := Some now, fr_failed := 0, fr_locked := None\<rparr>) w"
    by (simp add: verify_def)
  then show ?case using readable_update [OF accepted(7)] by simp
next
  case (refused now key orgId userId code w')
  then have "w' = count_failures now (totp_rows orgId userId w) w" using verify_rows [OF refused(3)] by (auto simp: verify_def)
  then show ?case using readable_fail [OF refused(5)] by simp
next
  case (keyless now orgId userId code w')
  then show ?case by (auto simp: verify_def spend_codes_def split: if_splits)
next
  case (thrown now key orgId userId code w')
  then show ?case by (auto simp: verify_def split: if_splits option.splits sum.splits)
next
  case (removed now orgId userId id' res w')
  then show ?case using remove_rows [OF removed(2)] by (auto simp: readable_def)
next
  case (registering now bytes orgId userId options w')
  then have "fs_factors w' = fs_factors w" using begin_ceremony_rows(1) [OF registering(2)] issue_rows by fastforce
  then show ?case using registering by simp
next
  case (asserting now bytes orgId userId options' w')
  then have "fs_factors w' = fs_factors w" using begin_ceremony_rows(2) [OF asserting(2)] issue_rows by fastforce
  then show ?case using asserting by simp
next
  case (registered now id' draws orgId userId label att json chal codes w')
  from finish_rows [OF registered(4)] obtain reg where "fs_factors w' = fs_factors w @ [webauthn_row now id' orgId userId label reg]"
    using mint_factors spendChallenge_frame by fastforce
  then show ?case using registered(6) by (auto simp: readable_def webauthn_row_def)
next
  case (not_registered now id' draws orgId userId label att json chal res w')
  then have "fs_factors w' = fs_factors w" using finish_rows [OF not_registered(2)] spendChallenge_frame by fastforce
  then show ?case using not_registered by simp
next
  case (asserted now orgId userId response ok w')
  consider "fs_factors w' = fs_factors w" | w1 id' n where "fs_factors w1 = fs_factors w" "w' = update_factor id' (\<lambda>x. x\<lparr>fr_lastUsed := Some now, fr_signCount := Some n\<rparr>) w1"
    using asserted_rows [OF asserted(2)] spendChallenge_frame by blast
  then show ?case
  proof cases
    case (2 w1 id' n)
    then show ?thesis using readable_update [of deps w1 "\<lambda>x. x\<lparr>fr_lastUsed := Some now, fr_signCount := Some n\<rparr>" id'] asserted(4) by simp
  qed (use asserted in simp)
qed

lemma factor_step_clock: "factor_step deps (w, tr) y \<Longrightarrow> ft_clock tr \<le> ft_clock (snd y)"
  by (induction "(w, tr)" y rule: factor_step.induct) (simp_all add: note_accepted_def note_refused_def)

text \<open>From thirty seconds after the epoch on: a step before it is not one the code can be computed for.\<close>

lemma factor_reach_guessed:
  assumes "gcm_ok deps" "30000 \<le> start" "(factor_step deps)\<^sup>*\<^sup>* (no_factors, no_factor_trace\<lparr>ft_clock := start\<rparr>) y"
  shows "rows_ok True (fs_factors (fst y)) (snd y) \<and> readable deps (fs_factors (fst y)) \<and> 30000 \<le> ft_clock (snd y)"
  using assms(3)
proof (induction rule: rtranclp_induct)
  case base
  show ?case using assms(2) by (simp add: no_factors_def no_factor_trace_def rows_ok_def seen_ok_def readable_def)
next
  case (step y z)
  then have "factor_step deps (fst y, snd y) z" by simp
  with step.IH show ?case
    using factor_step_rows [of deps "fst y" "snd y" z True] factor_step_readable [OF _ assms(1)] factor_step_clock by fastforce
qed

text \<open>C24 - However sign-ins, enrolments and removals follow one another, no step of an authenticator is accepted
  twice, no recovery code is spent twice and no challenge is answered twice.\<close>

theorem codes_used_once:
  assumes "factor_run deps w tr"
  shows "distinct (ft_accepted tr) \<and> distinct (ft_spent tr) \<and> distinct (ft_passed tr)"
  using factor_run_ok [OF assms] by (simp add: rows_ok_def seen_ok_def codes_ok_def challenges_ok_def)

text \<open>Nobody holds recovery codes without a confirmed factor.\<close>

theorem codes_need_factor:
  assumes "factor_run deps w tr" "c \<in> set (fs_codes w)"
  shows "held (co_org c) (co_user c) w \<noteq> []"
  using factor_run_ok [OF assms(1)] assms(2) unfolding backed_def held_def filter_empty_conv by blast

lemma paced_span: "paced (t # ts) \<Longrightarrow> int (length (t # ts) - MAX_FAILURES) * LOCK_MS \<le> t - List.last (t # ts)"
proof (induction ts arbitrary: t)
  case (Cons u ts)
  then have IH: "int (length (u # ts) - MAX_FAILURES) * LOCK_MS \<le> u - List.last (u # ts)" and "u \<le> t" by simp_all
  show ?case
  proof (cases "length (u # ts) \<ge> MAX_FAILURES")
    case True
    then have "int (length (t # u # ts) - MAX_FAILURES) = int (length (u # ts) - MAX_FAILURES) + 1" by simp
    then have "int (length (t # u # ts) - MAX_FAILURES) * LOCK_MS = int (length (u # ts) - MAX_FAILURES) * LOCK_MS + LOCK_MS"
      by (simp add: algebra_simps)
    moreover have "u + LOCK_MS \<le> t" using Cons.prems True by simp
    ultimately show ?thesis using IH by simp
  next
    case False
    then have "length (t # u # ts) - MAX_FAILURES = 0" "length (u # ts) - MAX_FAILURES = 0" by simp_all
    then show ?thesis using IH \<open>u \<le> t\<close> by simp
  qed
qed (simp add: MAX_FAILURES_def)

text \<open>C25 - Guessing at a person's authenticator is slow. Take any confirmed factor and every code that was compared with it since its
  last accepted one in an attempt that was not accepted - refusals, attempts that threw, and confirmations
  alike: there are five of them, and one more for each quarter of an hour from the first to the latest. And no attempt at sign-in ends
  uncounted: \<open>verify\<close> does not throw. This is for one sealing key throughout: what it sealed opens, by the law of AES-GCM. When
  the key is changed under factors already enrolled, codes are compared and never counted, as \<open>unreadable_uncounted\<close> shows.\<close>

theorem guesses_bounded:
  assumes "gcm_ok deps" "30000 \<le> start" "(factor_step deps)\<^sup>*\<^sup>* (no_factors, no_factor_trace\<lparr>ft_clock := start\<rparr>) (w, tr)"
    "r \<in> set (fs_factors w)" "fr_confirmed r \<noteq> None" "ft_guesses tr (fr_id r) = t # ts"
  shows "int (length (t # ts) - MAX_FAILURES) * LOCK_MS \<le> t - List.last (t # ts)
    \<and> (ft_clock tr \<le> now \<longrightarrow> fst (verify deps now orgId userId code w) \<noteq> Inl ())"
proof (intro conjI impI)
  note ok = factor_reach_guessed [OF assms(1-3), unfolded fst_conv snd_conv]
  then have "paced (t # ts)" using assms(4-6) unfolding rows_ok_def factor_ok_def counted_guesses_def by (metis (full_types))
  then show "int (length (t # ts) - MAX_FAILURES) * LOCK_MS \<le> t - List.last (t # ts)" by (rule paced_span)
  show "fst (verify deps now orgId userId code w) \<noteq> Inl ()" if "ft_clock tr \<le> now"
    using ok that by (intro verify_decides) auto
qed

lemma accepted_parts:
  assumes "verifyWebAuthnAssertion deps now orgId userId response w = (True, w')"
  obtains w1 r a where "spendChallenge now orgId userId Authenticate (ar_challenge response) w = (True, w1)"
    "credential_row orgId userId (ar_credentialId response) w1 = Some r" "row_assertion deps response r = Some a"
    "w' = update_factor (fr_id r) (\<lambda>x. x\<lparr>fr_lastUsed := Some now, fr_signCount := Some (as_signCount a)\<rparr>) w1"
  using assms by (auto simp: verifyWebAuthnAssertion_def split: if_splits option.splits prod.splits bool.splits)

lemma spent_out:
  assumes "spendChallenge now orgId userId purpose chal w = (ok, w1)" "now \<le> now'"
  shows "filter (outstanding now' orgId userId purpose chal) (fs_challenges w1) = []"
proof -
  define f where "f = (\<lambda>g. if outstanding now orgId userId purpose chal g then g\<lparr>cg_used := Some now\<rparr> else g)"
  have "\<not> outstanding now' orgId userId purpose chal (f g)" for g
    using assms(2) by (auto simp: outstanding_def f_def)
  moreover have "fs_challenges w1 = map f (fs_challenges w)"
    using assms(1) by (auto simp: spendChallenge_def f_def)
  ultimately show ?thesis by (simp add: filter_empty_conv)
qed

definition assertion_earned :: "FactorDeps \<Rightarrow> int \<Rightarrow> string \<Rightarrow> string \<Rightarrow> AssertionResponse \<Rightarrow> Factors \<Rightarrow> FactorRow \<Rightarrow> PublicKey \<Rightarrow> bool" where
  "assertion_earned deps now orgId userId response w r key \<longleftrightarrow>
     (\<exists>g \<in> set (fs_challenges w). outstanding now orgId userId Authenticate (ar_challenge response) g)
     \<and> r \<in> set (held orgId userId w) \<and> fr_credential r = Some (ar_credentialId response) \<and> fr_key r = Some key
     \<and> for_ceremony (fd_crypto deps) (ar_clientDataJSON response) ''webauthn.get'' (ar_challenge response) (fd_origins deps)
     \<and> take 32 (ar_authenticatorData response) = cy_sha (fd_crypto deps) (fd_rpId deps)
     \<and> odd (of_char (ar_authenticatorData response ! 32) :: nat)
     \<and> cy_signed (fd_crypto deps) key (ar_authenticatorData response @ cy_sha (fd_crypto deps) (ar_clientDataJSON response)) (ar_signature response) = Some True"

text \<open>C26 - A security key signs in once per challenge: the challenge was asked for by this sign-in, the key is one this
  person enrolled, and the same answer is refused ever after.\<close>

theorem webauthn_sign_in:
  assumes "verifyWebAuthnAssertion deps now orgId userId response w = (True, w')" "now \<le> now'"
  shows "(\<exists>r key. assertion_earned deps now orgId userId response w r key) \<and> fst (verifyWebAuthnAssertion deps now' orgId userId response w') = False"
proof -
  obtain w1 r a where s: "spendChallenge now orgId userId Authenticate (ar_challenge response) w = (True, w1)"
    and r: "credential_row orgId userId (ar_credentialId response) w1 = Some r" and a: "row_assertion deps response r = Some a"
    and w': "w' = update_factor (fr_id r) (\<lambda>x. x\<lparr>fr_lastUsed := Some now, fr_signCount := Some (as_signCount a)\<rparr>) w1"
    using accepted_parts [OF assms(1)] by blast
  have "length (filter (outstanding now orgId userId Authenticate (ar_challenge response)) (fs_challenges w)) = 1" using s by (simp add: spendChallenge_def)
  then have g: "\<exists>g \<in> set (fs_challenges w). outstanding now orgId userId Authenticate (ar_challenge response) g"
    by (metis One_nat_def filter_empty_conv length_0_conv n_not_Suc_n)
  have "r \<in> set (held orgId userId w)" "fr_credential r = Some (ar_credentialId response)"
  proof -
    have "held orgId userId w1 = held orgId userId w" using spendChallenge_frame [OF s] by (simp add: held_def)
    then show "r \<in> set (held orgId userId w)" "fr_credential r = Some (ar_credentialId response)"
      using r by (auto simp: credential_row_def find_Some_iff)
  qed
  moreover obtain key where key: "fr_key r = Some key"
    "verifyAssertion (fd_crypto deps) (ar_authenticatorData response) (ar_clientDataJSON response) (ar_signature response)
          (ar_challenge response) (fd_rpId deps) (fd_origins deps) key (case fr_signCount r of Some n \<Rightarrow> n | None \<Rightarrow> 0) = Some a"
    using a by (auto simp: row_assertion_def split: option.splits)
  ultimately have "assertion_earned deps now orgId userId response w r key" using g assertionD [OF key(2)] by (simp add: assertion_earned_def)
  moreover have "filter (outstanding now' orgId userId Authenticate (ar_challenge response)) (fs_challenges w') = []"
    using spent_out [OF s assms(2)] w' by (simp add: update_frame)
  ultimately show ?thesis by (auto simp: verifyWebAuthnAssertion_def spendChallenge_def)
qed

text \<open>The method that is said not to depend on what the installation offers does: where nothing is offered,
  nobody is asked, whatever they enrolled.\<close>

theorem required_iff_available: "required deps orgId userId w \<longleftrightarrow> available deps \<and> held orgId userId w \<noteq> []"
  by (simp add: required_def available_def kinds_def)

text \<open>A secret that cannot be opened ends the attempt before it is counted: the codes compared with the factors
  ahead of it leave no trace.\<close>

theorem unreadable_uncounted:
  assumes "fd_key deps = Some key" "\<not> spends deps orgId userId code w" "totp_rows orgId userId w = ahead @ r # behind"
    "check_rows deps key now code ahead = Inr None" "\<not> row_locked now r" "open_row deps key r = None"
  shows "verify deps now orgId userId code w = (Inl (), w)"
proof -
  have "check_rows deps key now code (ahead @ rs) = check_rows deps key now code rs" if "check_rows deps key now code ahead = Inr None" for rs ahead
    using that by (induction ahead) (auto split: if_splits sum.splits option.splits)
  then show ?thesis using assms by (simp add: verify_def check_row_def)
qed

subsection \<open>Witnesses\<close>

definition toy_crypto :: Crypto where
  "toy_crypto = \<lparr>cy_utf8 = Some,
     cy_json = (\<lambda>s. Some (JObj [(''type'', JStr ''webauthn.get''), (''challenge'', JStr s), (''origin'', JStr ''https://nacre.work'')])),
     cy_sha = (\<lambda>_. replicate 32 (CHR 0x00)), cy_signed = (\<lambda>_ _ _. Some True)\<rparr>"

definition toy_factors :: FactorDeps where
  "toy_factors = \<lparr>fd_key = Some (replicate 32 (CHR ''k'')), fd_issuer = ''nacre'', fd_rpId = ''nacre.work'', fd_rpName = ''nacre'',
     fd_origins = [''https://nacre.work''], fd_crypto = toy_crypto, fd_hmac = (\<lambda>_ _. replicate 20 (CHR 0x00)), fd_seal = (\<lambda>_ _ s. (s, [])),
     fd_open = (\<lambda>_ _ b _. Some b), fd_hash = (\<lambda>s. s), fd_email = (\<lambda>_ _. Some ''a@b''), fd_shared = (\<lambda>_ _. False)\<rparr>"

definition toy_draws :: "string list" where
  "toy_draws = map (\<lambda>n. [char_of n]) [0 ..< 10 :: nat]"

definition toy_row :: FactorRow where
  "toy_row = totp_row 60000 ''f'' ''o'' ''u'' ''v1...'' ''phone''"

definition toy_held :: FactorRow where
  "toy_held = toy_row\<lparr>fr_confirmed := Some 60000, fr_lastStep := Some 1, fr_lastUsed := Some 60000\<rparr>"

definition toy_codes :: "CodeRow list" where
  "toy_codes = minted toy_factors ''o'' ''u'' toy_draws"

lemma toy_code: "0 \<le> s \<Longrightarrow> totpCode (fd_hmac toy_factors) [] s = Some ''000000''"
proof -
  have "truncated_mac (replicate 20 (CHR 0x00)) = 0" by (simp add: truncated_mac_def byte_at_def Let_def)
  moreover have "base32Decode [] = Some []" by (simp add: base32Decode_def clean32_def)
  moreover have "padStart TOTP_DIGITS (CHR ''0'') (nat_str 0) = ''000000''" by code_simp
  ultimately show "0 \<le> s \<Longrightarrow> ?thesis" by (simp add: totpCode_def toy_factors_def)
qed

lemma toy_checks:
  "verifyTotp (fd_hmac toy_factors) [] ''000000'' 60000 None = Inr (Some 1)"
  "verifyTotp (fd_hmac toy_factors) [] ''111111'' 90000 (Some 1) = Inr None"
  by (simp_all add: verifyTotp_def toy_code TOTP_DIGITS_def TOTP_SKEW_STEPS_def totpStep_def TOTP_PERIOD_SECONDS_def js_space_def js_digit_def upto.simps)

lemma toy_opens: "open_row toy_factors (replicate 32 (CHR ''k'')) toy_row = Some []" "open_row toy_factors (replicate 32 (CHR ''k'')) toy_held = Some []"
  by (simp_all add: open_row_def toy_row_def toy_held_def totp_row_def openTotpSecret_def toy_factors_def fromBase64url_def map_filter_def)

lemma toy_begins: "snd (begin_totp toy_factors 60000 ''f'' [] [] ''o'' ''u'' ''phone'' no_factors) = no_factors\<lparr>fs_factors := [toy_row]\<rparr>"
  by (simp add: begin_totp_def toy_factors_def generateTotpSecret_def base32Encode_def sealTotpSecret_def no_factors_def insertable_def toBase64url_def toy_row_def)

lemma toy_drawn: "code_hashes toy_factors toy_draws = map (\<lambda>n. base32Encode [char_of n]) [0 ..< 10]"
proof -
  have "length (base32Encode [c]) = 2" for c by (simp add: base32Encode_def encode_steps encode_ends del: encode_loop.simps)
  then have "take 20 (base32Encode [c]) = base32Encode [c]" for c by simp
  then show ?thesis
    by (simp add: code_hashes_def toy_draws_def toy_factors_def hashRecoveryCode_def recovery_code_text RECOVERY_CODE_COUNT_def)
qed

lemma toy_distinct: "distinct (code_hashes toy_factors toy_draws)"
proof -
  have "m = n" if "base32Encode [char_of m] = base32Encode [char_of n]" "m < 10" "n < 10" for m n :: nat
  proof -
    have "[char_of m :: char] = [char_of n]" using that(1) base32_roundtrip by (metis option.inject)
    then have "of_char (char_of m :: char) = (of_char (char_of n :: char) :: nat)" by simp
    then show "m = n" using that(2,3) by simp
  qed
  then show ?thesis unfolding toy_drawn by (auto simp: distinct_map inj_on_def)
qed

lemma insert_codes_ok:
  "distinct (map (hashRecoveryCode sha) cs) \<Longrightarrow> set (map (hashRecoveryCode sha) cs) \<inter> set (map co_hash rows) = {} \<Longrightarrow>
     insert_codes sha orgId userId cs rows = Some (rows @ map (\<lambda>c. \<lparr>co_org = orgId, co_user = userId, co_hash = hashRecoveryCode sha c, co_used = None\<rparr>) cs)"
  by (induction cs arbitrary: rows) (auto simp: Let_def)

lemma toy_confirms:
  "confirm_check toy_factors 60000 ''o'' ''u'' ''f'' ''000000'' (no_factors\<lparr>fs_factors := [toy_row]\<rparr>) = Inr (Some 1)"
  "\<exists>codes. confirm toy_factors 60000 toy_draws ''o'' ''u'' ''f'' ''000000'' (no_factors\<lparr>fs_factors := [toy_row]\<rparr>)
     = (Inr (Some codes), no_factors\<lparr>fs_factors := [toy_held], fs_codes := toy_codes\<rparr>)"
proof -
  have key: "fd_key toy_factors = Some (replicate 32 (CHR ''k''))" by (simp add: toy_factors_def)
  have "pending_row ''o'' ''u'' ''f'' (no_factors\<lparr>fs_factors := [toy_row]\<rparr>) = Some toy_row"
    by (simp add: pending_row_def of_person_def toy_row_def totp_row_def)
  moreover have "fr_lastStep toy_row = None" by (simp add: toy_row_def totp_row_def)
  ultimately show c: "confirm_check toy_factors 60000 ''o'' ''u'' ''f'' ''000000'' (no_factors\<lparr>fs_factors := [toy_row]\<rparr>) = Inr (Some 1)"
    by (simp add: confirm_check_def key check_row_def toy_opens toy_checks)
  let ?w = "no_factors\<lparr>fs_factors := [toy_held]\<rparr>" and ?codes = "map generateRecoveryCode (take RECOVERY_CODE_COUNT toy_draws)"
  have "distinct (map (hashRecoveryCode (fd_hash toy_factors)) ?codes)" using toy_distinct by (simp add: code_hashes_def o_def)
  then have "insert_codes (fd_hash toy_factors) ''o'' ''u'' ?codes [] = Some toy_codes"
    by (subst insert_codes_ok) (simp_all add: toy_codes_def minted_def code_hashes_def o_def)
  then have "mint_codes toy_factors toy_draws ''o'' ''u'' ?w = Some (?codes, ?w\<lparr>fs_codes := toy_codes\<rparr>)"
    by (simp add: mint_codes_def recoveryCodesLeft_def no_factors_def Let_def)
  moreover have "update_factor ''f'' (\<lambda>r. r\<lparr>fr_confirmed := Some 60000, fr_lastStep := Some 1, fr_lastUsed := Some 60000, fr_failed := 0\<rparr>) (no_factors\<lparr>fs_factors := [toy_row]\<rparr>) = ?w"
    by (simp add: update_factor_def toy_held_def toy_row_def totp_row_def)
  ultimately show "\<exists>codes. confirm toy_factors 60000 toy_draws ''o'' ''u'' ''f'' ''000000'' (no_factors\<lparr>fs_factors := [toy_row]\<rparr>)
     = (Inr (Some codes), no_factors\<lparr>fs_factors := [toy_held], fs_codes := toy_codes\<rparr>)"
    by (simp add: confirm_def c Let_def)
qed

lemma toy_totp: "totp_rows ''o'' ''u'' (no_factors\<lparr>fs_factors := [toy_held], fs_codes := toy_codes\<rparr>) = [toy_held]" "\<not> row_locked 90000 toy_held"
  by (simp_all add: totp_rows_def held_def of_person_def toy_held_def toy_row_def totp_row_def row_locked_def)

lemma toy_refuses:
  "verify toy_factors 90000 ''o'' ''u'' ''111111'' (no_factors\<lparr>fs_factors := [toy_held], fs_codes := toy_codes\<rparr>)
     = (Inr False, no_factors\<lparr>fs_factors := [toy_held\<lparr>fr_failed := 1\<rparr>], fs_codes := toy_codes\<rparr>)"
proof -
  let ?w = "no_factors\<lparr>fs_factors := [toy_held], fs_codes := toy_codes\<rparr>"
  have key: "fd_key toy_factors = Some (replicate 32 (CHR ''k''))" by (simp add: toy_factors_def)
  have "hashRecoveryCode (fd_hash toy_factors) ''111111'' = ''111111''"
    by (simp add: hashRecoveryCode_def toy_factors_def normalizeRecoveryCode_def js_space_def to_upper_def)
  moreover have "base32Encode b \<noteq> ''111111''" for b
  proof
    assume "base32Encode b = ''111111''"
    then have "CHR ''1'' \<in> set BASE32" using base32_chars [of "CHR ''1''" b] by (metis list.set_intros(1))
    then show False by (simp add: BASE32_def)
  qed
  ultimately have "\<not> spends toy_factors ''o'' ''u'' ''111111'' ?w"
    by (auto simp: spends_def spendable_def toy_codes_def minted_def toy_drawn)
  moreover have "check_row toy_factors (replicate 32 (CHR ''k'')) 90000 ''111111'' toy_held = Inr None"
  proof -
    have "fr_lastStep toy_held = Some 1" by (simp add: toy_held_def)
    then show ?thesis by (simp add: check_row_def toy_opens toy_checks)
  qed
  then have "check_rows toy_factors (replicate 32 (CHR ''k'')) 90000 ''111111'' [toy_held] = Inr None" by (simp add: toy_totp)
  moreover have "count_failures 90000 [toy_held] ?w = no_factors\<lparr>fs_factors := [toy_held\<lparr>fr_failed := 1\<rparr>], fs_codes := toy_codes\<rparr>"
    by (simp add: toy_totp update_factor_def failed_row_def MAX_FAILURES_def) (simp add: toy_held_def toy_row_def totp_row_def)
  ultimately show ?thesis by (simp add: verify_def key toy_totp del: check_rows.simps count_failures.simps)
qed

definition toy_trace :: "int \<Rightarrow> (string \<Rightarrow> int list) \<Rightarrow> FactorTrace" where
  "toy_trace now guesses = \<lparr>ft_clock = now, ft_ids = [''f''], ft_hashes = code_hashes toy_factors toy_draws, ft_accepted = [(''f'', 1)], ft_spent = [], ft_passed = [], ft_guesses = guesses\<rparr>"

lemma toy_reaches: "start \<le> 60000 \<Longrightarrow> (factor_step toy_factors)\<^sup>*\<^sup>* (no_factors, no_factor_trace\<lparr>ft_clock := start\<rparr>)
    (no_factors\<lparr>fs_factors := [toy_held\<lparr>fr_failed := 1\<rparr>], fs_codes := toy_codes\<rparr>, toy_trace 90000 (\<lambda>i. if i = ''f'' then [90000] else []))"
proof -
  assume start: "start \<le> 60000"
  let ?w1 = "no_factors\<lparr>fs_factors := [toy_row]\<rparr>" and ?tr1 = "no_factor_trace\<lparr>ft_clock := 60000, ft_ids := [''f'']\<rparr>"
  let ?w2 = "no_factors\<lparr>fs_factors := [toy_held], fs_codes := toy_codes\<rparr>" and ?tr2 = "toy_trace 60000 (\<lambda>_. [])"
  let ?w3 = "no_factors\<lparr>fs_factors := [toy_held\<lparr>fr_failed := 1\<rparr>], fs_codes := toy_codes\<rparr>" and ?tr3 = "toy_trace 90000 (\<lambda>i. if i = ''f'' then [90000] else [])"
  let ?tr0 = "no_factor_trace\<lparr>ft_clock := start\<rparr>"
  have "factor_step toy_factors (no_factors, ?tr0) (?w1, ?tr0\<lparr>ft_clock := 60000, ft_ids := ''f'' # ft_ids ?tr0\<rparr>)"
    by (rule factor_step.begun [where bytes = "[]" and nonce = "[]" and orgId = "''o''" and userId = "''u''" and label = "''phone''"])
       (use toy_begins start in \<open>auto simp: no_factor_trace_def prod_eq_iff\<close>)
  then have s1: "factor_step toy_factors (no_factors, ?tr0) (?w1, ?tr1)" by (simp add: no_factor_trace_def)
  obtain codes where c: "confirm toy_factors 60000 toy_draws ''o'' ''u'' ''f'' ''000000'' ?w1 = (Inr (Some codes), ?w2)" using toy_confirms(2) by blast
  have "fresh_draws toy_factors toy_draws ?tr1" using toy_distinct by (simp add: fresh_draws_def no_factor_trace_def)
  from factor_step.confirmed [OF _ this toy_confirms(1) c]
  have s2: "factor_step toy_factors (?w1, ?tr1) (?w2, ?tr2)" by (simp add: note_accepted_def no_factor_trace_def toy_trace_def fun_upd_idem)
  have "evaluated 90000 (totp_rows ''o'' ''u'' ?w2) = {''f''}"
    using toy_totp by (auto simp: evaluated_def toy_held_def toy_row_def totp_row_def)
  moreover have "fd_key toy_factors = Some (replicate 32 (CHR ''k''))" by (simp add: toy_factors_def)
  ultimately have s3: "factor_step toy_factors (?w2, ?tr2) (?w3, ?tr3)"
    using factor_step.refused [OF _ _ toy_refuses, of ?tr2] by (simp add: note_refused_def toy_trace_def cong: if_cong)
  from s1 s2 s3 show ?thesis by (meson rtranclp.rtrancl_refl rtranclp.rtrancl_into_rtrancl)
qed

lemma toy_run: "factor_run toy_factors (no_factors\<lparr>fs_factors := [toy_held\<lparr>fr_failed := 1\<rparr>], fs_codes := toy_codes\<rparr>) (toy_trace 90000 (\<lambda>i. if i = ''f'' then [90000] else []))"
  using toy_reaches [of 0] by (simp add: factor_run_def no_factor_trace_def)

theorem codes_used_once_witness:
  "\<exists>w. factor_run toy_factors w (toy_trace 90000 (\<lambda>i. if i = ''f'' then [90000] else []))
     \<and> distinct (ft_accepted (toy_trace 90000 (\<lambda>i. if i = ''f'' then [90000] else [])))"
  using toy_run codes_used_once [OF toy_run] by blast

theorem guesses_bounded_witness:
  "\<exists>w tr. (factor_step toy_factors)\<^sup>*\<^sup>* (no_factors, no_factor_trace\<lparr>ft_clock := 60000\<rparr>) (w, tr) \<and> ft_guesses tr ''f'' = [90000]
     \<and> int (length [90000 :: int] - MAX_FAILURES) * LOCK_MS \<le> 90000 - List.last [90000]
     \<and> fst (verify toy_factors 90000 ''o'' ''u'' ''000000'' w) \<noteq> Inl ()"
proof -
  let ?tr = "toy_trace 90000 (\<lambda>i. if i = ''f'' then [90000] else [])"
  let ?r = "toy_held\<lparr>fr_failed := 1\<rparr>"
  let ?w = "no_factors\<lparr>fs_factors := [?r], fs_codes := toy_codes\<rparr>"
  have "gcm_ok toy_factors" by (auto simp: gcm_ok_def toy_factors_def)
  moreover have reach: "(factor_step toy_factors)\<^sup>*\<^sup>* (no_factors, no_factor_trace\<lparr>ft_clock := 60000\<rparr>) (?w, ?tr)" by (rule toy_reaches) simp
  moreover have "?r \<in> set (fs_factors ?w)" "fr_confirmed ?r \<noteq> None" "ft_guesses ?tr (fr_id ?r) = [90000]" "ft_clock ?tr \<le> 90000"
    by (simp_all add: toy_trace_def toy_held_def toy_row_def totp_row_def)
  ultimately have "int (length [90000 :: int] - MAX_FAILURES) * LOCK_MS \<le> 90000 - List.last [90000]
     \<and> fst (verify toy_factors 90000 ''o'' ''u'' ''000000'' ?w) \<noteq> Inl ()"
    using guesses_bounded [of toy_factors 60000 ?w ?tr ?r 90000 "[]" 90000 "''o''" "''u''" "''000000''"] by simp
  moreover have "ft_guesses ?tr ''f'' = [90000]" by (simp add: toy_trace_def)
  ultimately show ?thesis using reach by blast
qed

definition toy_key_row :: FactorRow where
  "toy_key_row = \<lparr>fr_id = ''k'', fr_org = ''o'', fr_user = ''u'', fr_kind = WebAuthn, fr_label = ''key'', fr_secret = None, fr_credential = Some ''c'',
     fr_key = Some \<lparr>pk_alg = -7, pk_jwk = []\<rparr>, fr_signCount = Some 0, fr_confirmed = Some 0, fr_lastStep = None, fr_failed = 0, fr_locked = None,
     fr_created = 0, fr_lastUsed = None\<rparr>"

definition toy_keyed :: Factors where
  "toy_keyed = \<lparr>fs_factors = [toy_key_row], fs_codes = [],
     fs_challenges = [\<lparr>cg_org = ''o'', cg_user = ''u'', cg_purpose = Authenticate, cg_challenge = ''x'', cg_expires = 300, cg_used = None\<rparr>]\<rparr>"

definition toy_response :: AssertionResponse where
  "toy_response = \<lparr>ar_credentialId = ''c'', ar_authenticatorData = replicate 32 (CHR 0x00) @ [CHR 0x01, CHR 0x00, CHR 0x00, CHR 0x00, CHR 0x01],
     ar_clientDataJSON = ''x'', ar_signature = [], ar_challenge = ''x''\<rparr>"

lemma toy_signs: "fst (verifyWebAuthnAssertion toy_factors 0 ''o'' ''u'' toy_response toy_keyed)"
proof -
  have "verifyAssertion toy_crypto (ar_authenticatorData toy_response) ''x'' [] ''x'' ''nacre.work'' [''https://nacre.work''] k 0 \<noteq> None" for k
    by (simp add: verifyAssertion_def readClientData_def toy_crypto_def json_field_def parseAuthenticatorData_def toy_response_def flags_of_def nth_append)
  then show ?thesis
    by (auto simp: verifyWebAuthnAssertion_def kinds_def toy_factors_def spendChallenge_def toy_keyed_def outstanding_def credential_row_def held_def of_person_def
        toy_key_row_def row_assertion_def toy_response_def split: option.splits)
qed

theorem webauthn_sign_in_witness:
  "\<exists>w' r key. verifyWebAuthnAssertion toy_factors 0 ''o'' ''u'' toy_response toy_keyed = (True, w')
     \<and> assertion_earned toy_factors 0 ''o'' ''u'' toy_response toy_keyed r key
     \<and> fst (verifyWebAuthnAssertion toy_factors 1 ''o'' ''u'' toy_response w') = False"
proof -
  obtain w' where w': "verifyWebAuthnAssertion toy_factors 0 ''o'' ''u'' toy_response toy_keyed = (True, w')"
    using toy_signs by (metis (full_types) prod.collapse)
  then show ?thesis using webauthn_sign_in [OF w', of 1] by auto
qed

end
