(* ===== verification/Account_Lists.thy ===== *)
theory Account_Lists
  imports Accounts
begin

text \<open>
  The listings of \<open>principals.ts\<close> keep the contract of \<open>Pagination\<close>: \<open>users_list\<close>, \<open>groups_list\<close> and \<open>members_list\<close>
  interpret \<open>paged_listing\<close>, so that following their cursors ends and shows every row once.
\<close>

record AccountArgs =
  aa_casts :: Casts
  aa_accounts :: Accounts
  aa_auth :: AuthContext
  aa_limit :: nat

text \<open>A listing of all its rows, through \<open>plain_list\<close>.\<close>

lemma plain_page:
  assumes "0 < n" and "aft = None \<or> cast_position casts (the aft) \<noteq> None"
    and "rest = seek (\<lambda>r. (stamp r, ident r)) (Option.bind aft (cast_position casts)) (sort_key (\<lambda>r. (stamp r, ident r)) rows)"
  shows "\<exists>m result. plain_list casts (Some \<lparr>pg_limit = n, pg_after = aft\<rparr>) stamp ident item rows = Inr result
    \<and> pr_items result = map item (filter (\<lambda>r. True) (take m rest))
    \<and> (pr_nextCursor result = None \<and> length rest \<le> m \<or>
       0 < m \<and> m \<le> length rest \<and> pr_nextCursor result =
         Some (encodeCursor \<lparr>ps_createdAt = ca_ts_text casts (stamp (rest ! (m - 1))), ps_id = ident (rest ! (m - 1))\<rparr>))"
proof -
  have "plain_list casts (Some \<lparr>pg_limit = n, pg_after = aft\<rparr>) stamp ident item rows =
      Inr (pageOf (map item (take n rest)) (Some \<lparr>pg_limit = n, pg_after = aft\<rparr>)
        (\<lambda>i k. \<lparr>ps_createdAt = ca_ts_text casts (stamp (take n rest ! k)), ps_id = ident (take n rest ! k)\<rparr>))"
    using bound_cast [OF assms(2), of n] by (simp add: plain_list_def capped_def Let_def assms(3))
  then show ?thesis
    using pageOf_contract [where n = n and rest = rest and item = item and after = aft
        and pos = "\<lambda>r. \<lparr>ps_createdAt = ca_ts_text casts (stamp r), ps_id = ident r\<rparr>"
        and positionOf = "\<lambda>i k. \<lparr>ps_createdAt = ca_ts_text casts (stamp (take n rest ! k)), ps_id = ident (take n rest ! k)\<rparr>", OF assms(1) _ refl]
    by auto
qed

definition args_ok :: "AccountArgs \<Rightarrow> bool" where
  "args_ok s \<longleftrightarrow> casts_ok (aa_casts s) \<and> 0 < aa_limit s \<and> accounts_ok (aa_accounts s)
     \<and> list_all (\<lambda>u. canonical (aa_casts s) (us_id u)) (ac_users (aa_accounts s))
     \<and> list_all (\<lambda>g. canonical (aa_casts s) (gp_id g)) (ac_groups (aa_accounts s))"

definition account_page :: "AccountArgs \<Rightarrow> Position option \<Rightarrow> Page option" where
  "account_page s aft = Some \<lparr>pg_limit = aa_limit s, pg_after = aft\<rparr>"

subsection \<open>People\<close>

definition user_rows :: "AccountArgs \<Rightarrow> PersonRow list" where
  "user_rows s = sort_key (\<lambda>u. (us_created u, us_id u)) (filter (\<lambda>u. us_org u = au_orgId (aa_auth s)) (ac_users (aa_accounts s)))"

interpretation user_pages: paged_listing args_ok aa_casts user_rows us_created us_id "\<lambda>s u. True" "\<lambda>s. user_view"
  "\<lambda>s aft. users_list (aa_casts s) (aa_accounts s) (aa_auth s) (account_page s aft)"
proof
  fix s assume ok: "args_ok s"
  show "casts_ok (aa_casts s)" using ok by (simp add: args_ok_def)
  show "ordered_by (\<lambda>u. (us_created u, us_id u)) (user_rows s)"
    unfolding user_rows_def by (rule ordered_rows) (use ok in \<open>simp add: args_ok_def accounts_ok_def people_ok_def distinct_map_filter\<close>)
  fix u assume "u \<in> set (user_rows s)"
  then show "canonical (aa_casts s) (us_id u)" using ok by (simp add: args_ok_def user_rows_def list_all_iff)
next
  fix s aft rest
  assume "args_ok s" "aft = None \<or> cast_position (aa_casts s) (the aft) \<noteq> None"
    "rest = seek (\<lambda>u. (us_created u, us_id u)) (Option.bind aft (cast_position (aa_casts s))) (user_rows s)"
  then show "\<exists>m result. users_list (aa_casts s) (aa_accounts s) (aa_auth s) (account_page s aft) = Inr result
      \<and> pr_items result = map user_view (filter (\<lambda>u. True) (take m rest))
      \<and> (pr_nextCursor result = None \<and> length rest \<le> m \<or>
         0 < m \<and> m \<le> length rest \<and> pr_nextCursor result =
           Some (encodeCursor \<lparr>ps_createdAt = ca_ts_text (aa_casts s) (us_created (rest ! (m - 1))), ps_id = us_id (rest ! (m - 1))\<rparr>))"
    unfolding users_list_def account_page_def by (intro plain_page) (simp_all add: args_ok_def user_rows_def)
qed

subsection \<open>Groups\<close>

definition group_rows :: "AccountArgs \<Rightarrow> GroupRow list" where
  "group_rows s = sort_key (\<lambda>g. (gp_created g, gp_id g)) (filter (\<lambda>g. gp_org g = au_orgId (aa_auth s)) (ac_groups (aa_accounts s)))"

interpretation group_pages: paged_listing args_ok aa_casts group_rows gp_created gp_id "\<lambda>s g. True" "\<lambda>s. group_view (aa_accounts s)"
  "\<lambda>s aft. groups_list (aa_casts s) (aa_accounts s) (aa_auth s) (account_page s aft)"
proof
  fix s assume ok: "args_ok s"
  show "casts_ok (aa_casts s)" using ok by (simp add: args_ok_def)
  show "ordered_by (\<lambda>g. (gp_created g, gp_id g)) (group_rows s)"
    unfolding group_rows_def by (rule ordered_rows) (use ok in \<open>simp add: args_ok_def accounts_ok_def groups_ok_def distinct_map_filter\<close>)
  fix g assume "g \<in> set (group_rows s)"
  then show "canonical (aa_casts s) (gp_id g)" using ok by (simp add: args_ok_def group_rows_def list_all_iff)
next
  fix s aft rest
  assume "args_ok s" "aft = None \<or> cast_position (aa_casts s) (the aft) \<noteq> None"
    "rest = seek (\<lambda>g. (gp_created g, gp_id g)) (Option.bind aft (cast_position (aa_casts s))) (group_rows s)"
  then show "\<exists>m result. groups_list (aa_casts s) (aa_accounts s) (aa_auth s) (account_page s aft) = Inr result
      \<and> pr_items result = map (group_view (aa_accounts s)) (filter (\<lambda>g. True) (take m rest))
      \<and> (pr_nextCursor result = None \<and> length rest \<le> m \<or>
         0 < m \<and> m \<le> length rest \<and> pr_nextCursor result =
           Some (encodeCursor \<lparr>ps_createdAt = ca_ts_text (aa_casts s) (gp_created (rest ! (m - 1))), ps_id = gp_id (rest ! (m - 1))\<rparr>))"
    unfolding groups_list_def account_page_def by (intro plain_page) (simp_all add: args_ok_def group_rows_def)
qed

text \<open>Following the cursors of the people and of the groups ends, and shows each row of the organization once, in order.\<close>

theorem directory_walk:
  assumes "args_ok s"
  shows "walk (Suc (length (user_rows s))) (with_cursor (ca_date_ok (aa_casts s)) Uuid
      (\<lambda>aft. users_list (aa_casts s) (aa_accounts s) (aa_auth s) (account_page s aft))) None = Some (map user_view (user_rows s))
    \<and> walk (Suc (length (group_rows s))) (with_cursor (ca_date_ok (aa_casts s)) Uuid
      (\<lambda>aft. groups_list (aa_casts s) (aa_accounts s) (aa_auth s) (account_page s aft))) None = Some (map (group_view (aa_accounts s)) (group_rows s))"
  using user_pages.walk_all [OF assms] group_pages.walk_all [OF assms] by simp

end
