(* ===== verification/Search.thy ===== *)
theory Search
  imports Store Vector_Filter "HOL-Library.Option_ord"
begin

text \<open>
  The search path: \<open>VectorStore.search\<close> and \<open>assertTenant\<close> of \<open>packages/core/vector/search.ts\<close>,
  \<open>NacreSearchService\<close> of \<open>packages/api/src/adapters.ts\<close> from the token to the hydrated results, and
  the ranking of \<open>packages/api/src/rerank.ts\<close>. The vector client, the embedders, the reranker and
  the URL parser are fields of \<open>SearchDeps\<close>; what the index is relied on for is stated by
  \<open>client_sound\<close> and \<open>index_synced\<close>. The code reads the database in several transactions of one
  request (the collection, the permission context, the layers and their models, the chunks); \<open>search\<close> reads one state of it, so
  a change committed between two of them is outside the model.
\<close>

subsection \<open>The rows a search reads\<close>

record ProviderRow =
  pv_id :: string
  pv_org :: "string option"
  pv_endpoint :: string
  pv_model :: string
  pv_dimensions :: nat

record ChunkRow =
  ck_point :: string
  ck_org :: string
  ck_document :: string
  ck_text :: jstext

text \<open>\<open>sd_collection\<close> is \<open>vector_collection\<close> of the organizations that are not deleted.\<close>

record SearchDb =
  sd_db :: Db
  sd_providers :: "ProviderRow list"
  sd_chunks :: "ChunkRow list"
  sd_collection :: "string \<rightharpoonup> string"

record Hit =
  ht_id :: string
  ht_score :: rat
  ht_payload :: payload

record SearchHit =
  sh_chunk_id :: string
  sh_doc_id :: string
  sh_layer :: string
  sh_title :: "string option"
  sh_score :: rat
  sh_text :: jstext

record EmbeddingProvider =
  ep_id :: string
  ep_endpoint :: string
  ep_model :: string
  ep_dimensions :: nat
  ep_operatorOrigins :: "string list"

record ModelGroup =
  mg_vectorName :: string
  mg_provider :: EmbeddingProvider
  mg_layerIds :: "string list"

record SearchOptions =
  so_layers :: "string list option"
  so_filters :: "(string \<times> MetadataValue) list option"
  so_rerank :: "bool option"
  so_includeContent :: "bool option"

datatype SearchError =
    Filter_refused FilterError | Query_refused QueryError | Client_rejected string
  | Tenant_mismatch string | Vector_name_mismatch string | No_query_vector string | Embedder_failed string

text \<open>A reranker's score is a number or \<open>-Infinity\<close>, which is \<open>None\<close>.\<close>

type_synonym score = "rat option"

record SearchDeps =
  de_query :: "string \<Rightarrow> HybridQuery \<Rightarrow> string + Hit list"
  de_embed :: "EmbeddingProvider \<Rightarrow> jstext \<Rightarrow> string + rat list list"
  de_reranker :: "(jstext \<Rightarrow> jstext list \<Rightarrow> string + score list) option"
  de_rerankCandidates :: "nat option"
  de_unicode :: Unicode
  de_endpointOrigin :: "string \<Rightarrow> string option"
  de_String :: "jsval \<Rightarrow> string"

subsection \<open>VectorStore\<close>

record SearchRequest =
  rq_orgId :: string
  rq_collection :: string
  rq_plan :: AccessPlan
  rq_branches :: "Branch list"
  rq_topK :: nat
  rq_narrow :: "Narrowing option"

definition VectorStore_search :: "(string \<Rightarrow> HybridQuery \<Rightarrow> string + Hit list) \<Rightarrow> SearchRequest \<Rightarrow> SearchError + Hit list" where
  "VectorStore_search client request =
     (case buildFilter (rq_orgId request) (rq_plan request) (rq_narrow request) of
        Inl e \<Rightarrow> Inl (Filter_refused e)
      | Inr f \<Rightarrow>
          (case buildHybridQuery \<lparr>ho_branches = rq_branches request, ho_filter = f, ho_prefetchLimit = None,
                  ho_limit = rq_topK request, ho_withPayload = None\<rparr> of
             Inl e \<Rightarrow> Inl (Query_refused e)
           | Inr q \<Rightarrow> (case client (rq_collection request) q of
                         Inl e \<Rightarrow> Inl (Client_rejected e)
                       | Inr points \<Rightarrow> Inr points)))"

definition assertTenant :: "string \<Rightarrow> Hit list \<Rightarrow> SearchError + Hit list" where
  "assertTenant orgId found =
     (case find (\<lambda>h. map_of (ht_payload h) ''org_id'' \<noteq> Some (JStr orgId)) found of
        Some hit \<Rightarrow> Inl (Tenant_mismatch (ht_id hit))
      | None \<Rightarrow> Inr found)"

subsection \<open>rerank.ts\<close>

text \<open>\<open>sort((a, b) => b.score - a.score)\<close> is stable and descending: an ascending stable sort read backwards.\<close>

definition applyRanking :: "'a list \<Rightarrow> score list \<Rightarrow> nat \<Rightarrow> string + 'a list" where
  "applyRanking items scores topK =
     (if length scores \<noteq> length items then Inl ''the reranker returned another number of scores''
      else Inr (map fst (take topK (rev (sort_key snd (rev (zip items scores)))))))"

datatype RankError = NoIndexAndScore | IndexOutOfRange rat | ScoredTooFew nat | NotAList

text \<open>
  The loop of \<open>HttpReranker.rank\<close> over the entries of the answer. \<open>scores[index] = score\<close> at an index that is not an
  integer sets no element of the array.
\<close>

fun rank_entries :: "nat \<Rightarrow> (jsval \<times> jsval) list \<Rightarrow> score list \<Rightarrow> nat \<Rightarrow> RankError + score list \<times> nat" where
  "rank_entries n [] scores seen = Inr (scores, seen)"
| "rank_entries n ((JNum index, JNum score) # es) scores seen =
     (if index < 0 \<or> index \<ge> of_nat n then Inl (IndexOutOfRange index)
      else rank_entries n es
        (if index = of_int (floor index) then scores[nat (floor index) := Some score] else scores) (seen + 1))"
| "rank_entries n (_ # es) scores seen = Inl NoIndexAndScore"

definition rank :: "nat \<Rightarrow> (jsval \<times> jsval) list option \<Rightarrow> RankError + score list" where
  "rank n body =
     (if n = 0 then Inr []
      else case body of
             None \<Rightarrow> Inl NotAList
           | Some es \<Rightarrow>
               (case rank_entries n es (replicate n None) 0 of
                  Inl e \<Rightarrow> Inl e
                | Inr (scores, seen) \<Rightarrow> if seen \<noteq> n then Inl (ScoredTooFew seen) else Inr scores))"

subsection \<open>NacreSearchService\<close>

text \<open>The layers of the organization with the provider each is on: the join of the second query.\<close>

definition provider_of :: "SearchDeps \<Rightarrow> SearchDb \<Rightarrow> ProviderRow \<Rightarrow> EmbeddingProvider" where
  "provider_of deps sdb p =
     \<lparr>ep_id = pv_id p, ep_endpoint = pv_endpoint p, ep_model = pv_model p, ep_dimensions = pv_dimensions p,
      ep_operatorOrigins = List.map_filter (de_endpointOrigin deps)
        (map pv_endpoint (filter (\<lambda>g. pv_org g = None) (sd_providers sdb)))\<rparr>"

definition layers_with_models :: "SearchDeps \<Rightarrow> SearchDb \<Rightarrow> string \<Rightarrow> (LayerRow \<times> EmbeddingProvider) list" where
  "layers_with_models deps sdb orgId =
     concat (map (\<lambda>l. map (\<lambda>p. (l, provider_of deps sdb p)) (filter (\<lambda>p. pv_id p = ly_provider l) (sd_providers sdb)))
       (live_layers (sd_db sdb) orgId))"

definition layer_reachable :: "AccessPlan \<Rightarrow> Narrowing option \<Rightarrow> LayerRow \<Rightarrow> bool" where
  "layer_reachable plan narrow l =
     (if (case narrow_layers narrow of None \<Rightarrow> False | Some ls \<Rightarrow> ly_id l \<notin> set ls) then False
      else case plan of
             PlanAll \<Rightarrow> True
           | PlanScoped layers extraDocs _ \<Rightarrow> if extraDocs \<noteq> [] then True else ly_id l \<in> set layers
           | PlanNone \<Rightarrow> False)"

text \<open>The \<open>Map\<close> from vector name to its group, in insertion order; the first layer's provider stays.\<close>

fun group_layers :: "(LayerRow \<times> EmbeddingProvider) list \<Rightarrow> (string \<times> (EmbeddingProvider \<times> string list)) list
    \<Rightarrow> SearchError + (string \<times> (EmbeddingProvider \<times> string list)) list" where
  "group_layers [] byVector = Inr byVector"
| "group_layers ((layer, prov) # ls) byVector =
     (if vectorName (ep_model prov) (ep_dimensions prov) \<noteq> ly_vector_name layer
      then Inl (Vector_name_mismatch (ly_id layer))
      else let (p, ids) = (case map_of byVector (ly_vector_name layer) of None \<Rightarrow> (prov, []) | Some g \<Rightarrow> g)
           in group_layers ls (AList.update (ly_vector_name layer) (p, ids @ [ly_id layer]) byVector))"

definition groupsInScope :: "(LayerRow \<times> EmbeddingProvider) list \<Rightarrow> AccessPlan \<Rightarrow> Narrowing option \<Rightarrow> SearchError + ModelGroup list" where
  "groupsInScope layers plan narrow =
     map_sum id (map (\<lambda>(v, p, ids). \<lparr>mg_vectorName = v, mg_provider = p, mg_layerIds = ids\<rparr>))
       (group_layers (filter (\<lambda>(l, _). layer_reachable plan narrow l) layers) [])"

text \<open>\<open>trim().toLowerCase()\<close> on the characters of a \<open>string\<close>, the code points below 256.\<close>

definition lower_latin :: "char \<Rightarrow> char" where
  "lower_latin c = (let n = (of_char c :: nat)
     in if 65 \<le> n \<and> n \<le> 90 \<or> 192 \<le> n \<and> n \<le> 222 \<and> n \<noteq> 215 then char_of (n + 32) else c)"

definition space_char :: "char \<Rightarrow> bool" where
  "space_char c = (let n = (of_char c :: nat) in 9 \<le> n \<and> n \<le> 13 \<or> n = 32 \<or> n = 160)"

definition trim_string :: "string \<Rightarrow> string" where
  "trim_string s = rev (dropWhile space_char (rev (dropWhile space_char s)))"

definition wanted_slugs :: "string list \<Rightarrow> string list" where
  "wanted_slugs slugs = take 64 (set_of (filter (\<lambda>s. s \<noteq> []) (map (map lower_latin \<circ> trim_string) slugs)))"

definition layerIds :: "SearchDb \<Rightarrow> string \<Rightarrow> string list \<Rightarrow> string list" where
  "layerIds sdb orgId slugs =
     (let wanted = wanted_slugs slugs
      in if wanted = [] then []
         else map ly_id (filter (\<lambda>l. ly_org l = orgId \<and> ly_slug l \<in> set wanted) (db_layers (sd_db sdb))))"

text \<open>
  The restriction a request carries: the caller's filters and layers, then the delegation's own
  narrowing. \<open>None\<close> is the early return of an empty result.
\<close>

definition with_layers :: "Narrowing option \<Rightarrow> string list \<Rightarrow> Narrowing option" where
  "with_layers narrow ls =
     Some \<lparr>nw_layers = Some ls, nw_metadata = Option.bind narrow nw_metadata\<rparr>"

definition filter_narrowing :: "SearchOptions \<Rightarrow> Narrowing option" where
  "filter_narrowing options =
     (case so_filters options of
        Some es \<Rightarrow> if es \<noteq> [] then Some \<lparr>nw_layers = None, nw_metadata = Some es\<rparr> else None
      | None \<Rightarrow> None)"

definition caller_narrowing :: "SearchDb \<Rightarrow> AuthContext \<Rightarrow> AccessPlan \<Rightarrow> SearchOptions \<Rightarrow> Narrowing option option" where
  "caller_narrowing sdb auth plan options =
     (let narrow = filter_narrowing options
      in case so_layers options of
           Some slugs \<Rightarrow>
             if slugs \<noteq> []
             then let resolved = layerIds sdb (au_orgId auth) slugs;
                      permitted = (case plan of
                          PlanScoped layers [] _ \<Rightarrow> filter (\<lambda>i. i \<in> set layers) resolved
                        | _ \<Rightarrow> resolved)
                  in if permitted = [] then None else Some (with_layers narrow permitted)
             else Some narrow
         | None \<Rightarrow> Some narrow)"

definition delegated_narrowing :: "AuthContext \<Rightarrow> Narrowing option \<Rightarrow> Narrowing option option" where
  "delegated_narrowing auth narrow =
     (case delegatedLayers auth Read of
        None \<Rightarrow> Some narrow
      | Some delegated \<Rightarrow>
          (let both = (case narrow_layers narrow of None \<Rightarrow> delegated | Some ls \<Rightarrow> filter (\<lambda>i. i \<in> set delegated) ls)
           in if both = [] then None else Some (with_layers narrow both)))"

text \<open>One dense branch per model; the first failure of an embedder is the error.\<close>

fun dense_branches :: "SearchDeps \<Rightarrow> jstext \<Rightarrow> bool \<Rightarrow> ModelGroup list \<Rightarrow> SearchError + Branch list" where
  "dense_branches deps query several [] = Inr []"
| "dense_branches deps query several (g # gs) =
     (case de_embed deps (mg_provider g) query of
        Inl e \<Rightarrow> Inl (Embedder_failed e)
      | Inr [] \<Rightarrow> Inl (No_query_vector (ep_model (mg_provider g)))
      | Inr (vector # _) \<Rightarrow>
          map_sum id ((#) (DenseBranch (if several then Some (mg_layerIds g) else None) (mg_vectorName g) vector))
            (dense_branches deps query several gs))"

definition with_lexical :: "SearchDeps \<Rightarrow> jstext \<Rightarrow> Branch list \<Rightarrow> Branch list" where
  "with_lexical deps query branches =
     (let lexical = encodeQuery (de_unicode deps) query
      in if isEmpty lexical then branches else branches @ [SparseBranch None SPARSE_VECTOR_NAME lexical])"

text \<open>\<open>String(hit.payload.chunk_id ?? hit.id)\<close>.\<close>

definition hit_chunk :: "SearchDeps \<Rightarrow> Hit \<Rightarrow> string" where
  "hit_chunk deps hit =
     (case map_of (ht_payload hit) ''chunk_id'' of
        Some (JStr s) \<Rightarrow> s
      | Some JNull \<Rightarrow> ht_id hit
      | Some JUndefined \<Rightarrow> ht_id hit
      | None \<Rightarrow> ht_id hit
      | Some v \<Rightarrow> de_String deps v)"

text \<open>\<open>HYDRATE_SQL\<close>: the chunks named, joined to their live document and its live layer.\<close>

definition hydrate_rows :: "SearchDb \<Rightarrow> string \<Rightarrow> string list \<Rightarrow> (string \<times> (ChunkRow \<times> DocumentRow \<times> LayerRow)) list" where
  "hydrate_rows sdb orgId chunkIds =
     concat (map (\<lambda>c. concat (map (\<lambda>d. map (\<lambda>l. (ck_point c, c, d, l))
         (filter (\<lambda>l. ly_id l = dc_layer d \<and> ly_org l = dc_org d \<and> \<not> ly_deleted l) (db_layers (sd_db sdb))))
       (filter (\<lambda>d. dc_id d = ck_document c \<and> dc_org d = orgId \<and> \<not> dc_deleted d) (db_documents (sd_db sdb)))))
     (filter (\<lambda>c. ck_org c = orgId \<and> ck_point c \<in> set chunkIds) (sd_chunks sdb)))"

definition hydrate :: "SearchDeps \<Rightarrow> SearchDb \<Rightarrow> string \<Rightarrow> Hit list \<Rightarrow> SearchHit list" where
  "hydrate deps sdb orgId found =
     (let byId = map_from (hydrate_rows sdb orgId (map (hit_chunk deps) found))
      in List.map_filter (\<lambda>hit. case map_of byId (hit_chunk deps hit) of
           None \<Rightarrow> None
         | Some (c, d, l) \<Rightarrow>
             Some \<lparr>sh_chunk_id = ck_point c, sh_doc_id = ck_document c, sh_layer = ly_slug l,
                    sh_title = dc_title d, sh_score = ht_score hit, sh_text = ck_text c\<rparr>) found)"

definition rerank :: "SearchDeps \<Rightarrow> jstext \<Rightarrow> SearchHit list \<Rightarrow> nat \<Rightarrow> SearchHit list" where
  "rerank deps query candidates topK =
     (case de_reranker deps of
        None \<Rightarrow> take topK candidates
      | Some reranker \<Rightarrow>
          (case reranker query (map sh_text candidates) of
             Inl _ \<Rightarrow> take topK candidates
           | Inr scores \<Rightarrow>
               (case applyRanking candidates scores topK of Inl _ \<Rightarrow> take topK candidates | Inr ranked \<Rightarrow> ranked)))"

definition reranking :: "SearchDeps \<Rightarrow> SearchOptions \<Rightarrow> bool" where
  "reranking deps options \<longleftrightarrow> de_reranker deps \<noteq> None \<and> so_rerank options \<noteq> Some False"

definition wanted_hits :: "SearchDeps \<Rightarrow> SearchOptions \<Rightarrow> nat \<Rightarrow> nat" where
  "wanted_hits deps options topK =
     (if reranking deps options
      then max topK (case de_rerankCandidates deps of None \<Rightarrow> 50 | Some n \<Rightarrow> n) else topK)"

text \<open>From the plan to the hits: everything between the permission context and the hydration.\<close>

definition search_plan :: "SearchDeps \<Rightarrow> SearchDb \<Rightarrow> AuthContext \<Rightarrow> string \<Rightarrow> AccessPlan \<Rightarrow> jstext \<Rightarrow> nat \<Rightarrow> SearchOptions
    \<Rightarrow> SearchError + SearchHit list" where
  "search_plan deps sdb auth collection plan query topK options =
     (if plan = PlanNone then Inr []
      else case caller_narrowing sdb auth plan options of
        None \<Rightarrow> Inr []
      | Some asked \<Rightarrow>
      (case delegated_narrowing auth asked of
        None \<Rightarrow> Inr []
      | Some narrow \<Rightarrow>
      (case groupsInScope (layers_with_models deps sdb (au_orgId auth)) plan narrow of
        Inl e \<Rightarrow> Inl e
      | Inr groups \<Rightarrow>
          if groups = [] then Inr []
          else (case dense_branches deps query (length groups > 1) groups of
            Inl e \<Rightarrow> Inl e
          | Inr branches \<Rightarrow>
          (case VectorStore_search (de_query deps)
                  \<lparr>rq_orgId = au_orgId auth, rq_collection = collection, rq_plan = plan,
                   rq_branches = with_lexical deps query branches,
                   rq_topK = wanted_hits deps options topK, rq_narrow = narrow\<rparr> of
            Inl e \<Rightarrow> Inl e
          | Inr found \<Rightarrow>
          (case assertTenant (au_orgId auth) found of
            Inl e \<Rightarrow> Inl e
          | Inr checked \<Rightarrow>
              if checked = [] then Inr []
              else let candidates = hydrate deps sdb (au_orgId auth) checked;
                       ranked = (if reranking deps options then rerank deps query candidates topK else candidates)
                   in Inr (if so_includeContent options = Some False
                           then map (\<lambda>hit. hit\<lparr>sh_text := []\<rparr>) ranked else ranked)))))))"

definition search :: "SearchDeps \<Rightarrow> SearchDb \<Rightarrow> AuthContext \<Rightarrow> 'c PrincipalsCache option \<Rightarrow> 'c \<Rightarrow> jstext \<Rightarrow> nat \<Rightarrow> SearchOptions
    \<Rightarrow> (SearchError + SearchHit list) \<times> 'c" where
  "search deps sdb auth cache c query topK options =
     (case sd_collection sdb (au_orgId auth) of
        None \<Rightarrow> (Inr [], c)
      | Some collection \<Rightarrow>
          (let (ctx, c') = contextFor (sd_db sdb) auth cache c
           in (search_plan deps sdb auth collection (resolve ctx Read) query topK options, c')))"

subsection \<open>What the index is relied on for\<close>

text \<open>Fusion returns points some prefetch branch found, at most \<open>limit\<close> of them.\<close>

definition client_sound :: "(VectorFilter \<Rightarrow> payload \<Rightarrow> bool) \<Rightarrow> (string \<Rightarrow> HybridQuery \<Rightarrow> string + Hit list) \<Rightarrow> bool" where
  "client_sound passes client \<longleftrightarrow>
     (\<forall>collection q found. client collection q = Inr found \<longrightarrow>
        length found \<le> hq_limit q \<and>
        (\<forall>hit \<in> set found. \<exists>c \<in> set (hq_prefetch q). passes (pf_filter c) (ht_payload hit)))"

text \<open>
  A point the index returns for a chunk the database has carries that chunk's organization, its
  document and the layer the document is in.
\<close>

definition index_synced :: "SearchDeps \<Rightarrow> SearchDb \<Rightarrow> bool" where
  "index_synced deps sdb \<longleftrightarrow>
     (\<forall>collection q found. de_query deps collection q = Inr found \<longrightarrow>
        (\<forall>hit \<in> set found. \<forall>c \<in> set (sd_chunks sdb). \<forall>d \<in> set (db_documents (sd_db sdb)).
           ck_point c = hit_chunk deps hit \<longrightarrow> dc_id d = ck_document c \<longrightarrow>
           (\<exists>deleted. point_payload (ht_payload hit) (ck_org c) deleted (dc_id d) (dc_layer d))))"

lemma hydrate_in:
  assumes "r \<in> set (hydrate deps sdb orgId found)"
  obtains hit c d l where "hit \<in> set found" "c \<in> set (sd_chunks sdb)" "ck_org c = orgId" "ck_point c = hit_chunk deps hit"
    "d \<in> set (live_documents (sd_db sdb) orgId)" "dc_id d = ck_document c"
    "l \<in> set (db_layers (sd_db sdb))" "ly_id l = dc_layer d" "\<not> ly_deleted l"
    "r = \<lparr>sh_chunk_id = ck_point c, sh_doc_id = ck_document c, sh_layer = ly_slug l,
       sh_title = dc_title d, sh_score = ht_score hit, sh_text = ck_text c\<rparr>"
proof -
  let ?rows = "hydrate_rows sdb orgId (map (hit_chunk deps) found)"
  from assms obtain hit row where h: "hit \<in> set found" "map_of (map_from ?rows) (hit_chunk deps hit) = Some row"
    and r: "r = (case row of (c, d, l) \<Rightarrow> \<lparr>sh_chunk_id = ck_point c, sh_doc_id = ck_document c, sh_layer = ly_slug l,
       sh_title = dc_title d, sh_score = ht_score hit, sh_text = ck_text c\<rparr>)"
    by (auto simp: hydrate_def map_filter_def Let_def split: option.splits prod.splits)
  obtain c d l where row: "row = (c, d, l)" by (cases row) auto
  have "(hit_chunk deps hit, c, d, l) \<in> set ?rows"
    using map_of_SomeD [of "rev ?rows"] h(2) row by (simp add: map_of_map_from)
  then have "c \<in> set (sd_chunks sdb)" "ck_org c = orgId" "ck_point c = hit_chunk deps hit"
    "d \<in> set (live_documents (sd_db sdb) orgId)" "dc_id d = ck_document c"
    "l \<in> set (db_layers (sd_db sdb))" "ly_id l = dc_layer d" "\<not> ly_deleted l"
    by (auto simp: hydrate_rows_def live_documents_def)
  moreover have "r = \<lparr>sh_chunk_id = ck_point c, sh_doc_id = ck_document c, sh_layer = ly_slug l,
       sh_title = dc_title d, sh_score = ht_score hit, sh_text = ck_text c\<rparr>" using r row by simp
  ultimately show thesis using h(1) by (intro that)
qed

lemma length_hydrate: "length (hydrate deps sdb orgId found) \<le> length found"
  by (simp add: hydrate_def map_filter_def Let_def)

lemma applyRanking_Inr:
  assumes "applyRanking items scores k = Inr ranked"
  shows "set ranked \<subseteq> set items" and "length ranked \<le> k"
proof -
  have r: "ranked = map fst (take k (rev (sort_key snd (rev (zip items scores)))))"
    using assms by (simp add: applyRanking_def split: if_splits)
  show "length ranked \<le> k" by (simp add: r)
  show "set ranked \<subseteq> set items"
    by (auto simp: r dest!: in_set_takeD elim: in_set_zipE)
qed

lemma rerank_subset: "set (rerank deps query cs k) \<subseteq> set cs"
  by (auto simp: rerank_def dest: in_set_takeD subsetD [OF applyRanking_Inr(1)] split: option.splits sum.splits)

lemma length_rerank: "length (rerank deps query cs k) \<le> k"
  by (auto simp: rerank_def dest: applyRanking_Inr(2) split: option.splits sum.splits)

lemma VectorStore_search_Inr:
  assumes "VectorStore_search client request = Inr found"
  obtains f q where "buildFilter (rq_orgId request) (rq_plan request) (rq_narrow request) = Inr f"
    "buildHybridQuery \<lparr>ho_branches = rq_branches request, ho_filter = f, ho_prefetchLimit = None,
        ho_limit = rq_topK request, ho_withPayload = None\<rparr> = Inr q"
    "client (rq_collection request) q = Inr found" "hq_limit q = rq_topK request"
proof -
  from assms obtain f q where "buildFilter (rq_orgId request) (rq_plan request) (rq_narrow request) = Inr f"
    and q: "buildHybridQuery \<lparr>ho_branches = rq_branches request, ho_filter = f, ho_prefetchLimit = None,
        ho_limit = rq_topK request, ho_withPayload = None\<rparr> = Inr q"
    and "client (rq_collection request) q = Inr found"
    by (auto simp: VectorStore_search_def split: sum.splits)
  moreover from q have "hq_limit q = rq_topK request" by (auto simp: buildHybridQuery_def split: if_splits)
  ultimately show thesis by (intro that)
qed

lemma assertTenant_Inr: "assertTenant orgId found = Inr checked \<Longrightarrow> checked = found"
  by (auto simp: assertTenant_def split: option.splits)

definition allowed_by :: "Narrowing option \<Rightarrow> string \<Rightarrow> bool" where
  "allowed_by narrow l = (case narrow_layers narrow of None \<Rightarrow> True | Some ls \<Rightarrow> l \<in> set ls)"

lemma narrow_with_layers [simp]:
  "narrow_layers (with_layers narrow ls) = Some ls" "narrow_metadata (with_layers narrow ls) = narrow_metadata narrow"
  by (simp_all add: narrow_layers_def narrow_metadata_def with_layers_def)

lemma delegated_narrowing_Some:
  assumes "delegated_narrowing auth asked = Some narrow" and "allowed_by narrow l"
  shows "withinDelegation auth l Read \<and> allowed_by asked l"
proof (cases "delegatedLayers auth Read")
  case None
  with assms show ?thesis by (simp add: delegated_narrowing_def withinDelegation_def)
next
  case (Some ds)
  with assms show ?thesis
    by (cases "narrow_layers asked")
       (auto simp: delegated_narrowing_def withinDelegation_def allowed_by_def Let_def split: if_splits)
qed

lemma caller_narrowing_Some:
  assumes "caller_narrowing sdb auth plan options = Some asked" and "allowed_by asked l"
    and "so_layers options = Some slugs" and "slugs \<noteq> []"
  shows "l \<in> set (layerIds sdb (au_orgId auth) slugs)"
  using assms
  by (auto simp: caller_narrowing_def allowed_by_def Let_def split: if_splits AccessPlan.splits list.splits)

text \<open>The metadata a request asks for reaches the filter whatever else narrows it.\<close>

lemma narrowing_keeps_filters:
  assumes "caller_narrowing sdb auth plan options = Some asked" and "delegated_narrowing auth asked = Some narrow"
  shows "narrow_metadata narrow = (case so_filters options of None \<Rightarrow> [] | Some es \<Rightarrow> es)"
proof -
  have "narrow_metadata (filter_narrowing options) = (case so_filters options of None \<Rightarrow> [] | Some es \<Rightarrow> es)"
    by (auto simp: filter_narrowing_def narrow_metadata_def split: option.splits)
  moreover have "narrow_metadata asked = narrow_metadata (filter_narrowing options)"
    using assms(1) by (auto simp: caller_narrowing_def Let_def split: option.splits if_splits)
  moreover have "narrow_metadata narrow = narrow_metadata asked"
    using assms(2) by (auto simp: delegated_narrowing_def Let_def split: option.splits if_splits)
  ultimately show ?thesis by simp
qed

lemma search_plan_Inr:
  assumes "search_plan deps sdb auth collection plan query topK options = Inr rs" and "rs \<noteq> []"
  obtains asked narrow groups branches found where "plan \<noteq> PlanNone"
    "caller_narrowing sdb auth plan options = Some asked" "delegated_narrowing auth asked = Some narrow"
    "VectorStore_search (de_query deps)
       \<lparr>rq_orgId = au_orgId auth, rq_collection = collection, rq_plan = plan,
        rq_branches = branches, rq_topK = wanted_hits deps options topK, rq_narrow = narrow\<rparr> = Inr found"
    "rs = (let candidates = hydrate deps sdb (au_orgId auth) found;
               ranked = (if reranking deps options then rerank deps query candidates topK else candidates)
           in if so_includeContent options = Some False then map (\<lambda>hit. hit\<lparr>sh_text := []\<rparr>) ranked else ranked)"
proof -
  from assms have plan: "plan \<noteq> PlanNone" by (auto simp: search_plan_def)
  with assms obtain asked where a: "caller_narrowing sdb auth plan options = Some asked"
    by (cases "caller_narrowing sdb auth plan options") (auto simp: search_plan_def)
  with assms plan obtain narrow where n: "delegated_narrowing auth asked = Some narrow"
    by (cases "delegated_narrowing auth asked") (auto simp: search_plan_def)
  with assms plan a obtain groups where g: "groupsInScope (layers_with_models deps sdb (au_orgId auth)) plan narrow = Inr groups"
    "groups \<noteq> []"
    by (auto simp: search_plan_def split: sum.splits if_splits)
  with assms plan a n obtain branches where b: "dense_branches deps query (length groups > 1) groups = Inr branches"
    by (auto simp: search_plan_def split: sum.splits)
  let ?r = "\<lparr>rq_orgId = au_orgId auth, rq_collection = collection, rq_plan = plan,
        rq_branches = with_lexical deps query branches, rq_topK = wanted_hits deps options topK, rq_narrow = narrow\<rparr>"
  obtain found where f: "VectorStore_search (de_query deps) ?r = Inr found"
    using assms plan a n g b by (cases "VectorStore_search (de_query deps) ?r") (auto simp: search_plan_def)
  obtain checked where c: "assertTenant (au_orgId auth) found = Inr checked"
    using assms plan a n g b f by (cases "assertTenant (au_orgId auth) found") (auto simp: search_plan_def)
  then have "checked = found" by (rule assertTenant_Inr)
  with assms plan a n g b f c
  have "rs = (let candidates = hydrate deps sdb (au_orgId auth) found;
               ranked = (if reranking deps options then rerank deps query candidates topK else candidates)
           in if so_includeContent options = Some False then map (\<lambda>hit. hit\<lparr>sh_text := []\<rparr>) ranked else ranked)"
    by (auto simp: search_plan_def Let_def split: if_splits)
  with plan a n f show thesis by (rule that)
qed

text \<open>
  What stands behind a result: a chunk row of the caller's organization, of document \<open>d\<close> and with the result's id,
  whose text it is unless content was declined; the live layer the document is in; and the point the
  index answered for that chunk, with its score, whose metadata satisfies the request's filters.
\<close>

definition result_backed :: "(payload \<Rightarrow> FilterClause \<Rightarrow> bool) \<Rightarrow> SearchDeps \<Rightarrow> SearchDb \<Rightarrow> AuthContext \<Rightarrow> string \<Rightarrow> SearchOptions
    \<Rightarrow> DocumentRow \<Rightarrow> SearchHit \<Rightarrow> bool" where
  "result_backed matches deps sdb auth collection options d r \<longleftrightarrow>
     (\<exists>c l q found hit. c \<in> set (sd_chunks sdb) \<and> ck_org c = au_orgId auth \<and> ck_document c = dc_id d \<and> ck_point c = sh_chunk_id r
        \<and> sh_text r = (if so_includeContent options = Some False then [] else ck_text c) \<and> sh_title r = dc_title d
        \<and> l \<in> set (db_layers (sd_db sdb)) \<and> ly_id l = dc_layer d \<and> \<not> ly_deleted l \<and> sh_layer r = ly_slug l
        \<and> de_query deps collection q = Inr found \<and> hit \<in> set found \<and> hit_chunk deps hit = ck_point c \<and> sh_score r = ht_score hit
        \<and> metadata_admits matches (case so_filters options of None \<Rightarrow> [] | Some es \<Rightarrow> es) (ht_payload hit))"

lemma search_plan_hit:
  assumes q: "qdrant_semantics matches passes" and cl: "client_sound passes (de_query deps)"
    and sync: "index_synced deps sdb"
    and run: "search_plan deps sdb auth collection plan query topK options = Inr rs" and r: "r \<in> set rs"
  shows "\<exists>d \<in> set (live_documents (sd_db sdb) (au_orgId auth)). dc_id d = sh_doc_id r
    \<and> result_backed matches deps sdb auth collection options d r
    \<and> plan_reaches plan (dc_id d) (dc_layer d) \<and> withinDelegation auth (dc_layer d) Read
    \<and> (\<forall>slugs. so_layers options = Some slugs \<and> slugs \<noteq> [] \<longrightarrow>
         dc_layer d \<in> set (layerIds sdb (au_orgId auth) slugs))"
proof -
  from run r have "rs \<noteq> []" by auto
  from run this obtain asked narrow branches found where plan: "plan \<noteq> PlanNone"
    and a: "caller_narrowing sdb auth plan options = Some asked" and n: "delegated_narrowing auth asked = Some narrow"
    and f: "VectorStore_search (de_query deps)
       \<lparr>rq_orgId = au_orgId auth, rq_collection = collection, rq_plan = plan,
        rq_branches = branches, rq_topK = wanted_hits deps options topK, rq_narrow = narrow\<rparr> = Inr found"
    and rs: "rs = (let candidates = hydrate deps sdb (au_orgId auth) found;
               ranked = (if reranking deps options then rerank deps query candidates topK else candidates)
           in if so_includeContent options = Some False then map (\<lambda>hit. hit\<lparr>sh_text := []\<rparr>) ranked else ranked)"
    by (rule search_plan_Inr)
  obtain r' where r': "r' \<in> set (hydrate deps sdb (au_orgId auth) found)"
    "r = (if so_includeContent options = Some False then r'\<lparr>sh_text := []\<rparr> else r')"
    using r rerank_subset by (auto simp: rs Let_def split: if_splits) blast+
  from r'(1) obtain hit c d l where h: "hit \<in> set found" "c \<in> set (sd_chunks sdb)" "ck_org c = au_orgId auth"
    "ck_point c = hit_chunk deps hit" "d \<in> set (live_documents (sd_db sdb) (au_orgId auth))" "dc_id d = ck_document c"
    and l: "l \<in> set (db_layers (sd_db sdb))" "ly_id l = dc_layer d" "\<not> ly_deleted l"
    and rr: "r' = \<lparr>sh_chunk_id = ck_point c, sh_doc_id = ck_document c, sh_layer = ly_slug l,
       sh_title = dc_title d, sh_score = ht_score hit, sh_text = ck_text c\<rparr>"
    by (rule hydrate_in)
  from f obtain flt qq where bf: "buildFilter (au_orgId auth) plan narrow = Inr flt"
    and hq: "buildHybridQuery \<lparr>ho_branches = branches, ho_filter = flt, ho_prefetchLimit = None,
        ho_limit = wanted_hits deps options topK, ho_withPayload = None\<rparr> = Inr qq"
    and res: "de_query deps collection qq = Inr found"
    by (rule VectorStore_search_Inr) simp
  obtain pc where pc: "pc \<in> set (hq_prefetch qq)" "passes (pf_filter pc) (ht_payload hit)"
    using cl res h(1) unfolding client_sound_def by blast
  obtain del where pp: "point_payload (ht_payload hit) (ck_org c) del (dc_id d) (dc_layer d)"
    using sync res h unfolding index_synced_def live_documents_def by fastforce
  have "passes flt (ht_payload hit)"
    using branch_passes [OF q hq pc] buildFilter_should [OF bf] by simp
  with buildFilter_passes [OF q pp bf] have adm: "plan_reaches plan (dc_id d) (dc_layer d)" "allowed_by narrow (dc_layer d)"
    "metadata_admits matches (narrow_metadata narrow) (ht_payload hit)"
    by (simp_all add: admitted_def allowed_by_def)
  have "result_backed matches deps sdb auth collection options d r"
    unfolding result_backed_def
    using h l res rr r'(2) adm(3) [unfolded narrowing_keeps_filters [OF a n]]
    by (intro exI [of _ c] exI [of _ l] exI [of _ qq] exI [of _ found] exI [of _ hit]) auto
  with adm delegated_narrowing_Some [OF n] caller_narrowing_Some [OF a] h(5,6) rr r'(2) show ?thesis
    by (intro bexI [OF _ h(5)]) auto
qed

subsection \<open>An index in memory\<close>

definition memory_index :: "Hit list \<Rightarrow> string \<Rightarrow> HybridQuery \<Rightarrow> string + Hit list" where
  "memory_index points collection q =
     Inr (take (hq_limit q) (filter (\<lambda>hit. \<exists>c \<in> set (hq_prefetch q). filter_passes (pf_filter c) (ht_payload hit)) points))"

lemma memory_index_sound: "client_sound filter_passes (memory_index points)"
  by (auto simp: client_sound_def memory_index_def dest: in_set_takeD)

lemma memory_index_points: "memory_index points coll q = Inr found \<Longrightarrow> set found \<subseteq> set points"
  by (auto simp: memory_index_def dest: in_set_takeD)

definition sample_points :: "Hit list" where
  "sample_points = [\<lparr>ht_id = ''p1'', ht_score = 1, ht_payload = sample_payload\<rparr>,
     \<lparr>ht_id = ''p2'', ht_score = 1, ht_payload = (''doc_id'', JStr ''d2'') # sample_payload\<rparr>]"

definition sample_deps :: SearchDeps where
  "sample_deps = \<lparr>de_query = memory_index sample_points,
     de_embed = (\<lambda>p q. Inr [[1, 0, 0]]), de_reranker = None, de_rerankCandidates = None, de_unicode = ascii,
     de_endpointOrigin = Some, de_String = (\<lambda>v. [])\<rparr>"

definition sample_sdb :: SearchDb where
  "sample_sdb = \<lparr>sd_db = sample_db,
     sd_providers = [\<lparr>pv_id = ''p1'', pv_org = None, pv_endpoint = ''http://e'', pv_model = ''m'', pv_dimensions = 3\<rparr>],
     sd_chunks = [\<lparr>ck_point = ''p1'', ck_org = ''acme'', ck_document = ''d1'', ck_text = [104, 105]\<rparr>,
                  \<lparr>ck_point = ''p2'', ck_org = ''acme'', ck_document = ''d2'', ck_text = [104, 111]\<rparr>],
     sd_collection = [''acme'' \<mapsto> ''org_acme'']\<rparr>"

definition sample_options :: SearchOptions where
  "sample_options = \<lparr>so_layers = Some ['' Notes''], so_filters = Some [(''source'', MScalar (SStr ''wiki''))], so_rerank = None, so_includeContent = None\<rparr>"

definition sample_hit :: SearchHit where
  "sample_hit = \<lparr>sh_chunk_id = ''p1'', sh_doc_id = ''d1'', sh_layer = ''notes'', sh_title = None, sh_score = 1, sh_text = [104, 105]\<rparr>"

definition sample_run :: "(SearchError + SearchHit list) \<times> MemoryCache" where
  "sample_run = search sample_deps sample_sdb sample_auth (Some \<lparr>pc_store = MemoryCache_store, pc_ttlSeconds = 0\<rparr>)
     \<lparr>mc_entries = [], mc_now = 0\<rparr> [] 10 sample_options"

lemma sample_found: "fst sample_run = Inr [sample_hit]"
  by code_simp

lemma sample_synced: "index_synced sample_deps sample_sdb"
proof -
  have pts: "hit = \<lparr>ht_id = ''p1'', ht_score = 1, ht_payload = sample_payload\<rparr> \<or>
      hit = \<lparr>ht_id = ''p2'', ht_score = 1, ht_payload = (''doc_id'', JStr ''d2'') # sample_payload\<rparr>"
    if "de_query sample_deps coll q = Inr found" "hit \<in> set found" for coll q found hit
    using that by (auto simp: sample_deps_def sample_points_def dest!: memory_index_points)
  show ?thesis
    unfolding index_synced_def
    by (auto dest!: pts simp: sample_sdb_def sample_db_def sample_doc_def hit_chunk_def sample_payload_def point_payload_def)
qed

subsection \<open>The properties\<close>

text \<open>C1 - Whatever a search returns, its caller may read, and asked for. Every result is a chunk of a live document
  of the caller's organization that the eight rules, read off the whole database, allow the caller to
  read, that lies inside the delegation's narrowing, and that is in one of the layers asked for: its id,
  text (left out when content was declined), title and layer are those of the rows. And the point the
  index answered for that chunk, in the organization's collection, carries metadata that satisfies every filter of the
  request. The hypotheses are the filter semantics of the vector store, that its answers come from the
  branches' filters, that its points carry the placement the database has, and the history of
  group versions behind the principals cache.\<close>

theorem search_results_permitted:
  assumes "qdrant_semantics matches passes" and "client_sound passes (de_query deps)" and "index_synced deps sdb"
    and "wf_db (sd_db sdb)" and "cache_run h c" and "CHR '':'' \<notin> set (au_orgId auth)"
    and "h (au_orgId auth) (loadGroupsVersion (sd_db sdb) (au_orgId auth)) = PostgresGroupGraph_load (sd_db sdb, au_orgId auth)"
    and "search deps sdb auth (Some \<lparr>pc_store = MemoryCache_store, pc_ttlSeconds = ttl\<rparr>) c query topK options = (Inr rs, c')"
    and "r \<in> set rs"
  shows "\<exists>d \<in> set (live_documents (sd_db sdb) (au_orgId auth)). dc_id d = sh_doc_id r
    \<and> rules_allow (sd_db sdb) auth Read (dc_id d) \<and> withinDelegation auth (dc_layer d) Read
    \<and> (\<forall>slugs. so_layers options = Some slugs \<and> slugs \<noteq> [] \<longrightarrow>
         dc_layer d \<in> set (layerIds sdb (au_orgId auth) slugs))
    \<and> (\<exists>chunk layer collection q found hit.
         chunk \<in> set (sd_chunks sdb) \<and> ck_org chunk = au_orgId auth \<and> ck_document chunk = dc_id d \<and> ck_point chunk = sh_chunk_id r
         \<and> sh_text r = (if so_includeContent options = Some False then [] else ck_text chunk) \<and> sh_title r = dc_title d
         \<and> layer \<in> set (db_layers (sd_db sdb)) \<and> ly_id layer = dc_layer d \<and> \<not> ly_deleted layer \<and> sh_layer r = ly_slug layer
         \<and> sd_collection sdb (au_orgId auth) = Some collection \<and> de_query deps collection q = Inr found \<and> hit \<in> set found
         \<and> hit_chunk deps hit = ck_point chunk \<and> sh_score r = ht_score hit
         \<and> metadata_admits matches (case so_filters options of None \<Rightarrow> [] | Some es \<Rightarrow> es) (ht_payload hit))"
proof -
  obtain ctx collection where ctx: "contextFor (sd_db sdb) auth (Some \<lparr>pc_store = MemoryCache_store, pc_ttlSeconds = ttl\<rparr>) c = (ctx, c')"
    and coll: "sd_collection sdb (au_orgId auth) = Some collection"
    and run: "search_plan deps sdb auth collection (resolve ctx Read) query topK options = Inr rs"
    using assms(8,9) by (auto simp: search_def split: option.splits prod.splits)
  then obtain ps where ps: "principalsFor (sd_db sdb) auth (Some \<lparr>pc_store = MemoryCache_store, pc_ttlSeconds = ttl\<rparr>) c = (ps, c')"
    "ctx = request_context (sd_db sdb) auth ps"
    by (auto simp: contextFor_def split: prod.splits)
  obtain d where d: "d \<in> set (live_documents (sd_db sdb) (au_orgId auth))" "dc_id d = sh_doc_id r"
    "result_backed matches deps sdb auth collection options d r"
    "plan_reaches (resolve ctx Read) (dc_id d) (dc_layer d)" "withinDelegation auth (dc_layer d) Read"
    "\<forall>slugs. so_layers options = Some slugs \<and> slugs \<noteq> [] \<longrightarrow> dc_layer d \<in> set (layerIds sdb (au_orgId auth) slugs)"
    using search_plan_hit [OF assms(1-3) run assms(9)] by blast
  have "rules_allow (sd_db sdb) auth Read (dc_id d)"
    using d(4) context_reaches [OF assms(4) d(1) principalsFor_run(1) [OF assms(5-7) ps(1)]] by (simp add: ps(2))
  with d(1,2,5,6) coll d(3) [unfolded result_backed_def] show ?thesis by blast
qed

theorem search_results_permitted_witness:
  "fst sample_run = Inr [sample_hit] \<and> rules_allow sample_db sample_auth Read ''d1''
    \<and> (\<exists>q found hit. memory_index sample_points ''org_acme'' q = Inr found \<and> hit \<in> set found
         \<and> clause_matches (ht_payload hit) (MatchValue ''meta.source'' (SStr ''wiki'')))"
proof -
  let ?h = "\<lambda>org (v :: nat). PostgresGroupGraph_load (sample_db, org)"
  have run: "search sample_deps sample_sdb sample_auth (Some \<lparr>pc_store = MemoryCache_store, pc_ttlSeconds = 0\<rparr>)
     \<lparr>mc_entries = [], mc_now = 0\<rparr> [] 10 sample_options = (Inr [sample_hit], snd sample_run)"
    using sample_found by (simp flip: sample_run_def add: prod_eq_iff)
  have "client_sound filter_passes (de_query sample_deps)" by (simp add: sample_deps_def memory_index_sound)
  moreover have "wf_db (sd_db sample_sdb)" by (simp add: wf_db_def sample_sdb_def sample_db_def sample_doc_def)
  moreover have "CHR '':'' \<notin> set (au_orgId sample_auth)" by (simp add: sample_auth_def)
  moreover have "?h (au_orgId sample_auth) (loadGroupsVersion (sd_db sample_sdb) (au_orgId sample_auth))
      = PostgresGroupGraph_load (sd_db sample_sdb, au_orgId sample_auth)" by (simp add: sample_sdb_def)
  ultimately obtain q found hit where out: "rules_allow (sd_db sample_sdb) sample_auth Read (sh_doc_id sample_hit)"
    "de_query sample_deps ''org_acme'' q = Inr found" "hit \<in> set found"
    "metadata_admits clause_matches (case so_filters sample_options of None \<Rightarrow> [] | Some es \<Rightarrow> es) (ht_payload hit)"
    using search_results_permitted [OF evaluator_semantics _ sample_synced _ cache_run.empty _ _ run, of ?h sample_hit]
    by (auto simp: sample_sdb_def sample_auth_def)
  have "clause_matches (ht_payload hit) (MatchValue ''meta.source'' (SStr ''wiki''))"
    using out(4) by (simp add: metadata_admits_def sample_options_def meta_field_def METADATA_PREFIX_def)
  moreover have "memory_index sample_points ''org_acme'' q = Inr found" using out(2) by (simp add: sample_deps_def)
  ultimately show ?thesis using sample_found out(1,3) by (auto simp: sample_sdb_def sample_hit_def)
qed

text \<open>A search never returns more than was asked for, with a reranker's wider fetch or without.\<close>

theorem search_bounded:
  assumes "client_sound passes (de_query deps)" and "search_plan deps sdb auth collection plan query topK options = Inr rs"
  shows "length rs \<le> topK"
proof (cases "rs = []")
  case False
  from assms(2) False obtain asked narrow branches found where
    f: "VectorStore_search (de_query deps)
       \<lparr>rq_orgId = au_orgId auth, rq_collection = collection, rq_plan = plan,
        rq_branches = branches, rq_topK = wanted_hits deps options topK, rq_narrow = narrow\<rparr> = Inr found"
    and rs: "rs = (let candidates = hydrate deps sdb (au_orgId auth) found;
               ranked = (if reranking deps options then rerank deps query candidates topK else candidates)
           in if so_includeContent options = Some False then map (\<lambda>hit. hit\<lparr>sh_text := []\<rparr>) ranked else ranked)"
    by (rule search_plan_Inr)
  from f obtain q where "de_query deps collection q = Inr found" "hq_limit q = wanted_hits deps options topK"
    by (rule VectorStore_search_Inr) simp
  then have "length found \<le> wanted_hits deps options topK" using assms(1) by (metis client_sound_def)
  with length_hydrate [of deps sdb "au_orgId auth" found] length_rerank show ?thesis
    by (auto simp: rs Let_def wanted_hits_def intro: order.trans)
qed simp

theorem search_bounded_witness: "length [sample_hit] \<le> 10"
proof -
  have "search_plan sample_deps sample_sdb sample_auth ''org_acme'' (PlanScoped [] [''d1''] []) [] 10 sample_options = Inr [sample_hit]"
    by code_simp
  from search_bounded [OF _ this] memory_index_sound show ?thesis by (simp add: sample_deps_def)
qed

text \<open>Naming a layer one cannot read tells nothing: when no document is granted singly and none of the
  named layers is in the plan, the answer is empty whatever the layers are - absent, deleted or
  only invisible - and whatever the vector store, the embedders and the reranker would do,
  their failing included.\<close>

theorem unreadable_layers_silent:
  assumes "so_layers options = Some slugs" and "slugs \<noteq> []"
    and "plan = PlanScoped layers [] denied" and "set (layerIds sdb (au_orgId auth) slugs) \<inter> set layers = {}"
  shows "search_plan deps sdb auth collection plan query topK options = Inr []"
proof -
  have "filter (\<lambda>i. i \<in> set layers) (layerIds sdb (au_orgId auth) slugs) = []"
    using assms(4) by (auto simp: filter_empty_conv)
  then have "caller_narrowing sdb auth plan options = None"
    using assms(1-3) by (simp add: caller_narrowing_def)
  then show ?thesis using assms(3) by (simp add: search_plan_def)
qed

theorem unreadable_layers_silent_witness:
  "search_plan (sample_deps\<lparr>de_query := (\<lambda>coll q. Inl ''down'')\<rparr>) sample_sdb sample_auth ''org_acme''
     (PlanScoped [''l2''] [] []) [] 10 sample_options = Inr []"
proof -
  have "set (layerIds sample_sdb (au_orgId sample_auth) ['' Notes'']) \<inter> set [''l2''] = {}" by code_simp
  then show ?thesis
    by (intro unreadable_layers_silent [where slugs = "['' Notes'']" and layers = "[''l2'']" and denied = "[]"])
       (simp_all add: sample_options_def)
qed

text \<open>On the way out, a point of another organization is an error and never a silent drop.\<close>

theorem assertTenant_exact:
  "(\<exists>e. assertTenant orgId found = Inl e) \<longleftrightarrow> (\<exists>h \<in> set found. map_of (ht_payload h) ''org_id'' \<noteq> Some (JStr orgId))"
proof (cases "find (\<lambda>h. map_of (ht_payload h) ''org_id'' \<noteq> Some (JStr orgId)) found")
  case None
  then have "assertTenant orgId found = Inr found" by (simp add: assertTenant_def)
  with None show ?thesis by (auto simp: find_None_iff)
next
  case (Some h)
  then have "assertTenant orgId found = Inl (Tenant_mismatch (ht_id h))" by (simp add: assertTenant_def)
  moreover have "h \<in> set found" "map_of (ht_payload h) ''org_id'' \<noteq> Some (JStr orgId)"
    using Some by (auto simp: find_Some_iff)
  ultimately show ?thesis by blast
qed

text \<open>Reranking keeps the best \<open>topK\<close> by score and breaks ties in the order the index gave: the
  ranking is the stable descending sort of the candidates, cut.\<close>

theorem ranking_stable:
  assumes "applyRanking items scores topK = Inr ranked"
  shows "\<exists>ps. ranked = map fst (take topK ps) \<and> sorted_wrt (\<lambda>a b. snd a \<ge> snd b) ps
    \<and> (\<forall>s. filter (\<lambda>p. snd p = s) ps = filter (\<lambda>p. snd p = s) (zip items scores))"
proof -
  let ?ps = "rev (sort_key snd (rev (zip items scores)))"
  have "ranked = map fst (take topK ?ps)" using assms by (simp add: applyRanking_def split: if_splits)
  moreover have "sorted_wrt (\<lambda>a b. snd a \<ge> snd b) ?ps"
  proof -
    have "sorted (map snd (sort_key snd (rev (zip items scores))))" by (rule sorted_sort_key)
    then show ?thesis by (simp add: sorted_wrt_rev sorted_map)
  qed
  moreover have "filter (\<lambda>p. snd p = s) ?ps = filter (\<lambda>p. snd p = s) (zip items scores)" for s
    using sort_key_stable [of snd s "rev (zip items scores)"] by (simp add: rev_filter flip: rev_filter)
  ultimately show ?thesis by blast
qed

theorem ranking_stable_witness:
  "\<exists>ps. [''b'', ''a''] = map fst (take 2 ps) \<and> sorted_wrt (\<lambda>a b. snd a \<ge> snd b) (ps :: (string \<times> score) list)"
proof -
  have "applyRanking [''a'', ''b'', ''c''] [Some 1, Some 2, Some 1] 2 = Inr [''b'', ''a'']"
    by (simp add: applyRanking_def)
  from ranking_stable [OF this] show ?thesis by (rule ex_forward) (elim conjE, intro conjI)
qed

text \<open>\<open>HttpReranker.rank\<close> counts the entries of an answer and not the inputs they score: an answer
  that scores one input twice and another never is accepted, with \<open>-Infinity\<close> left for the other.\<close>

theorem rank_accepts_duplicate:
  "rank 2 (Some [(JNum 0, JNum s), (JNum 0, JNum t)]) = Inr [Some t, None]"
  by (simp add: rank_def numeral_2_eq_2)

end
