(* ===== verification/Collector.thy ===== *)
theory Collector
  imports Pipeline
begin

text \<open>
  \<open>collectOnce\<close> of \<open>packages/worker/src/collect.ts\<close>, over the ports it takes, and \<open>pruneOnce\<close> of
  \<open>packages/worker/src/prune.ts\<close>. The locale \<open>collect_ports\<close> states what the collector relies on; it is
  interpreted on the ports the worker builds - the statements on the documents table and the purge
  of the vector writer - with the bucket of objects as the last part of the state.
\<close>

subsection \<open>collect.ts\<close>

record PurgeTarget =
  tg_org :: string
  tg_collection :: string
  tg_document :: string
  tg_objectKey :: "string option"

record 's CollectPorts =
  cp_claim :: "nat \<Rightarrow> nat \<Rightarrow> 's \<Rightarrow> PurgeTarget list \<times> 's"
  cp_stillDeleted :: "string \<Rightarrow> string \<Rightarrow> 's \<Rightarrow> string + bool"
  cp_purge :: "string \<Rightarrow> string \<Rightarrow> 's \<Rightarrow> (string + unit) \<times> 's"
  cp_removeObject :: "string \<Rightarrow> 's \<Rightarrow> (string + unit) \<times> 's"
  cp_markPurged :: "string \<Rightarrow> string \<Rightarrow> 's \<Rightarrow> (string + unit) \<times> 's"

text \<open>One target: \<open>Inr True\<close> when it was purged, \<open>Inr False\<close> when it was skipped, \<open>Inl\<close> what was caught.\<close>

definition collect_target :: "'s CollectPorts \<Rightarrow> PurgeTarget \<Rightarrow> 's \<Rightarrow> (string + bool) \<times> 's" where
  "collect_target ports target s =
     (case cp_stillDeleted ports (tg_org target) (tg_document target) s of
        Inl e \<Rightarrow> (Inl e, s)
      | Inr False \<Rightarrow> (Inr False, s)
      | Inr True \<Rightarrow>
          (case cp_purge ports (tg_collection target) (tg_document target) s of
             (Inl e, s1) \<Rightarrow> (Inl e, s1)
           | (Inr _, s1) \<Rightarrow>
               (case (case tg_objectKey target of None \<Rightarrow> (Inr (), s1) | Some key \<Rightarrow> cp_removeObject ports key s1) of
                  (Inl e, s2) \<Rightarrow> (Inl e, s2)
                | (Inr _, s2) \<Rightarrow>
                    (case cp_markPurged ports (tg_org target) (tg_document target) s2 of
                       (Inl e, s3) \<Rightarrow> (Inl e, s3)
                     | (Inr _, s3) \<Rightarrow> (Inr True, s3)))))"

record CollectResult =
  co_purged :: nat
  co_failed :: nat

fun collect_loop :: "'s CollectPorts \<Rightarrow> PurgeTarget list \<Rightarrow> CollectResult \<Rightarrow> 's \<Rightarrow> CollectResult \<times> 's" where
  "collect_loop ports [] res s = (res, s)"
| "collect_loop ports (target # targets) res s =
     (case collect_target ports target s of
        (Inl e, s') \<Rightarrow> collect_loop ports targets (res\<lparr>co_failed := co_failed res + 1\<rparr>) s'
      | (Inr purged, s') \<Rightarrow>
          collect_loop ports targets (if purged then res\<lparr>co_purged := co_purged res + 1\<rparr> else res) s')"

definition collectOnce :: "'s CollectPorts \<Rightarrow> int \<Rightarrow> int \<Rightarrow> 's \<Rightarrow> (PortError + CollectResult) \<times> 's" where
  "collectOnce ports batch graceSeconds s =
     (if batch < 1 then (Inl BadBatch, s)
      else if graceSeconds < 0 then (Inl BadGrace, s)
      else let (targets, s1) = cp_claim ports (nat batch) (nat graceSeconds) s
           in if targets = [] then (Inr \<lparr>co_purged = 0, co_failed = 0\<rparr>, s1)
              else let (res, s2) = collect_loop ports targets \<lparr>co_purged = 0, co_failed = 0\<rparr> s1
                   in (Inr res, s2))"

subsection \<open>What the collector relies on, and what it gives\<close>

text \<open>
  Of a target, \<open>points_gone\<close> says that no point of it is left, \<open>object_gone\<close> that the bucket has no
  such object, and \<open>marked\<close> that the row says so. No port undoes what is gone, and only marking marks.
\<close>

definition only_frees :: "(PurgeTarget \<Rightarrow> 's \<Rightarrow> bool) \<Rightarrow> (string \<Rightarrow> 's \<Rightarrow> bool) \<Rightarrow> 's \<Rightarrow> 's \<Rightarrow> bool" where
  "only_frees points_gone object_gone s s' \<longleftrightarrow>
     (\<forall>t. points_gone t s \<longrightarrow> points_gone t s') \<and> (\<forall>key. object_gone key s \<longrightarrow> object_gone key s')"

definition same_document :: "PurgeTarget \<Rightarrow> PurgeTarget \<Rightarrow> bool" where
  "same_document t u \<longleftrightarrow> tg_org t = tg_org u \<and> tg_document t = tg_document u"

locale collect_ports =
  fixes ports :: "'s CollectPorts"
    and points_gone :: "PurgeTarget \<Rightarrow> 's \<Rightarrow> bool" and object_gone :: "string \<Rightarrow> 's \<Rightarrow> bool"
    and marked :: "PurgeTarget \<Rightarrow> 's \<Rightarrow> bool"
  assumes claim_keeps: "cp_claim ports n g s = (ts, s') \<Longrightarrow> only_frees points_gone object_gone s s' \<and> (marked t s' \<longrightarrow> marked t s)"
    and purge_keeps: "cp_purge ports c d s = (r, s') \<Longrightarrow> only_frees points_gone object_gone s s' \<and> (marked t s' \<longrightarrow> marked t s)"
    and purge_empties: "cp_purge ports (tg_collection t) (tg_document t) s = (Inr (), s') \<Longrightarrow> points_gone t s'"
    and remove_keeps: "cp_removeObject ports k s = (r, s') \<Longrightarrow> only_frees points_gone object_gone s s' \<and> (marked t s' \<longrightarrow> marked t s)"
    and remove_empties: "cp_removeObject ports key s = (Inr (), s') \<Longrightarrow> object_gone key s'"
    and mark_keeps: "cp_markPurged ports org d s = (r, s') \<Longrightarrow> only_frees points_gone object_gone s s'
      \<and> (marked t s' \<longrightarrow> marked t s \<or> tg_org t = org \<and> tg_document t = d)"
begin

definition gone :: "PurgeTarget \<Rightarrow> 's \<Rightarrow> bool" where
  "gone t s \<longleftrightarrow> points_gone t s \<and> (\<forall>key. tg_objectKey t = Some key \<longrightarrow> object_gone key s)"

lemma gone_kept: "only_frees points_gone object_gone s s' \<Longrightarrow> gone t s \<Longrightarrow> gone t s'"
  by (auto simp: gone_def only_frees_def)

lemma only_frees_trans: "only_frees points_gone object_gone s s' \<Longrightarrow> only_frees points_gone object_gone s' s'' \<Longrightarrow>
    only_frees points_gone object_gone s s''"
  by (auto simp: only_frees_def)

lemma only_frees_refl: "only_frees points_gone object_gone s s"
  by (simp add: only_frees_def)

text \<open>A target ends unmarked by this pass, or gone and then marked.\<close>

lemma target_effect:
  assumes "collect_target ports x s = (r, s')"
  shows "only_frees points_gone object_gone s s' \<and> (marked u s' \<longrightarrow> marked u s \<or> same_document x u \<and> gone x s')"
proof (cases "cp_stillDeleted ports (tg_org x) (tg_document x) s = Inr True")
  case False
  with assms have "s' = s" by (auto simp: collect_target_def split: sum.splits bool.splits)
  then show ?thesis by (simp add: only_frees_refl)
next
  case True
  obtain r1 s1 where p: "cp_purge ports (tg_collection x) (tg_document x) s = (r1, s1)" by (meson surj_pair)
  obtain r2 s2 where o: "(case tg_objectKey x of None \<Rightarrow> (Inr (), s1) | Some key \<Rightarrow> cp_removeObject ports key s1) = (r2, s2)"
    by (meson surj_pair)
  obtain r3 s3 where m: "cp_markPurged ports (tg_org x) (tg_document x) s2 = (r3, s3)" by (meson surj_pair)
  have s2: "only_frees points_gone object_gone s1 s2 \<and> (marked u s2 \<longrightarrow> marked u s1)"
    using o remove_keeps by (cases "tg_objectKey x") (auto simp: only_frees_refl)
  note s1 = purge_keeps [OF p, of u] and s3 = mark_keeps [OF m, of u]
  consider e where "r1 = Inl e" "s' = s1" | e where "r2 = Inl e" "s' = s2" | "r1 = Inr ()" "r2 = Inr ()" "s' = s3"
    using assms True p o m by (auto simp: collect_target_def split: sum.splits)
  then show ?thesis
  proof cases
    case 3
    have "points_gone x s1" using p 3(1) purge_empties by blast
    moreover have "\<forall>key. tg_objectKey x = Some key \<longrightarrow> object_gone key s2" using o 3(2) remove_empties by auto
    ultimately have "gone x s2" using s2 by (auto simp: gone_def only_frees_def)
    with gone_kept s3 have "gone x s'" using 3(3) by blast
    with 3(3) s1 s2 s3 show ?thesis by (auto simp: same_document_def intro: only_frees_trans)
  qed (use s1 s2 in \<open>auto intro: only_frees_trans\<close>)
qed

lemma loop_effect:
  assumes "collect_loop ports xs res s = (res', s')"
  shows "only_frees points_gone object_gone s s' \<and> (marked u s' \<longrightarrow> marked u s \<or> (\<exists>t \<in> set xs. same_document t u \<and> gone t s'))"
  using assms
proof (induction xs arbitrary: res s)
  case Nil
  then show ?case by (simp add: only_frees_refl)
next
  case (Cons x xs)
  obtain r s1 where x: "collect_target ports x s = (r, s1)" by (meson surj_pair)
  with Cons.prems obtain res1 where l: "collect_loop ports xs res1 s1 = (res', s')"
    by (auto split: sum.splits)
  note e = target_effect [OF x, of u] and ih = Cons.IH [OF l]
  from e ih have "only_frees points_gone object_gone s s'" by (blast intro: only_frees_trans)
  moreover have "gone x s1 \<Longrightarrow> gone x s'" using ih gone_kept by blast
  ultimately show ?case using e ih by auto
qed

lemma collect_marks_gone:
  assumes "collectOnce ports batch grace s = (r, s')" and "marked u s'" and "\<not> marked u s"
  shows "\<exists>t. same_document t u \<and> gone t s' \<and> t \<in> set (fst (cp_claim ports (nat batch) (nat grace) s))"
proof -
  obtain ts s1 where c: "cp_claim ports (nat batch) (nat grace) s = (ts, s1)" by (meson surj_pair)
  have u: "\<not> marked u s1" using claim_keeps [OF c, of u] assms(3) by blast
  with assms c obtain res where "collect_loop ports ts \<lparr>co_purged = 0, co_failed = 0\<rparr> s1 = (res, s')"
    by (auto simp: collectOnce_def Let_def split: if_splits prod.splits)
  from loop_effect [OF this, of u] u assms(2) c show ?thesis by auto
qed

end

subsection \<open>The ports of the worker\<close>

text \<open>
  \<open>col\<close> is the collection of an organization, \<open>source\<close> the key of a document's object when its bytes
  are in the bucket, and \<open>rm\<close> the bucket's removal. \<open>read_fault\<close> and \<open>mark_fault\<close> are the errors of the database
  on the two statements of a target; a marking that fails may have been committed, its answer lost.
\<close>

definition worker_ports :: "'s QdrantClient \<Rightarrow> (string \<Rightarrow> 'b \<Rightarrow> (string + unit) \<times> 'b) \<Rightarrow> (string \<Rightarrow> string) \<Rightarrow> (string \<Rightarrow> string option)
    \<Rightarrow> (string \<Rightarrow> string \<Rightarrow> string option) \<Rightarrow> (string \<Rightarrow> string \<Rightarrow> (string \<times> bool) option) \<Rightarrow> nat \<Rightarrow> nat \<Rightarrow> ('s World \<times> 'b) CollectPorts" where
  "worker_ports client rm col source read_fault mark_fault now leaseSeconds = \<lparr>
     cp_claim = (\<lambda>limit grace (w, b).
       let (rows, docs') = claimPurgeable now [] limit grace leaseSeconds (wd_docs w)
       in (map (\<lambda>(org, i). \<lparr>tg_org = org, tg_collection = col org, tg_document = i, tg_objectKey = source i\<rparr>) rows,
           (w\<lparr>wd_docs := docs'\<rparr>, b))),
     cp_stillDeleted = (\<lambda>org i (w, b). case read_fault org i of Some e \<Rightarrow> Inl e | None \<Rightarrow> Inr (stillDeleted org i (wd_docs w))),
     cp_purge = (\<lambda>coll i (w, b).
       let (r, s') = purge client coll i (snd (wd_index w)) in (r, (w\<lparr>wd_index := (fst (wd_index w), s')\<rparr>, b))),
     cp_removeObject = (\<lambda>key (w, b). let (r, b') = rm key b in (r, (w, b'))),
     cp_markPurged = (\<lambda>org i (w, b).
       let marked = (w\<lparr>wd_docs := markPurged now org i (wd_docs w)\<rparr>, b)
       in case mark_fault org i of
            None \<Rightarrow> (Inr (), marked)
          | Some (e, committed) \<Rightarrow> (Inl e, if committed then marked else (w, b)))\<rparr>"

definition no_points :: "('s \<Rightarrow> string \<Rightarrow> string \<rightharpoonup> Point) \<Rightarrow> PurgeTarget \<Rightarrow> 's World \<times> 'b \<Rightarrow> bool" where
  "no_points view t s \<longleftrightarrow>
     (\<forall>i p. view (snd (wd_index (fst s))) (tg_collection t) i = Some p \<longrightarrow> map_of (pt_payload p) ''doc_id'' \<noteq> Some (JStr (tg_document t)))"

definition purged_row :: "PurgeTarget \<Rightarrow> 's World \<times> 'b \<Rightarrow> bool" where
  "purged_row t s \<longleftrightarrow> (\<exists>d \<in> set (wd_docs (fst s)). qd_org d = tg_org t \<and> qd_id d = tg_document t \<and> qd_purged_at d \<noteq> None)"

text \<open>A delete refused because the collection is not there leaves a collection with no points.\<close>

definition missing_is_empty :: "'s QdrantClient \<Rightarrow> ('s \<Rightarrow> string \<Rightarrow> string \<rightharpoonup> Point) \<Rightarrow> bool" where
  "missing_is_empty client view \<longleftrightarrow>
     (\<forall>coll f s cause s'. qc_delete client coll f s = (Inl cause, s') \<longrightarrow> collectionMissing cause \<longrightarrow> view s' coll = Map.empty)"

definition bucket :: "(string \<Rightarrow> 'b \<Rightarrow> (string + unit) \<times> 'b) \<Rightarrow> (string \<Rightarrow> 'b \<Rightarrow> bool) \<Rightarrow> bool" where
  "bucket rm has \<longleftrightarrow> (\<forall>key b r b'. rm key b = (r, b') \<longrightarrow> (\<forall>k. has k b' \<longrightarrow> has k b) \<and> (r = Inr () \<longrightarrow> \<not> has key b'))"

locale worker_store =
  fixes client :: "'s QdrantClient" and view :: "'s \<Rightarrow> string \<Rightarrow> string \<rightharpoonup> Point"
    and rm :: "string \<Rightarrow> 'b \<Rightarrow> (string + unit) \<times> 'b" and has :: "string \<Rightarrow> 'b \<Rightarrow> bool"
  assumes store: "qdrant_store client view" and missing: "missing_is_empty client view" and bucket: "bucket rm has"

lemma purge_empties_points:
  assumes "qdrant_store client view" and "missing_is_empty client view" and "purge client coll i s = (Inr (), s')"
    and "view s' coll x = Some p"
  shows "doc_of p \<noteq> Some (JStr i)"
proof (cases "qc_delete client coll (doc_filter i) s")
  case (Pair r s2)
  have s2: "s2 = s'" using assms(3) Pair by (auto simp: purge_def split: sum.splits if_splits)
  show ?thesis
  proof (cases r)
    case (Inl cause)
    with assms(3) Pair have "collectionMissing cause" by (auto simp: purge_def split: if_splits)
    with assms(2,4) Inl Pair s2 show ?thesis unfolding missing_is_empty_def by fastforce
  next
    case (Inr u)
    with effectD(2) [OF qdrantS(2) [OF assms(1), where coll = coll and f = "doc_filter i" and s = s]] Pair s2 assms(4)
    show ?thesis by (auto simp: deleted_by_def split: option.splits if_splits)
  qed
qed

lemma purged_row_table:
  assumes "\<And>d. qd_org (f d) = qd_org d \<and> qd_id (f d) = qd_id d \<and> qd_purged_at (f d) = qd_purged_at d"
    and "purged_row t (w\<lparr>wd_docs := update_where P f (wd_docs w)\<rparr>, b)"
  shows "purged_row t (w, b)"
proof -
  from assms(2) obtain d where "d \<in> set (wd_docs w)" "qd_org (if P d then f d else d) = tg_org t"
    "qd_id (if P d then f d else d) = tg_document t" "qd_purged_at (if P d then f d else d) \<noteq> None"
    by (auto simp: purged_row_def in_update_where)
  with assms(1) [of d] show ?thesis by (auto simp: purged_row_def split: if_splits)
qed

sublocale worker_store \<subseteq> collect_ports "worker_ports client rm col source read_fault mark_fault now leaseSeconds"
    "no_points view" "\<lambda>key s. \<not> has key (snd s)" purged_row for col source read_fault mark_fault now leaseSeconds
proof (unfold_locales, goal_cases)
  case (1 n g s ts s' t)
  obtain w b where s: "s = (w, b)" by (cases s)
  with 1 obtain P where "s' = (w\<lparr>wd_docs := update_where P (\<lambda>d. d\<lparr>qd_sweep_claimed_at := Some now\<rparr>) (wd_docs w)\<rparr>, b)"
    by (auto simp: worker_ports_def claimPurgeable_def Let_def)
  then show ?case using purged_row_table [of "\<lambda>d. d\<lparr>qd_sweep_claimed_at := Some now\<rparr>"]
    by (auto simp: only_frees_def no_points_def s)
next
  case (2 c d s r s' t)
  then show ?case
    using purge_view [OF store] by (fastforce simp: worker_ports_def only_frees_def no_points_def purged_row_def split: prod.splits)
next
  case (3 t s s')
  then show ?case
    using purge_empties_points [OF store missing] by (fastforce simp: worker_ports_def no_points_def doc_of_def split: prod.splits)
next
  case (4 k s r s' t)
  then show ?case
    using bucket by (auto simp: worker_ports_def only_frees_def no_points_def purged_row_def bucket_def split: prod.splits)
next
  case (5 key s s')
  then show ?case using bucket by (auto simp: worker_ports_def bucket_def split: prod.splits)
next
  case (6 org d s r s' t)
  then show ?case
    by (auto simp: worker_ports_def only_frees_def no_points_def purged_row_def markPurged_def in_update_where Let_def
        split: prod.splits if_splits option.splits)
qed

context worker_store
begin

lemma sweep_marks_gone:
  assumes "collectOnce (worker_ports client rm col source read_fault mark_fault now leaseSeconds) batch grace (w, b) = (r, (w', b'))"
    and "purged_row u (w', b')" and "\<not> purged_row u (w, b)"
  shows "\<exists>t. same_document t u \<and> no_points view t (w', b') \<and> tg_collection t = col (tg_org t)
    \<and> (\<forall>key. source (tg_document t) = Some key \<longrightarrow> \<not> has key b')"
  using collect_marks_gone [OF assms]
  by (auto simp: gone_def worker_ports_def Let_def split: prod.splits)

end

definition memory_rm :: "string \<Rightarrow> string list \<Rightarrow> (string + unit) \<times> string list" where
  "memory_rm key b = (Inr (), removeAll key b)"

lemma memory_bucket: "bucket memory_rm (\<lambda>key b. key \<in> set b)"
  by (simp add: bucket_def memory_rm_def)

lemma memory_missing: "missing_is_empty memory_client view"
  by (simp add: missing_is_empty_def memory_client_def)

interpretation memory_worker: worker_store memory_client memory_view memory_rm "\<lambda>key b. key \<in> set b"
  by unfold_locales (rule memory_store memory_missing memory_bucket)+

subsection \<open>prune.ts\<close>

text \<open>Four independent deletions: a failure is counted, and the next one runs.\<close>

record 's PrunePorts =
  pp_tokens :: "nat \<Rightarrow> 's \<Rightarrow> (string + nat) \<times> 's"
  pp_audit :: "nat \<Rightarrow> nat \<Rightarrow> 's \<Rightarrow> (string + nat) \<times> 's"
  pp_proposals :: "nat \<Rightarrow> nat \<Rightarrow> 's \<Rightarrow> (string + nat) \<times> 's"
  pp_clients :: "nat \<Rightarrow> 's \<Rightarrow> (string + nat) \<times> 's"

record PruneResult =
  pn_tokens :: nat
  pn_audit :: nat
  pn_proposals :: nat
  pn_clients :: nat
  pn_failed :: nat

fun counted :: "string + nat \<Rightarrow> nat" where
  "counted (Inl e) = 0"
| "counted (Inr n) = n"

fun failure :: "string + nat \<Rightarrow> nat" where
  "failure (Inl e) = 1"
| "failure (Inr n) = 0"

definition pruneOnce :: "'s PrunePorts \<Rightarrow> int \<Rightarrow> nat \<Rightarrow> 's \<Rightarrow> (PortError + PruneResult) \<times> 's" where
  "pruneOnce ports batch retentionDays s =
     (if batch < 1 then (Inl BadBatch, s)
      else let (t, s1) = pp_tokens ports (nat batch) s;
               (a, s2) = pp_audit ports retentionDays (nat batch) s1;
               (p, s3) = pp_proposals ports retentionDays (nat batch) s2;
               (c, s4) = pp_clients ports (nat batch) s3
           in (Inr \<lparr>pn_tokens = counted t, pn_audit = counted a, pn_proposals = counted p, pn_clients = counted c,
                    pn_failed = failure t + failure a + failure p + failure c\<rparr>, s4))"

subsection \<open>The property\<close>

text \<open>C6 - A row is marked purged only once nothing of it is left: after a sweep, a document marked by it has
  no point in its organization's collection and no object in the bucket, whatever failed on the
  way; so no orphaned point is taken out of the sweep's queue.\<close>

theorem collected_means_gone:
  assumes "qdrant_store client view" and "missing_is_empty client view" and "bucket rm has"
    and "collectOnce (worker_ports client rm col source read_fault mark_fault now leaseSeconds) batch grace (w, b) = (r, (w', b'))"
    and "d \<in> set (wd_docs w')" and "qd_purged_at d \<noteq> None"
    and "\<forall>e \<in> set (wd_docs w). qd_org e = qd_org d \<and> qd_id e = qd_id d \<longrightarrow> qd_purged_at e = None"
  shows "(\<forall>i p. view (snd (wd_index w')) (col (qd_org d)) i = Some p \<longrightarrow> map_of (pt_payload p) ''doc_id'' \<noteq> Some (JStr (qd_id d)))
    \<and> (\<forall>key. source (qd_id d) = Some key \<longrightarrow> \<not> has key b')"
proof -
  let ?u = "\<lparr>tg_org = qd_org d, tg_collection = [], tg_document = qd_id d, tg_objectKey = None\<rparr>"
  have ws: "worker_store client view rm has" using assms(1-3) by unfold_locales
  have "purged_row ?u (w', b')" "\<not> purged_row ?u (w, b)" using assms(5-7) by (auto simp: purged_row_def)
  from worker_store.sweep_marks_gone [OF ws assms(4) this]
  show ?thesis by (auto simp: same_document_def no_points_def)
qed

definition sample_deleted :: "memory World" where
  "sample_deleted = \<lparr>wd_docs = tombstone 0 ''acme'' ''d1'' sample_claimed, wd_chunks = [],
     wd_index = (\<lparr>ix_known = [], ix_atLimit = []\<rparr>, sample_index)\<rparr>"

definition sample_source :: "string \<Rightarrow> string option" where
  "sample_source i = Some (''documents/'' @ i)"

definition sample_sweep :: "(PortError + CollectResult) \<times> memory World \<times> string list" where
  "sample_sweep = collectOnce (worker_ports memory_client memory_rm sample_col sample_source (\<lambda>org i. None) (\<lambda>org i. None) 1 900) 10 0
     (sample_deleted, [''documents/d1'', ''documents/d2''])"

lemma sample_rows: "\<exists>d. wd_docs sample_deleted = [d] \<and> qd_org d = ''acme'' \<and> qd_id d = ''d1'' \<and> qd_deleted_at d = Some 0
    \<and> qd_purged_at d = None \<and> qd_sweep_claimed_at d = None"
  by (simp add: sample_deleted_def tombstone_def sample_claimed_def sample_queued_def queue_def inserted_row_def sample_doc_def
      update_where_def lease_def)

lemma sample_swept:
  "\<exists>r w' b' d. sample_sweep = (r, (w', b')) \<and> wd_docs w' = [d] \<and> qd_org d = ''acme'' \<and> qd_id d = ''d1'' \<and> qd_purged_at d \<noteq> None"
  using sample_rows
  by (auto simp: sample_sweep_def collectOnce_def worker_ports_def claimPurgeable_def purgeable_def seconds_def update_where_def
      collect_target_def stillDeleted_def purge_def memory_client_def sample_source_def memory_rm_def markPurged_def Let_def)

theorem collected_means_gone_witness:
  "\<exists>r w' b'. sample_sweep = (r, (w', b')) \<and> ''documents/d1'' \<notin> set b'
     \<and> \<not> (\<exists>i p. memory_view (snd (wd_index w')) ''org_acme'' i = Some p \<and> map_of (pt_payload p) ''doc_id'' = Some (JStr ''d1''))"
proof -
  obtain r w' b' d where s: "sample_sweep = (r, (w', b'))" "wd_docs w' = [d]" "qd_org d = ''acme''" "qd_id d = ''d1''" "qd_purged_at d \<noteq> None"
    using sample_swept by blast
  note c = collected_means_gone [OF memory_store memory_missing memory_bucket s(1) [unfolded sample_sweep_def], of d]
  have "\<forall>e \<in> set (wd_docs sample_deleted). qd_org e = qd_org d \<and> qd_id e = qd_id d \<longrightarrow> qd_purged_at e = None"
    using sample_rows by auto
  with c s have "\<not> (\<exists>i p. memory_view (snd (wd_index w')) ''org_acme'' i = Some p \<and> map_of (pt_payload p) ''doc_id'' = Some (JStr ''d1''))"
    "''documents/d1'' \<notin> set b'"
    by (simp_all add: sample_col_def sample_source_def)
  with s(1) show ?thesis by blast
qed

end
