(* ===== verification/Grants.thy ===== *)
theory Grants
  imports Catalog
begin

text \<open>
  \<open>PostgresGrants\<close> of \<open>packages/api/src/adapters.ts\<close>: listing, issuing and revoking grants. What may be
  listed, issued or revoked is what the caller administers and the delegation admits; the properties
  bound what an issue can change to what lies below the scope it names.
\<close>

subsection \<open>PostgresGrants.list\<close>

record GrantFilter =
  gf_principalType :: "PrincipalType option"
  gf_principalId :: "string option"
  gf_scopeType :: "ScopeType option"
  gf_scopeId :: "string option"

definition no_filter :: GrantFilter where
  "no_filter = \<lparr>gf_principalType = None, gf_principalId = None, gf_scopeType = None, gf_scopeId = None\<rparr>"

record GrantRecord =
  gv_id :: string
  gv_principalType :: PrincipalType
  gv_principalId :: string
  gv_scopeType :: ScopeType
  gv_scopeId :: string
  gv_permission :: Permission
  gv_effect :: Effect
  gv_source :: string

definition grant_view :: "GrantRow \<Rightarrow> GrantRecord" where
  "grant_view r = (let g = gr_grant r in
     \<lparr>gv_id = gr_id r, gv_principalType = ptype (grant_principal g), gv_principalId = pid (grant_principal g),
      gv_scopeType = stype (grant_scope g), gv_scopeId = sid (grant_scope g), gv_permission = grant_permission g,
      gv_effect = grant_effect g, gv_source = gr_source r\<rparr>)"

definition matches :: "'a option \<Rightarrow> 'a \<Rightarrow> bool" where
  "matches wanted v \<longleftrightarrow> (case wanted of None \<Rightarrow> True | Some w \<Rightarrow> v = w)"

text \<open>\<open>AND column = $n::uuid\<close> where the filter names one; a text that does not cast fails the statement.\<close>

definition cast_filter :: "Casts \<Rightarrow> GrantFilter \<Rightarrow> (Grant \<Rightarrow> bool) option" where
  "cast_filter casts f =
     (let cast = (\<lambda>x. case x of None \<Rightarrow> Some None | Some i \<Rightarrow> map_option Some (ca_uuid_in casts i))
      in case (cast (gf_principalId f), cast (gf_scopeId f)) of
           (Some p, Some s) \<Rightarrow>
             Some (\<lambda>g. matches (gf_principalType f) (ptype (grant_principal g)) \<and> matches p (pid (grant_principal g))
                     \<and> matches (gf_scopeType f) (stype (grant_scope g)) \<and> matches s (sid (grant_scope g)))
         | _ \<Rightarrow> None)"

definition grant_key :: "GrantRow \<Rightarrow> nat \<times> string" where
  "grant_key r = (gr_created r, gr_id r)"

definition grants_list :: "Casts \<Rightarrow> Catalog \<Rightarrow> AuthContext \<Rightarrow> 'c PrincipalsCache option \<Rightarrow> Page option \<Rightarrow> GrantFilter \<Rightarrow> 'c
    \<Rightarrow> (string + GrantRecord PageResult) \<times> 'c" where
  "grants_list casts cat auth cache page f c =
     (let (ctx, c') = contextFor (db_of cat) auth cache c
      in (if resolve ctx Admin = PlanNone then Inr empty_page
          else case bound_of casts page of
            Inl e \<Rightarrow> Inl e
          | Inr bound \<Rightarrow>
              (case cast_filter casts f of
                 None \<Rightarrow> Inl bad_uuid
               | Some narrowed \<Rightarrow>
                   (let rows = capped page 0 (seek grant_key bound (sort_key grant_key
                          (filter (\<lambda>r. grant_org (gr_grant r) = au_orgId auth \<and> narrowed (gr_grant r)) (ct_grants cat))));
                        inNarrowing = narrowingAdmits (db_of cat) auth (map (grant_scope \<circ> gr_grant) rows) Admin;
                        visible = filter (\<lambda>r. referenceAllows ctx (grant_scope (gr_grant r)) Admin \<and> inNarrowing (grant_scope (gr_grant r))) rows
                    in Inr \<lparr>pr_items = map grant_view visible,
                            pr_nextCursor =
                              (case page of None \<Rightarrow> None
                               | Some p \<Rightarrow> if pg_limit p \<le> length rows \<and> rows \<noteq> []
                                           then Some (encodeCursor \<lparr>ps_createdAt = ca_ts_text casts (gr_created (last rows)), ps_id = gr_id (last rows)\<rparr>)
                                           else None)\<rparr>)), c'))"

subsection \<open>PostgresGrants.issue, revoke\<close>

record GrantInput =
  gi_principal :: Principal
  gi_scope :: Scope
  gi_permission :: Permission

definition scope_exists :: "Catalog \<Rightarrow> string \<Rightarrow> Scope \<Rightarrow> bool" where
  "scope_exists cat orgId scope \<longleftrightarrow>
     (if stype scope = Workspace
      then \<exists>k \<in> set (ct_workspaces cat). wk_org k = orgId \<and> wk_id k = sid scope \<and> \<not> wk_deleted k
      else \<exists>l \<in> set (ct_layers cat). ly_org l = orgId \<and> ly_id l = sid scope \<and> \<not> ly_deleted l)"

definition principal_exists :: "Catalog \<Rightarrow> string \<Rightarrow> Principal \<Rightarrow> bool" where
  "principal_exists cat orgId p \<longleftrightarrow>
     (orgId, pid p) \<in> set (case ptype p of User \<Rightarrow> ct_users cat | Group \<Rightarrow> ct_groups cat | _ \<Rightarrow> ct_accounts cat)"

text \<open>The columns of the unique constraint.\<close>

definition same_grant :: "Grant \<Rightarrow> Grant \<Rightarrow> bool" where
  "same_grant g h \<longleftrightarrow> grant_org g = grant_org h \<and> grant_principal g = grant_principal h \<and> grant_scope g = grant_scope h
     \<and> grant_permission g = grant_permission h"

definition upsert_grant :: "string \<Rightarrow> nat \<Rightarrow> Grant \<Rightarrow> GrantRow list \<Rightarrow> GrantRow \<times> GrantRow list" where
  "upsert_grant newId now g rows =
     (case find (\<lambda>r. same_grant (gr_grant r) g) rows of
        None \<Rightarrow> (let r = \<lparr>gr_id = newId, gr_grant = g, gr_source = ''api'', gr_created = now\<rparr> in (r, rows @ [r]))
      | Some r \<Rightarrow> (r\<lparr>gr_grant := g\<rparr>, map (\<lambda>q. if same_grant (gr_grant q) g then q\<lparr>gr_grant := g\<rparr> else q) rows))"

definition issue :: "Casts \<Rightarrow> string \<Rightarrow> nat \<Rightarrow> AuthContext \<Rightarrow> 'c PrincipalsCache option \<Rightarrow> GrantInput \<Rightarrow> Catalog \<Rightarrow> 'c
    \<Rightarrow> (string + GrantRecord option) \<times> Catalog" where
  "issue casts newId now auth cache input cat c =
     (let scope = gi_scope input; grantee = gi_principal input
      in if \<not> uuid_shaped (sid scope) \<or> \<not> uuid_shaped (pid grantee) then (Inr None, cat)
         else let ctx = fst (contextFor (db_of cat) auth cache c)
              in if \<not> referenceAllows ctx scope Admin then (Inr None, cat)
                 else if \<not> narrowingAdmits (db_of cat) auth [scope] Admin scope then (Inr None, cat)
                 else case ca_uuid_in casts (sid scope) of
                   None \<Rightarrow> (Inl bad_uuid, cat)
                 | Some si \<Rightarrow>
                     if \<not> scope_exists cat (au_orgId auth) (scope\<lparr>sid := si\<rparr>) then (Inr None, cat)
                     else (case ca_uuid_in casts (pid grantee) of
                             None \<Rightarrow> (Inl bad_uuid, cat)
                           | Some gi \<Rightarrow>
                               if \<not> principal_exists cat (au_orgId auth) (grantee\<lparr>pid := gi\<rparr>) then (Inr None, cat)
                               else (let (row, rows') = upsert_grant newId now
                                           \<lparr>grant_org = au_orgId auth, grant_principal = grantee\<lparr>pid := gi\<rparr>, grant_scope = scope\<lparr>sid := si\<rparr>,
                                            grant_permission = gi_permission input, grant_effect = Allow\<rparr> (ct_grants cat)
                                     in (Inr (Some ((grant_view row)\<lparr>gv_principalId := pid grantee, gv_scopeId := sid scope\<rparr>)),
                                         bump (au_orgId auth) 1 (cat\<lparr>ct_grants := rows'\<rparr>)))))"

definition revoke :: "Casts \<Rightarrow> AuthContext \<Rightarrow> 'c PrincipalsCache option \<Rightarrow> string \<Rightarrow> Catalog \<Rightarrow> 'c \<Rightarrow> (string + bool) \<times> Catalog" where
  "revoke casts auth cache grantId cat c =
     (if \<not> uuid_shaped grantId then (Inr False, cat)
      else case ca_uuid_in casts grantId of
        None \<Rightarrow> (Inl bad_uuid, cat)
      | Some i \<Rightarrow>
          (let named = (\<lambda>r. grant_org (gr_grant r) = au_orgId auth \<and> gr_id r = i)
           in case find named (ct_grants cat) of
                None \<Rightarrow> (Inr False, cat)
              | Some r \<Rightarrow>
                  (let ctx = fst (contextFor (db_of cat) auth cache c); scope = grant_scope (gr_grant r)
                   in if \<not> referenceAllows ctx scope Admin then (Inr False, cat)
                      else if \<not> narrowingAdmits (db_of cat) auth [scope] Admin scope then (Inr False, cat)
                      else (Inr True, bump (au_orgId auth) (length (filter named (ct_grants cat)))
                             (cat\<lparr>ct_grants := filter (\<lambda>q. \<not> named q) (ct_grants cat)\<rparr>)))))"

subsection \<open>The listing keeps the contract\<close>

lemma map_of_filter_key:
  "x \<in> A \<Longrightarrow> map_of (map (\<lambda>r. (k r, v r)) (filter (\<lambda>r. P r \<and> k r \<in> A) rows)) x = map_of (map (\<lambda>r. (k r, v r)) (filter P rows)) x"
  by (induction rows) auto

lemma narrowing_local:
  assumes "scope \<in> set scopes"
  shows "narrowingAdmits db auth scopes p scope \<longleftrightarrow> narrowingAdmits db auth [scope] p scope"
proof (cases "delegatedLayers auth p")
  case (Some only)
  let ?at = "\<lambda>ss. map_of (map_from (map (\<lambda>r. (dc_id r, dc_layer r)) (filter (\<lambda>r. dc_org r = au_orgId auth
        \<and> dc_id r \<in> set (map sid (filter (\<lambda>t. stype t = Document) ss))) (db_documents db)))) (sid scope)"
  have at: "?at ss = map_of (map (\<lambda>r. (dc_id r, dc_layer r)) (filter (\<lambda>r. dc_org r = au_orgId auth) (rev (db_documents db)))) (sid scope)"
    if "stype scope = Document" "scope \<in> set ss" for ss
  proof -
    have "sid scope \<in> set (map sid (filter (\<lambda>t. stype t = Document) ss))" using that by auto
    from map_of_filter_key [OF this, of dc_id dc_layer "\<lambda>r. dc_org r = au_orgId auth" "rev (db_documents db)"]
    show ?thesis by (simp add: map_of_map_from rev_map rev_filter)
  qed
  have "?at scopes = ?at [scope]" if "stype scope = Document"
    unfolding at [OF that assms] by (rule at [OF that, symmetric]) simp
  then show ?thesis
    unfolding narrowingAdmits_def Let_def Some option.case by (cases "stype scope") (simp_all only: ScopeType.case)
qed (simp add: narrowingAdmits_def)

definition grant_shown :: "ListArgs \<Rightarrow> GrantRow \<Rightarrow> bool" where
  "grant_shown s r \<longleftrightarrow> referenceAllows (la_context s) (grant_scope (gr_grant r)) Admin
     \<and> narrowingAdmits (la_db s) (la_auth s) [grant_scope (gr_grant r)] Admin (grant_scope (gr_grant r))"

definition grant_rows :: "ListArgs \<Rightarrow> GrantRow list" where
  "grant_rows s = (if resolve (la_context s) Admin = PlanNone then []
     else sort_key grant_key (filter (\<lambda>r. grant_org (gr_grant r) = au_orgId (la_auth s)) (ct_grants (la_cat s))))"

definition grants_page :: "ListArgs \<Rightarrow> Position option \<Rightarrow> string + GrantRecord PageResult" where
  "grants_page s aft = fst (grants_list (la_casts s) (la_cat s) (la_auth s) (shared_cache (la_ttl s))
     (Some \<lparr>pg_limit = la_limit s, pg_after = aft\<rparr>) no_filter (la_cache s))"

lemma cast_no_filter: "cast_filter casts no_filter = Some (\<lambda>g. True)"
  by (simp add: cast_filter_def no_filter_def matches_def)

interpretation grant_pages: paged_listing listing_ok la_casts grant_rows gr_created gr_id grant_shown "\<lambda>s. grant_view" grants_page
proof
  fix s :: ListArgs assume ok: "listing_ok s"
  show "casts_ok (la_casts s)" using ok by (simp add: listing_ok_def)
  show "ordered_by (\<lambda>k. (gr_created k, gr_id k)) (grant_rows s)"
  proof (cases "resolve (la_context s) Admin = PlanNone")
    case True
    then show ?thesis by (simp add: grant_rows_def ordered_by_def)
  next
    case False
    have "distinct (map gr_id (filter (\<lambda>r. grant_org (gr_grant r) = au_orgId (la_auth s)) (ct_grants (la_cat s))))"
      using ok by (simp add: listing_ok_def wf_catalog_def distinct_map_filter)
    from ordered_rows [OF this] False show ?thesis by (simp add: grant_rows_def grant_key_def [abs_def])
  qed
  fix r assume "r \<in> set (grant_rows s)"
  then show "canonical (la_casts s) (gr_id r)" using ok by (auto simp: grant_rows_def listing_ok_def split: if_splits)
next
  fix s :: ListArgs and aft rest
  assume ok: "listing_ok s" and bound: "aft = None \<or> cast_position (la_casts s) (the aft) \<noteq> None"
    and rest: "rest = seek (\<lambda>r. (gr_created r, gr_id r)) (Option.bind aft (cast_position (la_casts s))) (grant_rows s)"
  obtain ps c' where ctx: "contextFor (la_db s) (la_auth s) (shared_cache (la_ttl s)) (la_cache s) = (la_context s, c')"
    using listing_context [OF ok] by metis
  let ?n = "la_limit s"
  have n: "0 < ?n" using ok by (simp add: listing_ok_def)
  define result where "result = \<lparr>pr_items = map grant_view (filter (grant_shown s) (take ?n rest)),
     pr_nextCursor = (if ?n \<le> length rest then Some (encodeCursor \<lparr>ps_createdAt = ca_ts_text (la_casts s) (gr_created (last (take ?n rest))),
         ps_id = gr_id (last (take ?n rest))\<rparr>) else None)\<rparr>"
  have "grants_page s aft = Inr result"
  proof (cases "resolve (la_context s) Admin = PlanNone")
    case True
    then have "rest = []" unfolding rest
      by (cases "Option.bind aft (cast_position (la_casts s))") (simp_all add: grant_rows_def seek_def)
    with True n show ?thesis
      by (simp add: grants_page_def grants_list_def Let_def ctx [unfolded la_db_def] empty_page_def result_def)
  next
    case False
    have r: "rest = seek grant_key (Option.bind aft (cast_position (la_casts s))) (sort_key grant_key
        (filter (\<lambda>r. grant_org (gr_grant r) = au_orgId (la_auth s) \<and> True) (ct_grants (la_cat s))))"
      unfolding rest grant_rows_def using False by (simp add: grant_key_def [abs_def])
    have keep: "filter (\<lambda>r. referenceAllows (la_context s) (grant_scope (gr_grant r)) Admin \<and>
        narrowingAdmits (db_of (la_cat s)) (la_auth s) (map (grant_scope \<circ> gr_grant) (take ?n rest)) Admin (grant_scope (gr_grant r))) (take ?n rest)
        = filter (grant_shown s) (take ?n rest)"
      using narrowing_local [of _ "map (grant_scope \<circ> gr_grant) (take ?n rest)"]
      by (intro filter_cong [OF refl]) (auto simp: grant_shown_def la_db_def)
    have more: "?n \<le> length (take ?n rest) \<and> take ?n rest \<noteq> [] \<longleftrightarrow> ?n \<le> length rest" using n by auto
    show ?thesis
      unfolding grants_page_def grants_list_def Let_def ctx [unfolded la_db_def] prod.case bound_cast [OF bound] sum.case fst_conv
        cast_no_filter option.case capped_def result_def
      using False n by (simp add: r [symmetric, simplified] keep more)
  qed
  then show "\<exists>m result. grants_page s aft = Inr result \<and> pr_items result = map grant_view (filter (grant_shown s) (take m rest)) \<and>
        (pr_nextCursor result = None \<and> length rest \<le> m \<or>
         0 < m \<and> m \<le> length rest \<and> pr_nextCursor result =
           Some (encodeCursor \<lparr>ps_createdAt = ca_ts_text (la_casts s) (gr_created (rest ! (m - 1))), ps_id = gr_id (rest ! (m - 1))\<rparr>))"
    using n last_take [of ?n rest] by (intro exI [of _ ?n] exI [of _ result]) (auto simp: result_def)
qed

subsection \<open>What one grant changes\<close>

definition upserted_grants :: "Grant \<Rightarrow> Grant list \<Rightarrow> Grant set" where
  "upserted_grants g gs = insert g {h \<in> set gs. \<not> same_grant h g}"

lemma upsert_grant_set:
  assumes "upsert_grant newId now g rows = (row, rows')"
  shows "set (map gr_grant rows') = upserted_grants g (map gr_grant rows)"
proof (cases "find (\<lambda>r. same_grant (gr_grant r) g) rows")
  case None
  then have "\<forall>r \<in> set rows. \<not> same_grant (gr_grant r) g" by (simp add: find_None_iff)
  with None assms show ?thesis by (auto simp: upsert_grant_def upserted_grants_def Let_def)
next
  case (Some r)
  then have r: "r \<in> set rows" "same_grant (gr_grant r) g" by (auto simp: find_Some_iff)
  have rows': "rows' = map (\<lambda>q. if same_grant (gr_grant q) g then q\<lparr>gr_grant := g\<rparr> else q) rows"
    using Some assms by (simp add: upsert_grant_def)
  have "gr_grant ` set rows' = (\<lambda>q. if same_grant (gr_grant q) g then g else gr_grant q) ` set rows"
    unfolding rows' set_map image_image by (rule image_cong) auto
  also have "\<dots> = upserted_grants g (map gr_grant rows)"
    using r by (auto simp: upserted_grants_def intro: rev_image_eqI)
  finally show ?thesis by simp
qed

lemma rules_input_grants:
  "rules_input (db_of (bump orgId n (cat\<lparr>ct_grants := rs\<rparr>))) auth = (rules_input (db_of cat) auth)\<lparr>ri_grants := map gr_grant rs\<rparr>"
  by (simp add: rules_input_def db_of_def bump_def PostgresGroupGraph_load_def membership_pairs_def fullTree_def loadScopeTree_def
      scope_tree_data_def live_layers_def live_documents_def)

text \<open>An allow never takes access away, and adds none outside its organization or above or beside its scope.\<close>

definition bears :: "ResolveInput \<Rightarrow> Scope \<Rightarrow> Permission \<Rightarrow> Grant \<Rightarrow> bool" where
  "bears i scope p g \<longleftrightarrow> grant_org g = ri_orgId i \<and> principalRef (grant_principal g) \<in> set (ri_principals i)
     \<and> grant_scope g \<in> set (ancestry scope (ri_tree i)) \<and> satisfies (grant_permission g) p"

lemma referenceAllows_bears:
  "referenceAllows i scope p \<longleftrightarrow> within_ceiling (ri_ceiling i) p \<and>
     (case ri_role i of PlatformAdmin \<Rightarrow> False | OrgAdmin \<Rightarrow> True
      | Member \<Rightarrow> (\<forall>g \<in> set (ri_grants i). bears i scope p g \<longrightarrow> grant_effect g \<noteq> Deny)
                 \<and> (\<exists>g \<in> set (ri_grants i). bears i scope p g \<and> grant_effect g = Allow))"
proof -
  have "(\<exists>s \<in> set chain. stype s = stype t \<and> sid s = sid t) \<longleftrightarrow> t \<in> set chain" for t :: Scope and chain
    by (metis Scope.equality old.unit.exhaust)
  then show ?thesis
    by (cases "ri_role i") (auto simp: referenceAllows_def bears_def Let_def)
qed

lemma upsert_allows:
  assumes "set gs' = upserted_grants g (ri_grants i)" and "grant_effect g = Allow"
  shows "referenceAllows i scope p \<Longrightarrow> referenceAllows (i\<lparr>ri_grants := gs'\<rparr>) scope p"
    and "referenceAllows (i\<lparr>ri_grants := gs'\<rparr>) scope p \<Longrightarrow> \<not> referenceAllows i scope p \<Longrightarrow>
      grant_org g = ri_orgId i \<and> grant_scope g \<in> set (ancestry scope (ri_tree i))"
proof -
  have b: "bears (i\<lparr>ri_grants := gs'\<rparr>) scope p = bears i scope p" by (simp add: bears_def fun_eq_iff)
  have same: "same_grant h g \<Longrightarrow> bears i scope p h = bears i scope p g" for h by (simp add: same_grant_def bears_def)
  have out: "h \<in> set gs' \<longleftrightarrow> h = g \<or> h \<in> set (ri_grants i) \<and> \<not> same_grant h g" for h
    using assms(1) by (auto simp: upserted_grants_def)
  show "referenceAllows (i\<lparr>ri_grants := gs'\<rparr>) scope p" if "referenceAllows i scope p"
  proof (cases "ri_role i")
    case Member
    with that obtain h where h: "h \<in> set (ri_grants i)" "bears i scope p h" "grant_effect h = Allow"
      by (auto simp: referenceAllows_bears)
    then have "\<exists>h \<in> set gs'. bears i scope p h \<and> grant_effect h = Allow"
      using same [of h] assms(2) out by (cases "same_grant h g") blast+
    with Member that assms(2) show ?thesis unfolding referenceAllows_bears b by (auto simp: out)
  qed (use that in \<open>simp_all add: referenceAllows_bears\<close>)
  show "grant_org g = ri_orgId i \<and> grant_scope g \<in> set (ancestry scope (ri_tree i))"
    if new: "referenceAllows (i\<lparr>ri_grants := gs'\<rparr>) scope p" and old: "\<not> referenceAllows i scope p"
  proof -
    have "bears i scope p g"
    proof (rule ccontr)
      assume no: "\<not> bears i scope p g"
      then have "bears i scope p h \<Longrightarrow> h \<in> set gs' \<longleftrightarrow> h \<in> set (ri_grants i)" for h
        using same out by metis
      then have "referenceAllows (i\<lparr>ri_grants := gs'\<rparr>) scope p = referenceAllows i scope p"
        unfolding referenceAllows_bears b by (auto split: OrgRole.splits)
      with new old show False by simp
    qed
    then show ?thesis by (simp add: bears_def)
  qed
qed

subsection \<open>A request's context against the rules\<close>

lemma scope_eta: "stype scope = t \<Longrightarrow> scope = \<lparr>stype = t, sid = sid scope\<rparr>"
  by simp

lemma request_scope:
  assumes "cached_request h db auth c" and "stype scope \<noteq> Document"
  shows "referenceAllows (fst (contextFor db auth (shared_cache ttl) c)) scope p \<longleftrightarrow> referenceAllows (rules_input db auth) scope p"
proof -
  obtain ps c' where ps: "contextFor db auth (shared_cache ttl) c = (request_context db auth ps, c')"
    "set ps = set (effectivePrincipals (au_principal auth) (PostgresGroupGraph_load (db, au_orgId auth)))"
    using cached_principals [OF assms(1)] by metis
  have "ancestry scope (ri_tree (request_context db auth ps)) = ancestry scope (fullTree db (au_orgId auth))"
  proof (cases "stype scope")
    case Workspace
    then show ?thesis using scope_eta ancestry_workspace by metis
  next
    case Layer
    from scope_eta [OF this] show ?thesis
      using layer_ancestry [of "sid scope" db "au_orgId auth"] by (simp add: request_context_def Let_def)
  qed (use assms(2) in simp)
  from context_scope [OF ps(2) this, of p] show ?thesis by (simp add: ps(1))
qed

text \<open>For a document the context places the caller's own documents alone: what it allows the rules allow.\<close>

lemma request_document:
  assumes req: "cached_request h db auth c" and wf: "wf_db db" and doc: "stype scope = Document"
    and allowed: "referenceAllows (fst (contextFor db auth (shared_cache ttl) c)) scope p"
  shows "referenceAllows (rules_input db auth) scope p"
proof -
  obtain ps c' where ps: "contextFor db auth (shared_cache ttl) c = (request_context db auth ps, c')"
    "set ps = set (effectivePrincipals (au_principal auth) (PostgresGroupGraph_load (db, au_orgId auth)))"
    using cached_principals [OF req] by metis
  let ?ctx = "request_context db auth ps" and ?full = "fullTree db (au_orgId auth)"
  let ?ids = "named_documents (loadGrants db (au_orgId auth) ps)"
  note s = scope_eta [OF doc]
  have tree: "ri_tree ?ctx = loadScopeTree db (au_orgId auth) ?ids" "ri_grants ?ctx = loadGrants db (au_orgId auth) ps"
    by (simp_all add: request_context_def Let_def)
  show ?thesis
  proof (cases "sid scope \<in> set ?ids \<or> ri_role ?ctx \<noteq> Member")
    case True
    then show ?thesis
    proof
      assume "ri_role ?ctx \<noteq> Member"
      then show ?thesis using allowed unfolding ps(1) fst_conv referenceAllows_bears
        by (cases "ri_role ?ctx") (auto simp: request_context_def rules_input_def Let_def)
    next
      assume "sid scope \<in> set ?ids"
      then have "layerOf (ri_tree ?ctx) (sid scope) = layerOf ?full (sid scope)"
        using loaded_agrees_full [OF wf, of "[\<lparr>grant_org = [], grant_principal = au_principal auth, grant_scope = scope,
            grant_permission = p, grant_effect = Allow\<rparr>]" ?ids "au_orgId auth"] doc
        by (simp add: agrees_on_def tree)
      then have "ancestry scope (ri_tree ?ctx) = ancestry scope ?full"
        using layer_ancestry [of _ db "au_orgId auth" ?ids]
        by (subst s, subst (2) s, subst (1 2) ancestry.simps) (auto simp: tree split: option.splits)
      with context_scope [OF ps(2) this] allowed show ?thesis by (simp add: ps(1))
    qed
  next
    case False
    then have "layerOf (ri_tree ?ctx) (sid scope) = None"
      unfolding tree using layerOf_loaded [OF wf, of "au_orgId auth" ?ids "sid scope"] by (metis not_Some_eq)
    then have chain: "ancestry scope (ri_tree ?ctx) = [scope]"
      using ancestry_unplaced [of "ri_tree ?ctx" "sid scope"] s by metis
    have "\<not> bears ?ctx scope p g" if "g \<in> set (ri_grants ?ctx)" for g
    proof
      assume "bears ?ctx scope p g"
      then have "grant_scope g = scope" unfolding bears_def chain by simp
      with that doc have "sid scope \<in> set ?ids" unfolding tree named_documents_def by force
      with False show False by simp
    qed
    with False allowed show ?thesis unfolding ps(1) fst_conv referenceAllows_bears by auto
  qed
qed

subsection \<open>The catalog's invariant\<close>

text \<open>
  Keys are unique; live layers of an organization differ in their slugs, whatever the case; a layer lies in a
  workspace of its organization; no two rows grant the same, and a grant's scope is there.
\<close>

definition catalog_ok :: "Catalog \<Rightarrow> bool" where
  "catalog_ok cat \<longleftrightarrow> wf_catalog cat
     \<and> (\<forall>l \<in> set (ct_layers cat). \<forall>m \<in> set (ct_layers cat). ly_org l = ly_org m \<and> \<not> ly_deleted l \<and> \<not> ly_deleted m
          \<and> same_text (ly_slug l) (ly_slug m) \<longrightarrow> ly_id l = ly_id m)
     \<and> (\<forall>l \<in> set (ct_layers cat). \<exists>k \<in> set (ct_workspaces cat). wk_org k = ly_org l \<and> wk_id k = ly_workspace l)
     \<and> (\<forall>r \<in> set (ct_grants cat). \<forall>q \<in> set (ct_grants cat). same_grant (gr_grant r) (gr_grant q) \<longrightarrow> gr_id r = gr_id q)
     \<and> (\<forall>r \<in> set (ct_grants cat). stype (grant_scope (gr_grant r)) \<noteq> Document \<and> scope_exists cat (grant_org (gr_grant r)) (grant_scope (gr_grant r)))"

inductive catalog_step :: "'s QdrantClient \<Rightarrow> Casts \<Rightarrow> Catalog \<times> 's \<Rightarrow> Catalog \<times> 's \<Rightarrow> bool" for client casts where
  workspace: "newId \<notin> wk_id ` set (ct_workspaces cat) \<Longrightarrow> createWorkspace newId now auth slug name cat = (r, cat') \<Longrightarrow>
    catalog_step client casts (cat, s) (cat', s)"
| layer: "newId \<notin> ly_id ` set (ct_layers cat) \<Longrightarrow>
    createLayer casts vectorsOf newId now auth (cache :: MemoryCache PrincipalsCache option) input cat c = (q, cat') \<Longrightarrow>
    catalog_step client casts (cat, s) (cat', s)"
| rename: "updateLayer casts auth (cache :: MemoryCache PrincipalsCache option) layerId nm description cat c = (u, cat') \<Longrightarrow>
    catalog_step client casts (cat, s) (cat', s)"
| remove: "removeLayer client casts now auth (cache :: MemoryCache PrincipalsCache option) layerId (cat, s) c = (u, cat', s') \<Longrightarrow>
    catalog_step client casts (cat, s) (cat', s')"
| issue: "newId \<notin> gr_id ` set (ct_grants cat) \<Longrightarrow> stype (gi_scope grant) \<noteq> Document \<Longrightarrow>
    Grants.issue casts newId now auth (cache :: MemoryCache PrincipalsCache option) grant cat c = (g, cat') \<Longrightarrow>
    catalog_step client casts (cat, s) (cat', s)"
| revoke: "Grants.revoke casts auth (cache :: MemoryCache PrincipalsCache option) grantId cat c = (u, cat') \<Longrightarrow>
    catalog_step client casts (cat, s) (cat', s)"

lemma catalog_okD:
  assumes "catalog_ok cat"
  shows "wf_catalog cat"
    and "l \<in> set (ct_layers cat) \<Longrightarrow> m \<in> set (ct_layers cat) \<Longrightarrow> ly_org l = ly_org m \<Longrightarrow> \<not> ly_deleted l \<Longrightarrow> \<not> ly_deleted m \<Longrightarrow>
      same_text (ly_slug l) (ly_slug m) \<Longrightarrow> ly_id l = ly_id m"
    and "l \<in> set (ct_layers cat) \<Longrightarrow> \<exists>k \<in> set (ct_workspaces cat). wk_org k = ly_org l \<and> wk_id k = ly_workspace l"
    and "r \<in> set (ct_grants cat) \<Longrightarrow> q \<in> set (ct_grants cat) \<Longrightarrow> same_grant (gr_grant r) (gr_grant q) \<Longrightarrow> gr_id r = gr_id q"
    and "r \<in> set (ct_grants cat) \<Longrightarrow> stype (grant_scope (gr_grant r)) \<noteq> Document \<and> scope_exists cat (grant_org (gr_grant r)) (grant_scope (gr_grant r))"
  using assms unfolding catalog_ok_def by blast+

lemma catalog_okI:
  assumes "wf_catalog cat"
    and "\<And>l m. l \<in> set (ct_layers cat) \<Longrightarrow> m \<in> set (ct_layers cat) \<Longrightarrow> ly_org l = ly_org m \<Longrightarrow> \<not> ly_deleted l \<Longrightarrow> \<not> ly_deleted m \<Longrightarrow>
      same_text (ly_slug l) (ly_slug m) \<Longrightarrow> ly_id l = ly_id m"
    and "\<And>l. l \<in> set (ct_layers cat) \<Longrightarrow> \<exists>k \<in> set (ct_workspaces cat). wk_org k = ly_org l \<and> wk_id k = ly_workspace l"
    and "\<And>r q. r \<in> set (ct_grants cat) \<Longrightarrow> q \<in> set (ct_grants cat) \<Longrightarrow> same_grant (gr_grant r) (gr_grant q) \<Longrightarrow> gr_id r = gr_id q"
    and "\<And>r. r \<in> set (ct_grants cat) \<Longrightarrow> stype (grant_scope (gr_grant r)) \<noteq> Document \<and> scope_exists cat (grant_org (gr_grant r)) (grant_scope (gr_grant r))"
  shows "catalog_ok cat"
  using assms unfolding catalog_ok_def by blast

lemma same_text_sym: "same_text a b = same_text b a"
  by (auto simp: same_text_def)

lemma createWorkspace_ok:
  assumes ok: "catalog_ok cat" and new: "newId \<notin> wk_id ` set (ct_workspaces cat)" and "createWorkspace newId now auth slug name cat = (r, cat')"
  shows "catalog_ok cat'"
proof (cases "cat' = cat")
  case False
  then obtain row where c: "cat' = cat\<lparr>ct_workspaces := ct_workspaces cat @ [row]\<rparr>" and row: "wk_id row = newId"
    using assms(3) by (auto simp: createWorkspace_def split: if_splits)
  have "wf_catalog cat'" using catalog_okD(1) [OF ok] new by (simp add: wf_catalog_def c row)
  moreover have "scope_exists cat' org scope" if "scope_exists cat org scope" for org scope
    using that by (auto simp: scope_exists_def c split: if_splits)
  ultimately show ?thesis
    unfolding catalog_ok_def using catalog_okD(2-) [OF ok] by (auto simp: c)
qed (use ok in simp)

lemma createLayer_cases:
  assumes run: "createLayer casts vectorsOf newId now auth cache input cat c = (r, cat')"
  obtains (same) "cat' = cat"
  | (created) row where "cat' = cat\<lparr>ct_layers := ct_layers cat @ [row]\<rparr>" "ly_id row = newId" "ly_org row = au_orgId auth"
      "ly_slug row = li_slug input" "\<not> ly_deleted row" "\<not> slug_taken cat (au_orgId auth) (ly_workspace row) (li_slug input)"
      "\<exists>k \<in> set (ct_workspaces cat). wk_org k = au_orgId auth \<and> wk_id k = ly_workspace row"
proof (cases "cat' = cat")
  case False
  with run obtain w p present where i: "cat' = snd (insert_layer newId now auth input w p present cat)"
    and w: "\<exists>k \<in> set (ct_workspaces cat). wk_org k = au_orgId auth \<and> wk_id k = w"
    unfolding createLayer_def Let_def by (auto split: if_splits option.splits sum.splits prod.splits) (metis snd_conv)
  with False show thesis
    by (intro created [of "last (ct_layers cat')"]) (auto simp: insert_layer_def Let_def split: if_splits)
qed (rule same)

lemma createLayer_ok:
  assumes ok: "catalog_ok cat" and "newId \<notin> ly_id ` set (ct_layers cat)"
    and run: "createLayer casts vectorsOf newId now auth cache input cat c = (r, cat')"
  shows "catalog_ok cat'"
  using run
proof (cases rule: createLayer_cases)
  case (created row)
  have free: "ly_org l = au_orgId auth \<Longrightarrow> \<not> ly_deleted l \<Longrightarrow> \<not> same_text (ly_slug l) (ly_slug row)" if "l \<in> set (ct_layers cat)" for l
    using created(4,6) that by (auto simp: slug_taken_def)
  have "wf_catalog cat'" using catalog_okD(1) [OF ok] assms(2) created(2) by (simp add: wf_catalog_def created(1))
  moreover have "scope_exists cat' org scope" if "scope_exists cat org scope" for org scope
    using that by (auto simp: scope_exists_def created(1) split: if_splits)
  moreover have "ly_id l = ly_id m" if "l \<in> set (ct_layers cat')" "m \<in> set (ct_layers cat')" "ly_org l = ly_org m" "\<not> ly_deleted l"
      "\<not> ly_deleted m" "same_text (ly_slug l) (ly_slug m)" for l m
    using that catalog_okD(2) [OF ok] free same_text_sym created(3) by (auto simp: created(1))
  moreover have "\<exists>k \<in> set (ct_workspaces cat'). wk_org k = ly_org l \<and> wk_id k = ly_workspace l" if "l \<in> set (ct_layers cat')" for l
    using that catalog_okD(3) [OF ok] created(3,7) by (auto simp: created(1))
  moreover have "ct_grants cat' = ct_grants cat" by (simp add: created(1))
  ultimately show ?thesis
    using catalog_okD(4,5) [OF ok] by (intro catalog_okI) simp_all
qed (use ok in simp)

lemma updateLayer_ok:
  assumes ok: "catalog_ok cat" and "updateLayer casts auth cache layerId nm description cat c = (r, cat')"
  shows "catalog_ok cat'"
proof (cases "cat' = cat")
  case False
  then obtain i where "cat' = update_layers (\<lambda>m. ly_org m = au_orgId auth \<and> ly_id m = i)
        (\<lambda>m. m\<lparr>cl_name := (case nm of None \<Rightarrow> cl_name m | Some n \<Rightarrow> n),
               cl_description := (case description of None \<Rightarrow> cl_description m | Some t \<Rightarrow> t)\<rparr>) cat"
    using assms(2) unfolding updateLayer_def Let_def by (auto split: if_splits sum.splits option.splits)
  moreover define f :: "CatalogLayer \<Rightarrow> CatalogLayer" where "f = (\<lambda>m. if ly_org m = au_orgId auth \<and> ly_id m = i then m\<lparr>cl_name := (case nm of None \<Rightarrow> cl_name m | Some n \<Rightarrow> n),
               cl_description := (case description of None \<Rightarrow> cl_description m | Some t \<Rightarrow> t)\<rparr> else m)"
  ultimately have c: "ct_layers cat' = map f (ct_layers cat)" "ct_workspaces cat' = ct_workspaces cat" "ct_grants cat' = ct_grants cat"
      "ct_docs cat' = ct_docs cat"
    by (simp_all add: update_layers_def)
  have f: "ly_id (f l) = ly_id l" "ly_org (f l) = ly_org l" "ly_slug (f l) = ly_slug l" "ly_deleted (f l) = ly_deleted l"
      "ly_workspace (f l) = ly_workspace l" for l
    by (simp_all add: f_def)
  have "wf_catalog cat'" using catalog_okD(1) [OF ok] by (simp add: wf_catalog_def c f comp_def)
  moreover have "scope_exists cat' org scope = scope_exists cat org scope" for org scope
    by (simp add: scope_exists_def c f)
  ultimately show ?thesis
    using catalog_okD(2-) [OF ok] by (intro catalog_okI) (auto simp: c f)
qed (use ok in simp)

lemma removeLayer_cases:
  assumes "removeLayer client casts now auth cache layerId (cat, s) c = (r, cat', s')"
  obtains (same) "r \<noteq> Inr True" "cat' = cat"
  | (removed) l named where "l \<in> set (ct_layers cat)" "ly_org l = au_orgId auth" "\<not> ly_deleted l"
      "named = (\<lambda>g. grant_org (gr_grant g) = au_orgId auth \<and> stype (grant_scope (gr_grant g)) = ScopeType.Layer
         \<and> sid (grant_scope (gr_grant g)) = ly_id l)"
      "ct_layers cat' = map (\<lambda>m. if ly_org m = au_orgId auth \<and> ly_id m = ly_id l then m\<lparr>ly_deleted := True\<rparr> else m) (ct_layers cat)"
      "ct_docs cat' = update_where (\<lambda>d. qd_org d = au_orgId auth \<and> qd_layer d = ly_id l \<and> qd_deleted_at d = None)
         (\<lambda>d. d\<lparr>qd_deleted_at := Some now\<rparr>) (ct_docs cat)"
      "ct_grants cat' = filter (\<lambda>g. \<not> named g) (ct_grants cat)" "ct_workspaces cat' = ct_workspaces cat"
      "\<exists>coll. ct_collections cat (au_orgId auth) = Some coll \<and> tombstoneLayer client coll layerId s = (Inr (), s')"
      "administers_layer (fst (contextFor (db_of cat) auth cache c)) auth layerId l" "ca_uuid_in casts layerId = Some (ly_id l)" "r = Inr True"
proof (cases "r = Inr True")
  case True
  with assms obtain coll l where l: "ct_collections cat (au_orgId auth) = Some coll" "find_layer casts (au_orgId auth) layerId cat = Inr (Some l)"
      "administers_layer (fst (contextFor (db_of cat) auth cache c)) auth layerId l" "tombstoneLayer client coll layerId s = (Inr (), s')"
    and rest: "cat' = bump (au_orgId auth) (length (filter (\<lambda>g. grant_org (gr_grant g) = au_orgId auth \<and> stype (grant_scope (gr_grant g)) = ScopeType.Layer
         \<and> sid (grant_scope (gr_grant g)) = ly_id l) (ct_grants cat)))
         ((update_layers (\<lambda>m. ly_org m = au_orgId auth \<and> ly_id m = ly_id l) (\<lambda>m. m\<lparr>ly_deleted := True\<rparr>)
           (cat\<lparr>ct_docs := update_where (\<lambda>d. qd_org d = au_orgId auth \<and> qd_layer d = ly_id l \<and> qd_deleted_at d = None)
              (\<lambda>d. d\<lparr>qd_deleted_at := Some now\<rparr>) (ct_docs cat)\<rparr>))
          \<lparr>ct_grants := filter (\<lambda>g. \<not> (grant_org (gr_grant g) = au_orgId auth \<and> stype (grant_scope (gr_grant g)) = ScopeType.Layer
         \<and> sid (grant_scope (gr_grant g)) = ly_id l)) (ct_grants cat)\<rparr>)"
    unfolding removeLayer_def Let_def by (auto split: if_splits option.splits sum.splits prod.splits)
  from l(2) have "l \<in> set (ct_layers cat) \<and> ly_org l = au_orgId auth \<and> \<not> ly_deleted l \<and> ca_uuid_in casts layerId = Some (ly_id l)"
    by (auto simp: find_layer_def find_Some_iff split: option.splits)
  with l rest True show thesis by (intro removed) (auto simp: bump_def update_layers_def)
next
  case False
  with assms have "cat' = cat"
    unfolding removeLayer_def Let_def by (auto split: if_splits option.splits sum.splits prod.splits)
  with False show thesis by (rule same)
qed

lemma removeLayer_ok:
  assumes ok: "catalog_ok cat" and run: "removeLayer client casts now auth cache layerId (cat, s) c = (r, cat', s')"
  shows "catalog_ok cat'"
  using run
proof (cases rule: removeLayer_cases)
  case (removed l named)
  let ?f = "\<lambda>m. if ly_org m = au_orgId auth \<and> ly_id m = ly_id l then m\<lparr>ly_deleted := True\<rparr> else m"
  have layer: "m \<in> set (ct_layers cat') \<longleftrightarrow> (\<exists>x \<in> set (ct_layers cat). m = ?f x)" for m by (auto simp: removed(5))
  have kept: "\<exists>x \<in> set (ct_layers cat). ly_id m = ly_id x \<and> ly_org m = ly_org x \<and> ly_slug m = ly_slug x \<and> ly_workspace m = ly_workspace x
      \<and> (\<not> ly_deleted m \<longrightarrow> \<not> ly_deleted x)" if m: "m \<in> set (ct_layers cat')" for m
  proof -
    obtain x where "x \<in> set (ct_layers cat)" "m = ?f x" using m unfolding layer by (rule bexE)
    then show ?thesis by (intro bexI [of _ x]) simp_all
  qed
  have "map ly_id (ct_layers cat') = map ly_id (ct_layers cat)" by (simp add: removed(5))
  moreover have "keyed (ct_docs cat')" using catalog_okD(1) [OF ok] by (simp add: wf_catalog_def removed(6) keyed_update_where)
  ultimately have "wf_catalog cat'"
    using catalog_okD(1) [OF ok] by (simp add: wf_catalog_def removed(7,8) distinct_map_filter)
  moreover have "stype (grant_scope (gr_grant q)) \<noteq> Document \<and> scope_exists cat' (grant_org (gr_grant q)) (grant_scope (gr_grant q))" if q: "q \<in> set (ct_grants cat')" for q
  proof -
    have "q \<in> set (ct_grants cat)" "\<not> named q" using q by (auto simp: removed(7))
    with catalog_okD(5) [OF ok] have t: "stype (grant_scope (gr_grant q)) \<noteq> Document"
      and e: "scope_exists cat (grant_org (gr_grant q)) (grant_scope (gr_grant q))" by simp_all
    have "scope_exists cat' (grant_org (gr_grant q)) (grant_scope (gr_grant q))"
    proof (cases "stype (grant_scope (gr_grant q)) = Workspace")
      case True
      with e show ?thesis by (simp add: scope_exists_def removed(8))
    next
      case False
      with e obtain m where m: "m \<in> set (ct_layers cat)" "ly_org m = grant_org (gr_grant q)" "ly_id m = sid (grant_scope (gr_grant q))"
        "\<not> ly_deleted m" by (auto simp: scope_exists_def)
      have "stype (grant_scope (gr_grant q)) = ScopeType.Layer" using t False by (cases "stype (grant_scope (gr_grant q))") auto
      then have "?f m = m" using \<open>\<not> named q\<close> m by (auto simp: removed(4))
      with m(1) have "m \<in> set (ct_layers cat')" unfolding layer by force
      with m False show ?thesis by (auto simp: scope_exists_def)
    qed
    with t show ?thesis by simp
  qed
  moreover have "ly_id x = ly_id m" if "x \<in> set (ct_layers cat')" "m \<in> set (ct_layers cat')" "ly_org x = ly_org m" "\<not> ly_deleted x"
      "\<not> ly_deleted m" "same_text (ly_slug x) (ly_slug m)" for x m
    using kept [OF that(1)] kept [OF that(2)] that(3-) catalog_okD(2) [OF ok] by metis
  moreover have "\<exists>k \<in> set (ct_workspaces cat'). wk_org k = ly_org m \<and> wk_id k = ly_workspace m" if "m \<in> set (ct_layers cat')" for m
    using kept [OF that] catalog_okD(3) [OF ok] unfolding removed(8) by metis
  ultimately show ?thesis
    using catalog_okD(4) [OF ok] by (intro catalog_okI) (simp_all add: removed(7))
qed (use ok in simp)

lemma upsert_grant_keys:
  assumes up: "upsert_grant newId now g rows = (row, rows')" and fresh: "newId \<notin> gr_id ` set rows"
    and ids: "distinct (map gr_id rows)"
    and unique: "\<And>r q. r \<in> set rows \<Longrightarrow> q \<in> set rows \<Longrightarrow> same_grant (gr_grant r) (gr_grant q) \<Longrightarrow> gr_id r = gr_id q"
  shows "distinct (map gr_id rows')"
    and "r \<in> set rows' \<Longrightarrow> q \<in> set rows' \<Longrightarrow> same_grant (gr_grant r) (gr_grant q) \<Longrightarrow> gr_id r = gr_id q"
proof (atomize (full), cases "find (\<lambda>r. same_grant (gr_grant r) g) rows")
  case None
  then have "\<forall>r \<in> set rows. \<not> same_grant (gr_grant r) g \<and> \<not> same_grant g (gr_grant r)"
    by (auto simp: find_None_iff same_grant_def)
  moreover have "rows' = rows @ [\<lparr>gr_id = newId, gr_grant = g, gr_source = ''api'', gr_created = now\<rparr>]"
    using up None by (auto simp: upsert_grant_def Let_def)
  ultimately show "distinct (map gr_id rows') \<and>
    (r \<in> set rows' \<longrightarrow> q \<in> set rows' \<longrightarrow> same_grant (gr_grant r) (gr_grant q) \<longrightarrow> gr_id r = gr_id q)"
    using ids fresh unique by auto
next
  case (Some x)
  let ?f = "\<lambda>q. if same_grant (gr_grant q) g then q\<lparr>gr_grant := g\<rparr> else q"
  have rows': "rows' = map ?f rows" using up Some by (simp add: upsert_grant_def)
  have f: "gr_id (?f r) = gr_id r" "same_grant (gr_grant (?f r)) (gr_grant (?f q)) = same_grant (gr_grant r) (gr_grant q)" for r q
    by (auto simp: same_grant_def)
  have "map gr_id rows' = map gr_id rows" by (simp add: rows')
  moreover have "gr_id r = gr_id q" if m: "r \<in> set rows'" "q \<in> set rows'" and same: "same_grant (gr_grant r) (gr_grant q)"
  proof -
    obtain r0 q0 where z: "r0 \<in> set rows" "q0 \<in> set rows" "r = ?f r0" "q = ?f q0" using m unfolding rows' set_map by (elim imageE)
    from same have "same_grant (gr_grant r0) (gr_grant q0)" unfolding z(3,4) f(2) .
    from unique [OF z(1,2) this] show ?thesis unfolding z(3,4) f(1) .
  qed
  ultimately show "distinct (map gr_id rows') \<and>
    (r \<in> set rows' \<longrightarrow> q \<in> set rows' \<longrightarrow> same_grant (gr_grant r) (gr_grant q) \<longrightarrow> gr_id r = gr_id q)"
    using ids by auto
qed

lemma issue_ok:
  assumes ok: "catalog_ok cat" and "newId \<notin> gr_id ` set (ct_grants cat)" and "stype (gi_scope input) \<noteq> Document"
    and run: "issue casts newId now auth cache input cat c = (r, cat')"
  shows "catalog_ok cat'"
proof (cases "cat' = cat")
  case False
  with run obtain g row rows' where up: "upsert_grant newId now g (ct_grants cat) = (row, rows')"
    and c: "cat' = bump (au_orgId auth) 1 (cat\<lparr>ct_grants := rows'\<rparr>)"
    and g: "scope_exists cat (grant_org g) (grant_scope g) \<and> stype (grant_scope g) = stype (gi_scope input)"
    unfolding issue_def Let_def by (auto split: if_splits option.splits prod.splits)
  note keys = upsert_grant_keys [OF up assms(2) _ catalog_okD(4) [OF ok]]
  have c': "ct_grants cat' = rows'" "ct_layers cat' = ct_layers cat" "ct_workspaces cat' = ct_workspaces cat" "ct_docs cat' = ct_docs cat"
    by (simp_all add: c bump_def)
  have ids: "distinct (map gr_id (ct_grants cat))" using catalog_okD(1) [OF ok] by (simp add: wf_catalog_def)
  have "gr_grant x = g \<or> gr_grant x \<in> gr_grant ` set (ct_grants cat)" if "x \<in> set rows'" for x
    using upsert_grant_set [OF up] that by (auto simp: upserted_grants_def set_eq_iff)
  then have "stype (grant_scope (gr_grant x)) \<noteq> Document \<and> scope_exists cat (grant_org (gr_grant x)) (grant_scope (gr_grant x))"
    if "x \<in> set rows'" for x
    using that g assms(3) catalog_okD(5) [OF ok] by (metis (no_types, lifting) imageE)
  moreover have "scope_exists cat' = scope_exists cat" by (simp add: scope_exists_def fun_eq_iff c')
  moreover have "wf_catalog cat'" using catalog_okD(1) [OF ok] keys(1) [OF ids] by (simp add: wf_catalog_def c')
  ultimately show ?thesis
    using catalog_okD(2,3) [OF ok] keys(2) [OF ids] by (intro catalog_okI) (simp_all add: c')
qed (use ok in simp)

lemma revoke_ok:
  assumes ok: "catalog_ok cat" and run: "revoke casts auth cache grantId cat c = (r, cat')"
  shows "catalog_ok cat'"
proof (cases "cat' = cat")
  case False
  with run obtain n P where "cat' = bump (au_orgId auth) n (cat\<lparr>ct_grants := filter P (ct_grants cat)\<rparr>)"
    unfolding revoke_def Let_def by (auto split: if_splits option.splits)
  then have c': "ct_grants cat' = filter P (ct_grants cat)" "ct_layers cat' = ct_layers cat" "ct_workspaces cat' = ct_workspaces cat"
      "ct_docs cat' = ct_docs cat"
    by (simp_all add: bump_def)
  moreover have "scope_exists cat' = scope_exists cat" by (simp add: scope_exists_def fun_eq_iff c')
  moreover have "wf_catalog cat'" using catalog_okD(1) [OF ok] by (simp add: wf_catalog_def c' distinct_map_filter)
  ultimately show ?thesis using catalog_okD(2-) [OF ok] by (intro catalog_okI) simp_all
qed (use ok in simp)

lemma catalog_step_ok: "catalog_step client casts st st' \<Longrightarrow> catalog_ok (fst st) \<Longrightarrow> catalog_ok (fst st')"
proof (induction rule: catalog_step.induct)
  case (workspace newId cat now auth slug name r cat' s)
  then show ?case using createWorkspace_ok [OF _ workspace(1,2)] by simp
next
  case (layer newId cat vectorsOf now auth cache input c q cat' s)
  then show ?case using createLayer_ok [OF _ layer(1,2)] by simp
next
  case (rename auth cache layerId nm description cat c u cat' s)
  then show ?case using updateLayer_ok [OF _ rename(1)] by simp
next
  case (remove now auth cache layerId cat s c u cat' s')
  then show ?case using removeLayer_ok [OF _ remove(1)] by simp
next
  case (issue newId cat grant now auth cache c g cat' s)
  then show ?case using issue_ok [OF _ issue(1,2,3)] by simp
next
  case (revoke auth cache grantId cat c u cat' s)
  then show ?case using revoke_ok [OF _ revoke(1)] by simp
qed

subsection \<open>The properties\<close>

lemma narrowing_documents:
  assumes "db_documents db = db_documents db'"
  shows "narrowingAdmits db auth scopes p scope = narrowingAdmits db' auth scopes p scope"
  unfolding narrowingAdmits_def assms ..

lemma find_None_append: "find P xs = None \<Longrightarrow> find P (xs @ ys) = find P ys"
  by (induction xs) (auto split: if_splits)

lemma issue_cases:
  assumes "issue casts newId now auth cache input cat c = (Inr (Some issued), cat')"
    and "ca_uuid_in casts (sid (gi_scope input)) = Some (sid (gi_scope input))"
  obtains gi row rows' where
    "upsert_grant newId now \<lparr>grant_org = au_orgId auth, grant_principal = (gi_principal input)\<lparr>pid := gi\<rparr>, grant_scope = gi_scope input,
       grant_permission = gi_permission input, grant_effect = Allow\<rparr> (ct_grants cat) = (row, rows')"
    "cat' = bump (au_orgId auth) 1 (cat\<lparr>ct_grants := rows'\<rparr>)" "gv_id issued = gr_id row"
    "referenceAllows (fst (contextFor (db_of cat) auth cache c)) (gi_scope input) Admin"
    "narrowingAdmits (db_of cat) auth [gi_scope input] Admin (gi_scope input)" "scope_exists cat (au_orgId auth) (gi_scope input)"
  using assms by (auto simp: issue_def Let_def grant_view_def split: if_splits option.splits prod.splits)

text \<open>C7 - Issuing a grant cannot escalate. When an issue succeeds, the caller administers the scope it names by the
  rules on the organization's whole tree, and a narrowing admits it; nobody loses access by it; and
  whoever gains access to a document gains it inside the caller's organization, on a document that lies
  in the scope the grant names - nothing above it or beside it is opened.\<close>

theorem issue_no_escalation:
  assumes "cached_request h (db_of cat) auth c" and "stype (gi_scope input) \<noteq> Document"
    and "ca_uuid_in casts (sid (gi_scope input)) = Some (sid (gi_scope input))"
    and "issue casts newId now auth (shared_cache ttl) input cat c = (Inr (Some issued), cat')"
  shows "referenceAllows (rules_input (db_of cat) auth) (gi_scope input) Admin
    \<and> narrowingAdmits (db_of cat) auth [gi_scope input] Admin (gi_scope input)
    \<and> (\<forall>other p d. rules_allow (db_of cat) other p d \<longrightarrow> rules_allow (db_of cat') other p d)
    \<and> (\<forall>other p d. rules_allow (db_of cat') other p d \<and> \<not> rules_allow (db_of cat) other p d \<longrightarrow>
         au_orgId other = au_orgId auth \<and> gi_scope input \<in> set (ancestry \<lparr>stype = Document, sid = d\<rparr> (fullTree (db_of cat) (au_orgId auth))))"
proof -
  obtain gi row rows' where up: "upsert_grant newId now \<lparr>grant_org = au_orgId auth, grant_principal = (gi_principal input)\<lparr>pid := gi\<rparr>,
        grant_scope = gi_scope input, grant_permission = gi_permission input, grant_effect = Allow\<rparr> (ct_grants cat) = (row, rows')"
    and cat': "cat' = bump (au_orgId auth) 1 (cat\<lparr>ct_grants := rows'\<rparr>)"
    and may: "referenceAllows (fst (contextFor (db_of cat) auth (shared_cache ttl) c)) (gi_scope input) Admin"
      "narrowingAdmits (db_of cat) auth [gi_scope input] Admin (gi_scope input)"
    by (rule issue_cases [OF assms(4,3)])
  define g where "g = \<lparr>grant_org = au_orgId auth, grant_principal = (gi_principal input)\<lparr>pid := gi\<rparr>,
        grant_scope = gi_scope input, grant_permission = gi_permission input, grant_effect = Allow\<rparr>"
  have g: "grant_org g = au_orgId auth" "grant_scope g = gi_scope input" "grant_effect g = Allow" by (simp_all add: g_def)
  have set: "set (map gr_grant rows') = upserted_grants g (ri_grants (rules_input (db_of cat) other))" for other
    using upsert_grant_set [OF up [folded g_def]] by (simp add: rules_input_def db_of_def)
  have tree: "ri_tree (rules_input (db_of cat) other) = fullTree (db_of cat) (au_orgId other)"
    "ri_orgId (rules_input (db_of cat) other) = au_orgId other" for other
    by (simp_all add: rules_input_def)
  note up = upsert_allows [OF set g(3)]
  show ?thesis
    using may request_scope [OF assms(1,2)] up(1) up(2)
    unfolding rules_allow_def cat' rules_input_grants by (auto simp: g tree)
qed

text \<open>Revoking undoes issuing. A grant that an issue has just written can be revoked by the same caller under the
  id the issue answered with, and the grants are then row for row what they were before; both leave
  the organization's version counter moved, so no cached closure survives them.\<close>

theorem issue_then_revoke:
  assumes "cached_request h (db_of cat) auth c" and "cached_request h' (db_of cat') auth c'" and "stype (gi_scope input) \<noteq> Document"
    and "ca_uuid_in casts (sid (gi_scope input)) = Some (sid (gi_scope input))"
    and "newId \<notin> gr_id ` set (ct_grants cat)" and "canonical casts newId"
    and "issue casts newId now auth (shared_cache ttl) input cat c = (Inr (Some issued), cat')" and "gv_id issued = newId"
  shows "revoke casts auth (shared_cache ttl) newId cat' c' = (Inr True, bump (au_orgId auth) 2 cat)"
proof -
  obtain gi row rows' where up: "upsert_grant newId now \<lparr>grant_org = au_orgId auth, grant_principal = (gi_principal input)\<lparr>pid := gi\<rparr>,
        grant_scope = gi_scope input, grant_permission = gi_permission input, grant_effect = Allow\<rparr> (ct_grants cat) = (row, rows')"
    and cat': "cat' = bump (au_orgId auth) 1 (cat\<lparr>ct_grants := rows'\<rparr>)" and gid: "gv_id issued = gr_id row"
    and may: "referenceAllows (fst (contextFor (db_of cat) auth (shared_cache ttl) c)) (gi_scope input) Admin"
      "narrowingAdmits (db_of cat) auth [gi_scope input] Admin (gi_scope input)"
    by (rule issue_cases [OF assms(7,4)])
  define g where "g = \<lparr>grant_org = au_orgId auth, grant_principal = (gi_principal input)\<lparr>pid := gi\<rparr>,
        grant_scope = gi_scope input, grant_permission = gi_permission input, grant_effect = Allow\<rparr>"
  note up = up [folded g_def]
  have row: "row = \<lparr>gr_id = newId, gr_grant = g, gr_source = ''api'', gr_created = now\<rparr>" "rows' = ct_grants cat @ [row]"
    using up gid assms(5,8) by (auto simp: upsert_grant_def Let_def find_Some_iff split: option.splits)
  let ?named = "\<lambda>r. grant_org (gr_grant r) = au_orgId auth \<and> gr_id r = newId"
  have fresh: "\<not> ?named r" if "r \<in> set (ct_grants cat)" for r using that assms(5) by blast
  have "find ?named (ct_grants cat) = None" using fresh by (simp add: find_None_iff)
  then have "find ?named (ct_grants cat' ) = Some row"
    by (simp add: cat' bump_def row(2) find_None_append) (simp add: row(1) g_def)
  moreover have kept: "filter (\<lambda>r. \<not> ?named r) (ct_grants cat') = ct_grants cat" "length (filter ?named (ct_grants cat')) = 1"
    using fresh by (auto simp: cat' bump_def row(2) filter_empty_conv filter_id_conv) (auto simp: row(1) g_def)
  moreover have "referenceAllows (fst (contextFor (db_of cat') auth (shared_cache ttl) c')) (gi_scope input) Admin"
  proof -
    have "set (map gr_grant rows') = upserted_grants g (ri_grants (rules_input (db_of cat) auth))"
      using upsert_grant_set [OF up] by (simp add: rules_input_def db_of_def)
    from upsert_allows(1) [OF this] may(1) request_scope [OF assms(1,3)] request_scope [OF assms(2,3)]
    show ?thesis by (simp add: cat' rules_input_grants g_def)
  qed
  moreover have "narrowingAdmits (db_of cat') auth [gi_scope input] Admin (gi_scope input)"
    using may(2) narrowing_documents [of "db_of cat'" "db_of cat"] by (simp add: cat' bump_def db_of_def)
  moreover have "gr_grant row = g" "grant_scope g = gi_scope input" by (simp_all add: row(1) g_def)
  moreover have "bump (au_orgId auth) 1 (cat'\<lparr>ct_grants := ct_grants cat\<rparr>) = bump (au_orgId auth) 2 cat"
    by (auto simp: cat' bump_def option.map_comp comp_def fun_eq_iff)
  ultimately show ?thesis
    using assms(6) by (simp add: revoke_def Let_def canonical_def)
qed

text \<open>Following \<open>next_cursor\<close> through \<open>GET /v1/grants\<close> ends, after at most one request per row and one more, having shown
  each grant that is to be seen exactly once, in order - pages that come back short or empty because
  of the filter included; and what is shown lies on a scope the rules let the caller administer.\<close>

theorem grants_walk:
  assumes "listing_ok s"
  shows "walk (Suc (length (grant_rows s))) (with_cursor (ca_date_ok (la_casts s)) Uuid (grants_page s)) None
      = Some (map grant_view (filter (grant_shown s) (grant_rows s)))
    \<and> (\<forall>r. grant_shown s r \<longrightarrow> referenceAllows (rules_input (la_db s) (la_auth s)) (grant_scope (gr_grant r)) Admin)
    \<and> (\<forall>r. stype (grant_scope (gr_grant r)) \<noteq> Document \<longrightarrow> (grant_shown s r \<longleftrightarrow>
         referenceAllows (rules_input (la_db s) (la_auth s)) (grant_scope (gr_grant r)) Admin
         \<and> narrowingAdmits (la_db s) (la_auth s) [grant_scope (gr_grant r)] Admin (grant_scope (gr_grant r))))"
proof -
  obtain h where req: "cached_request h (la_db s) (la_auth s) (la_cache s)" using assms by (auto simp: listing_ok_def)
  have wf: "wf_db (la_db s)" using assms catalog_wf by (simp add: listing_ok_def la_db_def)
  note plain = request_scope [OF req, where ttl = "la_ttl s", folded la_context_def]
  note doc = request_document [OF req wf, where ttl = "la_ttl s", folded la_context_def]
  show ?thesis
    using grant_pages.walk_all [OF assms] plain doc unfolding grant_shown_def by blast
qed

theorem grants_walk_witness:
  "map_option (map gv_id) (walk 2 (with_cursor (\<lambda>_. True) Uuid (grants_page sample_list)) None) = Some [uid CHR ''c'']"
proof -
  have rules: "layer_allowed (la_db sample_list) (la_auth sample_list) Admin (uid CHR ''1'')"
    "\<forall>r \<in> set (ct_grants sample_cat). stype (grant_scope (gr_grant r)) \<noteq> Document
       \<and> referenceAllows (rules_input (la_db sample_list) (la_auth sample_list)) (grant_scope (gr_grant r)) Admin
       \<and> narrowingAdmits (la_db sample_list) (la_auth sample_list) [grant_scope (gr_grant r)] Admin (grant_scope (gr_grant r))"
    by code_simp+
  have "resolve (la_context sample_list) Admin \<noteq> PlanNone"
    using rules(1) context_layer [OF sample_listing, of Admin "uid CHR ''1''"] by (auto simp: plan_has_layer_def)
  then have rows: "grant_rows sample_list = ct_grants sample_cat"
    by (simp add: grant_rows_def sample_list_def sample_cat_def sample_auth_def)
  note walk = grants_walk [OF sample_listing]
  have "filter (grant_shown sample_list) (ct_grants sample_cat) = ct_grants sample_cat"
    using rules(2) walk by (simp add: filter_id_conv)
  moreover have "map (gv_id \<circ> grant_view) (ct_grants sample_cat) = [uid CHR ''c'']" "length (ct_grants sample_cat) = 1"
    by (simp_all add: grant_view_def Let_def sample_cat_def)
  moreover have "ca_date_ok (la_casts sample_list) = (\<lambda>_. True)" by (simp add: sample_list_def sample_casts_def)
  ultimately show ?thesis
    using conjunct1 [OF walk] by (simp add: rows eval_nat_numeral)
qed

text \<open>Ada, who administers the workspace, lets another user read one of its layers.\<close>

definition sample_grant :: GrantInput where
  "sample_grant = \<lparr>gi_principal = \<lparr>ptype = User, pid = uid CHR ''d''\<rparr>, gi_scope = \<lparr>stype = ScopeType.Layer, sid = uid CHR ''1''\<rparr>, gi_permission = Read\<rparr>"

abbreviation "sample_issue \<equiv> issue sample_casts (uid CHR ''e'') 9 sample_auth (shared_cache 60) sample_grant sample_cat no_cache"

lemma sample_scope:
  "stype (gi_scope sample_grant) \<noteq> Document" "ca_uuid_in sample_casts (sid (gi_scope sample_grant)) = Some (sid (gi_scope sample_grant))"
  using sample_canonical(6) by (simp_all add: sample_grant_def canonical_def)

lemma sample_issued: "\<exists>issued cat'. sample_issue = (Inr (Some issued), cat') \<and> gv_id issued = uid CHR ''e''"
proof -
  have "referenceAllows (rules_input (db_of sample_cat) sample_auth) (gi_scope sample_grant) Admin"
    "scope_exists sample_cat (au_orgId sample_auth) (gi_scope sample_grant)"
    "principal_exists sample_cat (au_orgId sample_auth) (gi_principal sample_grant)"
    "narrowingAdmits (db_of sample_cat) sample_auth [gi_scope sample_grant] Admin (gi_scope sample_grant)"
    by code_simp+
  moreover have "find (\<lambda>r. same_grant (gr_grant r) g) (ct_grants sample_cat) = None" if "grant_permission g = Read" for g
    using that by (simp add: sample_cat_def same_grant_def)
  moreover have "pid (gi_principal sample_grant) = uid CHR ''d''" "sid (gi_scope sample_grant) = uid CHR ''1''" "gi_permission sample_grant = Read"
    by (simp_all add: sample_grant_def)
  ultimately show ?thesis
    using sample_canonical(4,6) request_scope [OF sample_cached sample_scope(1)]
    by (simp add: issue_def Let_def canonical_def upsert_grant_def grant_view_def principal_exists_def scope_exists_def
        split: if_splits)
qed

theorem issue_no_escalation_witness:
  "\<exists>issued cat'. sample_issue = (Inr (Some issued), cat')
     \<and> referenceAllows (rules_input (db_of sample_cat) sample_auth) (gi_scope sample_grant) Admin"
proof -
  obtain issued cat' where i: "sample_issue = (Inr (Some issued), cat')" using sample_issued by blast
  from issue_no_escalation [where casts = sample_casts, OF sample_cached sample_scope i] i show ?thesis by blast
qed

theorem issue_then_revoke_witness:
  "revoke sample_casts sample_auth (shared_cache 60) (uid CHR ''e'') (snd sample_issue) no_cache = (Inr True, bump ''acme'' 2 sample_cat)"
proof -
  obtain issued cat' where i: "sample_issue = (Inr (Some issued), cat')" "gv_id issued = uid CHR ''e''" using sample_issued by blast
  have "uid CHR ''e'' \<notin> gr_id ` set (ct_grants sample_cat)" by (simp add: sample_cat_def uid_def)
  from issue_then_revoke [where casts = sample_casts, OF sample_cached sample_cached sample_scope this sample_canonical(5) i]
  show ?thesis unfolding i(1) snd_conv by (simp add: sample_auth_def)
qed

text \<open>C12 - Whatever sequence of workspace, layer and grant operations runs, by whichever callers, the catalog stays well formed:
  identifiers are unique, no two live layers of an organization answer to one slug in any case, every
  layer lies in a workspace of its organization, no grant is there twice, and every grant names a scope
  that is there - a deleted layer leaves no grant behind.\<close>

theorem catalog_invariant:
  assumes "(catalog_step client casts)\<^sup>*\<^sup>* (cat, s) (cat', s')" and "catalog_ok cat"
  shows "catalog_ok cat'"
proof -
  have "catalog_ok (fst st')" if "(catalog_step client casts)\<^sup>*\<^sup>* st st'" "catalog_ok (fst st)" for st st'
    using that by (induction rule: rtranclp_induct) (auto dest: catalog_step_ok)
  from this [OF assms(1)] assms(2) show ?thesis by simp
qed

theorem catalog_invariant_witness:
  "\<exists>cat'. (catalog_step memory_client sample_casts)\<^sup>*\<^sup>* (sample_cat, \<lambda>_. Map.empty) (cat', \<lambda>_. Map.empty) \<and> length (ct_grants cat') = 2 \<and> catalog_ok cat'"
proof -
  obtain issued cat' where i: "sample_issue = (Inr (Some issued), cat')" using sample_issued by blast
  have "uid CHR ''e'' \<notin> gr_id ` set (ct_grants sample_cat)" by (simp add: sample_cat_def uid_def)
  from catalog_step.issue [where client = memory_client and s = "\<lambda>_. Map.empty", OF this sample_scope(1) i]
  have run: "(catalog_step memory_client sample_casts)\<^sup>*\<^sup>* (sample_cat, \<lambda>_. Map.empty) (cat', \<lambda>_. Map.empty)" by blast
  have "catalog_ok sample_cat" by code_simp
  from catalog_invariant [OF run this] have "catalog_ok cat'" .
  moreover have "length (ct_grants cat') = 2"
  proof -
    obtain gi row rows' where up: "upsert_grant (uid CHR ''e'') 9 \<lparr>grant_org = au_orgId sample_auth, grant_principal = (gi_principal sample_grant)\<lparr>pid := gi\<rparr>,
        grant_scope = gi_scope sample_grant, grant_permission = gi_permission sample_grant, grant_effect = Allow\<rparr> (ct_grants sample_cat) = (row, rows')"
      and c: "cat' = bump (au_orgId sample_auth) 1 (sample_cat\<lparr>ct_grants := rows'\<rparr>)"
      by (rule issue_cases [OF i sample_scope(2)])
    from up have "length rows' = 2"
      by (auto simp: upsert_grant_def sample_cat_def same_grant_def sample_grant_def Let_def split: if_splits)
    then show ?thesis by (simp add: c bump_def)
  qed
  ultimately show ?thesis using run by blast
qed

text \<open>C11 - A removed layer is gone on every side. When the removal of a layer, named by its canonical id, succeeds, the
  caller administers its workspace by the rules and the delegation admits the layer; every point of the
  collection that carries the layer is flagged deleted; no document of the layer and not the layer
  itself is live; and no grant names it.\<close>

theorem removed_layer_gone:
  assumes "qdrant_store client view" and "cached_request h (db_of cat) auth c" and "catalog_ok cat"
    and "ca_uuid_in casts layerId = Some layerId" and "ct_collections cat (au_orgId auth) = Some coll"
    and "removeLayer client casts now auth (shared_cache ttl) layerId (cat, s) c = (Inr True, cat', s')"
  shows "(\<exists>l \<in> set (ct_layers cat). ly_id l = layerId \<and> workspace_allowed (db_of cat) auth Admin (ly_workspace l))
    \<and> withinDelegation auth layerId Admin
    \<and> (\<forall>i p. view s' coll i = Some p \<and> map_of (pt_payload p) ''layer_id'' = Some (JStr layerId) \<longrightarrow>
         map_of (pt_payload p) ''deleted'' = Some (JBool True))
    \<and> (\<forall>d \<in> set (ct_docs cat'). qd_org d = au_orgId auth \<and> qd_layer d = layerId \<longrightarrow> qd_deleted_at d \<noteq> None)
    \<and> (\<forall>l \<in> set (ct_layers cat'). ly_id l = layerId \<longrightarrow> ly_deleted l)
    \<and> (\<forall>r \<in> set (ct_grants cat'). grant_scope (gr_grant r) \<noteq> \<lparr>stype = ScopeType.Layer, sid = layerId\<rparr>)"
  using assms(6)
proof (cases rule: removeLayer_cases)
  case same
  then show ?thesis by simp
next
  case (removed l named)
  have id: "ly_id l = layerId" using removed(11) assms(4) by simp
  have "workspace_allowed (db_of cat) auth Admin (ly_workspace l)" "withinDelegation auth layerId Admin"
    using removed(10) request_scope [OF assms(2), of "workspace_scope (ly_workspace l)"] by (simp_all add: administers_layer_def workspace_allowed_def)
  moreover have "map_of (pt_payload p) ''deleted'' = Some (JBool True)"
    if "view s' coll i = Some p" "map_of (pt_payload p) ''layer_id'' = Some (JStr layerId)" for i p
    using tombstoneLayer_view [OF assms(1) _ that] removed(9) assms(5) by auto
  moreover have "qd_deleted_at d \<noteq> None" if d: "d \<in> set (ct_docs cat')" "qd_org d = au_orgId auth" "qd_layer d = layerId" for d
  proof -
    let ?live = "\<lambda>d. qd_org d = au_orgId auth \<and> qd_layer d = ly_id l \<and> qd_deleted_at d = None"
    obtain e where e: "d = (if ?live e then e\<lparr>qd_deleted_at := Some now\<rparr> else e)"
      using d(1) unfolding removed(6) in_update_where by (rule bexE)
    show ?thesis
    proof (cases "?live e")
      case False
      then have "d = e" using e by simp
      with False d id show ?thesis by simp
    qed (simp add: e)
  qed
  moreover have "ly_deleted m" if m: "m \<in> set (ct_layers cat')" "ly_id m = layerId" for m
  proof -
    obtain x where x: "x \<in> set (ct_layers cat)"
      "m = (if ly_org x = au_orgId auth \<and> ly_id x = ly_id l then x\<lparr>ly_deleted := True\<rparr> else x)"
      using m(1) unfolding removed(5) set_map by (elim imageE)
    have "distinct (map ly_id (ct_layers cat))" using catalog_okD(1) [OF assms(3)] by (simp add: wf_catalog_def)
    moreover have "ly_id x = ly_id l" using x(2) m(2) id by (simp split: if_splits)
    ultimately have "x = l" using distinct_map_filter_inj x(1) removed(1) by metis
    with x(2) removed(2) show ?thesis by simp
  qed
  moreover have "grant_scope (gr_grant r) \<noteq> \<lparr>stype = ScopeType.Layer, sid = layerId\<rparr>" if r: "r \<in> set (ct_grants cat')" for r
  proof
    assume here: "grant_scope (gr_grant r) = \<lparr>stype = ScopeType.Layer, sid = layerId\<rparr>"
    have old: "r \<in> set (ct_grants cat)" "\<not> named r" using r by (auto simp: removed(7))
    with catalog_okD(5) [OF assms(3) old(1)] here obtain m where "m \<in> set (ct_layers cat)" "ly_org m = grant_org (gr_grant r)" "ly_id m = layerId"
      by (auto simp: scope_exists_def)
    moreover have "distinct (map ly_id (ct_layers cat))" using catalog_okD(1) [OF assms(3)] by (simp add: wf_catalog_def)
    ultimately have "m = l" using distinct_map_filter_inj [OF _ _ removed(1)] id by metis
    with \<open>ly_org m = _\<close> removed(2) old(2) here show False by (simp add: removed(4) id)
  qed
  ultimately show ?thesis using removed(1) id by (intro conjI allI ballI impI bexI [of _ l]) blast+
qed

theorem removed_layer_gone_witness:
  "\<exists>cat' s'. removeLayer memory_client sample_casts 7 sample_auth (shared_cache 60) (uid CHR ''1'') (sample_cat, \<lambda>_. Map.empty) no_cache = (Inr True, cat', s')
     \<and> filter (\<lambda>l. ly_id l = uid CHR ''1'' \<and> \<not> ly_deleted l) (ct_layers cat') = []"
proof -
  let ?run = "removeLayer memory_client sample_casts 7 sample_auth (shared_cache 60) (uid CHR ''1'') (sample_cat, \<lambda>_. Map.empty) no_cache"
  have c: "ca_uuid_in sample_casts (uid CHR ''1'') = Some (uid CHR ''1'')" "uuid_shaped (uid CHR ''1'')"
    using sample_canonical(6) by (simp_all add: canonical_def)
  have "workspace_allowed (db_of sample_cat) sample_auth Admin (uid CHR ''a'')" "withinDelegation sample_auth (uid CHR ''1'') Admin" "catalog_ok sample_cat"
    by code_simp+
  note facts = this
  have org: "ct_collections sample_cat (au_orgId sample_auth) = Some ''org_acme''" by (simp add: sample_cat_def sample_auth_def)
  have "find_layer sample_casts (au_orgId sample_auth) (uid CHR ''1'') sample_cat = Inr (Some (catalog_layer CHR ''1''))"
    unfolding find_layer_def c(1) option.case by (simp add: sample_cat_def sample_auth_def catalog_layer_def uid_def)
  moreover have "administers_layer (fst (contextFor (db_of sample_cat) sample_auth (shared_cache 60) no_cache)) sample_auth (uid CHR ''1'') (catalog_layer CHR ''1'')"
    using facts request_scope [OF sample_cached, of "workspace_scope (uid CHR ''a'')"]
    by (simp add: administers_layer_def catalog_layer_def workspace_allowed_def)
  moreover have "fst (tombstoneLayer memory_client ''org_acme'' (uid CHR ''1'') st) = Inr ()" for st
    by (simp add: tombstoneLayer_def memory_client_def)
  then obtain s' where "tombstoneLayer memory_client ''org_acme'' (uid CHR ''1'') (\<lambda>_. Map.empty) = (Inr (), s')" by (metis prod.collapse)
  ultimately obtain cat' where run: "?run = (Inr True, cat', s')" using c org by (simp add: removeLayer_def Let_def)
  from removed_layer_gone [where view = memory_view and casts = sample_casts, OF memory_store sample_cached facts(3) c(1) org run]
  have "filter (\<lambda>l. ly_id l = uid CHR ''1'' \<and> \<not> ly_deleted l) (ct_layers cat') = []" by (auto simp: filter_empty_conv)
  with run show ?thesis by blast
qed

text \<open>
  The slug of a removed layer stays taken in its workspace: the constraint on \<open>(workspace_id, slug)\<close> counts deleted rows.
\<close>

theorem removed_slug_taken:
  assumes "removeLayer client casts now auth cache layerId (cat, s) c = (Inr True, cat', s')"
  shows "\<exists>l \<in> set (ct_layers cat). ly_org l = au_orgId auth \<and> ca_uuid_in casts layerId = Some (ly_id l)
    \<and> slug_taken cat' (au_orgId auth) (ly_workspace l) (ly_slug l)"
  using assms
proof (cases rule: removeLayer_cases)
  case (removed l named)
  have "l\<lparr>ly_deleted := True\<rparr> \<in> set (ct_layers cat')"
    unfolding removed(5) set_map using removed(1,2) by (intro image_eqI [of _ _ l]) simp_all
  then have "slug_taken cat' (au_orgId auth) (ly_workspace l) (ly_slug l)"
    unfolding slug_taken_def by (rule bexI [rotated]) (simp add: same_text_def)
  with removed show ?thesis by blast
qed simp

definition bare_cat :: Catalog where
  "bare_cat = sample_cat\<lparr>ct_layers := []\<rparr>"

text \<open>Whoever administers a workspace that holds no layers can issue grants on it and cannot list them: the listing
  resolves a plan of layers first and answers empty when there is none, without asking about the workspace.\<close>

theorem empty_workspace_unlisted:
  "fst (grants_list sample_casts bare_cat sample_auth None None no_filter ()) = Inr empty_page
   \<and> referenceAllows (fst (contextFor (db_of bare_cat) sample_auth None ())) (workspace_scope (uid CHR ''a'')) Admin
   \<and> fst (issue sample_casts (uid CHR ''e'') 9 sample_auth None
         (sample_grant\<lparr>gi_scope := workspace_scope (uid CHR ''a'')\<rparr>) bare_cat ()) \<noteq> Inr None"
  by code_simp

end
