(* ===== verification/Metadata.thy ===== *)
theory Metadata
  imports Vector_Filter
begin

text \<open>
  \<open>packages/core/metadata.ts\<close>: what a caller may write as metadata and what they may narrow a search by,
  \<open>parseMetadata\<close> and \<open>parseFilters\<close>. An object's own entries are a list with distinct keys. The
  messages of \<open>MetadataError\<close> are its constructors, with the key or the name they quote.
\<close>

subsection \<open>The bounds\<close>

definition MAX_METADATA_KEYS :: nat where "MAX_METADATA_KEYS = 32"

definition MAX_METADATA_KEY_LENGTH :: nat where "MAX_METADATA_KEY_LENGTH = 64"

definition MAX_METADATA_VALUE_LENGTH :: nat where "MAX_METADATA_VALUE_LENGTH = 256"

definition MAX_METADATA_LIST :: nat where "MAX_METADATA_LIST = 32"

definition key_start :: "char \<Rightarrow> bool" where
  "key_start c \<longleftrightarrow> lower_char c \<or> c = CHR ''_''"

text \<open>\<open>/^[a-z_][a-z0-9_]*$/\<close>.\<close>

definition KEY :: "string \<Rightarrow> bool" where
  "KEY key \<longleftrightarrow> (case key of [] \<Rightarrow> False | c # cs \<Rightarrow> key_start c \<and> list_all (\<lambda>d. key_start d \<or> digit d) cs)"

datatype MetadataError = NotAnObject string | TooManyKeys string | KeyTooLong string | KeyPattern string | ListTooLong string
  | ValueTooLong string | NotFinite string | NotAScalar string | NoValues string

subsection \<open>checkScalar, parseMetadata\<close>

fun checkScalar :: "string \<Rightarrow> jsval \<Rightarrow> MetadataError + scalar" where
  "checkScalar key (JStr s) = (if length s > MAX_METADATA_VALUE_LENGTH then Inl (ValueTooLong key) else Inr (SStr s))"
| "checkScalar key (JNum q) = Inr (SNum q)"
| "checkScalar key JNonFinite = Inl (NotFinite key)"
| "checkScalar key (JBool b) = Inr (SBool b)"
| "checkScalar key _ = Inl (NotAScalar key)"

fun checkList :: "string \<Rightarrow> jsval list \<Rightarrow> MetadataError + scalar list" where
  "checkList key [] = Inr []"
| "checkList key (v # vs) =
     (case checkScalar key v of
        Inl e \<Rightarrow> Inl e
      | Inr s \<Rightarrow> (case checkList key vs of Inl e \<Rightarrow> Inl e | Inr ss \<Rightarrow> Inr (s # ss)))"

definition checkValue :: "string \<Rightarrow> jsval \<Rightarrow> MetadataError + MetadataValue" where
  "checkValue key v =
     (case v of
        JArr vs \<Rightarrow> if length vs > MAX_METADATA_LIST then Inl (ListTooLong key) else map_sum id MList (checkList key vs)
      | _ \<Rightarrow> map_sum id MScalar (checkScalar key v))"

text \<open>
  \<open>out[key] = v\<close> on an object literal. Under the name \<open>__proto__\<close> the assignment is the prototype's, and
  the object gains no entry.
\<close>

definition assign :: "string \<Rightarrow> 'v \<Rightarrow> (string \<times> 'v) list \<Rightarrow> (string \<times> 'v) list" where
  "assign key v out = (if key = ''__proto__'' then out else AList.update key v out)"

fun parse_entries :: "(string \<times> jsval) list \<Rightarrow> (string \<times> MetadataValue) list \<Rightarrow> MetadataError + (string \<times> MetadataValue) list" where
  "parse_entries [] out = Inr out"
| "parse_entries ((key, v) # es) out =
     (if length key > MAX_METADATA_KEY_LENGTH then Inl (KeyTooLong (take 20 key))
      else if \<not> KEY key then Inl (KeyPattern key)
      else if v = JUndefined then parse_entries es out
      else case checkValue key v of Inl e \<Rightarrow> Inl e | Inr m \<Rightarrow> parse_entries es (assign key m out))"

definition parseMetadata :: "jsval \<Rightarrow> string \<Rightarrow> MetadataError + (string \<times> MetadataValue) list" where
  "parseMetadata raw what =
     (case raw of
        JUndefined \<Rightarrow> Inr []
      | JNull \<Rightarrow> Inr []
      | JObj es \<Rightarrow> if length es > MAX_METADATA_KEYS then Inl (TooManyKeys what) else parse_entries es []
      | _ \<Rightarrow> Inl (NotAnObject what))"

subsection \<open>parseFilters\<close>

definition parseFilters :: "jsval \<Rightarrow> MetadataError + (string \<times> MetadataValue) list" where
  "parseFilters raw =
     (case parseMetadata raw ''filters'' of
        Inl e \<Rightarrow> Inl e
      | Inr parsed \<Rightarrow> (case find (\<lambda>(k, v). v = MList []) parsed of Some (k, _) \<Rightarrow> Inl (NoValues k) | None \<Rightarrow> Inr parsed))"

subsection \<open>What is accepted\<close>

fun value_json :: "MetadataValue \<Rightarrow> jsval" where
  "value_json (MScalar s) = scalar_val s"
| "value_json (MList ss) = JArr (map scalar_val ss)"

text \<open>The entries an accepted object leaves, and the entries that are accepted.\<close>

definition entry_ok :: "string \<times> jsval \<Rightarrow> bool" where
  "entry_ok e \<longleftrightarrow> length (fst e) \<le> 64 \<and> KEY (fst e) \<and> (snd e = JUndefined \<or> (\<exists>m. checkValue (fst e) (snd e) = Inr m))"

definition stored :: "(string \<times> jsval) list \<Rightarrow> (string \<times> MetadataValue) list" where
  "stored es = List.map_filter (\<lambda>(k, v). if v = JUndefined \<or> k = ''__proto__'' then None
     else case checkValue k v of Inl e \<Rightarrow> None | Inr m \<Rightarrow> Some (k, m)) es"

lemma stored_Cons:
  "stored ((k, v) # es) = (if v = JUndefined \<or> k = ''__proto__'' then stored es
     else case checkValue k v of Inl e \<Rightarrow> stored es | Inr m \<Rightarrow> (k, m) # stored es)"
  by (simp add: stored_def List.map_filter_def split: sum.splits)

lemma stored_Nil [simp]: "stored [] = []"
  by (simp add: stored_def List.map_filter_def)

lemma update_new: "k \<notin> fst ` set xs \<Longrightarrow> AList.update k v xs = xs @ [(k, v)]"
  by (induction xs) auto

lemma parse_entries_iff:
  assumes "distinct (map fst out @ map fst es)"
  shows "parse_entries es out = Inr r \<longleftrightarrow> list_all entry_ok es \<and> r = out @ stored es"
  using assms
proof (induction es arbitrary: out)
  case (Cons e es)
  obtain k v where e: "e = (k, v)" by force
  show ?case
  proof (cases "length k \<le> 64 \<and> KEY k \<and> v \<noteq> JUndefined")
    case False
    then show ?thesis
      using Cons by (auto simp: e entry_ok_def stored_Cons MAX_METADATA_KEY_LENGTH_def)
  next
    case True
    show ?thesis
    proof (cases "checkValue k v")
      case (Inr m)
      have a: "assign k m out = (if k = ''__proto__'' then out else out @ [(k, m)])"
        using Cons.prems by (auto simp: assign_def e update_new)
      have "distinct (map fst (assign k m out) @ map fst es)" using Cons.prems by (auto simp: a e)
      from Cons.IH [OF this] True Inr show ?thesis
        by (auto simp: e entry_ok_def stored_Cons MAX_METADATA_KEY_LENGTH_def a)
    qed (use True in \<open>simp add: e entry_ok_def MAX_METADATA_KEY_LENGTH_def\<close>)
  qed
qed auto

lemma parseMetadata_obj:
  assumes "distinct (map fst es)"
  shows "parseMetadata (JObj es) what = Inr r \<longleftrightarrow> length es \<le> 32 \<and> list_all entry_ok es \<and> r = stored es"
  using parse_entries_iff [of "[]" es r] assms by (auto simp: parseMetadata_def MAX_METADATA_KEYS_def)

lemma scalar_back [simp]: "checkScalar key v = Inr s \<Longrightarrow> checkScalar key (scalar_val s) = Inr s"
  by (cases v) (auto split: if_splits)

lemma list_back: "checkList key vs = Inr ss \<Longrightarrow> checkList key (map scalar_val ss) = Inr ss \<and> length ss = length vs"
  by (induction vs arbitrary: ss) (auto split: sum.splits)

lemma value_back: "checkValue key v = Inr m \<Longrightarrow> checkValue key (value_json m) = Inr m \<and> value_json m \<noteq> JUndefined"
proof (cases v)
  case (JArr vs)
  assume "checkValue key v = Inr m"
  with JArr obtain ss where "checkList key vs = Inr ss" "m = MList ss" "length vs \<le> MAX_METADATA_LIST"
    by (cases "checkList key vs") (auto simp: checkValue_def split: if_splits)
  with list_back [of key vs ss] show ?thesis by (simp add: checkValue_def)
qed (auto simp: checkValue_def MAX_METADATA_VALUE_LENGTH_def split: if_splits)

lemma stored_subset: "fst ` set (stored es) \<subseteq> fst ` set es"
proof (induction es)
  case (Cons e es)
  then show ?case by (cases e) (auto simp: stored_Cons subset_iff split: if_splits sum.splits)
qed simp

lemma stored_distinct: "distinct (map fst es) \<Longrightarrow> distinct (map fst (stored es))"
proof (induction es)
  case (Cons e es)
  then show ?case using stored_subset [of es] by (cases e) (auto simp: stored_Cons split: if_splits sum.splits)
qed simp

lemma stored_length: "length (stored es) \<le> length es"
  by (induction es) (auto simp: stored_Cons split: if_splits sum.splits)

abbreviation as_json :: "(string \<times> MetadataValue) list \<Rightarrow> (string \<times> jsval) list" where
  "as_json out \<equiv> map (\<lambda>(k, m). (k, value_json m)) out"

lemma stored_again:
  assumes "list_all entry_ok es"
  shows "list_all entry_ok (as_json (stored es)) \<and> stored (as_json (stored es)) = stored es"
  using assms
proof (induction es)
  case (Cons e es)
  obtain k v where e: "e = (k, v)" by force
  show ?case
  proof (cases "v = JUndefined \<or> k = ''__proto__''")
    case False
    then obtain m where m: "checkValue k v = Inr m" using Cons.prems by (auto simp: e entry_ok_def)
    with value_back [OF m] False Cons show ?thesis by (auto simp: e stored_Cons entry_ok_def)
  qed (use Cons in \<open>auto simp: e stored_Cons\<close>)
qed simp

subsection \<open>The bounds, of the values themselves\<close>

definition scalar_ok :: "jsval \<Rightarrow> bool" where
  "scalar_ok v = (case v of JStr s \<Rightarrow> length s \<le> 256 | JNum _ \<Rightarrow> True | JBool _ \<Rightarrow> True | _ \<Rightarrow> False)"

definition value_ok :: "jsval \<Rightarrow> bool" where
  "value_ok v = (case v of JUndefined \<Rightarrow> True | JArr vs \<Rightarrow> length vs \<le> 32 \<and> list_all scalar_ok vs | _ \<Rightarrow> scalar_ok v)"

lemma scalar_val_inj [simp]: "scalar_val s = scalar_val t \<longleftrightarrow> s = t"
  by (cases s; cases t) auto

lemma checkScalar_iff: "checkScalar key v = Inr s \<longleftrightarrow> scalar_ok v \<and> v = scalar_val s"
  by (cases v; cases s) (auto simp: scalar_ok_def MAX_METADATA_VALUE_LENGTH_def)

lemma scalar_ok_val: "scalar_ok v \<Longrightarrow> \<exists>s. checkScalar key v = Inr s"
  by (cases v) (auto simp: scalar_ok_def MAX_METADATA_VALUE_LENGTH_def)

lemma checkList_iff: "checkList key vs = Inr ss \<longleftrightarrow> list_all scalar_ok vs \<and> vs = map scalar_val ss"
proof (induction vs arbitrary: ss)
  case (Cons v vs)
  show ?case
  proof (cases "scalar_ok v")
    case True
    then obtain s where s: "checkScalar key v = Inr s" using scalar_ok_val by blast
    then have v: "v = scalar_val s" by (simp add: checkScalar_iff)
    show ?thesis
    proof (cases "checkList key vs")
      case (Inl e)
      then have "\<not> (list_all scalar_ok vs \<and> vs = map scalar_val ts)" for ts using Cons.IH [of ts] by simp
      then show ?thesis using s Inl by (cases ss) auto
    next
      case (Inr ts)
      then have ts: "list_all scalar_ok vs" "vs = map scalar_val ts" using Cons.IH [of ts] by blast+
      have "inj scalar_val" by (simp add: inj_def)
      then show ?thesis using s Inr ts True v by (cases ss) (auto simp: inj_map_eq_map)
    qed
  next
    case False
    then have "\<nexists>s. checkScalar key v = Inr s" by (simp add: checkScalar_iff)
    then obtain e where "checkScalar key v = Inl e" by (cases "checkScalar key v") auto
    with False show ?thesis by simp
  qed
qed auto

lemma checkValue_json: "checkValue key v = Inr m \<Longrightarrow> value_json m = v"
proof (cases v)
  case (JArr vs)
  assume "checkValue key v = Inr m"
  with JArr obtain ss where "checkList key vs = Inr ss" "m = MList ss"
    by (cases "checkList key vs") (auto simp: checkValue_def split: if_splits)
  then show ?thesis by (simp add: checkList_iff JArr)
qed (auto simp: checkValue_def split: if_splits)

lemma value_ok_iff: "v \<noteq> JUndefined \<Longrightarrow> (\<exists>m. checkValue key v = Inr m) \<longleftrightarrow> value_ok v"
proof (cases v)
  case (JArr vs)
  have "(\<exists>ss. checkList key vs = Inr ss) \<longleftrightarrow> list_all scalar_ok vs"
  proof (induction vs)
    case (Cons v vs)
    show ?case
    proof (cases "checkScalar key v")
      case (Inr s)
      then have "scalar_ok v" using checkScalar_iff by blast
      with Inr Cons show ?thesis by (auto split: sum.splits)
    qed (use scalar_ok_val [of v key] in auto)
  qed simp
  then show ?thesis
    by (cases "checkList key vs") (auto simp: JArr checkValue_def value_ok_def MAX_METADATA_LIST_def)
qed (auto simp: checkValue_def value_ok_def scalar_ok_def MAX_METADATA_VALUE_LENGTH_def)

lemma stored_json:
  "list_all entry_ok es \<Longrightarrow> as_json (stored es) = filter (\<lambda>(k, v). v \<noteq> JUndefined \<and> k \<noteq> ''__proto__'') es"
proof (induction es)
  case (Cons e es)
  obtain k v where e: "e = (k, v)" by force
  show ?case
  proof (cases "v = JUndefined \<or> k = ''__proto__''")
    case False
    then obtain m where m: "checkValue k v = Inr m" using Cons.prems by (auto simp: e entry_ok_def)
    with checkValue_json [OF m] False Cons show ?thesis by (simp add: e stored_Cons)
  qed (use Cons in \<open>auto simp: e stored_Cons\<close>)
qed simp

subsection \<open>The properties\<close>

text \<open>Metadata that was accepted is accepted again as it stands: what \<open>parseMetadata\<close> made of an object, sent back as an
  object - as a re-send or a retag of the stored metadata does - parses to the same.\<close>

theorem metadata_stable:
  assumes "distinct (map fst es)" and "parseMetadata (JObj es) what = Inr out"
  shows "parseMetadata (JObj (as_json out)) what' = Inr out"
proof -
  have ok: "list_all entry_ok es" "length es \<le> 32" and out: "out = stored es"
    using assms by (auto simp: parseMetadata_obj)
  have keys: "map fst (as_json out) = map fst out" by (simp add: case_prod_beta comp_def)
  have "distinct (map fst (as_json out))" unfolding keys using stored_distinct [OF assms(1)] by (simp add: out)
  moreover have "length (as_json out) \<le> 32" using stored_length [of es] ok(2) by (simp add: out)
  ultimately show ?thesis
    using stored_again [OF ok(1)] unfolding out by (subst parseMetadata_obj) auto
qed

theorem metadata_stable_witness:
  "parseMetadata (JObj (as_json [(''team'', MList [SStr ''legal'', SNum 7])])) ''metadata'' = Inr [(''team'', MList [SStr ''legal'', SNum 7])]"
proof -
  have "parseMetadata (JObj [(''team'', JArr [JStr ''legal'', JNum 7])]) ''metadata'' = Inr [(''team'', MList [SStr ''legal'', SNum 7])]"
    by code_simp
  then show ?thesis by (rule metadata_stable [rotated]) simp
qed

text \<open>C32 - Exactly what the bounds admit is accepted - an object of at most 32 keys, each of at most 64 characters and of the
  pattern, each value a number, a boolean, a text of at most 256 characters or a list of at most 32 of
  these - and nothing is altered: the entries kept are those that came, in order, with their values. An
  entry without a value is left out, and so is one named \<open>__proto__\<close>, which passes every check and is dropped.\<close>

theorem metadata_exact:
  assumes "distinct (map fst es)"
  shows "(\<exists>out. parseMetadata (JObj es) what = Inr out \<and> as_json out = kept) \<longleftrightarrow>
    length es \<le> 32 \<and> list_all (\<lambda>(k, v). length k \<le> 64 \<and> KEY k \<and> value_ok v) es
    \<and> kept = filter (\<lambda>(k, v). v \<noteq> JUndefined \<and> k \<noteq> ''__proto__'') es"
proof -
  have "entry_ok e \<longleftrightarrow> (case e of (k, v) \<Rightarrow> length k \<le> 64 \<and> KEY k \<and> value_ok v)" for e
  proof (cases "snd e = JUndefined")
    case True
    then show ?thesis by (cases e) (simp add: entry_ok_def value_ok_def)
  next
    case False
    then show ?thesis using value_ok_iff [OF False, of "fst e"] by (cases e) (simp add: entry_ok_def)
  qed
  then have "list_all entry_ok es = list_all (\<lambda>(k, v). length k \<le> 64 \<and> KEY k \<and> value_ok v) es" by (simp add: list_all_iff)
  then show ?thesis using stored_json [of es] by (auto simp: parseMetadata_obj [OF assms])
qed

theorem metadata_exact_witness:
  "\<exists>out. parseMetadata (JObj [(''__proto__'', JStr ''x''), (''a'', JBool True)]) ''metadata'' = Inr out \<and> as_json out = [(''a'', JBool True)]"
proof -
  have "KEY ''__proto__''" "KEY ''a''" by code_simp+
  then show ?thesis
    by (subst metadata_exact) (simp_all add: value_ok_def scalar_ok_def)
qed

text \<open>The filters of a request never make the query builder fail: whatever \<open>parseFilters\<close> accepts becomes one clause
  per key, an empty list - the one value that can match nothing - having been refused by name.\<close>

theorem filters_build:
  assumes "parseFilters raw = Inr es"
  shows "\<exists>ms. metadata_clauses es = Inr ms \<and> length ms = length es"
proof -
  have "\<forall>(k, v) \<in> set es. v \<noteq> MList []"
    using assms by (auto simp: parseFilters_def find_None_iff split: sum.splits option.splits)
  then show ?thesis
  proof (induction es)
    case (Cons e es)
    then obtain ms where "metadata_clauses es = Inr ms" "length ms = length es" by auto
    with Cons.prems show ?case by (cases e) (auto split: MetadataValue.splits list.splits)
  qed simp
qed

theorem filters_build_witness:
  "\<exists>ms. metadata_clauses [(''a'', MScalar (SBool True))] = Inr ms \<and> length ms = 1"
proof -
  have "parseFilters (JObj [(''a'', JBool True)]) = Inr [(''a'', MScalar (SBool True))]" by code_simp
  from filters_build [OF this] show ?thesis by simp
qed

end
