(* ===== verification/Spec2Isabelle.thy ===== *)
theory Spec2Isabelle
  imports Rate_Limit Idempotency Second_Factor Account_Lists Search Collector Grants Metadata
begin

text \<open>
  A verification development for Nacre, a self-hosted knowledge store: documents are ingested into
  layers, cut into chunks, embedded and indexed, and found again by people and agents under a
  permission model of grants. Sources are named relative to \<open>src/\<close>.

  \<^bold>\<open>The program and its theories.\<close>

  \<^item> \<open>Prelude\<close>, \<open>Js_Values\<close>, \<open>Js_Text\<close>: what the components share - a JavaScript \<open>Set\<close> and \<open>Map\<close> as lists in
    insertion order, values of type \<open>unknown\<close>, strings as UTF-16 code units, decimal texts, updates of
    table rows.
  \<^item> \<open>Authz_Types\<close>, \<open>Resolver\<close>, \<open>Principals\<close>, \<open>Store\<close>: \<open>packages/core/types.ts\<close> and \<open>packages/core/authz/\<close>. Grants,
    the eight rules one scope at a time (\<open>reference.ts\<close>), the resolver that answers for all at once
    (\<open>resolve.ts\<close>), the worklist over the group graph (\<open>principals.ts\<close>) and the queries that load all three
    from tables (\<open>store.ts\<close>). The resolver is proved equal to the rules, and the plan of a request is proved
    to reach a document exactly when the rules read off the whole database allow it.
  \<^item> \<open>Principals_Cache\<close>: \<open>authz/cache.ts\<close>. A cached answer is the groups of the version asked for.
  \<^item> \<open>Auth\<close>: \<open>packages/api/src/auth.ts\<close> and \<open>skill-ceiling.ts\<close>. From a bearer token to an organization, a role and
    the ceiling of a delegation, which only narrows.
  \<^item> \<open>Bm25\<close>, \<open>Chunker\<close>, \<open>Metadata\<close>: the lexical encoder with its 32-bit hash as a word, the cutting of
    documents, the bounds on metadata.
  \<^item> \<open>Queue\<close>, \<open>Points\<close>, \<open>Ingest\<close>, \<open>Pipeline\<close>, \<open>Collector\<close>: \<open>packages/worker/src/\<close> and the writes of
    \<open>packages/api/src/adapters.ts\<close>. The documents table as a queue (with the requeueing of an index rebuild,
    \<open>packages/core/rebuild.ts\<close>, and of the repair after a copy), the vector store's points, one pass of
    indexing, deletes and retags across the two stores, and the sweep of what was deleted.
  \<^item> \<open>Vector_Filter\<close>, \<open>Search\<close>: \<open>authz/filter.ts\<close>, \<open>packages/core/vector/\<close> and the search path of the API.
  \<^item> \<open>Pagination\<close>, \<open>Catalog\<close>, \<open>Grants\<close>, \<open>Access\<close>: cursors, layers and workspaces, grants, and the operations
    that name one document.
  \<^item> \<open>Accounts\<close>, \<open>Account_Lists\<close>, \<open>Passwords\<close>, \<open>Sessions\<close>: people and groups (\<open>principals.ts\<close>), stored hashes and
    the gate in front of scrypt (\<open>passwords.ts\<close>), signing in, refresh tokens, password changes and recovery
    links (\<open>login.ts\<close>, \<open>recovery.ts\<close>).
  \<^item> \<open>Otp\<close>, \<open>Webauthn\<close>, \<open>Second_Factor\<close>: time-based codes (\<open>totp.ts\<close>), security keys with their CBOR reader
    (\<open>webauthn.ts\<close>), and the store that enrols and checks both (\<open>second-factor.ts\<close>).
  \<^item> \<open>Redis_Client\<close>, \<open>Rate_Limit\<close>, \<open>Idempotency\<close>: the RESP client, the sliding-window limiter and the cache of
    responses. \<open>Double\<close> is the rounding of binary64, in which the limiter computes.

  A table is the list of its rows and a row is a record; an operation takes the tables and gives its
  answer beside the tables it leaves. Inl is an error thrown, and a transaction that throws leaves the
  tables. Definitions carry the source's names, with a suffix or an English word where a name is taken.

  \<^bold>\<open>How the parts meet.\<close> A request passes \<open>authenticate\<close>, the limiter and the idempotency cache; its context is
  resolved to a plan; the plan becomes the filter of a search, or the decision on one document, layer or
  grant. Writes queue a document; workers claim it, index it and write its points; deletes flag the points
  before the row, and the collector removes both. This theory closes the circle: every state the
  pipeline reaches satisfies what the search assumes of its index.

  \<^bold>\<open>Interleavings.\<close> Where processes share state the model is a step relation, and a property is an invariant
  of every run: workers, deletes and crashes in \<open>Pipeline\<close>; transactions of sign-ins, rotations and
  password changes in \<open>Sessions\<close>; enrolments, codes and removals in \<open>Second_Factor\<close>; commands of the limiter, with lost replies, commands
  run twice and releases of requests that were not counted, in \<open>Rate_Limit\<close>; bytes of a connection in \<open>Redis_Client\<close>; calls at the gate in \<open>Passwords\<close>. Values
  drawn at random (ids, tokens, recovery codes) are new by a premise of the step that draws them. A search
  reads one state of the database, where the code opens a transaction for each of its queries; the
  steps of \<open>Pipeline\<close> are those on one document, and removing a layer is taken alone, in \<open>Catalog\<close> and \<open>Grants\<close>.

  \<^bold>\<open>Interfaces.\<close> \<open>placed_tree\<close> (a scope tree), \<open>group_graph\<close> (in memory and loaded from the database),
  \<open>cache_store\<close> (a store of cached answers), \<open>paged_listing\<close> (a listing by cursor, interpreted for layers,
  workspaces, grants, people and groups: following the cursor ends and shows each row once) and
  \<open>collect_ports\<close> with \<open>worker_store\<close> (what the sweep asks of its stores).

  \<^bold>\<open>Parameters.\<close> Code outside the repository is an argument with documented laws as hypotheses: the vector
  store's client (\<open>qdrant_store\<close>), Redis (\<open>redis_server\<close>), casts and comparison of the database (\<open>Casts\<close>), the
  Unicode tables, JSON and decimal texts, digests, HMAC, AES-GCM, scrypt, JSON web tokens and signatures,
  the embedding, reranking and parsing services, registered sign-in gates. Each property with such a
  hypothesis has a witness in which the parameter is a concrete function.

  \<^bold>\<open>Bounds.\<close> A walk through pages takes as many turns as there are rows and one more, since each turn passes
  a row. The reader of CBOR descends by a depth of at most eight and the walk for credentials by one of
  sixteen, as the sources do. The limiter's arithmetic is that of doubles, since its decisions at a limit depend on the
  rounding: every operation is rounded to 53 significant bits, and its windows are bounded by \<open>2 ^ 49\<close> milliseconds
  where that matters. Weights and scores of the search are exact rationals, since nothing proved
  depends on how they round.
  Thirty-two bits are kept where the sources rely on them: the term hash, and the accumulators of base32.

  \<^bold>\<open>Not modelled.\<close> The routes of \<open>server.ts\<close> and the wiring and configuration at start-up, since they only call
  what is modelled; the OAuth authorization server; uploads, object storage and formats, audit, metrics,
  mail and logging, which are input and output; rules on outgoing addresses, which need a model of URLs
  and DNS; skills and proposals; reindexing to another model; the SDK, command line, console and MCP server,
  which are callers of the API. The manifest lists them with the reasons.
\<close>

subsection \<open>The index the search relies on is the one the pipeline writes\<close>

text \<open>The tables of a world, as the search reads them; \<open>titles\<close> is the title column.\<close>

definition reads_world :: "(string \<Rightarrow> string option) \<Rightarrow> 's World \<Rightarrow> SearchDb \<Rightarrow> bool" where
  "reads_world titles w sdb \<longleftrightarrow>
     sd_chunks sdb = map (\<lambda>k. \<lparr>ck_point = sc_point k, ck_org = sc_org k, ck_document = sc_document k, ck_text = sc_text k\<rparr>) (wd_chunks w)
     \<and> db_documents (sd_db sdb) = map (\<lambda>d. \<lparr>dc_id = qd_id d, dc_org = qd_org d, dc_layer = qd_layer d,
          dc_deleted = (qd_deleted_at d \<noteq> None), dc_title = titles (qd_id d)\<rparr>) (wd_docs w)"

text \<open>The hits are points of the collection.\<close>

definition answers_from :: "('s \<Rightarrow> string \<Rightarrow> string \<rightharpoonup> Point) \<Rightarrow> 's World \<Rightarrow> SearchDeps \<Rightarrow> bool" where
  "answers_from view w deps \<longleftrightarrow>
     (\<forall>collection q found. de_query deps collection q = Inr found \<longrightarrow>
        (\<forall>hit \<in> set found. \<exists>p. view (snd (wd_index w)) collection (ht_id hit) = Some p \<and> ht_payload hit = pt_payload p))"

lemma world_index_synced:
  assumes q: "qdrant_store client view" and ok: "world_ok view col M (now, cs, w)"
    and "reads_world titles w sdb" and "answers_from view w deps"
  shows "index_synced deps sdb"
  unfolding index_synced_def
proof (intro allI ballI impI)
  fix collection qq found hit c d
  assume found: "de_query deps collection qq = Inr found" "hit \<in> set found"
    and c: "c \<in> set (sd_chunks sdb)" and d: "d \<in> set (db_documents (sd_db sdb))"
    and here: "ck_point c = hit_chunk deps hit" "dc_id d = ck_document c"
  obtain p where p: "view (snd (wd_index w)) collection (ht_id hit) = Some p" "ht_payload hit = pt_payload p"
    using assms(4) found unfolding answers_from_def by blast
  obtain e deleted where e: "e \<in> set (wd_docs w)" "point_payload (pt_payload p) (qd_org e) deleted (qd_id e) (qd_layer e)"
    "map_of (pt_payload p) ''chunk_id'' = Some (JStr (pt_id p))"
    using world_okD(3) [OF ok p(1)] unfolding placed_def by blast
  obtain k where k: "k \<in> set (wd_chunks w)" "sc_point k = ck_point c" "sc_org k = ck_org c" "sc_document k = ck_document c"
    using c assms(3) by (auto simp: reads_world_def)
  have "sc_point k = ht_id hit"
    using k(2) here(1) e(3) p qdrantS(5) [OF q p(1)] by (simp add: hit_chunk_def)
  then have "chunk_of k p" using world_okD(4) [OF ok k(1)] p(1) by simp
  then have same: "qd_id e = dc_id d" "qd_org e = ck_org c"
    using e(2) k here(2) by (simp_all add: chunk_of_def doc_of_def point_payload_def)
  obtain g where g: "g \<in> set (wd_docs w)" "qd_id g = dc_id d" "qd_layer g = dc_layer d"
    using d assms(3) by (auto simp: reads_world_def)
  have "g = e" using keyed_id [of "wd_docs w" g e] world_okD(1) [OF ok] g e(1) same by (simp add: table_ok_def)
  with e(2) same g show "\<exists>deleted. point_payload (ht_payload hit) (ck_org c) deleted (dc_id d) (dc_layer d)"
    using p(2) by auto
qed

text \<open>C3 - The pipeline refines what the search assumes of its index: in every world the pipeline can reach,
  a search client that answers with points of the collection satisfies \<open>index_synced\<close>, the hypothesis
  under which search results are permitted - each point that joins a chunk row carries the
  organization, the document and the layer that the tables have for it.\<close>

theorem pipeline_refines_index:
  assumes "qdrant_store client view" and "0 < M" and "empty_world view w"
    and "(world_step client uuid_in view col M)\<^sup>*\<^sup>* (now, [], w) (later, cs, w')"
    and "reads_world titles w' sdb" and "answers_from view w' deps"
  shows "index_synced deps sdb"
  by (rule world_index_synced [OF assms(1) world_steps_ok [OF assms(4,1,2,3)] assms(5,6)])

text \<open>A search over one point of a world's index.\<close>

definition point_query :: "memory World \<Rightarrow> string \<Rightarrow> HybridQuery \<Rightarrow> string + Hit list" where
  "point_query w collection q =
     (case memory_view (snd (wd_index w)) collection ''p'' of
        None \<Rightarrow> Inr [] | Some p \<Rightarrow> Inr [\<lparr>ht_id = ''p'', ht_score = 1, ht_payload = pt_payload p\<rparr>])"

definition world_db :: "'s World \<Rightarrow> SearchDb" where
  "world_db w = \<lparr>sd_db = empty_db\<lparr>db_documents := map (\<lambda>d. \<lparr>dc_id = qd_id d, dc_org = qd_org d, dc_layer = qd_layer d,
          dc_deleted = (qd_deleted_at d \<noteq> None), dc_title = None\<rparr>) (wd_docs w)\<rparr>, sd_providers = [],
     sd_chunks = map (\<lambda>k. \<lparr>ck_point = sc_point k, ck_org = sc_org k, ck_document = sc_document k, ck_text = sc_text k\<rparr>) (wd_chunks w),
     sd_collection = [''acme'' \<mapsto> ''org_acme'']\<rparr>"

theorem pipeline_refines_index_witness:
  "\<exists>(w :: memory World) hit. \<forall>q. point_query w ''org_acme'' q = Inr [hit] \<and> index_synced (sample_deps\<lparr>de_query := point_query w\<rparr>) (world_db w)"
proof -
  obtain w where w: "sample_step\<^sup>*\<^sup>* (0, [], start_world) (Suc 0, [sample_ticket], w)"
    "indexed_exactly memory_view Ingest.sample_request sample_ports ''h'' [sample_chunk] [[1]] ''d1'' w"
    using indexed_run by blast
  have "answers_from memory_view w (sample_deps\<lparr>de_query := point_query w\<rparr>)"
    by (auto simp: answers_from_def point_query_def split: option.splits)
  moreover have "reads_world (\<lambda>_. None) w (world_db w)" by (simp add: reads_world_def world_db_def)
  ultimately have "index_synced (sample_deps\<lparr>de_query := point_query w\<rparr>) (world_db w)"
    using pipeline_refines_index [where view = memory_view, OF memory_store _ start_empty w(1)] by simp
  then show ?thesis using indexed_point [OF w(2)] by (intro exI [of _ w]) (simp add: point_query_def)
qed

end
